(* ===== verification/Prelude.thy ===== *)
theory Prelude
  imports Main "HOL-Library.Word" "HOL-Library.Monad_Syntax"
begin

unbundle bit_operations_syntax

text \<open>
  Shared vocabulary of the development: the C types of the kernel, the error codes of
  \<^verbatim>\<open>src/src/include/errno.h\<close>, and lemmas that move a goal from \<open>32 word\<close> to \<open>nat\<close>.
\<close>

section \<open>C types and error codes\<close>

type_synonym u8 = "8 word"
type_synonym u16 = "16 word"
type_synonym u32 = "32 word"

text \<open>A pointer to an object of a store that is indexed by \<open>nat\<close>; \<open>None\<close> is \<open>NULL\<close>.\<close>

type_synonym ptr = "nat option"

text \<open>A collection of facts: word arithmetic that does not wrap.\<close>

named_theorems no_wrap

definition EPERM :: int where "EPERM = 1"
definition ENOENT :: int where "ENOENT = 2"
definition EINTR :: int where "EINTR = 4"
definition EBADF :: int where "EBADF = 9"
definition EAGAIN :: int where "EAGAIN = 11"
definition ENOMEM :: int where "ENOMEM = 12"
definition EACCES :: int where "EACCES = 13"
definition EBUSY :: int where "EBUSY = 16"
definition EINVAL :: int where "EINVAL = 22"
definition ENFILE :: int where "ENFILE = 23"

lemmas errno_defs =
  EPERM_def ENOENT_def EINTR_def EBADF_def EAGAIN_def ENOMEM_def EACCES_def EBUSY_def
  EINVAL_def ENFILE_def

section \<open>Machine words\<close>

text \<open>Signed 32-bit arithmetic on integers: the value that is left after wrap-around.\<close>

definition i32 :: "int \<Rightarrow> int" where
  "i32 x = (x + 2147483648) mod 4294967296 - 2147483648"

lemma i32_id: "- 2147483648 \<le> x \<Longrightarrow> x < 2147483648 \<Longrightarrow> i32 x = x"
  by (simp add: i32_def)

lemma unat_add_no_wrap [no_wrap]:
  fixes a b :: "'a::len word"
  assumes "unat a + unat b < 2 ^ LENGTH('a)"
  shows "unat (a + b) = unat a + unat b"
  using assms by (simp add: unat_add_lem)

lemma unat_add_no_wrap_u32 [no_wrap]:
  fixes a b :: u32
  assumes "unat a + unat b < 4294967296"
  shows "unat (a + b) = unat a + unat b"
  using assms by (intro unat_add_no_wrap) simp

lemma unat_sub_no_wrap [no_wrap]:
  fixes a b :: "'a::len word"
  assumes "unat b \<le> unat a"
  shows "unat (a - b) = unat a - unat b"
  using assms by (simp add: unat_sub word_le_nat_alt)

lemma unat_u32_less [simp]: "unat (a :: u32) < 4294967296"
  using unsigned_less [of a] by simp

lemma word_eq_unat: "a = b \<longleftrightarrow> unat a = unat b"
  for a b :: "'a::len word"
  by (simp add: word_unat_eq_iff)

lemmas word_to_nat = word_less_nat_alt word_le_nat_alt word_eq_unat

text \<open>Bit fields and signs of a word, as arithmetic on its value.\<close>

lemma half_odd: "n < 4294967296 \<Longrightarrow> odd (n div 2147483648) \<longleftrightarrow> 2147483648 \<le> n" for n :: nat
proof -
  assume "n < 4294967296"
  then have "n div 2147483648 = (if 2147483648 \<le> n then 1 else 0)" by (auto simp: div_nat_eqI)
  then show ?thesis by simp
qed

lemma sint_neg_iff: "sint (w :: u32) < 0 \<longleftrightarrow> 2147483648 \<le> unat w"
proof -
  have "sint w < 0 \<longleftrightarrow> bit (unat w) 31"
    by (simp add: sint_uint bit_unsigned_iff)
  then show ?thesis by (simp add: bit_iff_odd half_odd)
qed

lemma unat_take_bit: "unat (take_bit n e :: 'a::len word) = unat e mod 2 ^ n"
  unfolding unsigned_take_bit_eq by (rule take_bit_eq_mod)

lemma unat_drop_bit: "unat (drop_bit n e :: 'a::len word) = unat e div 2 ^ n"
  unfolding unsigned_drop_bit_eq by (simp add: drop_bit_eq_div take_bit_nat_eq_self)

lemma unat_and_255: "unat (e AND 255 :: u32) = unat e mod 256"
  using unat_take_bit [of 8 e] by (simp add: take_bit_eq_mask mask_numeral)

lemma unat_field: "unat (drop_bit n e AND 63 :: u32) = unat e div 2 ^ n mod 64"
  using unat_take_bit [of 6 "drop_bit n e"] by (simp only: unat_drop_bit take_bit_eq_mask) (simp add: mask_numeral)

lemma unat_diff_eq: "unat a = (unat b + unat (a - b)) mod 4294967296" for a b :: u32
  using unat_word_ariths(1) [of b "a - b"] by simp

text \<open>Loops that count a word down.\<close>

lemma unat_pred_less: "n \<noteq> 0 \<Longrightarrow> unat (n - 1) < unat (n :: u32)"
  by (simp add: unat_minus_one unat_gt_0)

lemma unat_pred2_less: "n \<noteq> 1 \<Longrightarrow> unat (n - 2) < unat (n - 1 :: u32)"
  using unat_pred_less [of "n - 1"] by simp

lemma unat_pred: "n \<noteq> 0 \<Longrightarrow> unat (n :: u32) = Suc (unat (n - 1))"
  by (simp add: unat_minus_one unat_gt_0)

end
