(* ===== verification/Rmap.thy ===== *)
theory Rmap
  imports Prelude
begin

text \<open>
  The resource map of \<^verbatim>\<open>src/src/lib/rmap.c\<close>: a sorted table of free ranges from which the
  kernel hands out page frames, virtual address ranges and module space. Entry 0 of the
  array is the header: its \<open>offset\<close> field counts the entries in use and its \<open>size\<close>
  field the entries there is room for.
\<close>

section \<open>The data and the operations\<close>

record rmap_ent =
  r_offset :: u32
  r_size :: u32

type_synonym rmap = "rmap_ent list"

text \<open>The index of the last entry in use: \<^verbatim>\<open>rlim = &rmap[rmap->offset]\<close>.\<close>

abbreviation rlim :: "rmap \<Rightarrow> nat" where
  "rlim m \<equiv> unat (r_offset (m ! 0))"

text \<open>\<^verbatim>\<open>memmove\<close> of \<open>n\<close> entries inside the array, the ranges may overlap.\<close>

definition memmove_ents :: "rmap \<Rightarrow> nat \<Rightarrow> nat \<Rightarrow> nat \<Rightarrow> rmap" where
  "memmove_ents m dst src n = take dst m @ take n (drop src m) @ drop (dst + n) m"

definition rmap_init :: "rmap \<Rightarrow> u32 \<Rightarrow> rmap" where
  "rmap_init m sz = m[0 := \<lparr>r_offset = 0, r_size = sz - 1\<rparr>]"

text \<open>\<open>None\<close> is the return value 1: no room to insert a slot.\<close>

definition makespace :: "rmap \<Rightarrow> nat \<Rightarrow> rmap option" where
  "makespace m r =
     (let rl = rlim m in
      if r_size (m ! 0) = r_offset (m ! 0) then None
      else
        let m1 = m[0 := (m ! 0)\<lparr>r_offset := r_offset (m ! 0) + 1\<rparr>] in
        Some (if r \<le> rl then memmove_ents m1 (r + 1) r (rl - r + 1) else m1))"

definition collapse :: "rmap \<Rightarrow> nat \<Rightarrow> rmap" where
  "collapse m r =
     (let rl = rlim m;
          m1 = m[0 := (m ! 0)\<lparr>r_offset := r_offset (m ! 0) - 1\<rparr>] in
      if r < rl then memmove_ents m1 r (r + 1) (rl - r) else m1)"

text \<open>The scan of \<^verbatim>\<open>rmap_alloc\<close>: the first slot with a fit, or one past the last slot.\<close>

function rmap_alloc_scan :: "rmap \<Rightarrow> u32 \<Rightarrow> nat \<Rightarrow> nat" where
  "rmap_alloc_scan m sz r =
     (if r \<le> rlim m then
        if sz \<le> r_size (m ! r) then r else rmap_alloc_scan m sz (Suc r)
      else r)"
  by pat_completeness auto
termination
  by (relation "measure (\<lambda>(m, sz, r). Suc (rlim m) - r)") auto

definition rmap_alloc :: "rmap \<Rightarrow> u32 \<Rightarrow> u32 \<times> rmap" where
  "rmap_alloc m sz =
     (let r = rmap_alloc_scan m sz 1 in
      if rlim m < r then (0, m)
      else
        let idx = r_offset (m ! r) in
        if sz < r_size (m ! r)
        then (idx, m[r := \<lparr>r_offset = r_offset (m ! r) + sz, r_size = r_size (m ! r) - sz\<rparr>])
        else (idx, collapse m r))"

definition rmap_free_insert :: "rmap \<Rightarrow> u32 \<Rightarrow> u32 \<Rightarrow> u32 \<Rightarrow> nat \<Rightarrow> rmap \<times> u32" where
  "rmap_free_insert m lost off sz r =
     (case makespace m r of
        None \<Rightarrow> (m, lost + sz)
      | Some m1 \<Rightarrow> (m1[r := \<lparr>r_offset = off, r_size = sz\<rparr>], lost))"

function rmap_free_scan :: "rmap \<Rightarrow> u32 \<Rightarrow> u32 \<Rightarrow> u32 \<Rightarrow> nat \<Rightarrow> rmap \<times> u32" where
  "rmap_free_scan m lost off sz r =
     (if r \<le> rlim m then
        if r_offset (m ! r) + r_size (m ! r) = off then
          let m1 = m[r := (m ! r)\<lparr>r_size := r_size (m ! r) + sz\<rparr>] in
          if r < rlim m \<and> r_offset (m1 ! r) + r_size (m1 ! r) = r_offset (m1 ! (r + 1)) then
            let m2 = m1[r := (m1 ! r)\<lparr>r_size := r_size (m1 ! r) + r_size (m1 ! (r + 1))\<rparr>];
                m3 = m2[0 := (m2 ! 0)\<lparr>r_offset := r_offset (m2 ! 0) - 1\<rparr>] in
            (if r + 1 < rlim m
             then memmove_ents m3 (r + 1) (r + 2) (rlim m - (r + 1)) else m3, lost)
          else (m1, lost)
        else if off + sz = r_offset (m ! r) then
          (m[r := \<lparr>r_offset = off, r_size = r_size (m ! r) + sz\<rparr>], lost)
        else if off < r_offset (m ! r) then rmap_free_insert m lost off sz r
        else rmap_free_scan m lost off sz (Suc r)
      else rmap_free_insert m lost off sz r)"
  by pat_completeness auto
termination
  by (relation "measure (\<lambda>(m, lost, off, sz, r). Suc (rlim m) - r)") auto

text \<open>The second component is the global \<^verbatim>\<open>lost_elems\<close>.\<close>

definition rmap_free :: "rmap \<Rightarrow> u32 \<Rightarrow> u32 \<Rightarrow> u32 \<Rightarrow> rmap \<times> u32" where
  "rmap_free m lost off sz = rmap_free_scan m lost off sz 1"

text \<open>The body of \<^verbatim>\<open>rmap_reserve\<close> once the run that holds the request is found at slot \<open>r\<close>.\<close>

definition rmap_reserve_at :: "rmap \<Rightarrow> u32 \<Rightarrow> u32 \<Rightarrow> u32 \<Rightarrow> nat \<Rightarrow> int \<times> rmap \<times> u32" where
  "rmap_reserve_at m lost off sz r =
     (let e = m ! r; top = r_offset e + r_size e; rtop = off + sz in
      if top < rtop then (1, m, lost)
      else if off = r_offset e then
        let m1 = m[r := \<lparr>r_offset = r_offset e + sz, r_size = r_size e - sz\<rparr>] in
        (0, if r_size (m1 ! r) = 0 then collapse m1 r else m1, lost)
      else if rtop = top then (0, m[r := e\<lparr>r_size := r_size e - sz\<rparr>], lost)
      else
        case makespace m r of
          None \<Rightarrow>
            (0, m[r := \<lparr>r_offset = rtop, r_size = top - rtop\<rparr>],
             lost + ((r_size e - (top - rtop)) - sz))
        | Some m1 \<Rightarrow>
            let m2 = m1[r := (m1 ! r)\<lparr>r_size := off - r_offset (m1 ! r)\<rparr>] in
            (0, m2[r + 1 := \<lparr>r_offset = rtop, r_size = top - rtop\<rparr>], lost))"

function rmap_reserve_scan :: "rmap \<Rightarrow> u32 \<Rightarrow> u32 \<Rightarrow> u32 \<Rightarrow> nat \<Rightarrow> int \<times> rmap \<times> u32" where
  "rmap_reserve_scan m lost off sz r =
     (if r \<le> rlim m then
        if off < r_offset (m ! r) then (1, m, lost)
        else if \<not> (r_offset (m ! r) \<le> off \<and> off < r_offset (m ! r) + r_size (m ! r))
          then rmap_reserve_scan m lost off sz (Suc r)
        else rmap_reserve_at m lost off sz r
      else (1, m, lost))"
  by pat_completeness auto
termination
  by (relation "measure (\<lambda>(m, lost, off, sz, r). Suc (rlim m) - r)") auto

definition rmap_reserve :: "rmap \<Rightarrow> u32 \<Rightarrow> u32 \<Rightarrow> u32 \<Rightarrow> int \<times> rmap \<times> u32" where
  "rmap_reserve m lost off sz = rmap_reserve_scan m lost off sz 1"

definition rmap_gap :: "u32 \<Rightarrow> u32 \<Rightarrow> u32" where
  "rmap_gap off align = (if off mod align = 0 then 0 else align - off mod align)"

function rmap_align_scan :: "rmap \<Rightarrow> u32 \<Rightarrow> u32 \<Rightarrow> nat \<Rightarrow> nat" where
  "rmap_align_scan m sz align r =
     (if r \<le> rlim m then
        if sz + rmap_gap (r_offset (m ! r)) align \<le> r_size (m ! r) then r
        else rmap_align_scan m sz align (Suc r)
      else r)"
  by pat_completeness auto
termination
  by (relation "measure (\<lambda>(m, sz, align, r). Suc (rlim m) - r)") auto

definition rmap_alloc_align :: "rmap \<Rightarrow> u32 \<Rightarrow> u32 \<Rightarrow> u32 \<Rightarrow> u32 \<times> rmap \<times> u32" where
  "rmap_alloc_align m lost sz align =
     (let r = rmap_align_scan m sz align 1 in
      if rlim m < r then (0, m, lost)
      else
        let idx = r_offset (m ! r) + rmap_gap (r_offset (m ! r)) align in
        case rmap_reserve m lost idx sz of
          (rc, m', lost') \<Rightarrow> if rc \<noteq> 0 then (0, m', lost') else (idx, m', lost'))"

function rmap_status_scan :: "rmap \<Rightarrow> u32 \<Rightarrow> u32 \<Rightarrow> nat \<Rightarrow> int" where
  "rmap_status_scan m off sz r =
     (if r \<le> rlim m then
        if off < r_offset (m ! r) then (if r_offset (m ! r) < off + sz then -1 else 1)
        else if \<not> (r_offset (m ! r) \<le> off \<and> off < r_offset (m ! r) + r_size (m ! r))
          then rmap_status_scan m off sz (Suc r)
        else if off + sz < r_offset (m ! r) + r_size (m ! r) then 0 else -1
      else 1)"
  by pat_completeness auto
termination
  by (relation "measure (\<lambda>(m, off, sz, r). Suc (rlim m) - r)") auto

definition rmap_status :: "rmap \<Rightarrow> u32 \<Rightarrow> u32 \<Rightarrow> int" where
  "rmap_status m off sz = rmap_status_scan m off sz 1"

declare rmap_alloc_scan.simps [simp del] rmap_free_scan.simps [simp del]
  rmap_reserve_scan.simps [simp del] rmap_align_scan.simps [simp del]
  rmap_status_scan.simps [simp del]

section \<open>Free ranges\<close>

text \<open>
  The entries in use, the set of resource units an entry list keeps free, and the
  order the comment at the head of the source demands: ascending, with a gap between two
  entries (abutting ranges are always merged), no empty entry, no range that wraps, and
  never the index 0, which \<^verbatim>\<open>rmap_alloc\<close> uses to report failure.
\<close>

definition elems :: "rmap \<Rightarrow> rmap_ent list" where
  "elems m = take (rlim m) (tl m)"

definition rend :: "rmap_ent \<Rightarrow> nat" where
  "rend e = unat (r_offset e) + unat (r_size e)"

definition run :: "rmap_ent \<Rightarrow> nat set" where
  "run e = {unat (r_offset e)..<rend e}"

definition units :: "rmap_ent list \<Rightarrow> nat set" where
  "units es = (\<Union>e\<in>set es. run e)"

fun runs_ok :: "nat \<Rightarrow> rmap_ent list \<Rightarrow> bool" where
  "runs_ok lo [] = True"
| "runs_ok lo (e # es) =
     (lo < unat (r_offset e) \<and> 0 < unat (r_size e) \<and> rend e < 2 ^ 32 \<and> runs_ok (rend e) es)"

fun ends :: "nat \<Rightarrow> rmap_ent list \<Rightarrow> nat" where
  "ends lo [] = lo"
| "ends lo (e # es) = ends (rend e) es"

text \<open>The invariant of a resource map, and the free units it stands for.\<close>

definition rmap_ok :: "rmap \<Rightarrow> bool" where
  "rmap_ok m \<longleftrightarrow>
     m \<noteq> [] \<and> length m = Suc (unat (r_size (m ! 0))) \<and> rlim m \<le> unat (r_size (m ! 0)) \<and>
     runs_ok 0 (elems m)"

definition free_units :: "rmap \<Rightarrow> nat set" where
  "free_units m = units (elems m)"

text \<open>The units \<open>off\<close> to \<open>off + sz - 1\<close>.\<close>

definition urange :: "u32 \<Rightarrow> u32 \<Rightarrow> nat set" where
  "urange off sz = {unat off..<unat off + unat sz}"

lemma units_simps [simp]:
  "units [] = {}" "units (e # es) = run e \<union> units es" "units (xs @ ys) = units xs \<union> units ys"
  by (auto simp: units_def)

lemma runs_ok_append [simp]:
  "runs_ok lo (xs @ ys) \<longleftrightarrow> runs_ok lo xs \<and> runs_ok (ends lo xs) ys"
  by (induction xs arbitrary: lo) auto

lemma ends_append [simp]: "ends lo (xs @ ys) = ends (ends lo xs) ys"
  by (induction xs arbitrary: lo) auto

lemma runs_ok_mono: "runs_ok lo es \<Longrightarrow> lo' \<le> lo \<Longrightarrow> runs_ok lo' es"
  by (cases es) auto

lemma rend_gt: "runs_ok lo (e # es) \<Longrightarrow> lo < rend e"
  by (simp add: rend_def)

lemma ends_ge: "runs_ok lo xs \<Longrightarrow> lo \<le> ends lo xs"
proof (induction xs arbitrary: lo)
  case (Cons e xs)
  then have "lo < rend e" "rend e \<le> ends (rend e) xs"
    using rend_gt by auto
  then show ?case by simp
qed simp

lemma units_above: "runs_ok lo es \<Longrightarrow> x \<in> units es \<Longrightarrow> lo < x"
proof (induction es arbitrary: lo)
  case (Cons e es)
  then have "lo < rend e" using rend_gt by blast
  with Cons show ?case by (fastforce simp: run_def)
qed simp

lemma units_below: "runs_ok lo xs \<Longrightarrow> x \<in> units xs \<Longrightarrow> x < ends lo xs"
proof (induction xs arbitrary: lo)
  case (Cons e xs)
  then have "rend e \<le> ends (rend e) xs" using ends_ge by auto
  with Cons show ?case by (fastforce simp: run_def)
qed simp

lemma ends_bound: "runs_ok lo xs \<Longrightarrow> lo < 2 ^ 32 \<Longrightarrow> ends lo xs < 2 ^ 32"
  by (induction xs arbitrary: lo) auto

lemma finite_units [simp]: "finite (units es)"
  by (auto simp: units_def run_def)

section \<open>The array and its entries\<close>

text \<open>
  The shape of the array: the header, the entries in use, the spare slots. Every
  operation of the source is a few updates of this shape.
\<close>

definition shape :: "rmap \<Rightarrow> rmap_ent \<Rightarrow> rmap_ent list \<Rightarrow> rmap_ent list \<Rightarrow> bool" where
  "shape m h es rest \<longleftrightarrow>
     m = h # es @ rest \<and> unat (r_offset h) = length es \<and>
     unat (r_size h) = length es + length rest"

lemma shape_elems: "shape m h es rest \<Longrightarrow> elems m = es"
  by (auto simp: shape_def elems_def)

lemma rmap_ok_shape: "rmap_ok m \<longleftrightarrow> (\<exists>h es rest. shape m h es rest \<and> runs_ok 0 es)"
proof
  assume ok: "rmap_ok m"
  then obtain h t where m: "m = h # t" by (cases m) (auto simp: rmap_ok_def)
  with ok have "shape m h (elems m) (drop (rlim m) t)"
    by (auto simp: shape_def rmap_ok_def elems_def)
  with ok show "\<exists>h es rest. shape m h es rest \<and> runs_ok 0 es"
    unfolding rmap_ok_def by blast
next
  assume "\<exists>h es rest. shape m h es rest \<and> runs_ok 0 es"
  then show "rmap_ok m"
    by (auto simp: shape_def rmap_ok_def elems_def)
qed

lemma rmap_okI: "shape m h es rest \<Longrightarrow> runs_ok 0 es \<Longrightarrow> rmap_ok m"
  by (auto simp: rmap_ok_shape)

lemma shape_free_units: "shape m h es rest \<Longrightarrow> free_units m = units es"
  by (simp add: free_units_def shape_elems)

lemma shape_nth: "shape m h (xs @ e # ys) rest \<Longrightarrow> m ! Suc (length xs) = e"
  by (auto simp: shape_def nth_append)

lemma shape_hd: "shape m h es rest \<Longrightarrow> m ! 0 = h"
  by (auto simp: shape_def)

lemma shape_rlim: "shape m h es rest \<Longrightarrow> rlim m = length es"
  by (auto simp: shape_def)

lemma shape_update:
  "shape m h (xs @ e # ys) rest \<Longrightarrow> shape (m[Suc (length xs) := f]) h (xs @ f # ys) rest"
  by (auto simp: shape_def list_update_append)

lemma collapse_shape:
  assumes "shape m h (xs @ e # ys) rest"
  shows "shape (collapse m (Suc (length xs))) (h\<lparr>r_offset := r_offset h - 1\<rparr>)
           (xs @ ys) (last (e # ys) # rest)"
proof -
  from assms have m: "m = h # xs @ e # ys @ rest"
    and off: "unat (r_offset h) = Suc (length xs + length ys)"
    and sz: "unat (r_size h) = Suc (length xs + length ys + length rest)"
    by (auto simp: shape_def)
  let ?h = "h\<lparr>r_offset := r_offset h - 1\<rparr>"
  have off': "unat (r_offset h - 1) = length xs + length ys"
    using off by (simp add: no_wrap)
  have "collapse m (Suc (length xs)) = ?h # xs @ ys @ last (e # ys) # rest"
  proof (cases ys rule: rev_cases)
    case Nil
    with m off show ?thesis by (simp add: collapse_def Let_def)
  next
    case (snoc zs z)
    with m off show ?thesis by (simp add: collapse_def Let_def memmove_ents_def)
  qed
  with off' sz show ?thesis by (simp add: shape_def)
qed

lemma makespace_full:
  "shape m h es [] \<Longrightarrow> makespace m r = None"
  by (auto simp: shape_def makespace_def word_eq_unat)

lemma makespace_shape:
  assumes "shape m h (xs @ ys) (z # rest)"
  shows "\<exists>m'. makespace m (Suc (length xs)) = Some m' \<and>
     shape m' (h\<lparr>r_offset := r_offset h + 1\<rparr>) (xs @ hd (ys @ [z]) # ys) rest"
proof -
  from assms have m: "m = h # xs @ ys @ z # rest"
    and off: "unat (r_offset h) = length xs + length ys"
    and sz: "unat (r_size h) = Suc (length xs + length ys + length rest)"
    by (auto simp: shape_def)
  let ?h = "h\<lparr>r_offset := r_offset h + 1\<rparr>"
  have lt: "length xs + length ys + 1 < 4294967296"
    using sz unat_u32_less [of "r_size h"] by linarith
  have off': "unat (r_offset h + 1) = Suc (length xs + length ys)"
    using off lt by (simp add: no_wrap)
  have ne: "r_size h \<noteq> r_offset h"
    using off sz by auto
  have "makespace m (Suc (length xs)) = Some (?h # xs @ hd (ys @ [z]) # ys @ rest)"
  proof (cases ys)
    case Nil
    with m off ne show ?thesis by (simp add: makespace_def Let_def)
  next
    case (Cons y zs)
    with m off ne show ?thesis by (simp add: makespace_def Let_def memmove_ents_def)
  qed
  with off' sz show ?thesis by (simp add: shape_def)
qed

section \<open>Allocation\<close>

lemma rmap_alloc_scan_shape:
  assumes "shape m h (xs @ ys) rest"
  shows "rmap_alloc_scan m sz (Suc (length xs)) =
           Suc (length xs + length (takeWhile (\<lambda>e. r_size e < sz) ys))"
  using assms
proof (induction ys arbitrary: xs)
  case Nil
  then show ?case
    by (subst rmap_alloc_scan.simps) (simp add: shape_rlim)
next
  case (Cons e ys)
  have e: "m ! Suc (length xs) = e" using Cons.prems by (rule shape_nth)
  have "rmap_alloc_scan m sz (Suc (length (xs @ [e]))) =
          Suc (length (xs @ [e]) + length (takeWhile (\<lambda>e. r_size e < sz) ys))"
    by (rule Cons.IH) (use Cons.prems in simp)
  with Cons.prems e show ?case
    by (subst rmap_alloc_scan.simps) (auto simp: shape_rlim not_less)
qed

lemma takeWhile_split:
  obtains (none) "takeWhile P xs = xs" | (some) x ys where "xs = takeWhile P xs @ x # ys" "\<not> P x"
proof (cases "dropWhile P xs")
  case Nil
  with none show thesis by (simp add: dropWhile_eq_Nil_conv takeWhile_eq_all_conv)
next
  case (Cons x ys)
  then have "\<not> P x" using hd_dropWhile [of P xs] by simp
  moreover have "xs = takeWhile P xs @ x # ys" using takeWhile_dropWhile_id [of P xs] Cons by simp
  ultimately show thesis by (rule some [rotated])
qed

text \<open>What \<^verbatim>\<open>rmap_alloc\<close> does to the entries, by where the scan stops.\<close>

lemma rmap_alloc_cases:
  assumes sh: "shape m h es rest"
  obtains
    (fail) "\<forall>e \<in> set es. r_size e < sz" "rmap_alloc m sz = (0, m)"
  | (trim) xs e ys where "es = xs @ e # ys" "sz < r_size e"
      "rmap_alloc m sz = (r_offset e, m[Suc (length xs) :=
         \<lparr>r_offset = r_offset e + sz, r_size = r_size e - sz\<rparr>])"
  | (whole) xs e ys where "es = xs @ e # ys" "r_size e = sz"
      "rmap_alloc m sz = (r_offset e, collapse m (Suc (length xs)))"
proof -
  let ?tw = "takeWhile (\<lambda>e. r_size e < sz) es"
  have scan: "rmap_alloc_scan m sz (Suc 0) = Suc (length ?tw)"
    using rmap_alloc_scan_shape [of m h "[]" es rest sz] sh by simp
  show thesis
  proof (cases rule: takeWhile_split [of "\<lambda>e. r_size e < sz" es])
    case none
    then have "\<forall>e \<in> set es. r_size e < sz" by (simp only: takeWhile_eq_all_conv)
    moreover have "rmap_alloc m sz = (0, m)"
      using scan none sh by (simp add: rmap_alloc_def shape_rlim)
    ultimately show thesis by (rule fail)
  next
    case (some e ys)
    have sh': "shape m h (?tw @ e # ys) rest" using sh some(1) by simp
    have e: "m ! Suc (length ?tw) = e" by (rule shape_nth [OF sh'])
    have le: "\<not> rlim m < Suc (length ?tw)"
      using shape_rlim [OF sh'] by simp
    show thesis
    proof (cases "sz < r_size e")
      case True
      then show thesis
        using trim [OF some(1)] scan le e by (simp add: rmap_alloc_def Let_def)
    next
      case False
      with some(2) have "r_size e = sz" by simp
      then show thesis
        using whole [OF some(1)] scan le e by (simp add: rmap_alloc_def Let_def)
    qed
  qed
qed

lemma disjoint_before: "runs_ok lo xs \<Longrightarrow> ends lo xs \<le> a \<Longrightarrow> units xs \<inter> {a..<b} = {}"
  using units_below by fastforce

lemma disjoint_after: "runs_ok b ys \<Longrightarrow> units ys \<inter> {a..<b} = {}"
  using units_above by fastforce

lemmas run_simps = run_def rend_def urange_def

text \<open>
  Replacing one entry by entries that lie inside it keeps the order and removes exactly
  what the new entries do not cover.
\<close>

lemma replace_run:
  assumes ok: "runs_ok lo (xs @ e # ys)" and new: "runs_ok (ends lo xs) new"
    and sub: "units new \<subseteq> run e" and last: "ends (ends lo xs) new \<le> rend e"
  shows "runs_ok lo (xs @ new @ ys)" "units (xs @ new @ ys) = units (xs @ e # ys) - (run e - units new)"
proof -
  have ys: "runs_ok (rend e) ys" and xs: "runs_ok lo xs" and lt: "ends lo xs < unat (r_offset e)"
    using ok by auto
  show "runs_ok lo (xs @ new @ ys)"
    using xs new runs_ok_mono [OF ys last] by simp
  have "units xs \<inter> run e = {}" "units ys \<inter> run e = {}"
    using disjoint_before [OF xs, of "unat (r_offset e)" "rend e"] lt disjoint_after [OF ys]
    by (auto simp: run_def)
  then show "units (xs @ new @ ys) = units (xs @ e # ys) - (run e - units new)"
    using sub by auto
qed

lemma rmap_alloc_spec:
  assumes "rmap_ok m" and "0 < sz"
  shows "case rmap_alloc m sz of (idx, m') \<Rightarrow>
    rmap_ok m' \<and> r_size (m' ! 0) = r_size (m ! 0) \<and>
    (if idx = 0 then m' = m \<and> (\<forall>e \<in> set (elems m). r_size e < sz)
     else urange idx sz \<subseteq> free_units m \<and> free_units m' = free_units m - urange idx sz)"
proof -
  from assms obtain h es rest where sh: "shape m h es rest" and ok: "runs_ok 0 es"
    by (auto simp: rmap_ok_shape)
  note el = shape_elems [OF sh]
  from sh show ?thesis
  proof (cases rule: rmap_alloc_cases [of m h es rest sz])
    case fail
    with assms el show ?thesis by simp
  next
    case (trim xs e ys)
    let ?f = "\<lparr>r_offset = r_offset e + sz, r_size = r_size e - sz\<rparr>"
    have sh': "shape (m[Suc (length xs) := ?f]) h (xs @ ?f # ys) rest"
      using sh trim(1) by (auto intro: shape_update)
    have eok: "ends 0 xs < unat (r_offset e)" "rend e < 2 ^ 32"
      using ok trim(1) by auto
    have lt: "unat sz < unat (r_size e)" using trim(2) by (simp add: word_less_nat_alt)
    have f: "unat (r_offset ?f) = unat (r_offset e) + unat sz"
        "unat (r_size ?f) = unat (r_size e) - unat sz" "rend ?f = rend e"
      using eok lt by (auto simp: rend_def no_wrap)
    have ok': "runs_ok 0 (xs @ [?f] @ ys)"
      and un: "units (xs @ [?f] @ ys) = units (xs @ e # ys) - (run e - units [?f])"
      using replace_run [of 0 xs e ys "[?f]"] ok trim(1) f eok lt
      by (auto simp: run_def rend_def)
    have "run e - units [?f] = urange (r_offset e) sz" "urange (r_offset e) sz \<subseteq> run e"
      using f lt by (auto simp: run_simps)
    moreover have "r_offset e \<noteq> 0" using eok by auto
    ultimately show ?thesis
      using trim rmap_okI [OF sh'] ok' un shape_hd [OF sh] shape_hd [OF sh']
        shape_free_units [OF sh] shape_free_units [OF sh'] by auto
  next
    case (whole xs e ys)
    let ?m = "collapse m (Suc (length xs))"
    have sh': "shape ?m (h\<lparr>r_offset := r_offset h - 1\<rparr>) (xs @ ys) (last (e # ys) # rest)"
      using collapse_shape sh whole(1) by blast
    have ne: "r_offset e \<noteq> 0" using ok whole(1) by auto
    have rng: "urange (r_offset e) sz = run e"
      using whole(2) by (simp add: run_simps)
    have ok': "runs_ok 0 (xs @ [] @ ys)"
      and un: "units (xs @ [] @ ys) = units (xs @ e # ys) - (run e - units [])"
      using replace_run [of 0 xs e ys "[]"] ok whole(1) by (auto simp: rend_def)
    show ?thesis
      using whole rmap_okI [OF sh'] ok' un rng ne shape_hd [OF sh] shape_hd [OF sh']
        shape_free_units [OF sh] shape_free_units [OF sh'] by auto
  qed
qed

text \<open>
  C1. \<^verbatim>\<open>rmap_alloc\<close> keeps the table well formed. A non-zero result is the start of a range that
  was free and exactly that range is taken out of the map; the result 0 means that no free
  range is long enough, and then nothing changes.
\<close>

theorem rmap_alloc_correct:
  assumes "rmap_ok m" and "0 < sz"
  shows "case rmap_alloc m sz of (idx, m') \<Rightarrow>
    rmap_ok m' \<and> r_size (m' ! 0) = r_size (m ! 0) \<and>
    (if idx = 0 then m' = m \<and> (\<forall>e \<in> set (elems m). r_size e < sz)
     else urange idx sz \<subseteq> free_units m \<and> free_units m' = free_units m - urange idx sz)"
  using assms by (rule rmap_alloc_spec)

section \<open>Freeing\<close>

text \<open>What a call of \<^verbatim>\<open>rmap_free\<close> may do: merge or insert the range, or lose it in a full table.\<close>

definition freed :: "rmap \<Rightarrow> u32 \<Rightarrow> u32 \<Rightarrow> u32 \<Rightarrow> rmap \<times> u32 \<Rightarrow> bool" where
  "freed m lost off sz res \<longleftrightarrow> (case res of (m', lost') \<Rightarrow>
     rmap_ok m' \<and> r_size (m' ! 0) = r_size (m ! 0) \<and>
     (free_units m' = free_units m \<union> urange off sz \<and> lost' = lost \<or>
      m' = m \<and> lost' = lost + sz \<and> rlim m = unat (r_size (m ! 0))))"

lemma freedI:
  assumes "shape m h es rest" "shape m' h' es' rest'" "runs_ok 0 es'" "r_size h' = r_size h"
    "units es' = units es \<union> urange off sz"
  shows "freed m lost off sz (m', lost)"
  using assms shape_hd [OF assms(1)] shape_hd [OF assms(2)] rmap_okI [OF assms(2,3)]
    shape_free_units [OF assms(1)] shape_free_units [OF assms(2)]
  by (simp add: freed_def)

lemma rmap_free_insert_freed:
  assumes sh: "shape m h (xs @ ys) rest" and ok: "runs_ok 0 (xs @ ys)"
    and lo: "ends 0 xs < unat off" and hi: "runs_ok (unat off + unat sz) ys"
    and sz: "0 < sz" "unat off + unat sz < 2 ^ 32"
  shows "freed m lost off sz (rmap_free_insert m lost off sz (Suc (length xs)))"
proof (cases rest)
  case Nil
  then have "rmap_free_insert m lost off sz (Suc (length xs)) = (m, lost + sz)"
    using makespace_full sh by (auto simp: rmap_free_insert_def)
  then show ?thesis
    using rmap_okI [OF sh ok] sh Nil by (simp add: freed_def shape_def)
next
  case (Cons z rest')
  let ?e = "\<lparr>r_offset = off, r_size = sz\<rparr>" and ?h = "h\<lparr>r_offset := r_offset h + 1\<rparr>"
  obtain m' where ms: "makespace m (Suc (length xs)) = Some m'"
    and sh': "shape m' ?h (xs @ hd (ys @ [z]) # ys) rest'"
    using makespace_shape sh Cons by blast
  have "shape (m'[Suc (length xs) := ?e]) ?h (xs @ ?e # ys) rest'"
    using sh' by (rule shape_update)
  moreover have "runs_ok 0 (xs @ ?e # ys)"
    using ok lo hi sz by (simp add: rend_def word_less_nat_alt)
  ultimately have "freed m lost off sz (m'[Suc (length xs) := ?e], lost)"
    using sh by (auto intro!: freedI simp: run_simps)
  with ms show ?thesis by (simp add: rmap_free_insert_def)
qed

lemma word_end_eq:
  "rend e < 2 ^ 32 \<Longrightarrow> r_offset e + r_size e = off \<longleftrightarrow> rend e = unat off"
  by (simp add: word_eq_unat rend_def no_wrap)

lemma word_add_eq:
  fixes off sz w :: u32
  assumes "unat off + unat sz < 2 ^ 32"
  shows "off + sz = w \<longleftrightarrow> unat off + unat sz = unat w"
  using assms by (simp add: word_eq_unat no_wrap)

text \<open>Extending an entry at its end; the next entry is swallowed when it now abuts.\<close>

lemma rmap_free_extend_freed:
  assumes sh: "shape m h (xs @ e # ys) rest" and ok: "runs_ok 0 (xs @ e # ys)"
    and abut: "rend e = unat off" and sz: "unat off + unat sz < 2 ^ 32"
    and dis: "urange off sz \<inter> units ys = {}"
  shows "freed m lost off sz (rmap_free_scan m lost off sz (Suc (length xs)))"
proof -
  let ?r = "Suc (length xs)" and ?e = "e\<lparr>r_size := r_size e + sz\<rparr>"
  let ?m1 = "m[?r := ?e]"
  have e: "m ! ?r = e" and rl: "rlim m = Suc (length xs + length ys)"
    using sh shape_nth shape_rlim by fastforce+
  have sh1: "shape ?m1 h (xs @ ?e # ys) rest" using sh by (rule shape_update)
  have e1: "unat (r_size ?e) = unat (r_size e) + unat sz" "rend ?e = unat off + unat sz"
    using abut sz by (auto simp: rend_def no_wrap)
  have abut': "r_offset e + r_size e = off" using ok abut by (simp add: word_end_eq)
  have run_e: "run ?e = run e \<union> urange off sz"
    using e1 abut by (auto simp: run_simps)
  have base: "runs_ok 0 xs" "ends 0 xs < unat (r_offset e)" "0 < unat (r_size e)" "runs_ok (rend e) ys"
    using ok by auto
  show ?thesis
  proof (cases "\<exists>f fs. ys = f # fs \<and> unat off + unat sz = unat (r_offset f)")
    case False
    have "runs_ok (unat off + unat sz) ys"
    proof (cases ys)
      case (Cons f fs)
      moreover have "rend e < unat (r_offset f)" "0 < unat (r_size f)"
        using base(4) Cons by auto
      then have "unat (r_offset f) \<in> run f" "\<not> unat (r_offset f) < unat off"
        using abut by (auto simp: run_simps)
      then have "unat (r_offset f) \<notin> urange off sz" "unat off \<le> unat (r_offset f)"
        using dis Cons by (auto simp: disjoint_iff)
      then have "\<not> unat (r_offset f) < unat off + unat sz"
        by (simp add: urange_def)
      ultimately show ?thesis using False base(4) by auto
    qed simp
    then have "runs_ok 0 (xs @ ?e # ys)" using base e1 sz by simp
    then have "freed m lost off sz (?m1, lost)"
      using sh sh1 run_e by (auto intro!: freedI)
    moreover have "rmap_free_scan m lost off sz ?r = (?m1, lost)"
    proof -
      have "\<not> (?r < rlim m \<and> r_offset (?m1 ! ?r) + r_size (?m1 ! ?r) = r_offset (?m1 ! (?r + 1)))"
      proof
        assume *: "?r < rlim m \<and> r_offset (?m1 ! ?r) + r_size (?m1 ! ?r) = r_offset (?m1 ! (?r + 1))"
        with rl obtain f fs where ys: "ys = f # fs" by (cases ys) auto
        have "?m1 ! ?r = ?e" using sh1 by (rule shape_nth)
        moreover have "?m1 ! (?r + 1) = f"
          using shape_nth [of ?m1 h "xs @ [?e]" f fs rest] sh1 ys by simp
        ultimately have "r_offset ?e + r_size ?e = r_offset f" using * by metis
        then have "rend ?e = unat (r_offset f)" using e1 sz word_end_eq by metis
        with False ys e1 show False by auto
      qed
      then show ?thesis
        using e rl abut' by (subst rmap_free_scan.simps) (auto simp: Let_def)
    qed
    ultimately show ?thesis by simp
  next
    case True
    then obtain f fs where ys: "ys = f # fs" and f: "unat off + unat sz = unat (r_offset f)" by blast
    let ?g = "?e\<lparr>r_size := r_size ?e + r_size f\<rparr>" and ?h = "h\<lparr>r_offset := r_offset h - 1\<rparr>"
    let ?m2 = "?m1[?r := ?g]"
    have f': "r_offset ?e + r_size ?e = r_offset f" using f e1 sz by (subst word_end_eq) auto
    have "?m1 ! ?r = ?e" using sh1 by (rule shape_nth)
    moreover have "?m1 ! (?r + 1) = f"
      using shape_nth [of ?m1 h "xs @ [?e]" f fs rest] sh1 ys by simp
    moreover have sh2: "shape ?m2 h ((xs @ [?g]) @ f # fs) rest"
      using shape_update [OF sh1] ys by simp
    ultimately have scan: "rmap_free_scan m lost off sz ?r = (collapse ?m2 (Suc ?r), lost)"
      using e rl abut' f' ys shape_hd [OF sh2] shape_rlim [OF sh2]
      by (subst rmap_free_scan.simps) (simp add: Let_def collapse_def)
    have sh3: "shape (collapse ?m2 (Suc ?r)) ?h ((xs @ [?g]) @ fs) (last (f # fs) # rest)"
      using collapse_shape [OF sh2] by simp
    have fok: "rend f < 2 ^ 32" "runs_ok (rend f) fs" "0 < unat (r_size f)"
      using base(4) ys by auto
    have "unat (r_size ?g) = unat (r_size e) + unat sz + unat (r_size f)"
    proof -
      have "unat (r_size ?e) + unat (r_size f) < 2 ^ 32"
        using e1 f fok abut by (simp add: rend_def)
      then show ?thesis using e1 by (simp add: no_wrap)
    qed
    then have g: "rend ?g = rend f" using f abut by (simp add: rend_def)
    have run_g: "run ?g = run e \<union> urange off sz \<union> run f"
      using g f abut fok by (auto simp: run_simps)
    have "runs_ok 0 ((xs @ [?g]) @ fs)" using base fok g \<open>unat (r_size ?g) = _\<close> by simp
    then have "freed m lost off sz (collapse ?m2 (Suc ?r), lost)"
      using sh sh3 run_g ys by (intro freedI [OF sh sh3]) auto
    with scan show ?thesis by simp
  qed
qed

lemma rmap_free_scan_freed:
  assumes "shape m h (xs @ ys) rest" "runs_ok 0 (xs @ ys)" "ends 0 xs < unat off"
    and "urange off sz \<inter> units ys = {}"
    and sz: "0 < sz" "unat off + unat sz < 2 ^ 32"
  shows "freed m lost off sz (rmap_free_scan m lost off sz (Suc (length xs)))"
  using assms(1-4)
proof (induction ys arbitrary: xs)
  case Nil
  then have "freed m lost off sz (rmap_free_insert m lost off sz (Suc (length xs)))"
    using sz by (intro rmap_free_insert_freed [where ys = "[]"]) auto
  with Nil show ?case
    by (subst rmap_free_scan.simps) (simp add: shape_rlim)
next
  case (Cons e ys)
  let ?r = "Suc (length xs)"
  have e: "m ! ?r = e" and rl: "?r \<le> rlim m"
    using Cons.prems(1) shape_nth shape_rlim by fastforce+
  have eok: "rend e < 2 ^ 32" "0 < unat (r_size e)" "runs_ok (rend e) ys"
    using Cons.prems(2) by auto
  have sz': "0 < unat sz" using sz(1) by (simp add: word_less_nat_alt)
  have out: "x \<notin> run e" if "unat off \<le> x" "x < unat off + unat sz" for x
    using that Cons.prems(4) by (auto simp: urange_def)
  consider (ext) "rend e = unat off" | (pre) "rend e \<noteq> unat off" "unat off + unat sz = unat (r_offset e)"
    | (ins) "rend e \<noteq> unat off" "unat off + unat sz \<noteq> unat (r_offset e)" "unat off < unat (r_offset e)"
    | (next') "rend e \<noteq> unat off" "unat off + unat sz \<noteq> unat (r_offset e)" "\<not> unat off < unat (r_offset e)"
    by blast
  then show ?case
  proof cases
    case ext
    then show ?thesis
      using rmap_free_extend_freed [OF Cons.prems(1,2) _ sz(2)] Cons.prems(4) by auto
  next
    case pre
    let ?e = "\<lparr>r_offset = off, r_size = r_size e + sz\<rparr>"
    have sze: "unat (r_size ?e) = unat (r_size e) + unat sz"
      using pre eok by (simp add: rend_def no_wrap)
    have "rend ?e = rend e" "run ?e = run e \<union> urange off sz"
      using pre sze by (auto simp: run_simps)
    moreover have "shape (m[?r := ?e]) h (xs @ ?e # ys) rest"
      using Cons.prems(1) by (rule shape_update)
    ultimately have "freed m lost off sz (m[?r := ?e], lost)"
      using Cons.prems eok sze by (intro freedI [OF Cons.prems(1)]) auto
    moreover have "off + sz = r_offset e" "r_offset e + r_size e \<noteq> off"
      using pre sz eok by (auto simp: word_end_eq word_add_eq)
    ultimately show ?thesis
      using e rl by (subst rmap_free_scan.simps) simp
  next
    case ins
    have "unat off + unat sz < unat (r_offset e)"
      using ins out [of "unat (r_offset e)"] eok(2) by (force simp: run_simps)
    then have "freed m lost off sz (rmap_free_insert m lost off sz ?r)"
      using Cons.prems sz by (intro rmap_free_insert_freed [where ys = "e # ys"]) auto
    moreover have "off + sz \<noteq> r_offset e" "r_offset e + r_size e \<noteq> off" "off < r_offset e"
      using ins sz eok by (auto simp: word_end_eq word_less_nat_alt word_add_eq)
    ultimately show ?thesis
      using e rl by (subst rmap_free_scan.simps) simp
  next
    case next'
    have "rend e < unat off"
      using next' out [of "unat off"] sz' by (force simp: run_simps)
    then have "freed m lost off sz (rmap_free_scan m lost off sz (Suc (length (xs @ [e]))))"
      using Cons.prems by (intro Cons.IH) auto
    moreover have "off + sz \<noteq> r_offset e" "r_offset e + r_size e \<noteq> off" "\<not> off < r_offset e"
      using next' sz eok by (auto simp: word_end_eq word_less_nat_alt word_add_eq)
    ultimately show ?thesis
      using e rl by (subst rmap_free_scan.simps) simp
  qed
qed

text \<open>
  C2. Giving a range back that is not free keeps the table well formed, and afterwards
  exactly the range and what was free before are free. Only when every slot of the table is
  in use may the range be lost instead, and then \<^verbatim>\<open>lost_elems\<close> grows by its size.
\<close>

theorem rmap_free_correct:
  assumes "rmap_ok m" "0 < sz" "0 < off" "unat off + unat sz < 2 ^ 32"
    and "urange off sz \<inter> free_units m = {}"
  shows "case rmap_free m lost off sz of (m', lost') \<Rightarrow>
    rmap_ok m' \<and> r_size (m' ! 0) = r_size (m ! 0) \<and>
    (free_units m' = free_units m \<union> urange off sz \<and> lost' = lost \<or>
     m' = m \<and> lost' = lost + sz \<and> rlim m = unat (r_size (m ! 0)))"
proof -
  from assms obtain h es rest where "shape m h es rest" "runs_ok 0 es"
    by (auto simp: rmap_ok_shape)
  then have "freed m lost off sz (rmap_free_scan m lost off sz (Suc (length ([] :: rmap))))"
    using assms shape_free_units [of m h es rest]
    by (intro rmap_free_scan_freed [of m h _ es rest]) (auto simp: word_less_nat_alt)
  then show ?thesis by (simp add: rmap_free_def freed_def)
qed

section \<open>Reserving a given range\<close>

text \<open>
  What a call of \<^verbatim>\<open>rmap_reserve\<close> does. When the request lies strictly inside a run the run has to
  be split; with no slot left in the table the part of the run below the request is dropped, and
  \<^verbatim>\<open>lost_elems\<close> counts it.
\<close>

definition inside :: "u32 \<Rightarrow> u32 \<Rightarrow> rmap_ent \<Rightarrow> bool" where
  "inside off sz e \<longleftrightarrow> unat (r_offset e) < unat off \<and> unat off + unat sz < rend e"

definition reserved :: "rmap \<Rightarrow> u32 \<Rightarrow> u32 \<Rightarrow> u32 \<Rightarrow> int \<times> rmap \<times> u32 \<Rightarrow> bool" where
  "reserved m lost off sz res \<longleftrightarrow> (case res of (rc, m', lost') \<Rightarrow>
     rmap_ok m' \<and> r_size (m' ! 0) = r_size (m ! 0) \<and>
     (rc = 0 \<longleftrightarrow> urange off sz \<subseteq> free_units m) \<and>
     (if rc = 0 then
        if rlim m = unat (r_size (m ! 0)) \<and> (\<exists>e \<in> set (elems m). inside off sz e)
        then \<exists>e \<in> set (elems m). inside off sz e \<and>
          free_units m' = free_units m - {unat (r_offset e)..<unat off + unat sz} \<and>
          lost' = lost + (off - r_offset e)
        else free_units m' = free_units m - urange off sz \<and> lost' = lost
      else rc = 1 \<and> m' = m \<and> lost' = lost))"

lemma reserved_fail:
  assumes "rmap_ok m" "\<not> urange off sz \<subseteq> free_units m"
  shows "reserved m lost off sz (1, m, lost)"
  using assms by (simp add: reserved_def)

lemma reserved_exact:
  assumes "shape m h es rest" "shape m' h' es' rest'" "runs_ok 0 es'" "r_size h' = r_size h"
    "urange off sz \<subseteq> units es" "units es' = units es - urange off sz"
    "rest \<noteq> [] \<or> (\<forall>e \<in> set es. \<not> inside off sz e)"
  shows "reserved m lost off sz (0, m', lost)"
proof -
  have "\<not> (rlim m = unat (r_size (m ! 0)) \<and> (\<exists>e \<in> set (elems m). inside off sz e))"
    using assms(7) assms(1) shape_elems [OF assms(1)] by (auto simp: shape_def)
  then show ?thesis
    using assms(4-6) shape_hd [OF assms(1)] shape_hd [OF assms(2)] rmap_okI [OF assms(2,3)]
      shape_free_units [OF assms(1)] shape_free_units [OF assms(2)]
    by (simp add: reserved_def)
qed

lemma run_unique:
  assumes ok: "runs_ok lo (xs @ e # ys)" and f: "f \<in> set (xs @ e # ys)" "x \<in> run f" and x: "x \<in> run e"
  shows "f = e"
proof -
  have "units xs \<inter> run e = {}" "units ys \<inter> run e = {}"
    using ok disjoint_before [of lo xs "unat (r_offset e)" "rend e"] disjoint_after [of "rend e" ys]
    by (auto simp: run_def)
  with f x show ?thesis by (auto simp: units_def)
qed

text \<open>A range of which the run that holds its first unit misses a part is not free.\<close>

lemma not_free_past_run:
  assumes "runs_ok lo (e # ys)" "unat (r_offset e) \<le> unat off" "unat off < rend e"
    and "rend e < unat off + unat sz" and "runs_ok 0 xs" "ends 0 xs = lo"
  shows "\<not> urange off sz \<subseteq> units (xs @ e # ys)"
proof
  assume "urange off sz \<subseteq> units (xs @ e # ys)"
  moreover have "rend e \<in> urange off sz" using assms by (simp add: urange_def)
  ultimately have "rend e \<in> units (xs @ e # ys)" by blast
  moreover have "rend e \<notin> units xs" using units_below assms rend_gt by fastforce
  moreover have "rend e \<notin> units ys" using units_above assms by fastforce
  ultimately show False by (simp add: run_def)
qed

text \<open>
  The situation of \<^verbatim>\<open>rmap_reserve\<close> at the run \<open>e\<close> in slot \<open>length xs + 1\<close>: the run holds the
  first unit of the request, and the whole request ends inside it.
\<close>

definition holds_request ::
  "rmap \<Rightarrow> rmap_ent \<Rightarrow> rmap_ent list \<Rightarrow> rmap_ent \<Rightarrow> rmap_ent list \<Rightarrow> rmap_ent list \<Rightarrow> u32 \<Rightarrow> u32 \<Rightarrow> bool"
where
  "holds_request m h xs e ys rest off sz \<longleftrightarrow>
     shape m h (xs @ e # ys) rest \<and> runs_ok 0 (xs @ e # ys) \<and>
     unat (r_offset e) \<le> unat off \<and> 0 < unat sz \<and> unat off + unat sz \<le> rend e"

lemma holds_requestD:
  assumes "holds_request m h xs e ys rest off sz"
  shows "m ! Suc (length xs) = e" "ends 0 xs < unat (r_offset e)" "0 < unat (r_size e)"
    "unat (r_offset e + r_size e) = rend e" "unat (off + sz) = unat off + unat sz"
    "\<not> r_offset e + r_size e < off + sz" "urange off sz \<subseteq> run e"
    "urange off sz \<subseteq> units (xs @ e # ys)" "rend e < 4294967296" "ends 0 xs \<le> rend e"
proof -
  have sh: "shape m h (xs @ e # ys) rest" and ok: "runs_ok 0 (xs @ e # ys)"
    and b: "unat (r_offset e) \<le> unat off" "unat off + unat sz \<le> rend e"
    using assms by (auto simp: holds_request_def)
  show "m ! Suc (length xs) = e" using sh by (rule shape_nth)
  show eok: "ends 0 xs < unat (r_offset e)" "0 < unat (r_size e)" "rend e < 4294967296"
    using ok by auto
  show top: "unat (r_offset e + r_size e) = rend e" "unat (off + sz) = unat off + unat sz"
    using eok b by (auto simp: rend_def no_wrap)
  show "\<not> r_offset e + r_size e < off + sz"
    using top b by (simp add: word_less_nat_alt)
  show "urange off sz \<subseteq> run e" "urange off sz \<subseteq> units (xs @ e # ys)"
    using b by (auto simp: run_simps)
  show "ends 0 xs \<le> rend e" using eok by (simp add: rend_def)
qed

text \<open>Only the run that holds the request can have it strictly inside.\<close>

lemma not_inside:
  assumes H: "holds_request m h xs e ys rest off sz" and g: "g \<in> set (xs @ e # ys)" "inside off sz g"
  shows "g = e"
proof -
  have "runs_ok 0 (xs @ e # ys)" "unat off \<in> run e"
    using H by (auto simp: holds_request_def run_simps)
  moreover have "unat off \<in> run g" using g(2) by (simp add: inside_def run_def)
  ultimately show ?thesis using run_unique g(1) by blast
qed

lemma reserve_front:
  assumes H: "holds_request m h xs e ys rest off sz" and front: "off = r_offset e"
  shows "reserved m lost off sz (rmap_reserve_at m lost off sz (Suc (length xs)))"
proof -
  note D = holds_requestD [OF H]
  have sh: "shape m h (xs @ e # ys) rest" and ok: "runs_ok 0 (xs @ e # ys)"
    and fits: "unat off + unat sz \<le> rend e" "0 < unat sz"
    using H by (auto simp: holds_request_def)
  let ?r = "Suc (length xs)" and ?f = "\<lparr>r_offset = r_offset e + sz, r_size = r_size e - sz\<rparr>"
  have f: "unat (r_offset ?f) = unat off + unat sz" "unat (r_size ?f) = unat (r_size e) - unat sz"
      "rend ?f = rend e"
    using front fits D(5) by (auto simp: rend_def no_wrap)
  have sh1: "shape (m[?r := ?f]) h (xs @ ?f # ys) rest" using sh by (rule shape_update)
  have edge: "\<forall>g \<in> set (xs @ e # ys). \<not> inside off sz g"
    using not_inside [OF H] front by (auto simp: inside_def)
  show ?thesis
  proof (cases "r_size ?f = 0")
    case True
    then have "unat (r_size e) \<le> unat sz" using f(2) by simp
    then have "urange off sz = run e" using front fits by (auto simp: run_simps)
    then have "reserved m lost off sz (0, collapse (m[?r := ?f]) ?r, lost)"
      using replace_run [OF ok, of "[]"] D(2-) edge
      by (intro reserved_exact [OF sh collapse_shape [OF sh1]]) auto
    then show ?thesis
      using D front shape_nth [OF sh1] True by (simp add: rmap_reserve_at_def Let_def)
  next
    case False
    then have pos: "0 < unat (r_size ?f)" by (simp add: unat_gt_0)
    have "run e - units [?f] = urange off sz" "units [?f] \<subseteq> run e"
      using f front by (auto simp: run_simps)
    then have "reserved m lost off sz (0, m[?r := ?f], lost)"
      using replace_run [OF ok, of "[?f]"] D(2-) f pos fits front edge
      by (intro reserved_exact [OF sh sh1]) auto
    then show ?thesis
      using D front shape_nth [OF sh1] False by (simp add: rmap_reserve_at_def Let_def)
  qed
qed

lemma reserve_rear:
  assumes H: "holds_request m h xs e ys rest off sz"
    and rear: "off \<noteq> r_offset e" "unat off + unat sz = rend e"
  shows "reserved m lost off sz (rmap_reserve_at m lost off sz (Suc (length xs)))"
proof -
  note D = holds_requestD [OF H]
  have sh: "shape m h (xs @ e # ys) rest" and ok: "runs_ok 0 (xs @ e # ys)"
    using H by (auto simp: holds_request_def)
  let ?r = "Suc (length xs)" and ?f = "e\<lparr>r_size := r_size e - sz\<rparr>"
  have lt: "unat (r_offset e) < unat off"
    using H rear by (auto simp: holds_request_def word_eq_unat)
  have f: "unat (r_size ?f) = unat (r_size e) - unat sz" "rend ?f = unat off"
    using rear lt by (auto simp: rend_def no_wrap)
  have sh1: "shape (m[?r := ?f]) h (xs @ ?f # ys) rest" using sh by (rule shape_update)
  have edge: "\<forall>g \<in> set (xs @ e # ys). \<not> inside off sz g"
    using not_inside [OF H] rear(2) by (metis inside_def less_irrefl)
  have "run e - units [?f] = urange off sz" "units [?f] \<subseteq> run e" "0 < unat (r_size ?f)"
    using f rear lt by (auto simp: run_def urange_def rend_def)
  then have "reserved m lost off sz (0, m[?r := ?f], lost)"
    using replace_run [OF ok, of "[?f]"] D(2-) f rear lt edge
    by (intro reserved_exact [OF sh sh1]) auto
  then show ?thesis
    using D rear by (simp add: rmap_reserve_at_def Let_def word_eq_unat)
qed

text \<open>The request is strictly inside the run: the two remaining pieces.\<close>

definition piece_lo :: "rmap_ent \<Rightarrow> u32 \<Rightarrow> rmap_ent" where
  "piece_lo e off = e\<lparr>r_size := off - r_offset e\<rparr>"

definition piece_hi :: "rmap_ent \<Rightarrow> u32 \<Rightarrow> u32 \<Rightarrow> rmap_ent" where
  "piece_hi e off sz =
     \<lparr>r_offset = off + sz, r_size = r_offset e + r_size e - (off + sz)\<rparr>"

lemma pieces:
  assumes H: "holds_request m h xs e ys rest off sz"
    and mid: "off \<noteq> r_offset e" "unat off + unat sz < rend e"
  shows "unat (r_offset e) < unat off"
    "unat (r_offset (piece_hi e off sz)) = unat off + unat sz"
    "rend (piece_hi e off sz) = rend e"
    "rend (piece_lo e off) = unat off"
    "r_offset (piece_lo e off) = r_offset e" "0 < unat (r_size (piece_lo e off))"
    "0 < unat (r_size (piece_hi e off sz))" "off + sz \<noteq> r_offset e + r_size e"
proof -
  note D = holds_requestD [OF H]
  show lt: "unat (r_offset e) < unat off"
    using H mid by (auto simp: holds_request_def word_eq_unat)
  show hi: "unat (r_offset (piece_hi e off sz)) = unat off + unat sz"
    and "rend (piece_hi e off sz) = rend e"
    and "0 < unat (r_size (piece_hi e off sz))"
    using mid D by (auto simp: rend_def no_wrap piece_hi_def)
  show "rend (piece_lo e off) = unat off" "r_offset (piece_lo e off) = r_offset e"
      "0 < unat (r_size (piece_lo e off))"
    using lt by (auto simp: rend_def no_wrap piece_lo_def)
  show "off + sz \<noteq> r_offset e + r_size e" using mid D by auto
qed

lemma reserve_split_full:
  assumes H: "holds_request m h xs e ys [] off sz"
    and mid: "off \<noteq> r_offset e" "unat off + unat sz < rend e"
  shows "reserved m lost off sz (rmap_reserve_at m lost off sz (Suc (length xs)))"
proof -
  note D = holds_requestD [OF H] and P = pieces [OF H mid]
  have sh: "shape m h (xs @ e # ys) []" and ok: "runs_ok 0 (xs @ e # ys)"
    using H by (auto simp: holds_request_def)
  let ?r = "Suc (length xs)" and ?hi = "piece_hi e off sz"
  let ?gone = "{unat (r_offset e)..<unat off + unat sz}"
  have sh1: "shape (m[?r := ?hi]) h (xs @ ?hi # ys) []" using sh by (rule shape_update)
  have gone: "run e - units [?hi] = ?gone" "units [?hi] \<subseteq> run e"
    using P mid by (auto simp: run_def)
  have ok1: "runs_ok 0 (xs @ [?hi] @ ys)"
    and un: "units (xs @ [?hi] @ ys) = units (xs @ e # ys) - ?gone"
    using replace_run [OF ok, of "[?hi]"] D(2-) P gone by auto
  have "inside off sz e" using P(1) mid(2) by (simp add: inside_def)
  moreover have "off - r_offset e = r_size e - r_size ?hi - sz" by (simp add: piece_hi_def)
  ultimately have "reserved m lost off sz (0, m[?r := ?hi], lost + (r_size e - r_size ?hi - sz))"
    using rmap_okI [OF sh1] ok1 un D(8) shape_free_units [OF sh] shape_free_units [OF sh1] shape_hd [OF sh]
      shape_hd [OF sh1] shape_elems [OF sh] sh
    by (auto simp: reserved_def shape_def)
  then show ?thesis
    using D mid(1) P makespace_full [OF sh] by (simp add: rmap_reserve_at_def Let_def piece_hi_def)
qed

lemma reserve_split:
  assumes H: "holds_request m h xs e ys (z # rest) off sz"
    and mid: "off \<noteq> r_offset e" "unat off + unat sz < rend e"
  shows "reserved m lost off sz (rmap_reserve_at m lost off sz (Suc (length xs)))"
proof -
  note D = holds_requestD [OF H] and P = pieces [OF H mid]
  have sh: "shape m h (xs @ e # ys) (z # rest)" and ok: "runs_ok 0 (xs @ e # ys)"
    and sz: "0 < unat sz"
    using H by (auto simp: holds_request_def)
  let ?r = "Suc (length xs)" and ?lo = "piece_lo e off" and ?hi = "piece_hi e off sz"
  let ?h = "h\<lparr>r_offset := r_offset h + 1\<rparr>"
  obtain m' where ms: "makespace m ?r = Some m'" and sh1: "shape m' ?h (xs @ e # e # ys) rest"
    using makespace_shape [of m h xs "e # ys" z rest] sh by auto
  have e1: "m' ! ?r = e" using sh1 by (rule shape_nth)
  have sh2: "shape (m'[?r := ?lo]) ?h ((xs @ [?lo]) @ e # ys) rest"
    using shape_update [OF sh1] by simp
  have sh3: "shape (m'[?r := ?lo, Suc ?r := ?hi]) ?h ((xs @ [?lo]) @ ?hi # ys) rest"
    using shape_update [OF sh2] by simp
  have "run e - units [?lo, ?hi] = urange off sz" "units [?lo, ?hi] \<subseteq> run e"
    using P mid by (auto simp: run_def urange_def)
  moreover have "runs_ok (ends 0 xs) [?lo, ?hi]"
    using D(2-) P sz mid by simp
  ultimately have "reserved m lost off sz (0, m'[?r := ?lo, Suc ?r := ?hi], lost)"
    using replace_run [OF ok, of "[?lo, ?hi]"] D(2-) P
    by (intro reserved_exact [OF sh sh3]) auto
  then show ?thesis
    using D e1 mid(1) P ms by (simp add: rmap_reserve_at_def Let_def piece_lo_def piece_hi_def)
qed

lemma rmap_reserve_at_reserved:
  assumes sh: "shape m h (xs @ e # ys) rest" and ok: "runs_ok 0 (xs @ e # ys)"
    and in_e: "unat (r_offset e) \<le> unat off" "unat off < rend e"
    and sz: "0 < sz" "unat off + unat sz < 2 ^ 32"
  shows "reserved m lost off sz (rmap_reserve_at m lost off sz (Suc (length xs)))"
proof (cases "rend e < unat off + unat sz")
  case True
  have "m ! Suc (length xs) = e" using sh by (rule shape_nth)
  moreover have "r_offset e + r_size e < off + sz"
    using True ok sz by (simp add: word_less_nat_alt rend_def no_wrap)
  moreover have "\<not> urange off sz \<subseteq> free_units m"
    using not_free_past_run [OF _ in_e True] ok shape_free_units [OF sh] by auto
  ultimately show ?thesis
    using reserved_fail rmap_okI [OF sh ok] by (simp add: rmap_reserve_at_def)
next
  case False
  then have H: "holds_request m h xs e ys rest off sz"
    using assms by (simp add: holds_request_def word_less_nat_alt)
  consider "off = r_offset e" | "off \<noteq> r_offset e" "unat off + unat sz = rend e"
    | "off \<noteq> r_offset e" "unat off + unat sz < rend e" using False by linarith
  then show ?thesis
    using reserve_front [OF H] reserve_rear [OF H] reserve_split_full reserve_split H
    by cases (auto, cases rest, auto)
qed

lemma rmap_reserve_scan_reserved:
  assumes "shape m h (xs @ ys) rest" "runs_ok 0 (xs @ ys)" "unat off \<notin> units xs"
    and sz: "0 < sz" "unat off + unat sz < 2 ^ 32"
  shows "reserved m lost off sz (rmap_reserve_scan m lost off sz (Suc (length xs)))"
  using assms(1-3)
proof (induction ys arbitrary: xs)
  case Nil
  have "unat off \<in> urange off sz" using sz by (simp add: urange_def word_less_nat_alt)
  then have "reserved m lost off sz (1, m, lost)"
    using Nil rmap_okI shape_free_units by (intro reserved_fail) fastforce+
  with Nil show ?case
    by (subst rmap_reserve_scan.simps) (simp add: shape_rlim)
next
  case (Cons e ys)
  let ?r = "Suc (length xs)"
  have e: "m ! ?r = e" and rl: "?r \<le> rlim m"
    using Cons.prems(1) shape_nth shape_rlim by fastforce+
  have top: "unat (r_offset e + r_size e) = rend e" and ys: "runs_ok (rend e) ys"
    using Cons.prems(2) by (auto simp: rend_def no_wrap)
  consider (below) "off < r_offset e" | (here) "r_offset e \<le> off" "off < r_offset e + r_size e"
    | (above) "r_offset e \<le> off" "\<not> off < r_offset e + r_size e" by fastforce
  then show ?case
  proof cases
    case below
    have "unat off \<notin> units (e # ys)"
    proof
      assume "unat off \<in> units (e # ys)"
      then have "unat (r_offset e) \<le> unat off"
        using units_above [OF ys, of "unat off"] by (auto simp: run_simps)
      with below show False by (simp add: word_less_nat_alt)
    qed
    then have "unat off \<in> urange off sz" "unat off \<notin> units (xs @ e # ys)"
      using Cons.prems(3) sz by (auto simp: urange_def word_less_nat_alt)
    then have "reserved m lost off sz (1, m, lost)"
      using reserved_fail rmap_okI [OF Cons.prems(1,2)] shape_free_units [OF Cons.prems(1)] by blast
    then show ?thesis
      using e rl below by (subst rmap_reserve_scan.simps) simp
  next
    case here
    then have "reserved m lost off sz (rmap_reserve_at m lost off sz ?r)"
      using rmap_reserve_at_reserved [OF Cons.prems(1,2) _ _ sz] top by (simp add: word_to_nat)
    then show ?thesis
      using e rl here by (subst rmap_reserve_scan.simps) auto
  next
    case above
    then have "unat off \<notin> run e" using top by (simp add: run_def word_less_nat_alt)
    then have "reserved m lost off sz (rmap_reserve_scan m lost off sz (Suc (length (xs @ [e]))))"
      using Cons.prems by (intro Cons.IH) auto
    then show ?thesis
      using e rl above by (subst rmap_reserve_scan.simps) auto
  qed
qed

lemma rmap_reserve_reserved:
  assumes "rmap_ok m" "0 < sz" "unat off + unat sz < 2 ^ 32"
  shows "reserved m lost off sz (rmap_reserve m lost off sz)"
proof -
  from assms obtain h es rest where "shape m h es rest" "runs_ok 0 es"
    by (auto simp: rmap_ok_shape)
  then have "reserved m lost off sz (rmap_reserve_scan m lost off sz (Suc (length ([] :: rmap))))"
    using assms by (intro rmap_reserve_scan_reserved [of m h _ es rest]) auto
  then show ?thesis by (simp add: rmap_reserve_def)
qed

lemma reservedD:
  assumes "reserved m lost off sz (rc, m', lost')" "urange off sz \<subseteq> free_units m"
  shows "rc = 0" "rmap_ok m'" "free_units m' \<subseteq> free_units m - urange off sz"
    "lost' = lost + of_nat (card (free_units m - urange off sz - free_units m'))"
proof -
  show rc: "rc = 0" "rmap_ok m'" using assms by (auto simp: reserved_def)
  consider (exact) "free_units m' = free_units m - urange off sz" "lost' = lost"
    | (cut) e where "e \<in> set (elems m)" "inside off sz e"
        "free_units m' = free_units m - {unat (r_offset e)..<unat off + unat sz}" "lost' = lost + (off - r_offset e)"
    using assms rc unfolding reserved_def by (auto split: if_splits)
  then show "free_units m' \<subseteq> free_units m - urange off sz"
    "lost' = lost + of_nat (card (free_units m - urange off sz - free_units m'))"
  proof (atomize (full), cases)
    case (cut e)
    have "run e \<subseteq> free_units m" using cut(1) by (auto simp: free_units_def units_def)
    then have "free_units m - urange off sz - free_units m' = {unat (r_offset e)..<unat off}"
      using cut(2,3) by (auto simp: inside_def run_def urange_def)
    then show "free_units m' \<subseteq> free_units m - urange off sz \<and>
        lost' = lost + of_nat (card (free_units m - urange off sz - free_units m'))"
      using cut by (auto simp: inside_def urange_def)
  qed simp
qed

text \<open>
  C3. \<^verbatim>\<open>rmap_reserve\<close> succeeds exactly when the whole requested range is free. On success the
  range is no longer free, the table is well formed, and nothing else is taken from the map
  unless the table is full and the request lies strictly inside a run: then exactly the units of that
  run below the request are dropped too, and \<^verbatim>\<open>lost_elems\<close> grows by their number. On failure
  nothing changes.
\<close>

theorem rmap_reserve_correct:
  assumes "rmap_ok m" "0 < sz" "unat off + unat sz < 2 ^ 32"
  shows "case rmap_reserve m lost off sz of (rc, m', lost') \<Rightarrow>
     rmap_ok m' \<and> r_size (m' ! 0) = r_size (m ! 0) \<and>
     (rc = 0 \<longleftrightarrow> urange off sz \<subseteq> free_units m) \<and>
     (if rc = 0 then
        if rlim m = unat (r_size (m ! 0)) \<and> (\<exists>e \<in> set (elems m). inside off sz e)
        then \<exists>e \<in> set (elems m). inside off sz e \<and>
          free_units m' = free_units m - {unat (r_offset e)..<unat off + unat sz} \<and>
          lost' = lost + (off - r_offset e)
        else free_units m' = free_units m - urange off sz \<and> lost' = lost
      else rc = 1 \<and> m' = m \<and> lost' = lost)"
  using rmap_reserve_reserved [OF assms, of lost] by (simp only: reserved_def)

section \<open>Aligned allocation\<close>

lemma rmap_gap_nat:
  assumes "0 < align"
  shows "unat (rmap_gap off align) < unat align"
    and "(unat off + unat (rmap_gap off align)) mod unat align = 0"
proof -
  have a: "0 < unat align" using assms by (simp add: word_less_nat_alt)
  have lt: "unat off mod unat align < unat align" using a by simp
  have gap: "unat (rmap_gap off align) =
      (if unat off mod unat align = 0 then 0 else unat align - unat off mod unat align)"
    using lt by (simp add: rmap_gap_def word_eq_unat unat_mod no_wrap)
  then show "unat (rmap_gap off align) < unat align" using a by auto
  have "(unat off + (unat align - unat off mod unat align)) mod unat align =
      (unat off div unat align * unat align + unat align) mod unat align"
    using lt by (metis add.assoc div_mult_mod_eq le_add_diff_inverse less_imp_le)
  then show "(unat off + unat (rmap_gap off align)) mod unat align = 0"
    using gap by simp
qed

lemma rmap_align_scan_shape:
  assumes "shape m h (xs @ ys) rest"
  shows "rmap_align_scan m sz align (Suc (length xs)) =
     Suc (length xs + length (takeWhile (\<lambda>e. r_size e < sz + rmap_gap (r_offset e) align) ys))"
  using assms
proof (induction ys arbitrary: xs)
  case Nil
  then show ?case
    by (subst rmap_align_scan.simps) (simp add: shape_rlim)
next
  case (Cons e ys)
  have e: "m ! Suc (length xs) = e" using Cons.prems by (rule shape_nth)
  have "rmap_align_scan m sz align (Suc (length (xs @ [e]))) = Suc (length (xs @ [e]) +
      length (takeWhile (\<lambda>e. r_size e < sz + rmap_gap (r_offset e) align) ys))"
    by (rule Cons.IH) (use Cons.prems in simp)
  with Cons.prems e show ?case
    by (subst rmap_align_scan.simps) (auto simp: shape_rlim not_less)
qed

text \<open>
  \<^verbatim>\<open>rmap_alloc_align\<close> returns an aligned start of a range that was free and is free no
  longer (in a full table the split may cost further units, which \<^verbatim>\<open>lost_elems\<close> counts); it
  returns 0 only when no free range can hold the aligned request, and then changes nothing.
\<close>

theorem rmap_alloc_align_correct:
  assumes "rmap_ok m" "0 < sz" "0 < align" "unat sz + unat align \<le> 2 ^ 32"
  shows "case rmap_alloc_align m lost sz align of (idx, m', lost') \<Rightarrow>
    rmap_ok m' \<and>
    (if idx = 0 then m' = m \<and> lost' = lost \<and>
       (\<forall>e \<in> set (elems m). unat (r_size e) < unat sz + unat (rmap_gap (r_offset e) align))
     else unat idx mod unat align = 0 \<and> urange idx sz \<subseteq> free_units m \<and>
       free_units m' \<subseteq> free_units m - urange idx sz \<and>
       lost' = lost + of_nat (card (free_units m - urange idx sz - free_units m')))"
proof -
  from assms obtain h es rest where sh: "shape m h es rest" and ok: "runs_ok 0 es"
    by (auto simp: rmap_ok_shape)
  have szg: "unat (sz + rmap_gap (r_offset e) align) = unat sz + unat (rmap_gap (r_offset e) align)"  for e :: rmap_ent
    using rmap_gap_nat(1) [of align "r_offset e"] assms(3,4) by (simp add: no_wrap)
  let ?P = "\<lambda>e. r_size e < sz + rmap_gap (r_offset e) align"
  let ?tw = "takeWhile ?P es"
  have scan: "rmap_align_scan m sz align (Suc 0) = Suc (length ?tw)"
    using rmap_align_scan_shape [of m h "[]" es rest sz align] sh by simp
  show ?thesis
  proof (cases rule: takeWhile_split [of ?P es])
    case none
    then have "\<forall>e \<in> set es. ?P e" by (simp only: takeWhile_eq_all_conv)
    then have "\<forall>e \<in> set (elems m). unat (r_size e) < unat sz + unat (rmap_gap (r_offset e) align)"
      using shape_elems [OF sh] szg by (simp add: word_less_nat_alt)
    moreover have "rmap_alloc_align m lost sz align = (0, m, lost)"
      using scan none sh by (simp add: rmap_alloc_align_def shape_rlim)
    ultimately show ?thesis using assms(1) by simp
  next
    case (some e ys)
    have sh': "shape m h (?tw @ e # ys) rest" and ok': "runs_ok 0 (?tw @ e # ys)"
      using sh ok some(1) by auto
    let ?idx = "r_offset e + rmap_gap (r_offset e) align"
    have fit: "unat sz + unat (rmap_gap (r_offset e) align) \<le> unat (r_size e)"
      using some(2) szg by (simp add: word_less_nat_alt)
    have eok: "rend e < 2 ^ 32" "0 < unat (r_offset e)" using ok' by auto
    then have idx: "unat ?idx = unat (r_offset e) + unat (rmap_gap (r_offset e) align)"
      using fit by (simp add: rend_def no_wrap)
    have "urange ?idx sz \<subseteq> run e" using idx fit by (auto simp: run_simps)
    then have free: "urange ?idx sz \<subseteq> free_units m" using shape_free_units [OF sh'] by auto
    obtain rc m' lost' where res: "rmap_reserve m lost ?idx sz = (rc, m', lost')"
      by (cases "rmap_reserve m lost ?idx sz") auto
    have "unat ?idx + unat sz < 2 ^ 32" using idx fit eok by (simp add: rend_def)
    from rmap_reserve_reserved [OF assms(1,2) this, of lost]
    have "reserved m lost ?idx sz (rc, m', lost')" by (simp only: res)
    note post = reservedD [OF this free]
    have "rmap_alloc_align m lost sz align = (?idx, m', lost')"
      using scan shape_nth [OF sh'] shape_rlim [OF sh'] res post(1)
      by (simp add: rmap_alloc_align_def Let_def)
    moreover have "?idx \<noteq> 0" using idx eok by (auto simp: word_eq_unat)
    ultimately show ?thesis
      using post free rmap_gap_nat(2) [OF assms(3), of "r_offset e"] idx by simp
  qed
qed

section \<open>Status queries\<close>

text \<open>The answer of \<^verbatim>\<open>rmap_status\<close> in terms of the free units.\<close>

definition status_of :: "nat set \<Rightarrow> u32 \<Rightarrow> u32 \<Rightarrow> int" where
  "status_of fr off sz =
     (if {unat off..unat off + unat sz} \<subseteq> fr then 0
      else if urange off sz \<inter> fr = {} then 1 else -1)"

lemma rmap_status_scan_spec:
  assumes "shape m h (xs @ ys) rest" "runs_ok 0 (xs @ ys)"
    and sz: "0 < sz" "unat off + unat sz < 2 ^ 32"
  shows "rmap_status_scan m off sz (Suc (length xs)) = status_of (units ys) off sz"
  using assms(1,2)
proof (induction ys arbitrary: xs)
  case Nil
  then show ?case
    by (subst rmap_status_scan.simps) (simp add: shape_rlim status_of_def)
next
  case (Cons e ys)
  let ?r = "Suc (length xs)"
  have e: "m ! ?r = e" and rl: "?r \<le> rlim m"
    using Cons.prems(1) shape_nth shape_rlim by fastforce+
  have top: "unat (r_offset e + r_size e) = rend e" "unat (off + sz) = unat off + unat sz"
    and eok: "runs_ok (rend e) ys" "0 < unat (r_size e)" and sz': "0 < unat sz"
    using Cons.prems(2) sz by (auto simp: rend_def no_wrap word_less_nat_alt)
  have hi: "x \<in> units ys \<Longrightarrow> rend e < x" for x using units_above eok by blast
  have IH: "rmap_status_scan m off sz (Suc ?r) = status_of (units ys) off sz"
    using Cons.IH [of "xs @ [e]"] Cons.prems by simp
  consider (below) "unat off < unat (r_offset e)"
    | (here) "unat (r_offset e) \<le> unat off" "unat off < rend e" | (above) "rend e \<le> unat off"
    by linarith
  then show ?case
  proof cases
    case below
    have "unat off \<notin> units (e # ys)" using below hi [of "unat off"] by (auto simp: run_simps)
    then have "\<not> {unat off..unat off + unat sz} \<subseteq> units (e # ys)"
      by (metis atLeastAtMost_iff le_add1 le_refl subsetD)
    moreover have "urange off sz \<inter> units (e # ys) = {} \<longleftrightarrow> unat off + unat sz \<le> unat (r_offset e)"
    proof
      assume "urange off sz \<inter> units (e # ys) = {}"
      moreover have "unat (r_offset e) \<in> units (e # ys)" using eok by (simp add: run_simps)
      ultimately have "unat (r_offset e) \<notin> urange off sz" by (auto simp: disjoint_iff)
      with below show "unat off + unat sz \<le> unat (r_offset e)" by (simp add: urange_def)
    next
      assume le: "unat off + unat sz \<le> unat (r_offset e)"
      have "unat (r_offset e) \<le> x" if "x \<in> units (e # ys)" for x
        using that hi [of x] by (auto simp: run_simps)
      with le show "urange off sz \<inter> units (e # ys) = {}" by (fastforce simp: urange_def disjoint_iff)
    qed
    ultimately show ?thesis
      using e rl below top
      by (subst rmap_status_scan.simps) (simp add: status_of_def word_less_nat_alt del: units_simps)
  next
    case here
    have "rend e \<notin> units (e # ys)" using hi [of "rend e"] by (auto simp: run_def)
    then have "{unat off..unat off + unat sz} \<subseteq> units (e # ys) \<longleftrightarrow> unat off + unat sz < rend e"
    proof (cases "unat off + unat sz < rend e")
      case True
      with here show ?thesis by (auto simp: run_def)
    next
      case False
      then have "rend e \<in> {unat off..unat off + unat sz}" using here by simp
      with False \<open>rend e \<notin> units (e # ys)\<close> show ?thesis by blast
    qed
    moreover have "unat off \<in> urange off sz \<inter> units (e # ys)"
      using here sz' by (simp add: run_simps)
    then have "urange off sz \<inter> units (e # ys) \<noteq> {}" by blast
    ultimately show ?thesis
      using e rl here top
      by (subst rmap_status_scan.simps)
        (simp add: status_of_def word_less_nat_alt word_le_nat_alt del: units_simps)
  next
    case above
    then have "\<forall>x. unat off \<le> x \<longrightarrow> x \<notin> run e" by (auto simp: run_def)
    then have "{unat off..unat off + unat sz} \<inter> run e = {}" "urange off sz \<inter> run e = {}"
      by (auto simp: urange_def)
    then have "status_of (units (e # ys)) off sz = status_of (units ys) off sz"
      by (auto simp: status_of_def)
    then show ?thesis
      using e rl above top IH
      by (subst rmap_status_scan.simps) (auto simp: word_to_nat rend_def)
  qed
qed

text \<open>
  \<^verbatim>\<open>rmap_status\<close> answers 1 exactly for a range no unit of which is free, and 0 only for a
  range that is entirely free. But it answers 0 only when the unit after the range is free as
  well: a free range that reaches the end of its run is reported as partially allocated (-1),
  because the source compares \<^verbatim>\<open>rtop < top\<close> instead of \<^verbatim>\<open>rtop <= top\<close>.
\<close>

theorem rmap_status_correct:
  assumes "rmap_ok m" "0 < sz" "unat off + unat sz < 2 ^ 32"
  shows "rmap_status m off sz =
    (if {unat off..unat off + unat sz} \<subseteq> free_units m then 0
     else if urange off sz \<inter> free_units m = {} then 1 else -1)"
proof -
  from assms obtain h es rest where sh: "shape m h es rest" and "runs_ok 0 es"
    by (auto simp: rmap_ok_shape)
  then show ?thesis
    using rmap_status_scan_spec [of m h "[]" es rest sz off] assms shape_free_units [OF sh]
    by (simp add: rmap_status_def status_of_def)
qed

section \<open>The allocator interface\<close>

text \<open>
  What the memory managers rely on when they allocate from a resource map: the laws of one
  allocation, and from them that any sequence of allocations hands out disjoint ranges.
\<close>

fun disjoint_list :: "nat set list \<Rightarrow> bool" where
  "disjoint_list [] = True"
| "disjoint_list (a # as) = ((\<forall>b \<in> set as. a \<inter> b = {}) \<and> disjoint_list as)"

fun alloc_all :: "('s \<Rightarrow> u32 \<Rightarrow> u32 \<times> 's) \<Rightarrow> 's \<Rightarrow> u32 list \<Rightarrow> (u32 \<times> u32) list \<times> 's" where
  "alloc_all al s [] = ([], s)"
| "alloc_all al s (n # ns) =
     (case al s n of (i, s') \<Rightarrow>
        case alloc_all al s' ns of (rs, s'') \<Rightarrow> (if i = 0 then rs else (i, n) # rs, s''))"

locale range_allocator =
  fixes ok :: "'s \<Rightarrow> bool"
    and avail :: "'s \<Rightarrow> nat set"
    and al :: "'s \<Rightarrow> u32 \<Rightarrow> u32 \<times> 's"
  assumes al_ok: "ok s \<Longrightarrow> 0 < n \<Longrightarrow> al s n = (i, s') \<Longrightarrow> ok s'"
    and al_fail: "ok s \<Longrightarrow> 0 < n \<Longrightarrow> al s n = (0, s') \<Longrightarrow> avail s' = avail s"
    and al_takes: "ok s \<Longrightarrow> 0 < n \<Longrightarrow> al s n = (i, s') \<Longrightarrow> i \<noteq> 0 \<Longrightarrow>
      urange i n \<subseteq> avail s \<and> avail s' = avail s - urange i n"
begin

lemma alloc_all_correct:
  assumes "ok s" "\<forall>n \<in> set ns. 0 < n" "alloc_all al s ns = (rs, s')"
  shows "ok s' \<and> disjoint_list (map (\<lambda>(i, n). urange i n) rs) \<and>
    (\<Union>(i, n) \<in> set rs. urange i n) \<subseteq> avail s \<and>
    avail s' = avail s - (\<Union>(i, n) \<in> set rs. urange i n)"
  using assms
proof (induction ns arbitrary: s rs)
  case Nil
  then show ?case by auto
next
  case (Cons n ns)
  obtain i s1 where a: "al s n = (i, s1)" by fastforce
  obtain rs1 where r: "alloc_all al s1 ns = (rs1, s')"
    using Cons.prems(3) a by (auto split: prod.splits)
  have n: "0 < n" "ok s1" using Cons.prems al_ok [OF _ _ a] by auto
  then have IH: "ok s'" "disjoint_list (map (\<lambda>(i, n). urange i n) rs1)"
      "(\<Union>(i, n) \<in> set rs1. urange i n) \<subseteq> avail s1"
      "avail s' = avail s1 - (\<Union>(i, n) \<in> set rs1. urange i n)"
    using Cons.IH [OF _ _ r] Cons.prems by auto
  show ?case
  proof (cases "i = 0")
    case True
    then show ?thesis
      using IH Cons.prems a r n al_fail [of s n s1] by auto
  next
    case False
    then have t: "urange i n \<subseteq> avail s" "avail s1 = avail s - urange i n" "rs = (i, n) # rs1"
      using al_takes [OF _ n(1) a] Cons.prems a r by auto
    have "\<forall>b \<in> set (map (\<lambda>(i, n). urange i n) rs1). urange i n \<inter> b = {}"
      using IH(3) t(2) by fastforce
    with IH t show ?thesis by auto
  qed
qed

end

text \<open>The conclusion of the allocation theorem, in the form the interface asks for.\<close>

lemma rmap_alloc_laws:
  assumes "rmap_ok m" "0 < sz" "rmap_alloc m sz = (idx, m')"
  shows "rmap_ok m'" "idx = 0 \<Longrightarrow> free_units m' = free_units m"
    "idx \<noteq> 0 \<Longrightarrow> urange idx sz \<subseteq> free_units m \<and> free_units m' = free_units m - urange idx sz"
  using rmap_alloc_spec [OF assms(1,2)] unfolding assms(3) prod.case by simp_all

interpretation rm: range_allocator rmap_ok free_units rmap_alloc
  by unfold_locales (simp_all add: rmap_alloc_laws)

text \<open>
  C4. Any sequence of \<^verbatim>\<open>rmap_alloc\<close> calls on a well-formed map hands out pairwise disjoint
  ranges, all of them free at the start, and what stays free is exactly the rest.
\<close>

theorem rmap_allocs_disjoint:
  assumes "rmap_ok m" "\<forall>n \<in> set ns. 0 < n" "alloc_all rmap_alloc m ns = (rs, m')"
  shows "rmap_ok m' \<and> disjoint_list (map (\<lambda>(i, n). urange i n) rs) \<and>
    (\<Union>(i, n) \<in> set rs. urange i n) \<subseteq> free_units m \<and>
    free_units m' = free_units m - (\<Union>(i, n) \<in> set rs. urange i n)"
  using assms by (rule rm.alloc_all_correct)

section \<open>Witnesses\<close>

text \<open>A map with room for four runs that holds the units 10 to 29 and 40 to 49.\<close>

definition demo_rmap :: rmap where
  "demo_rmap =
     [\<lparr>r_offset = 2, r_size = 4\<rparr>, \<lparr>r_offset = 10, r_size = 20\<rparr>, \<lparr>r_offset = 40, r_size = 10\<rparr>,
      \<lparr>r_offset = 0, r_size = 0\<rparr>, \<lparr>r_offset = 0, r_size = 0\<rparr>]"

lemma demo_rmap_elems:
  "elems demo_rmap = [\<lparr>r_offset = 10, r_size = 20\<rparr>, \<lparr>r_offset = 40, r_size = 10\<rparr>]"
  by (simp add: demo_rmap_def elems_def)

lemma demo_rmap_ok: "rmap_ok demo_rmap"
  by (simp add: rmap_ok_def demo_rmap_elems rend_def) (simp add: demo_rmap_def)

lemma demo_rmap_free: "free_units demo_rmap = {10..<30} \<union> {40..<50}"
  by (simp add: free_units_def demo_rmap_elems run_simps)

theorem rmap_alloc_correct_witness:
  "rmap_ok demo_rmap \<and> 0 < (5 :: u32) \<and>
   (case rmap_alloc demo_rmap 5 of (idx, m') \<Rightarrow>
    rmap_ok m' \<and> r_size (m' ! 0) = r_size (demo_rmap ! 0) \<and>
    (if idx = 0 then m' = demo_rmap \<and> (\<forall>e \<in> set (elems demo_rmap). r_size e < 5)
     else urange idx 5 \<subseteq> free_units demo_rmap \<and> free_units m' = free_units demo_rmap - urange idx 5))"
  using rmap_alloc_correct [OF demo_rmap_ok, of 5] demo_rmap_ok by simp

theorem rmap_free_correct_witness:
  "urange 30 10 \<inter> free_units demo_rmap = {} \<and>
   (case rmap_free demo_rmap 0 30 10 of (m', lost') \<Rightarrow>
    rmap_ok m' \<and> r_size (m' ! 0) = r_size (demo_rmap ! 0) \<and>
    (free_units m' = free_units demo_rmap \<union> urange 30 10 \<and> lost' = 0 \<or>
     m' = demo_rmap \<and> lost' = 0 + 10 \<and> rlim demo_rmap = unat (r_size (demo_rmap ! 0))))"
proof -
  have dis: "urange 30 10 \<inter> free_units demo_rmap = {}"
    by (auto simp: demo_rmap_free urange_def)
  show ?thesis
    using rmap_free_correct [OF demo_rmap_ok _ _ _ dis, of 0] dis by simp
qed

theorem rmap_reserve_correct_witness:
  "case rmap_reserve demo_rmap 0 12 3 of (rc, m', lost') \<Rightarrow>
     rmap_ok m' \<and> r_size (m' ! 0) = r_size (demo_rmap ! 0) \<and>
     (rc = 0 \<longleftrightarrow> urange 12 3 \<subseteq> free_units demo_rmap) \<and>
     (if rc = 0 then
        if rlim demo_rmap = unat (r_size (demo_rmap ! 0)) \<and> (\<exists>e \<in> set (elems demo_rmap). inside 12 3 e)
        then \<exists>e \<in> set (elems demo_rmap). inside 12 3 e \<and>
          free_units m' = free_units demo_rmap - {unat (r_offset e)..<unat (12 :: u32) + unat (3 :: u32)} \<and>
          lost' = 0 + (12 - r_offset e)
        else free_units m' = free_units demo_rmap - urange 12 3 \<and> lost' = 0
      else rc = 1 \<and> m' = demo_rmap \<and> lost' = 0)"
  by (rule rmap_reserve_correct [OF demo_rmap_ok, of 3 12 0]) simp_all

theorem rmap_alloc_align_correct_witness:
  "case rmap_alloc_align demo_rmap 0 4 16 of (idx, m', lost') \<Rightarrow>
    rmap_ok m' \<and>
    (if idx = 0 then m' = demo_rmap \<and> lost' = 0 \<and>
       (\<forall>e \<in> set (elems demo_rmap). unat (r_size e) < unat (4 :: u32) + unat (rmap_gap (r_offset e) 16))
     else unat idx mod unat (16 :: u32) = 0 \<and> urange idx 4 \<subseteq> free_units demo_rmap \<and>
       free_units m' \<subseteq> free_units demo_rmap - urange idx 4 \<and>
       lost' = 0 + of_nat (card (free_units demo_rmap - urange idx 4 - free_units m')))"
  by (rule rmap_alloc_align_correct [OF demo_rmap_ok, of 4 16 0]) simp_all

theorem rmap_status_correct_witness:
  "urange 20 10 \<subseteq> free_units demo_rmap \<and> rmap_status demo_rmap 20 10 = -1"
proof -
  have "(30 :: nat) \<in> {20..30}" "(30 :: nat) \<notin> free_units demo_rmap"
    by (auto simp: demo_rmap_free)
  then have "\<not> {20..30} \<subseteq> free_units demo_rmap" by blast
  moreover have sub: "urange 20 10 \<subseteq> free_units demo_rmap" "urange 20 10 \<noteq> {}"
    by (auto simp: demo_rmap_free urange_def)
  then have "urange 20 10 \<inter> free_units demo_rmap \<noteq> {}" by blast
  ultimately show ?thesis
    using rmap_status_correct [OF demo_rmap_ok, of 10 20] sub by simp
qed

theorem rmap_allocs_disjoint_witness:
  "0 < (5 :: u32) \<and> 0 < (7 :: u32) \<and>
   (case alloc_all rmap_alloc demo_rmap [5, 7] of (rs, m') \<Rightarrow>
    rmap_ok m' \<and> disjoint_list (map (\<lambda>(i, n). urange i n) rs) \<and>
    (\<Union>(i, n) \<in> set rs. urange i n) \<subseteq> free_units demo_rmap \<and>
    free_units m' = free_units demo_rmap - (\<Union>(i, n) \<in> set rs. urange i n))"
  using rmap_allocs_disjoint [OF demo_rmap_ok, of "[5, 7]"] by (simp split: prod.splits)

end
