(* ===== verification/Dll.thy ===== *)
theory Dll
  imports Prelude
begin

text \<open>
  Doubly linked lists over explicit pointers. The kernel threads its ready queues, wait
  lists and I/O queues through \<open>next\<close> and \<open>prev\<close> fields of the queued structures. Here
  the two fields are functions from addresses to pointers, and \<open>dll h t n p xs\<close> says that
  the head pointer, the tail pointer and the fields spell the list \<open>xs\<close>. The lemmas give
  the three updates every one of those queues uses, in the form the C code has them.
\<close>

section \<open>Segments\<close>

fun lseg :: "(nat \<Rightarrow> ptr) \<Rightarrow> ptr \<Rightarrow> nat list \<Rightarrow> ptr \<Rightarrow> bool" where
  "lseg n a [] b = (a = b)"
| "lseg n a (x # xs) b = (a = Some x \<and> lseg n (n x) xs b)"

lemma lseg_append [simp]:
  "lseg n a (xs @ ys) b \<longleftrightarrow> (\<exists>c. lseg n a xs c \<and> lseg n c ys b)"
  by (induction xs arbitrary: a) auto

lemma lseg_cong:
  "(\<And>x. x \<in> set xs \<Longrightarrow> n x = n' x) \<Longrightarrow> lseg n a xs b \<longleftrightarrow> lseg n' a xs b"
  by (induction xs arbitrary: a) auto

lemma lseg_upd_other [simp]: "x \<notin> set xs \<Longrightarrow> lseg (n(x := v)) a xs b \<longleftrightarrow> lseg n a xs b"
  by (rule lseg_cong) auto

lemma lseg_unique:
  "lseg n a xs None \<Longrightarrow> lseg n a ys None \<Longrightarrow> xs = ys"
  by (induction xs arbitrary: a ys) (case_tac ys; auto)+

lemma lseg_head: "lseg n a xs None \<Longrightarrow> a = (if xs = [] then None else Some (hd xs))"
  by (cases xs) auto

section \<open>Doubly linked lists\<close>

definition dll :: "ptr \<Rightarrow> ptr \<Rightarrow> (nat \<Rightarrow> ptr) \<Rightarrow> (nat \<Rightarrow> ptr) \<Rightarrow> nat list \<Rightarrow> bool" where
  "dll h t n p xs \<longleftrightarrow> lseg n h xs None \<and> lseg p t (rev xs) None \<and> distinct xs"

lemma dll_rev: "dll h t n p xs \<longleftrightarrow> dll t h p n (rev xs)"
  by (auto simp: dll_def)

lemma dll_unique: "dll h t n p xs \<Longrightarrow> dll h t n p ys \<Longrightarrow> xs = ys"
  using lseg_unique by (auto simp: dll_def)

lemma dll_cong:
  assumes "\<And>x. x \<in> set xs \<Longrightarrow> n x = n' x" "\<And>x. x \<in> set xs \<Longrightarrow> p x = p' x"
  shows "dll h t n p xs \<longleftrightarrow> dll h t n' p' xs"
  using lseg_cong [of xs n n'] lseg_cong [of "rev xs" p p'] assms by (auto simp: dll_def)

lemma dll_Nil [simp]: "dll h t n p [] \<longleftrightarrow> h = None \<and> t = None"
  by (simp add: dll_def)

lemma dll_empty_iff: "dll h t n p xs \<Longrightarrow> (h = None \<longleftrightarrow> xs = []) \<and> (t = None \<longleftrightarrow> xs = [])"
  using lseg_head [of n h xs] lseg_head [of p t "rev xs"] by (auto simp: dll_def)

lemma dll_head: "dll h t n p (x # xs) \<Longrightarrow> h = Some x \<and> p x = None"
  by (auto simp: dll_def)

lemma dll_last: "dll h t n p (xs @ [x]) \<Longrightarrow> t = Some x \<and> n x = None"
  by (auto simp: dll_def)

lemma dll_distinct: "dll h t n p xs \<Longrightarrow> distinct xs"
  by (simp add: dll_def)

text \<open>The neighbours of an element.\<close>

lemma dll_mid:
  assumes "dll h t n p (xs @ x # ys)"
  shows "n x = (if ys = [] then None else Some (hd ys))"
    "p x = (if xs = [] then None else Some (last xs))"
    "h = Some x \<longleftrightarrow> xs = []" "t = Some x \<longleftrightarrow> ys = []"
proof -
  have n: "lseg n (n x) ys None" and p: "lseg p (p x) (rev xs) None" and d: "distinct (xs @ x # ys)"
    and h: "lseg n h (xs @ x # ys) None" and t: "lseg p t (rev ys @ x # rev xs) None"
    using assms by (auto simp: dll_def)
  show "n x = (if ys = [] then None else Some (hd ys))" using lseg_head [OF n] .
  show "p x = (if xs = [] then None else Some (last xs))"
    using lseg_head [OF p] by (simp add: hd_rev)
  show "h = Some x \<longleftrightarrow> xs = []" using lseg_head [OF h] d by (cases xs) auto
  show "t = Some x \<longleftrightarrow> ys = []"
    using lseg_head [OF t] d by (cases ys rule: rev_cases) auto
qed

section \<open>Insertion at either end\<close>

lemma dll_insert_head:
  assumes "dll h t n p xs" "x \<notin> set xs"
  shows "dll (Some x) (if t = None then Some x else t) (n(x := h))
    ((case h of None \<Rightarrow> p | Some a \<Rightarrow> p(a := Some x))(x := None)) (x # xs)"
proof (cases xs)
  case Nil
  with assms show ?thesis by (auto simp: dll_def)
next
  case (Cons y ys)
  with assms have "h = Some y" "t \<noteq> None"
    using dll_empty_iff [OF assms(1)] by (auto simp: dll_def)
  with assms Cons show ?thesis by (auto simp: dll_def)
qed

lemma dll_insert_tail:
  assumes "dll h t n p xs" "x \<notin> set xs"
  shows "dll (if h = None then Some x else h) (Some x)
    ((case t of None \<Rightarrow> n | Some a \<Rightarrow> n(a := Some x))(x := None)) (p(x := t)) (xs @ [x])"
  using dll_insert_head [of t h p n "rev xs" x] assms by (simp add: dll_rev [of _ _ _ _ "xs @ [x]"] dll_rev [of h])

section \<open>Removal\<close>

lemma lseg_skip:
  assumes "lseg n a (xs @ x # ys) None" "distinct (xs @ x # ys)"
  shows "lseg (if xs = [] then n else n(last xs := n x)) (if xs = [] then n x else a) (xs @ ys) None"
proof (cases xs rule: rev_cases)
  case Nil
  with assms show ?thesis by simp
next
  case (snoc zs z)
  with assms show ?thesis by auto
qed

lemma dll_remove:
  assumes d: "dll h t n p xs" and x: "x \<in> set xs"
  shows "dll (if h = Some x then n x else h) (if t = Some x then p x else t)
    (case p x of None \<Rightarrow> n | Some a \<Rightarrow> n(a := n x))
    (case n x of None \<Rightarrow> p | Some b \<Rightarrow> p(b := p x)) (remove1 x xs)"
proof -
  obtain ys zs where xs: "xs = ys @ x # zs" "x \<notin> set ys" using x by (meson split_list_first)
  note M = dll_mid [OF d [unfolded xs(1)]]
  have dist: "distinct (ys @ x # zs)" using d xs by (simp add: dll_def)
  have "lseg (if ys = [] then n else n(last ys := n x)) (if ys = [] then n x else h) (ys @ zs) None"
    using d dist xs by (intro lseg_skip) (auto simp: dll_def)
  moreover have "lseg (if rev zs = [] then p else p(last (rev zs) := p x))
      (if rev zs = [] then p x else t) (rev zs @ rev ys) None"
    using d dist xs by (intro lseg_skip) (auto simp: dll_def)
  moreover have "remove1 x xs = ys @ zs" using xs by (simp add: remove1_append)
  ultimately show ?thesis
    using M dist by (auto simp: dll_def last_rev split: if_splits)
qed

text \<open>Taking the first element off.\<close>

lemma dll_pop:
  assumes "dll (Some x) t n p xs"
  obtains ys where "xs = x # ys"
    "dll (n x) (if n x = None then None else t) n (case n x of None \<Rightarrow> p | Some b \<Rightarrow> p(b := None)) ys"
proof -
  obtain ys where xs: "xs = x # ys" using assms by (cases xs) (auto simp: dll_def)
  have "dll (n x) (if t = Some x then None else t) n
      (case n x of None \<Rightarrow> p | Some b \<Rightarrow> p(b := None)) ys"
    using dll_remove [of "Some x" t n p xs x] dll_head [of "Some x" t n p x ys] assms xs
    by (cases "n x") (simp_all split: if_splits)
  moreover have "t = Some x \<longleftrightarrow> n x = None"
    using dll_mid [of "Some x" t n p "[]" x ys] assms xs by auto
  ultimately show thesis using that [OF xs] by simp
qed

section \<open>Rings\<close>

text \<open>
  Circular lists with a sentinel: the head and the elements are nodes of one type, and the
  fields of a node are pointers to nodes. \<open>ring n p h xs\<close> says that from \<open>h\<close> the fields
  lead through \<open>xs\<close> back to \<open>h\<close> in both directions.
\<close>

fun chain :: "('a \<Rightarrow> 'a option) \<Rightarrow> ('a \<Rightarrow> 'a option) \<Rightarrow> 'a list \<Rightarrow> bool" where
  "chain n p (a # b # xs) = (n a = Some b \<and> p b = Some a \<and> chain n p (b # xs))"
| "chain n p _ = True"

definition ring :: "('a \<Rightarrow> 'a option) \<Rightarrow> ('a \<Rightarrow> 'a option) \<Rightarrow> 'a \<Rightarrow> 'a list \<Rightarrow> bool" where
  "ring n p h xs \<longleftrightarrow> chain n p (h # xs @ [h]) \<and> distinct (h # xs)"

lemma chain_Cons:
  "chain n p (a # xs) \<longleftrightarrow> xs = [] \<or> n a = Some (hd xs) \<and> p (hd xs) = Some a \<and> chain n p xs"
  by (cases xs) auto

lemma chain_append:
  "chain n p (xs @ a # ys) \<longleftrightarrow> chain n p (xs @ [a]) \<and> chain n p (a # ys)"
  by (induction xs) (auto simp: chain_Cons hd_append)

lemma chain_cong:
  assumes "\<And>x. x \<in> set (butlast xs) \<Longrightarrow> n x = n' x" "\<And>x. x \<in> set (tl xs) \<Longrightarrow> p x = p' x"
  shows "chain n p xs \<longleftrightarrow> chain n' p' xs"
  using assms
proof (induction xs)
  case (Cons a xs)
  show ?case
  proof (cases xs)
    case (Cons b ys)
    have "chain n p xs \<longleftrightarrow> chain n' p' xs"
      using Cons.IH Cons.prems Cons by simp
    then show ?thesis using Cons Cons.prems by auto
  qed simp
qed simp

lemma ring_cong:
  assumes "\<And>x. x \<in> insert h (set xs) \<Longrightarrow> n x = n' x \<and> p x = p' x"
  shows "ring n p h xs \<longleftrightarrow> ring n' p' h xs"
  using assms chain_cong [of "h # xs @ [h]" n n' p p'] by (auto simp: ring_def butlast_append)

lemma ring_Nil: "ring n p h [] \<longleftrightarrow> n h = Some h \<and> p h = Some h"
  by (simp add: ring_def)

lemma ring_distinct: "ring n p h xs \<Longrightarrow> distinct (h # xs)"
  by (simp add: ring_def)

lemma ring_snoc:
  "ring n p h (xs @ [x]) \<longleftrightarrow>
   chain n p (h # xs @ [x]) \<and> n x = Some h \<and> p h = Some x \<and> distinct (h # xs @ [x])"
  using chain_append [of n p "h # xs" x "[h]"] by (auto simp: ring_def)

lemma ring_next: "ring n p h xs \<Longrightarrow> n h = Some (hd (xs @ [h]))"
  by (cases xs) (auto simp: ring_def)

lemma ring_prev: "ring n p h xs \<Longrightarrow> p h = Some (last (h # xs))"
  by (cases xs rule: rev_cases) (auto simp: ring_Nil ring_snoc)

text \<open>Insertion before the head: the element becomes the last one.\<close>

lemma ring_insert_last:
  assumes r: "ring n p h xs" and x: "x \<notin> insert h (set xs)" and l: "p h = Some l"
  shows "ring (n(x := Some h, l := Some x)) (p(x := Some l, h := Some x)) h (xs @ [x])"
proof (cases xs rule: rev_cases)
  case Nil
  then show ?thesis using assms by (auto simp: ring_def)
next
  case (snoc zs z)
  then have z: "z = l" using ring_prev [OF r] l by simp
  have c: "chain n p (h # zs @ [l])" and d: "distinct (h # zs @ [l])"
    using r snoc z by (simp_all add: ring_snoc)
  have "chain (n(x := Some h, l := Some x)) (p(x := Some l, h := Some x)) (h # zs @ [l])"
    using c d x snoc z
    by (subst chain_cong [where n' = n and p' = p]) (auto simp: butlast_append split: if_splits)
  then show ?thesis
    using d x snoc z ring_snoc [of "n(x := Some h, l := Some x)" "p(x := Some l, h := Some x)" h xs x]
      chain_append [of "n(x := Some h, l := Some x)" "p(x := Some l, h := Some x)" "h # zs" l "[x]"]
    by auto
qed

text \<open>Unlinking an element.\<close>

lemma ring_remove:
  assumes r: "ring n p h xs" and x: "x \<in> set xs"
  obtains a b where "n x = Some b" "p x = Some a" "a \<in> insert h (set xs)" "b \<in> insert h (set xs)"
    "a \<noteq> x" "b \<noteq> x" "ring (n(a := Some b)) (p(b := Some a)) h (remove1 x xs)"
proof -
  obtain ys zs where xs: "xs = ys @ x # zs" "x \<notin> set ys" using x by (meson split_list_first)
  have d: "distinct (h # ys @ x # zs)" using ring_distinct [OF r] xs by simp
  define a where "a = last (h # ys)"
  define b where "b = hd (zs @ [h])"
  define as where "as = butlast (h # ys)"
  define bs where "bs = tl (zs @ [h])"
  have ha: "h # ys = as @ [a]" by (simp add: a_def as_def)
  have hb: "zs @ [h] = b # bs" by (simp add: b_def bs_def)
  have e: "h # xs @ [h] = as @ a # x # b # bs"
    using ha hb xs by (metis append.assoc append_Cons append_Nil)
  have c: "chain n p (as @ [a])" "chain n p (a # x # b # bs)"
    using r chain_append [of n p as a "x # b # bs"] by (simp_all add: ring_def e)
  have split: "distinct (as @ [a])" "set (as @ [a]) \<inter> set zs = {}" "distinct (b # bs)"
    using d unfolding ha [symmetric] hb [symmetric] by auto
  have tls: "tl (as @ [a]) = ys" "butlast (b # bs) = zs"
    unfolding ha [symmetric] hb [symmetric] by simp_all
  have "b \<in> set (zs @ [h])" using hb by simp
  then have nb: "b \<notin> set ys" "b \<noteq> x" "b \<in> insert h (set xs)" using d xs by auto
  have "a \<in> set (h # ys)" using ha by simp
  then have na: "a \<noteq> x" "a \<in> insert h (set xs)" using d xs by auto
  let ?n = "n(a := Some b)" and ?p = "p(b := Some a)"
  have "chain ?n ?p (as @ [a])"
    using c(1) split nb by (subst chain_cong [where n' = n and p' = p]) (auto simp: tls)
  moreover have "chain ?n ?p (b # bs)"
    using c(2) split by (subst chain_cong [where n' = n and p' = p]) (auto simp: tls simp del: butlast.simps)
  ultimately have "chain ?n ?p (as @ a # b # bs)"
    using chain_append [of ?n ?p as a "b # bs"] by simp
  moreover have "remove1 x xs = ys @ zs" using xs by (simp add: remove1_append)
  moreover have "h # (ys @ zs) @ [h] = as @ a # b # bs"
    using ha hb by (metis append.assoc append_Cons append_Nil)
  ultimately have "ring ?n ?p h (remove1 x xs)" using d by (simp add: ring_def)
  then show thesis using that c(2) na nb by simp
qed

end
