(* ===== verification/Sched.thy ===== *)
theory Sched
  imports Dll
begin

text \<open>
  The thread scheduler of \<^verbatim>\<open>src/src/sys/krnl/sched.c\<close>: one ready queue per priority, threaded
  through the \<open>next_ready\<close> and \<open>prev_ready\<close> fields of the thread control blocks, a summary
  word with one bit per non-empty queue, priority boosting and decay, dispatching,
  suspension and priority changes.
\<close>

section \<open>Threads and scheduler state\<close>

datatype tstate =
  INITIALIZED | READY | RUNNING | WAITING | TERMINATED | SUSPENDED | TRANSITION

record thread =
  t_state :: tstate
  quantum :: int
  wait_reason :: nat
  tflags :: u32
  priority :: nat
  base_priority :: nat
  suspend_count :: nat
  exitcode :: int
  pending_signals :: u32
  blocked_signals :: u32
  preempts :: u32
  context_switches :: u32
  next_ready :: ptr
  prev_ready :: ptr
  waitlist :: ptr
  waitkey :: int

record sched =
  thr :: "nat \<Rightarrow> thread"
  current :: nat
  preempt_flag :: bool
  ready_head :: "nat \<Rightarrow> ptr"
  ready_tail :: "nat \<Rightarrow> ptr"
  summary :: u32

text \<open>A call that may end in \<^verbatim>\<open>panic\<close> (or a null dereference, which the kernel turns into one).\<close>

datatype 'a kres = Panic string | Ret 'a

primrec kbind :: "'a kres \<Rightarrow> ('a \<Rightarrow> 'b kres) \<Rightarrow> 'b kres" where
  "kbind (Panic e) f = Panic e"
| "kbind (Ret x) f = f x"

lemma kbind_Ret_iff: "kbind r f = Ret y \<longleftrightarrow> (\<exists>x. r = Ret x \<and> f x = Ret y)"
  by (cases r) auto

definition THREAD_FPU_ENABLED :: u32 where "THREAD_FPU_ENABLED = 2"
definition THREAD_ALERTABLE :: u32 where "THREAD_ALERTABLE = 4"
definition THREAD_INTERRUPTED :: u32 where "THREAD_INTERRUPTED = 8"
definition DEFAULT_QUANTUM :: int where "DEFAULT_QUANTUM = 36"
definition THREAD_PRIORITY_LEVELS :: nat where "THREAD_PRIORITY_LEVELS = 32"
definition PRIORITY_TIME_CRITICAL :: nat where "PRIORITY_TIME_CRITICAL = 15"

definition upd_thread :: "nat \<Rightarrow> (thread \<Rightarrow> thread) \<Rightarrow> 'z sched_scheme \<Rightarrow> 'z sched_scheme" where
  "upd_thread t f s = s\<lparr>thr := (thr s)(t := f (thr s t))\<rparr>"

section \<open>The ready queues\<close>

definition insert_ready_head :: "nat \<Rightarrow> 'z sched_scheme \<Rightarrow> 'z sched_scheme" where
  "insert_ready_head t s =
     (let p = priority (thr s t) in
      case ready_head s p of
        None \<Rightarrow>
          (upd_thread t (\<lambda>x. x\<lparr>next_ready := None, prev_ready := None\<rparr>) s)
          \<lparr>ready_head := (ready_head s)(p := Some t), ready_tail := (ready_tail s)(p := Some t),
           summary := summary s OR push_bit p 1\<rparr>
      | Some h \<Rightarrow>
          (upd_thread h (\<lambda>x. x\<lparr>prev_ready := Some t\<rparr>)
            (upd_thread t (\<lambda>x. x\<lparr>next_ready := Some h, prev_ready := None\<rparr>) s))
          \<lparr>ready_head := (ready_head s)(p := Some t)\<rparr>)"

definition insert_ready_tail :: "nat \<Rightarrow> 'z sched_scheme \<Rightarrow> 'z sched_scheme" where
  "insert_ready_tail t s =
     (let p = priority (thr s t) in
      case ready_tail s p of
        None \<Rightarrow>
          (upd_thread t (\<lambda>x. x\<lparr>next_ready := None, prev_ready := None\<rparr>) s)
          \<lparr>ready_head := (ready_head s)(p := Some t), ready_tail := (ready_tail s)(p := Some t),
           summary := summary s OR push_bit p 1\<rparr>
      | Some l \<Rightarrow>
          (upd_thread l (\<lambda>x. x\<lparr>next_ready := Some t\<rparr>)
            (upd_thread t (\<lambda>x. x\<lparr>next_ready := None, prev_ready := Some l\<rparr>) s))
          \<lparr>ready_tail := (ready_tail s)(p := Some t)\<rparr>)"

text \<open>\<^verbatim>\<open>if (q) q->field = v\<close>: the update of a neighbour, when there is one.\<close>

definition upd_opt :: "ptr \<Rightarrow> (thread \<Rightarrow> thread) \<Rightarrow> 'z sched_scheme \<Rightarrow> 'z sched_scheme" where
  "upd_opt q f s = (case q of None \<Rightarrow> s | Some x \<Rightarrow> upd_thread x f s)"

definition remove_from_ready_queue :: "nat \<Rightarrow> 'z sched_scheme \<Rightarrow> 'z sched_scheme" where
  "remove_from_ready_queue t s =
     (let p = priority (thr s t);
          nx = next_ready (thr s t); pv = prev_ready (thr s t);
          s1 = upd_opt nx (\<lambda>x. x\<lparr>prev_ready := pv\<rparr>) s;
          s2 = upd_opt pv (\<lambda>x. x\<lparr>next_ready := nx\<rparr>) s1;
          s3 = (if ready_head s2 p = Some t then s2\<lparr>ready_head := (ready_head s2)(p := nx)\<rparr> else s2);
          s4 = (if ready_tail s3 p = Some t then s3\<lparr>ready_tail := (ready_tail s3)(p := pv)\<rparr> else s3) in
      if ready_tail s4 p = None then s4\<lparr>summary := summary s4 AND NOT (push_bit p 1)\<rparr> else s4)"

text \<open>The portable \<^verbatim>\<open>find_highest_bit\<close> of \<^verbatim>\<open>bitops.h\<close>: shift left until the top bit is set.\<close>

primrec find_highest_bit_loop :: "nat \<Rightarrow> u32 \<Rightarrow> nat" where
  "find_highest_bit_loop 0 m = 0"
| "find_highest_bit_loop (Suc n) m =
     (if m AND 0x80000000 = 0 then find_highest_bit_loop n (push_bit 1 m) else Suc n)"

definition find_highest_bit :: "u32 \<Rightarrow> nat" where
  "find_highest_bit m = find_highest_bit_loop 31 m"

definition find_ready_thread :: "'z sched_scheme \<Rightarrow> (ptr \<times> 'z sched_scheme) kres" where
  "find_ready_thread s =
     (if summary s = 0 then Ret (None, s)
      else
        let p = find_highest_bit (summary s) in
        case ready_head s p of
          None \<Rightarrow> Panic ''null dereference''
        | Some t \<Rightarrow>
            let s1 =
              (case next_ready (thr s t) of
                 None \<Rightarrow> s\<lparr>ready_head := (ready_head s)(p := None), ready_tail := (ready_tail s)(p := None),
                           summary := summary s AND NOT (push_bit p 1)\<rparr>
               | Some n \<Rightarrow> (upd_thread n (\<lambda>x. x\<lparr>prev_ready := None\<rparr>) s)
                           \<lparr>ready_head := (ready_head s)(p := Some n)\<rparr>) in
            Ret (Some t, upd_thread t (\<lambda>x. x\<lparr>next_ready := None, prev_ready := None\<rparr>) s1))"

section \<open>Making a thread ready\<close>

definition set_preempt :: "nat \<Rightarrow> 'z sched_scheme \<Rightarrow> 'z sched_scheme" where
  "set_preempt t s =
     (if priority (thr s t) > priority (thr s (current s)) then s\<lparr>preempt_flag := True\<rparr> else s)"

definition mark_thread_ready :: "nat \<Rightarrow> int \<Rightarrow> nat \<Rightarrow> 'z sched_scheme \<Rightarrow> 'z sched_scheme kres" where
  "mark_thread_ready t charge boost s =
     (let th = thr s t in
      if suspend_count th > 0 then Ret (upd_thread t (\<lambda>x. x\<lparr>t_state := SUSPENDED\<rparr>) s)
      else if tflags th AND THREAD_INTERRUPTED \<noteq> 0 \<and> t_state th = READY then Ret s
      else
        let newprio = base_priority th + boost;
            newprio1 = (if newprio > PRIORITY_TIME_CRITICAL then PRIORITY_TIME_CRITICAL else newprio);
            th1 = th\<lparr>quantum := quantum th - charge,
                     priority := (if newprio1 > priority th then newprio1 else priority th)\<rparr> in
        if t_state th1 = READY then Panic ''thread already ready''
        else
          let th2 = th1\<lparr>t_state := READY\<rparr> in
          Ret (set_preempt t
            (if quantum th2 > 0 then insert_ready_head t (upd_thread t (\<lambda>_. th2) s)
             else
               insert_ready_tail t (upd_thread t (\<lambda>_. th2\<lparr>quantum := DEFAULT_QUANTUM,
                 priority := (if priority th2 > base_priority th2 then priority th2 - 1
                              else priority th2)\<rparr>) s))))"

section \<open>Dispatching\<close>

text \<open>What \<^verbatim>\<open>check_dpc_queue\<close> does to the state; a procedure it runs may end in a panic.\<close>

type_synonym 'z dpcs = "'z sched_scheme \<Rightarrow> 'z sched_scheme kres"

definition mark_thread_running :: "'z sched_scheme \<Rightarrow> 'z sched_scheme" where
  "mark_thread_running s =
     upd_thread (current s)
       (\<lambda>x. x\<lparr>t_state := RUNNING, context_switches := context_switches x + 1\<rparr>) s"

text \<open>
  \<open>dpcs\<close> stands for \<^verbatim>\<open>check_dpc_queue\<close>, which runs the queued procedures of the drivers. After
  \<^verbatim>\<open>switch_context(t)\<close> the code goes on in the context of \<open>t\<close>, so \<^verbatim>\<open>self()\<close> is \<open>t\<close>.
\<close>

definition dispatch :: "'z dpcs \<Rightarrow> 'z sched_scheme \<Rightarrow> 'z sched_scheme kres" where
  "dispatch dpcs s =
     (let cur = current s in
      kbind (dpcs (s\<lparr>preempt_flag := False\<rparr>)) (\<lambda>s1.
        kbind (find_ready_thread s1) (\<lambda>(r, s2).
          case r of
            None \<Rightarrow> Panic ''No thread ready to run''
          | Some t \<Rightarrow>
              if t = cur then Ret (upd_thread t (\<lambda>x. x\<lparr>t_state := RUNNING\<rparr>) s2)
              else
                let s3 = (if tflags (thr s2 cur) AND THREAD_FPU_ENABLED \<noteq> 0
                          then upd_thread t (\<lambda>x. x\<lparr>tflags := tflags x AND NOT THREAD_FPU_ENABLED\<rparr>) s2
                          else s2) in
                Ret (mark_thread_running (s3\<lparr>current := t\<rparr>)))))"

definition enter_wait :: "'z dpcs \<Rightarrow> nat \<Rightarrow> 'z sched_scheme \<Rightarrow> 'z sched_scheme kres" where
  "enter_wait dpcs reason s =
     dispatch dpcs (upd_thread (current s) (\<lambda>x. x\<lparr>t_state := WAITING, wait_reason := reason\<rparr>) s)"

definition signals_ready :: "thread \<Rightarrow> bool" where
  "signals_ready th \<longleftrightarrow> pending_signals th AND NOT (blocked_signals th) \<noteq> 0"

text \<open>
  \<^verbatim>\<open>enter_alertable_wait\<close> up to the point where another thread runs (\<open>Inl\<close> when signals are
  pending and the call returns \<open>-EINTR\<close> at once), and what it does when the thread runs again.
\<close>

definition enter_alertable_wait ::
  "'z dpcs \<Rightarrow> nat \<Rightarrow> 'z sched_scheme \<Rightarrow> (int + 'z sched_scheme) kres" where
  "enter_alertable_wait dpcs reason s =
     (if signals_ready (thr s (current s)) then Ret (Inl (- EINTR))
      else
        kbind (dispatch dpcs (upd_thread (current s)
          (\<lambda>x. x\<lparr>t_state := WAITING, wait_reason := reason,
                 tflags := (tflags x AND NOT THREAD_INTERRUPTED) OR THREAD_ALERTABLE\<rparr>) s))
          (\<lambda>s'. Ret (Inr s')))"

definition leave_alertable_wait :: "'z sched_scheme \<Rightarrow> int \<times> 'z sched_scheme" where
  "leave_alertable_wait s =
     (let t = current s;
          s1 = upd_thread t (\<lambda>x. x\<lparr>tflags := tflags x AND NOT THREAD_ALERTABLE\<rparr>) s in
      if tflags (thr s1 t) AND THREAD_INTERRUPTED \<noteq> 0
      then (- EINTR, upd_thread t (\<lambda>x. x\<lparr>tflags := tflags x AND NOT THREAD_INTERRUPTED\<rparr>) s1)
      else (0, s1))"

definition interrupt_thread :: "nat \<Rightarrow> 'z sched_scheme \<Rightarrow> (int \<times> 'z sched_scheme) kres" where
  "interrupt_thread t s =
     (if t_state (thr s t) \<noteq> WAITING then Ret (- EBUSY, s)
      else if tflags (thr s t) AND THREAD_ALERTABLE = 0 then Ret (- EPERM, s)
      else
        kbind (mark_thread_ready t 1 1
          (upd_thread t (\<lambda>x. x\<lparr>tflags := tflags x OR THREAD_INTERRUPTED\<rparr>) s))
          (\<lambda>s'. Ret (0, s')))"

definition preempt_thread :: "'z dpcs \<Rightarrow> 'z sched_scheme \<Rightarrow> 'z sched_scheme kres" where
  "preempt_thread dpcs s =
     (let t = current s;
          s1 = upd_thread t (\<lambda>x. x\<lparr>preempts := preempts x + 1\<rparr>) s;
          s2 = (if quantum (thr s1 t) \<le> 0
                then upd_thread t (\<lambda>x. x\<lparr>quantum := DEFAULT_QUANTUM,
                       priority := (if priority x > base_priority x then priority x - 1 else priority x)\<rparr>) s1
                else s1);
          s3 = upd_thread t (\<lambda>x. x\<lparr>t_state := READY\<rparr>) s2 in
      dispatch dpcs (insert_ready_tail t s3))"

definition yield :: "'z dpcs \<Rightarrow> 'z sched_scheme \<Rightarrow> 'z sched_scheme kres" where
  "yield dpcs s =
     kbind (mark_thread_ready (current s) 0 0 (upd_thread (current s) (\<lambda>x. x\<lparr>quantum := 0\<rparr>) s))
       (dispatch dpcs)"

section \<open>Suspension and priorities\<close>

definition suspend_thread ::
  "'z dpcs \<Rightarrow> nat \<Rightarrow> 'z sched_scheme \<Rightarrow> (nat \<times> 'z sched_scheme) kres" where
  "suspend_thread dpcs t s =
     (let prevcount = suspend_count (thr s t);
          s1 = upd_thread t (\<lambda>x. x\<lparr>suspend_count := suspend_count x + 1\<rparr>) s in
      if prevcount = 0 then
        if t_state (thr s1 t) = READY then
          Ret (prevcount, upd_thread t (\<lambda>x. x\<lparr>t_state := SUSPENDED\<rparr>) (remove_from_ready_queue t s1))
        else if t_state (thr s1 t) = RUNNING then
          kbind (dispatch dpcs (upd_thread t (\<lambda>x. x\<lparr>t_state := SUSPENDED\<rparr>) s1))
            (\<lambda>s'. Ret (prevcount, s'))
        else Ret (prevcount, s1)
      else Ret (prevcount, s1))"

definition resume_thread :: "nat \<Rightarrow> 'z sched_scheme \<Rightarrow> (nat \<times> 'z sched_scheme) kres" where
  "resume_thread t s =
     (let prevcount = suspend_count (thr s t) in
      if prevcount > 0 then
        let s1 = upd_thread t (\<lambda>x. x\<lparr>suspend_count := suspend_count x - 1\<rparr>) s in
        if suspend_count (thr s1 t) = 0 \<and>
           (t_state (thr s1 t) = SUSPENDED \<or> t_state (thr s1 t) = INITIALIZED)
        then kbind (mark_thread_ready t 0 0 s1) (\<lambda>s'. Ret (prevcount, s'))
        else Ret (prevcount, s1)
      else Ret (prevcount, s))"

definition set_both :: "nat \<Rightarrow> thread \<Rightarrow> thread" where
  "set_both p x = x\<lparr>base_priority := p, priority := p\<rparr>"

definition set_thread_priority ::
  "'z dpcs \<Rightarrow> nat \<Rightarrow> int \<Rightarrow> 'z sched_scheme \<Rightarrow> (int \<times> 'z sched_scheme) kres" where
  "set_thread_priority dpcs t prio s =
     (if prio < 0 \<or> prio \<ge> int THREAD_PRIORITY_LEVELS then Ret (- EINVAL, s)
      else if int (base_priority (thr s t)) = prio then Ret (0, s)
      else
        let p = nat prio in
        if t = current s then
          if p < priority (thr s t) then
            kbind (mark_thread_ready t 0 0 (upd_thread t (set_both p) s))
              (\<lambda>s1. kbind (dispatch dpcs s1) (\<lambda>s2. Ret (0, s2)))
          else Ret (0, upd_thread t (set_both p) s)
        else if t_state (thr s t) = READY then
          kbind (mark_thread_ready t 0 0
            (upd_thread t (\<lambda>x. (set_both p x)\<lparr>t_state := TRANSITION\<rparr>) (remove_from_ready_queue t s)))
            (\<lambda>s1. Ret (0, s1))
        else Ret (0, upd_thread t (set_both p) s))"

text \<open>\<^verbatim>\<open>init_sched\<close>: \<open>zero\<close> is the control block all of whose fields are zero.\<close>

definition zero_thread :: thread where
  "zero_thread =
     \<lparr>t_state = INITIALIZED, quantum = 0, wait_reason = 0, tflags = 0, priority = 0,
      base_priority = 0, suspend_count = 0, exitcode = 0, pending_signals = 0, blocked_signals = 0,
      preempts = 0, context_switches = 0, next_ready = None, prev_ready = None, waitlist = None,
      waitkey = 0\<rparr>"

definition init_sched :: "'z sched_scheme \<Rightarrow> 'z sched_scheme" where
  "init_sched s =
     (upd_thread (current s) (\<lambda>_. zero_thread\<lparr>t_state := RUNNING\<rparr>) s)
     \<lparr>ready_head := (\<lambda>_. None), ready_tail := (\<lambda>_. None), summary := push_bit 0 1\<rparr>"

section \<open>The highest set bit\<close>

lemma bit_top: "m AND 0x80000000 = 0 \<longleftrightarrow> \<not> bit m 31" for m :: u32
  using and_exp_eq_0_iff_not_bit [of m 31] by simp

lemma find_highest_bit_loop_spec:
  fixes m :: u32
  assumes "n < 32" "m \<noteq> 0" "\<forall>j. bit m j \<longrightarrow> j \<le> n"
  shows "bit m (find_highest_bit_loop n (push_bit (31 - n) m)) \<and>
    (\<forall>j. bit m j \<longrightarrow> j \<le> find_highest_bit_loop n (push_bit (31 - n) m))"
  using assms
proof (induction n)
  case 0
  then obtain j where "bit m j" by (metis bit_eqI bit_0_eq bot_apply bot_bool_def)
  with 0 show ?case by auto
next
  case (Suc n)
  have top: "bit (push_bit (31 - Suc n) m) 31 \<longleftrightarrow> bit m (Suc n)"
    using Suc.prems(1) by (auto simp: bit_push_bit_iff)
  have "1 + (31 - Suc n) = 31 - n" using Suc.prems(1) by simp
  then have sh: "push_bit 1 (push_bit (31 - Suc n) m) = push_bit (31 - n) m"
    by (simp only: push_bit_push_bit)
  have step: "find_highest_bit_loop (Suc n) (push_bit (31 - Suc n) m) =
      (if bit m (Suc n) then Suc n else find_highest_bit_loop n (push_bit (31 - n) m))"
    by (cases "bit m (Suc n)")
      (simp_all only: find_highest_bit_loop.simps bit_top top sh if_True if_False
        not_True_eq_False not_False_eq_True)
  show ?case
  proof (cases "bit m (Suc n)")
    case True
    then show ?thesis using Suc.prems step by simp
  next
    case False
    then have "\<forall>j. bit m j \<longrightarrow> j \<le> n" using Suc.prems(3) le_Suc_eq by auto
    then show ?thesis using Suc step False by simp
  qed
qed

lemma find_highest_bit_spec:
  fixes m :: u32
  assumes "m \<noteq> 0"
  shows "bit m (find_highest_bit m)" "bit m j \<Longrightarrow> j \<le> find_highest_bit m"
    "find_highest_bit m < 32"
proof -
  have "\<forall>j. bit m j \<longrightarrow> j \<le> 31" using bit_imp_le_length [of m] by fastforce
  then have *: "bit m (find_highest_bit m) \<and> (\<forall>j. bit m j \<longrightarrow> j \<le> find_highest_bit m)"
    using find_highest_bit_loop_spec [of 31 m] assms by (simp add: find_highest_bit_def)
  then show "bit m (find_highest_bit m)" "bit m j \<Longrightarrow> j \<le> find_highest_bit m" by auto
  show "find_highest_bit m < 32"
    using * bit_imp_le_length [of m "find_highest_bit m"] by simp
qed

lemma bit_set_bit [simp]:
  "bit (m OR 2 ^ p) j \<longleftrightarrow> bit m j \<or> j = p" if "j < 32" for m :: u32
  using that by (auto simp: bit_or_iff bit_exp_iff)

lemma bit_clear_bit [simp]:
  "bit (m AND NOT (2 ^ p)) j \<longleftrightarrow> bit m j \<and> j \<noteq> p" if "j < 32" for m :: u32
  using that by (auto simp: bit_and_iff bit_not_iff bit_exp_iff)

section \<open>The queues as lists\<close>

definition nxt :: "'z sched_scheme \<Rightarrow> nat \<Rightarrow> ptr" where
  "nxt s t = next_ready (thr s t)"

definition prv :: "'z sched_scheme \<Rightarrow> nat \<Rightarrow> ptr" where
  "prv s t = prev_ready (thr s t)"

text \<open>
  The ready queues spell the lists \<open>q 0, \<dots>, q 31\<close>: the pointers of every level form a
  doubly linked list of threads of that priority, and the summary word has exactly the
  bits of the non-empty levels.
\<close>

definition queues :: "'z sched_scheme \<Rightarrow> (nat \<Rightarrow> nat list) \<Rightarrow> bool" where
  "queues s q \<longleftrightarrow> (\<forall>p < 32.
     dll (ready_head s p) (ready_tail s p) (nxt s) (prv s) (q p) \<and>
     (bit (summary s) p \<longleftrightarrow> q p \<noteq> []) \<and> (\<forall>t \<in> set (q p). priority (thr s t) = p))"

text \<open>Everything of a thread but its queue links.\<close>

definition core :: "thread \<Rightarrow> thread" where
  "core th = th\<lparr>next_ready := None, prev_ready := None\<rparr>"

definition same_core :: "'z sched_scheme \<Rightarrow> 'z sched_scheme \<Rightarrow> bool" where
  "same_core s s' \<longleftrightarrow> (\<forall>t. core (thr s' t) = core (thr s t)) \<and> current s' = current s \<and>
     preempt_flag s' = preempt_flag s"

lemma core_fields:
  assumes "core a = core b"
  shows "t_state a = t_state b" "priority a = priority b" "base_priority a = base_priority b"
    "suspend_count a = suspend_count b" "tflags a = tflags b" "quantum a = quantum b"
    "waitlist a = waitlist b" "waitkey a = waitkey b"
  using assms by (cases a, cases b, simp add: core_def)+

lemma upd_thread_simps [simp]:
  "thr (upd_thread t f s) = (thr s)(t := f (thr s t))"
  "current (upd_thread t f s) = current s" "preempt_flag (upd_thread t f s) = preempt_flag s"
  "ready_head (upd_thread t f s) = ready_head s" "ready_tail (upd_thread t f s) = ready_tail s"
  "summary (upd_thread t f s) = summary s"
  by (simp_all add: upd_thread_def)

lemma upd_opt_simps [simp]:
  "current (upd_opt q f s) = current s" "preempt_flag (upd_opt q f s) = preempt_flag s"
  "ready_head (upd_opt q f s) = ready_head s" "ready_tail (upd_opt q f s) = ready_tail s"
  "summary (upd_opt q f s) = summary s"
  "thr (upd_opt q f s) = (case q of None \<Rightarrow> thr s | Some x \<Rightarrow> (thr s)(x := f (thr s x)))"
  by (simp_all add: upd_opt_def split: option.splits)

lemma core_links [simp]:
  "core (th\<lparr>next_ready := a\<rparr>) = core th" "core (th\<lparr>prev_ready := a\<rparr>) = core th"
  by (simp_all add: core_def)

lemma queuesD:
  assumes "queues s q" "p < 32"
  shows "dll (ready_head s p) (ready_tail s p) (nxt s) (prv s) (q p)"
    "bit (summary s) p \<longleftrightarrow> q p \<noteq> []" "\<forall>t \<in> set (q p). priority (thr s t) = p"
  using assms by (auto simp: queues_def)

text \<open>A change of one level that leaves the links of the threads on the other levels alone.\<close>

lemma queues_level:
  assumes q: "queues s q" and p: "p < 32"
    and level: "dll (ready_head s' p) (ready_tail s' p) (nxt s') (prv s') xs"
    and bits: "\<forall>j < 32. bit (summary s') j \<longleftrightarrow> (if j = p then xs \<noteq> [] else bit (summary s) j)"
    and ends: "\<forall>j. j \<noteq> p \<longrightarrow> ready_head s' j = ready_head s j \<and> ready_tail s' j = ready_tail s j"
    and links: "\<forall>x. x \<notin> set xs \<union> set (q p) \<longrightarrow> nxt s' x = nxt s x \<and> prv s' x = prv s x"
    and core: "same_core s s'"
    and new: "\<forall>x \<in> set xs. priority (thr s x) = p"
  shows "queues s' (q(p := xs))"
  unfolding queues_def
proof (intro allI impI)
  fix j :: nat
  assume j: "j < 32"
  have prio: "\<forall>x. priority (thr s' x) = priority (thr s x)"
    using core core_fields(2) unfolding same_core_def by blast
  show "dll (ready_head s' j) (ready_tail s' j) (nxt s') (prv s') ((q(p := xs)) j) \<and>
    (bit (summary s') j \<longleftrightarrow> (q(p := xs)) j \<noteq> []) \<and>
    (\<forall>t \<in> set ((q(p := xs)) j). priority (thr s' t) = j)"
  proof (cases "j = p")
    case True
    with level bits new prio j show ?thesis by auto
  next
    case False
    have "\<forall>x \<in> set (q j). x \<notin> set xs \<union> set (q p)"
      using queuesD(3) [OF q j] queuesD(3) [OF q p] new False by fastforce
    then have "dll (ready_head s j) (ready_tail s j) (nxt s') (prv s') (q j)"
      using queuesD(1) [OF q j] links dll_cong [of "q j" "nxt s'" "nxt s" "prv s'" "prv s"] by auto
    with False ends bits prio queuesD(2,3) [OF q j] j show ?thesis by auto
  qed
qed

lemma insert_ready_tail_queues:
  assumes q: "queues s q" and p: "priority (thr s t) = p" "p < 32" and t: "t \<notin> set (q p)"
  shows "queues (insert_ready_tail t s) (q(p := q p @ [t])) \<and> same_core s (insert_ready_tail t s)"
proof -
  let ?s = "insert_ready_tail t s"
  note D = queuesD [OF q p(2)]
  have tail: "ready_tail s p = None \<longleftrightarrow> q p = []" "ready_head s p = None \<longleftrightarrow> q p = []"
    using dll_empty_iff [OF D(1)] by auto
  have l: "ready_tail s p = Some l \<Longrightarrow> l \<in> set (q p)" for l
    using D(1) by (cases "q p" rule: rev_cases) (auto simp: dll_def)
  then have ne: "ready_tail s p \<noteq> Some t" using t by auto
  have "nxt ?s = (case ready_tail s p of None \<Rightarrow> nxt s | Some a \<Rightarrow> (nxt s)(a := Some t))(t := None)"
    "prv ?s = (prv s)(t := ready_tail s p)"
    using ne p by (auto simp: insert_ready_tail_def Let_def nxt_def prv_def fun_eq_iff split: option.splits)
  moreover have "ready_head ?s p = (if ready_head s p = None then Some t else ready_head s p)"
    "ready_tail ?s p = Some t"
    using p tail by (auto simp: insert_ready_tail_def Let_def split: option.splits)
  ultimately have L: "dll (ready_head ?s p) (ready_tail ?s p) (nxt ?s) (prv ?s) (q p @ [t])"
    using dll_insert_tail [OF D(1) t] by simp
  have links: "\<forall>x. x \<notin> set (q p @ [t]) \<union> set (q p) \<longrightarrow> nxt ?s x = nxt s x \<and> prv ?s x = prv s x"
    using l \<open>nxt ?s = _\<close> \<open>prv ?s = _\<close> by (auto split: option.splits)
  have bits: "\<forall>j < 32. bit (summary ?s) j \<longleftrightarrow> (if j = p then q p @ [t] \<noteq> [] else bit (summary s) j)"
    using p D(2) tail by (auto simp: insert_ready_tail_def Let_def split: option.splits)
  have ends: "\<forall>j. j \<noteq> p \<longrightarrow> ready_head ?s j = ready_head s j \<and> ready_tail ?s j = ready_tail s j"
    using p by (auto simp: insert_ready_tail_def Let_def split: option.splits)
  have core: "same_core s ?s"
    by (auto simp: same_core_def insert_ready_tail_def Let_def split: option.splits)
  show ?thesis
    using queues_level [OF q p(2) L bits ends links core] D(3) p core by auto
qed

lemma insert_ready_head_queues:
  assumes q: "queues s q" and p: "priority (thr s t) = p" "p < 32" and t: "t \<notin> set (q p)"
  shows "queues (insert_ready_head t s) (q(p := t # q p)) \<and> same_core s (insert_ready_head t s)"
proof -
  let ?s = "insert_ready_head t s"
  note D = queuesD [OF q p(2)]
  have head: "ready_tail s p = None \<longleftrightarrow> q p = []" "ready_head s p = None \<longleftrightarrow> q p = []"
    using dll_empty_iff [OF D(1)] by auto
  have l: "ready_head s p = Some l \<Longrightarrow> l \<in> set (q p)" for l
    using D(1) by (cases "q p") (auto simp: dll_def)
  then have ne: "ready_head s p \<noteq> Some t" using t by auto
  have "prv ?s = (case ready_head s p of None \<Rightarrow> prv s | Some a \<Rightarrow> (prv s)(a := Some t))(t := None)"
    "nxt ?s = (nxt s)(t := ready_head s p)"
    using ne p by (auto simp: insert_ready_head_def Let_def nxt_def prv_def fun_eq_iff split: option.splits)
  moreover have "ready_tail ?s p = (if ready_tail s p = None then Some t else ready_tail s p)"
    "ready_head ?s p = Some t"
    using p head by (auto simp: insert_ready_head_def Let_def split: option.splits)
  ultimately have L: "dll (ready_head ?s p) (ready_tail ?s p) (nxt ?s) (prv ?s) (t # q p)"
    using dll_insert_head [OF D(1) t] by simp
  have links: "\<forall>x. x \<notin> set (t # q p) \<union> set (q p) \<longrightarrow> nxt ?s x = nxt s x \<and> prv ?s x = prv s x"
    using l \<open>nxt ?s = _\<close> \<open>prv ?s = _\<close> by (auto split: option.splits)
  have bits: "\<forall>j < 32. bit (summary ?s) j \<longleftrightarrow> (if j = p then t # q p \<noteq> [] else bit (summary s) j)"
    using p D(2) head by (auto simp: insert_ready_head_def Let_def split: option.splits)
  have ends: "\<forall>j. j \<noteq> p \<longrightarrow> ready_head ?s j = ready_head s j \<and> ready_tail ?s j = ready_tail s j"
    using p by (auto simp: insert_ready_head_def Let_def split: option.splits)
  have core: "same_core s ?s"
    by (auto simp: same_core_def insert_ready_head_def Let_def split: option.splits)
  show ?thesis
    using queues_level [OF q p(2) L bits ends links core] D(3) p core by auto
qed

lemma remove_from_ready_queue_queues:
  assumes q: "queues s q" and p: "priority (thr s t) = p" "p < 32" and t: "t \<in> set (q p)"
  shows "queues (remove_from_ready_queue t s) (q(p := remove1 t (q p))) \<and>
    same_core s (remove_from_ready_queue t s)"
proof -
  let ?s = "remove_from_ready_queue t s" and ?n = "nxt s t" and ?v = "prv s t"
  note D = queuesD [OF q p(2)]
  have prio: "priority (thr s t) = p" using p by simp
  have "nxt ?s = (case ?v of None \<Rightarrow> nxt s | Some a \<Rightarrow> (nxt s)(a := ?n))"
    "prv ?s = (case ?n of None \<Rightarrow> prv s | Some b \<Rightarrow> (prv s)(b := ?v))"
    by (auto simp: remove_from_ready_queue_def Let_def nxt_def prv_def fun_eq_iff
        split: option.splits)
  moreover have "ready_head ?s p = (if ready_head s p = Some t then ?n else ready_head s p)"
    "ready_tail ?s p = (if ready_tail s p = Some t then ?v else ready_tail s p)"
    using p by (auto simp: remove_from_ready_queue_def Let_def nxt_def prv_def)
  ultimately have L: "dll (ready_head ?s p) (ready_tail ?s p) (nxt ?s) (prv ?s) (remove1 t (q p))"
    using dll_remove [OF D(1) t] by simp
  have near: "?n = Some a \<Longrightarrow> a \<in> set (q p)" "?v = Some a \<Longrightarrow> a \<in> set (q p)" for a
  proof -
    obtain ys zs where yz: "q p = ys @ t # zs" using t by (meson split_list)
    show "?n = Some a \<Longrightarrow> a \<in> set (q p)" "?v = Some a \<Longrightarrow> a \<in> set (q p)"
      using dll_mid [OF D(1) [unfolded yz]] yz by (auto split: if_splits)
  qed
  have links: "\<forall>x. x \<notin> set (remove1 t (q p)) \<union> set (q p) \<longrightarrow> nxt ?s x = nxt s x \<and> prv ?s x = prv s x"
    using near \<open>nxt ?s = _\<close> \<open>prv ?s = _\<close> by (auto split: option.splits)
  have tl: "ready_tail ?s p = None \<longleftrightarrow> remove1 t (q p) = []" using dll_empty_iff [OF L] by blast
  have "summary ?s = (if ready_tail ?s p = None then summary s AND NOT (push_bit p 1) else summary s)"
    using p by (auto simp: remove_from_ready_queue_def Let_def)
  then have bits: "\<forall>j < 32. bit (summary ?s) j \<longleftrightarrow>
      (if j = p then remove1 t (q p) \<noteq> [] else bit (summary s) j)"
    using D(2) t tl by auto
  have ends: "\<forall>j. j \<noteq> p \<longrightarrow> ready_head ?s j = ready_head s j \<and> ready_tail ?s j = ready_tail s j"
    using p by (auto simp: remove_from_ready_queue_def Let_def)
  have core: "same_core s ?s"
    by (auto simp: same_core_def remove_from_ready_queue_def Let_def split: option.splits)
  then show ?thesis
    using queues_level [OF q p(2) L bits ends links core] D(3) set_remove1_subset [of t "q p"]
    by blast
qed

text \<open>What \<^verbatim>\<open>find_ready_thread\<close> returns: the first thread of the highest non-empty level.\<close>

lemma find_ready_thread_queues:
  assumes q: "queues s q"
  obtains (none) "find_ready_thread s = Ret (None, s)" "\<forall>p < 32. q p = []"
  | (some) p t ts s' where "p < 32" "q p = t # ts" "\<forall>j < 32. q j \<noteq> [] \<longrightarrow> j \<le> p"
      "find_ready_thread s = Ret (Some t, s')" "queues s' (q(p := ts))" "same_core s s'"
proof (cases "summary s = 0")
  case True
  then show thesis using none queuesD(2) [OF q] by (auto simp: find_ready_thread_def)
next
  case False
  let ?p = "find_highest_bit (summary s)"
  note H = find_highest_bit_spec [OF False]
  note D = queuesD [OF q H(3)]
  obtain t ts where qp: "q ?p = t # ts" using D(2) H(1) by (cases "q ?p") auto
  have max: "\<forall>j < 32. q j \<noteq> [] \<longrightarrow> j \<le> ?p" using queuesD(2) [OF q] H(2) by blast
  have hd: "ready_head s ?p = Some t" "prv s t = None"
    using dll_head [of "ready_head s ?p" "ready_tail s ?p" "nxt s" "prv s" t ts] D(1) qp by auto
  obtain ys where ys: "q ?p = t # ys"
    and L: "dll (nxt s t) (if nxt s t = None then None else ready_tail s ?p) (nxt s)
      (case nxt s t of None \<Rightarrow> prv s | Some b \<Rightarrow> (prv s)(b := None)) ys"
    using dll_pop [of t "ready_tail s ?p" "nxt s" "prv s" "q ?p"] D(1) hd(1) by auto
  have L: "dll (nxt s t) (if nxt s t = None then None else ready_tail s ?p) (nxt s)
      (case nxt s t of None \<Rightarrow> prv s | Some b \<Rightarrow> (prv s)(b := None)) ts"
    using L ys qp by simp
  have tts: "t \<notin> set ts" using dll_distinct [OF D(1)] qp by simp
  obtain s' where s': "find_ready_thread s = Ret (Some t, s')"
    using False hd by (auto simp: find_ready_thread_def Let_def)
  then have def_s': "s' = upd_thread t (\<lambda>x. x\<lparr>next_ready := None, prev_ready := None\<rparr>)
     (case nxt s t of
         None \<Rightarrow> s\<lparr>ready_head := (ready_head s)(?p := None), ready_tail := (ready_tail s)(?p := None),
                   summary := summary s AND NOT (push_bit ?p 1)\<rparr>
       | Some n \<Rightarrow> (upd_thread n (\<lambda>x. x\<lparr>prev_ready := None\<rparr>) s)\<lparr>ready_head := (ready_head s)(?p := Some n)\<rparr>)"
    using False hd by (simp add: find_ready_thread_def Let_def nxt_def)
  have n_in: "nxt s t = Some n \<Longrightarrow> n \<in> set ts" for n
    using dll_empty_iff [OF L] L by (cases ts) (auto simp: dll_def)
  have nx: "x \<noteq> t \<Longrightarrow> nxt s' x = nxt s x" for x
    by (auto simp: def_s' nxt_def split: option.splits)
  have pv: "x \<noteq> t \<Longrightarrow> prv s' x = (case nxt s t of None \<Rightarrow> prv s | Some b \<Rightarrow> (prv s)(b := None)) x" for x
    by (auto simp: def_s' prv_def split: option.splits)
  have he: "ready_head s' ?p = nxt s t" "ready_tail s' ?p = (if nxt s t = None then None else ready_tail s ?p)"
    "\<forall>j. j \<noteq> ?p \<longrightarrow> ready_head s' j = ready_head s j \<and> ready_tail s' j = ready_tail s j"
    by (auto simp: def_s' split: option.splits)
  have L': "dll (ready_head s' ?p) (ready_tail s' ?p) (nxt s') (prv s') ts"
  proof -
    let ?pv = "case nxt s t of None \<Rightarrow> prv s | Some b \<Rightarrow> (prv s)(b := None)"
    have "x \<in> set ts \<Longrightarrow> nxt s' x = nxt s x" "x \<in> set ts \<Longrightarrow> prv s' x = ?pv x" for x
      using nx [of x] pv [of x] tts by auto
    then have "dll h l (nxt s') (prv s') ts \<longleftrightarrow> dll h l (nxt s) ?pv ts" for h l
      by (rule dll_cong)
    then show ?thesis using L unfolding he by blast
  qed
  have empty: "nxt s t = None \<longleftrightarrow> ts = []" using dll_empty_iff [OF L] by auto
  have bits: "\<forall>j < 32. bit (summary s') j \<longleftrightarrow> (if j = ?p then ts \<noteq> [] else bit (summary s) j)"
    using empty H by (auto simp: def_s' split: option.splits)
  have links: "\<forall>x. x \<notin> set ts \<union> set (q ?p) \<longrightarrow> nxt s' x = nxt s x \<and> prv s' x = prv s x"
    using nx pv n_in qp by (auto split: option.splits)
  have core: "same_core s s'" by (auto simp: same_core_def def_s' split: option.splits)
  then have "queues s' (q(?p := ts))"
    using queues_level [OF q H(3) L' bits he(3) links] D(3) qp by auto
  then show thesis using some [OF H(3) qp max s'] core by blast
qed

section \<open>The scheduler invariant\<close>

text \<open>
  The ready queues hold exactly the threads whose state is \<open>READY\<close>, priorities index the
  queue arrays, at most the current thread is running, and a thread that is ready or running
  is not suspended.
\<close>

definition sched_inv :: "'z sched_scheme \<Rightarrow> (nat \<Rightarrow> nat list) \<Rightarrow> bool" where
  "sched_inv s q \<longleftrightarrow>
     queues s q \<and>
     (\<forall>t. t_state (thr s t) = READY \<longleftrightarrow> (\<exists>p < 32. t \<in> set (q p))) \<and>
     (\<forall>t. priority (thr s t) < 32 \<and> base_priority (thr s t) < 32) \<and>
     (\<forall>t. t_state (thr s t) = RUNNING \<longrightarrow> t = current s) \<and>
     (\<forall>t. t_state (thr s t) = READY \<or> t_state (thr s t) = RUNNING \<longrightarrow> suspend_count (thr s t) = 0)"

lemma sched_invD:
  assumes "sched_inv s q"
  shows "queues s q" "t_state (thr s t) = READY \<longleftrightarrow> (\<exists>p < 32. t \<in> set (q p))"
    "priority (thr s t) < 32" "base_priority (thr s t) < 32"
    "t_state (thr s t) = RUNNING \<Longrightarrow> t = current s"
    "t_state (thr s t) = READY \<or> t_state (thr s t) = RUNNING \<Longrightarrow> suspend_count (thr s t) = 0"
  using assms by (auto simp: sched_inv_def)

lemma sched_invI:
  assumes "queues s q" "\<And>t. t_state (thr s t) = READY \<longleftrightarrow> (\<exists>p < 32. t \<in> set (q p))"
    "\<And>t. priority (thr s t) < 32" "\<And>t. base_priority (thr s t) < 32"
    "\<And>t. t_state (thr s t) = RUNNING \<Longrightarrow> t = current s"
    "\<And>t. t_state (thr s t) = READY \<or> t_state (thr s t) = RUNNING \<Longrightarrow> suspend_count (thr s t) = 0"
  shows "sched_inv s q"
  unfolding sched_inv_def using assms by blast

text \<open>
  A thread outside the queues may change in any way.
\<close>

lemma queues_cong:
  assumes "queues s q" "\<And>p x. p < 32 \<Longrightarrow> x \<in> set (q p) \<Longrightarrow> thr s' x = thr s x"
    "ready_head s' = ready_head s" "ready_tail s' = ready_tail s" "summary s' = summary s"
  shows "queues s' q"
  unfolding queues_def
proof (intro allI impI)
  fix p :: nat
  assume p: "p < 32"
  have "dll (ready_head s p) (ready_tail s p) (nxt s') (prv s') (q p)"
    using queuesD(1) [OF assms(1) p] assms(2) [OF p]
      dll_cong [of "q p" "nxt s'" "nxt s" "prv s'" "prv s"] by (simp add: nxt_def prv_def)
  then show "dll (ready_head s' p) (ready_tail s' p) (nxt s') (prv s') (q p) \<and>
    (bit (summary s') p \<longleftrightarrow> q p \<noteq> []) \<and> (\<forall>t \<in> set (q p). priority (thr s' t) = p)"
    using assms p queuesD(2,3) [OF assms(1) p] by auto
qed

lemma queues_upd_out:
  assumes "queues s q" "\<forall>p < 32. t \<notin> set (q p)"
  shows "queues (upd_thread t f s) q"
  by (rule queues_cong [OF assms(1)]) (use assms(2) in auto)

lemma upd_out_inv:
  assumes I: "sched_inv s q" and "t_state (thr s t) \<noteq> READY" "t_state (f (thr s t)) \<noteq> READY"
    and "priority (f (thr s t)) < 32" "base_priority (f (thr s t)) < 32"
    and run: "t_state (f (thr s t)) = RUNNING \<Longrightarrow> t = current s \<and> suspend_count (f (thr s t)) = 0"
  shows "sched_inv (upd_thread t f s) q"
proof -
  have out: "\<forall>p < 32. t \<notin> set (q p)" using sched_invD(2) [OF I] assms(2) by blast
  then have "queues (upd_thread t f s) q"
    using sched_invD(1) [OF I] queues_upd_out by blast
  then show ?thesis
  proof (rule sched_invI)
    fix x
    show "t_state (thr (upd_thread t f s) x) = READY \<longleftrightarrow> (\<exists>p < 32. x \<in> set (q p))"
      using sched_invD(2) [OF I, of x] out assms(3) by auto
    show "priority (thr (upd_thread t f s) x) < 32" "base_priority (thr (upd_thread t f s) x) < 32"
      using sched_invD(3,4) [OF I, of x] assms(4,5) by auto
    show "t_state (thr (upd_thread t f s) x) = RUNNING \<Longrightarrow> x = current (upd_thread t f s)"
      using sched_invD(5) [OF I, of x] run by (auto split: if_splits)
    show "t_state (thr (upd_thread t f s) x) = READY \<or> t_state (thr (upd_thread t f s) x) = RUNNING \<Longrightarrow>
        suspend_count (thr (upd_thread t f s) x) = 0"
      using sched_invD(6) [OF I, of x] run assms(3) by (auto split: if_splits)
  qed
qed

text \<open>Queueing a thread that was not ready, at either end of its level.\<close>

lemma insert_inv:
  assumes I: "sched_inv s q" and t: "t_state (thr s t) \<noteq> READY"
    and th: "t_state th = READY" "priority th < 32" "base_priority th < 32" "suspend_count th = 0"
    and ins: "(ins = insert_ready_head \<and> xs = t # q (priority th)) \<or>
              (ins = insert_ready_tail \<and> xs = q (priority th) @ [t])"
  shows "sched_inv (ins t (upd_thread t (\<lambda>_. th) s)) (q(priority th := xs)) \<and>
    same_core (upd_thread t (\<lambda>_. th) s) (ins t (upd_thread t (\<lambda>_. th) s))"
proof -
  let ?p = "priority th" and ?s = "upd_thread t (\<lambda>_. th) s"
  let ?s' = "ins t ?s"
  have out: "\<forall>p < 32. t \<notin> set (q p)" using sched_invD(2) [OF I] t by blast
  then have "queues ?s q" using sched_invD(1) [OF I] queues_upd_out by blast
  then have Q: "queues ?s' (q(?p := xs))" and C: "same_core ?s ?s'"
    using insert_ready_tail_queues [of ?s q t ?p] insert_ready_head_queues [of ?s q t ?p]
      ins th(2) out by auto
  have "core (thr ?s' x) = core (thr ?s x)" for x using C by (simp add: same_core_def)
  note F = core_fields [OF this]
  have "set xs = insert t (set (q ?p))" using ins by auto
  then have "(\<exists>p < 32. x \<in> set ((q(?p := xs)) p)) \<longleftrightarrow> x = t \<or> (\<exists>p < 32. x \<in> set (q p))" for x
    using th(2) by (metis fun_upd_apply insert_iff)
  then have R: "t_state (thr ?s' x) = READY \<longleftrightarrow> (\<exists>p < 32. x \<in> set ((q(?p := xs)) p))" for x
    using sched_invD(2) [OF I, of x] th(1) by (auto simp: F)
  have "sched_inv ?s' (q(?p := xs))"
  proof (rule sched_invI [OF Q R])
    fix x
    show "priority (thr ?s' x) < 32" "base_priority (thr ?s' x) < 32"
      using sched_invD(3,4) [OF I, of x] th by (auto simp: F)
    show "t_state (thr ?s' x) = RUNNING \<Longrightarrow> x = current ?s'"
      using sched_invD(5) [OF I, of x] th C by (auto simp: F same_core_def split: if_splits)
    show "t_state (thr ?s' x) = READY \<or> t_state (thr ?s' x) = RUNNING \<Longrightarrow> suspend_count (thr ?s' x) = 0"
      using sched_invD(6) [OF I, of x] th by (auto simp: F split: if_splits)
  qed
  with C show ?thesis by blast
qed

lemma flag_inv:
  assumes I: "sched_inv s q"
  shows "sched_inv (s\<lparr>preempt_flag := b\<rparr>) q"
proof -
  have "queues (s\<lparr>preempt_flag := b\<rparr>) q"
    using sched_invD(1) [OF I] by (rule queues_cong) auto
  then show ?thesis
    by (rule sched_invI) (use sched_invD [OF I] in simp_all)
qed

lemma set_preempt_inv:
  "sched_inv s q \<Longrightarrow> sched_inv (set_preempt t s) q \<and> thr (set_preempt t s) = thr s \<and>
     current (set_preempt t s) = current s"
  using flag_inv by (auto simp: set_preempt_def)

text \<open>The control block of a thread that \<^verbatim>\<open>mark_thread_ready\<close> is about to queue.\<close>

definition boosted :: "int \<Rightarrow> nat \<Rightarrow> thread \<Rightarrow> thread" where
  "boosted charge boost th =
     (let np = min (base_priority th + boost) PRIORITY_TIME_CRITICAL;
          th1 = th\<lparr>quantum := quantum th - charge, priority := max np (priority th), t_state := READY\<rparr> in
      if quantum th1 > 0 then th1
      else th1\<lparr>quantum := DEFAULT_QUANTUM,
               priority := (if priority th1 > base_priority th1 then priority th1 - 1 else priority th1)\<rparr>)"

lemma boosted_simps [simp]:
  "t_state (boosted c b th) = READY" "base_priority (boosted c b th) = base_priority th"
  "suspend_count (boosted c b th) = suspend_count th" "tflags (boosted c b th) = tflags th"
  "waitlist (boosted c b th) = waitlist th" "waitkey (boosted c b th) = waitkey th"
  "next_ready (boosted c b th) = next_ready th" "prev_ready (boosted c b th) = prev_ready th"
  by (simp_all add: boosted_def Let_def)

lemma boosted_priority: "priority (boosted c b th) \<le> max PRIORITY_TIME_CRITICAL (priority th)"
  by (auto simp: boosted_def Let_def)

lemma mark_thread_ready_cases:
  "mark_thread_ready t c b s =
    (if suspend_count (thr s t) > 0 then Ret (upd_thread t (\<lambda>x. x\<lparr>t_state := SUSPENDED\<rparr>) s)
     else if t_state (thr s t) = READY then
       if tflags (thr s t) AND THREAD_INTERRUPTED \<noteq> 0 then Ret s else Panic ''thread already ready''
     else
       let th = boosted c b (thr s t) in
       Ret (set_preempt t
         ((if quantum (thr s t) - c > 0 then insert_ready_head else insert_ready_tail) t
            (upd_thread t (\<lambda>_. th) s))))"
  by (simp add: mark_thread_ready_def boosted_def Let_def max_def min_def)

lemma mark_thread_ready_inv:
  assumes I: "sched_inv s q" and r: "mark_thread_ready t c b s = Ret s'"
  shows "\<exists>q'. sched_inv s' q' \<and> current s' = current s \<and>
    (\<forall>x. x \<noteq> t \<longrightarrow> core (thr s' x) = core (thr s x)) \<and>
    (if suspend_count (thr s t) > 0 then q' = q \<and> t_state (thr s' t) = SUSPENDED
     else if t_state (thr s t) = READY then s' = s \<and> q' = q
     else core (thr s' t) = core (boosted c b (thr s t)) \<and>
       (let p = priority (thr s' t) in
        q' = q(p := (if quantum (thr s t) - c > 0 then t # q p else q p @ [t]))))"
proof -
  consider (susp) "suspend_count (thr s t) > 0"
    | (ready) "suspend_count (thr s t) = 0" "t_state (thr s t) = READY"
    | (new) "suspend_count (thr s t) = 0" "t_state (thr s t) \<noteq> READY" by linarith
  then show ?thesis
  proof cases
    case susp
    then have s': "s' = upd_thread t (\<lambda>x. x\<lparr>t_state := SUSPENDED\<rparr>) s"
      using r by (simp add: mark_thread_ready_cases)
    have "t_state (thr s t) \<noteq> READY" using sched_invD(6) [OF I, of t] susp by auto
    then have "sched_inv s' q"
      using s' sched_invD(3,4) [OF I, of t] by (auto intro!: upd_out_inv [OF I])
    with s' susp show ?thesis by auto
  next
    case ready
    then have "s' = s" using r by (auto simp: mark_thread_ready_cases split: if_splits)
    with I ready show ?thesis by auto
  next
    case new
    let ?th = "boosted c b (thr s t)"
    let ?ins = "if quantum (thr s t) - c > 0 then insert_ready_head else insert_ready_tail"
    let ?p = "priority ?th"
    let ?xs = "if quantum (thr s t) - c > 0 then t # q ?p else q ?p @ [t]"
    let ?u = "upd_thread t (\<lambda>_. ?th) s"
    have s': "s' = set_preempt t (?ins t ?u)"
      using r new by (simp add: mark_thread_ready_cases Let_def)
    have "?p < 32" using boosted_priority [of c b "thr s t"] sched_invD(3) [OF I, of t]
      by (simp add: PRIORITY_TIME_CRITICAL_def)
    then have K: "sched_inv (?ins t ?u) (q(?p := ?xs))" "same_core ?u (?ins t ?u)"
      using insert_inv [OF I new(2), of ?th ?ins ?xs] new(1) sched_invD(4) [OF I, of t] by auto
    have P: "sched_inv s' (q(?p := ?xs))" "thr s' = thr (?ins t ?u)" "current s' = current s"
      using set_preempt_inv [OF K(1)] K(2) s' by (auto simp: same_core_def)
    have C: "core (thr s' x) = core (thr ?u x)" for x using K(2) P(2) by (simp add: same_core_def)
    have "priority (thr s' t) = ?p" using core_fields(2) [OF C [of t]] by simp
    with P C new show ?thesis by (intro exI [of _ "q(?p := ?xs)"]) (simp add: Let_def)
  qed
qed

lemma mark_thread_ready_flag:
  assumes I: "sched_inv s q" and r: "mark_thread_ready t c b s = Ret s'"
    and new: "suspend_count (thr s t) = 0" "t_state (thr s t) \<noteq> READY"
  shows "preempt_flag s' \<longleftrightarrow> preempt_flag s \<or>
    t \<noteq> current s \<and> priority (thr s (current s)) < priority (boosted c b (thr s t))"
proof -
  let ?th = "boosted c b (thr s t)" and ?u = "upd_thread t (\<lambda>_. boosted c b (thr s t)) s"
  let ?ins = "if quantum (thr s t) - c > 0 then insert_ready_head else insert_ready_tail"
  have s': "s' = set_preempt t (?ins t ?u)" using r new by (simp add: mark_thread_ready_cases Let_def)
  have "priority ?th < 32" using boosted_priority [of c b "thr s t"] sched_invD(3) [OF I, of t]
    by (simp add: PRIORITY_TIME_CRITICAL_def)
  then have C: "same_core ?u (?ins t ?u)"
    using insert_inv [OF I new(2), of ?th ?ins
        "if quantum (thr s t) - c > 0 then t # q (priority ?th) else q (priority ?th) @ [t]"]
      new(1) sched_invD(4) [OF I, of t] by auto
  then have c: "core (thr (?ins t ?u) x) = core (thr ?u x)" for x by (simp add: same_core_def)
  show ?thesis
    using C core_fields(2) [OF c] unfolding s' by (auto simp: set_preempt_def same_core_def)
qed

text \<open>
  C5. \<^verbatim>\<open>mark_thread_ready\<close> panics exactly when the thread is neither suspended nor interrupted
  but already ready. Otherwise it keeps the scheduler invariant: the queues stay well-linked
  lists of exactly the ready threads. A suspended thread is left out of the queues. Any other gets
  the larger of its priority and its base priority plus the boost, the latter at most 15; with
  quantum left after the charge it goes to the front of the queue of that priority, without it gets a
  new quantum, loses one level down to its base priority, and goes to the back. The running thread is to be
  preempted when its priority is lower. No other thread changes.
\<close>

theorem mark_thread_ready_correct:
  assumes "sched_inv s q"
  shows "case mark_thread_ready t c b s of
      Panic e \<Rightarrow> suspend_count (thr s t) = 0 \<and> t_state (thr s t) = READY \<and>
        tflags (thr s t) AND THREAD_INTERRUPTED = 0
    | Ret s' \<Rightarrow> \<exists>q'. sched_inv s' q' \<and> current s' = current s \<and>
        (\<forall>x. x \<noteq> t \<longrightarrow> core (thr s' x) = core (thr s x)) \<and>
        (if suspend_count (thr s t) > 0 then q' = q \<and> t_state (thr s' t) = SUSPENDED
         else if t_state (thr s t) = READY then s' = s \<and> q' = q
         else
           let up = max (min (base_priority (thr s t) + b) 15) (priority (thr s t));
               left = quantum (thr s t) - c;
               p = (if 0 < left \<or> up \<le> base_priority (thr s t) then up else up - 1) in
           core (thr s' t) = core ((thr s t)\<lparr>t_state := READY, priority := p,
             quantum := (if 0 < left then left else 36)\<rparr>) \<and>
           q' = q(p := (if 0 < left then t # q p else q p @ [t])) \<and>
           (preempt_flag s' \<longleftrightarrow> preempt_flag s \<or> t \<noteq> current s \<and> priority (thr s (current s)) < p))"
proof (cases "mark_thread_ready t c b s")
  case (Panic e)
  then show ?thesis by (auto simp: mark_thread_ready_cases Let_def split: if_splits)
next
  case (Ret s')
  let ?up = "max (min (base_priority (thr s t) + b) 15) (priority (thr s t))"
  let ?left = "quantum (thr s t) - c"
  let ?p = "if 0 < ?left \<or> ?up \<le> base_priority (thr s t) then ?up else ?up - 1"
  have th: "boosted c b (thr s t) = (thr s t)\<lparr>t_state := READY, priority := ?p,
      quantum := (if 0 < ?left then ?left else 36)\<rparr>"
    by (cases "thr s t") (auto simp: boosted_def Let_def PRIORITY_TIME_CRITICAL_def DEFAULT_QUANTUM_def)
  obtain q' where q': "sched_inv s' q'" "current s' = current s" "\<forall>x. x \<noteq> t \<longrightarrow> core (thr s' x) = core (thr s x)"
      "if suspend_count (thr s t) > 0 then q' = q \<and> t_state (thr s' t) = SUSPENDED
       else if t_state (thr s t) = READY then s' = s \<and> q' = q
       else core (thr s' t) = core (boosted c b (thr s t)) \<and>
         (let p = priority (thr s' t) in q' = q(p := (if ?left > 0 then t # q p else q p @ [t])))"
    using mark_thread_ready_inv [OF assms Ret] by blast
  show ?thesis
    unfolding Ret kres.case
  proof (intro exI [of _ q'] conjI q'(1-3), cases "suspend_count (thr s t) > 0 \<or> t_state (thr s t) = READY")
    case False
    then have n: "suspend_count (thr s t) = 0" "t_state (thr s t) \<noteq> READY" by auto
    then have c: "core (thr s' t) = core (boosted c b (thr s t))" using q'(4) by simp
    then have "priority (thr s' t) = ?p" using core_fields(2) [OF c] by (simp add: th)
    then show "if suspend_count (thr s t) > 0 then q' = q \<and> t_state (thr s' t) = SUSPENDED
         else if t_state (thr s t) = READY then s' = s \<and> q' = q
         else let up = ?up; left = ?left; p = (if 0 < left \<or> up \<le> base_priority (thr s t) then up else up - 1) in
           core (thr s' t) = core ((thr s t)\<lparr>t_state := READY, priority := p,
             quantum := (if 0 < left then left else 36)\<rparr>) \<and>
           q' = q(p := (if 0 < left then t # q p else q p @ [t])) \<and>
           (preempt_flag s' \<longleftrightarrow> preempt_flag s \<or> t \<noteq> current s \<and> priority (thr s (current s)) < p)"
      using q'(4) n c mark_thread_ready_flag [OF assms Ret n] unfolding th Let_def by simp
  qed (use q'(4) in auto)
qed

section \<open>Dispatching\<close>

text \<open>
  What the scheduler relies on of the deferred procedure calls it runs: they keep the
  invariant, do not change which thread is current and do not make a thread run.
\<close>

definition dpcs_ok :: "'z dpcs \<Rightarrow> bool" where
  "dpcs_ok dpcs \<longleftrightarrow> (\<forall>s q s'. sched_inv s q \<and> dpcs s = Ret s' \<longrightarrow>
     (\<exists>q'. sched_inv s' q') \<and> current s' = current s \<and>
     (\<forall>t. t_state (thr s' t) = RUNNING \<longrightarrow> t_state (thr s t) = RUNNING))"

lemma take_inv:
  assumes I: "sched_inv s q" and idle: "\<forall>x. t_state (thr s x) \<noteq> RUNNING"
    and p: "p < 32" "q p = t # ts" and Q: "queues s' (q(p := ts))" and C: "same_core s s'"
    and u: "u = upd_thread t f (s'\<lparr>current := t\<rparr>)" "\<And>th. t_state (f th) = RUNNING"
      "\<And>th. priority (f th) = priority th" "\<And>th. base_priority (f th) = base_priority th"
      "\<And>th. suspend_count (f th) = suspend_count th"
  shows "sched_inv u (q(p := ts))" "current u = t" "t_state (thr u t) = RUNNING"
proof -
  have "core (thr s' x) = core (thr s x)" for x using C by (simp add: same_core_def)
  note F = core_fields [OF this]
  have t_p: "x \<in> set (q j) \<Longrightarrow> j < 32 \<Longrightarrow> priority (thr s x) = j" for x j
    using queuesD(3) [OF sched_invD(1) [OF I]] by blast
  have dist: "t \<notin> set ts"
    using dll_distinct [OF queuesD(1) [OF sched_invD(1) [OF I] p(1)]] p(2) by simp
  have out: "\<forall>j < 32. t \<notin> set ((q(p := ts)) j)"
    using t_p [of t] p dist by (metis fun_upd_other fun_upd_same list.set_intros(1))
  have "queues (s'\<lparr>current := t\<rparr>) (q(p := ts))" by (rule queues_cong [OF Q]) auto
  then have Qu: "queues u (q(p := ts))" using queues_upd_out out u(1) by blast
  have others: "(\<exists>j < 32. x \<in> set ((q(p := ts)) j)) \<longleftrightarrow> (\<exists>j < 32. x \<in> set (q j))" if "x \<noteq> t" for x
    using that p by (metis fun_upd_other fun_upd_same set_ConsD list.set_intros(2))
  have rd: "t_state (thr s t) = READY" using sched_invD(2) [OF I, of t] p by (metis list.set_intros(1))
  show "sched_inv u (q(p := ts))"
  proof (rule sched_invI [OF Qu])
    fix x
    show "t_state (thr u x) = READY \<longleftrightarrow> (\<exists>j < 32. x \<in> set ((q(p := ts)) j))"
    proof (cases "x = t")
      case True
      then show ?thesis using out u by auto
    next
      case False
      then show ?thesis using others [OF False] sched_invD(2) [OF I, of x] u(1) by (simp add: F)
    qed
    show "priority (thr u x) < 32" "base_priority (thr u x) < 32"
      using sched_invD(3,4) [OF I, of x] u by (auto simp: F)
    show "t_state (thr u x) = RUNNING \<Longrightarrow> x = current u"
      using idle u(1) by (auto simp: F split: if_splits)
    show "t_state (thr u x) = READY \<or> t_state (thr u x) = RUNNING \<Longrightarrow> suspend_count (thr u x) = 0"
      using sched_invD(6) [OF I, of x] rd u idle by (auto simp: F split: if_splits)
  qed
  show "current u = t" "t_state (thr u t) = RUNNING" using u by auto
qed

text \<open>
  \<open>picks s1 q1 r\<close>: the result \<open>r\<close> of a dispatcher that finds the ready queues \<open>q1\<close> in state \<open>s1\<close>. With a
  thread ready it runs the first one of the highest queue that is not empty; that thread leaves
  its queue and no other thread changes.
\<close>

definition picks :: "'z sched_scheme \<Rightarrow> (nat \<Rightarrow> nat list) \<Rightarrow> 'z sched_scheme kres \<Rightarrow> bool" where
  "picks s1 q1 r \<longleftrightarrow>
     (if \<forall>p < 32. q1 p = [] then r = Panic ''No thread ready to run''
      else \<exists>p t ts s'. r = Ret s' \<and> p < 32 \<and> q1 p = t # ts \<and> (\<forall>j < 32. p < j \<longrightarrow> q1 j = []) \<and>
        sched_inv s' (q1(p := ts)) \<and> current s' = t \<and> t_state (thr s' t) = RUNNING \<and>
        priority (thr s' t) = p \<and> (\<forall>x. x \<noteq> t \<longrightarrow> core (thr s' x) = core (thr s1 x)))"

lemma dispatch_picks:
  assumes dp: "dpcs (s\<lparr>preempt_flag := False\<rparr>) = Ret s1" and I1: "sched_inv s1 q1"
    and cur: "current s1 = current s" and idle1: "\<forall>x. t_state (thr s1 x) \<noteq> RUNNING"
  shows "picks s1 q1 (dispatch dpcs s)"
  using sched_invD(1) [OF I1]
proof (cases rule: find_ready_thread_queues)
  case none
  then show ?thesis using dp by (simp add: picks_def dispatch_def Let_def)
next
  case (some p t ts s2)
  have c2: "core (thr s2 x) = core (thr s1 x)" for x using some(6) by (simp add: same_core_def)
  note F = core_fields [OF c2]
  define f :: "thread \<Rightarrow> thread" where "f =
    (if t = current s then (\<lambda>x. x\<lparr>t_state := RUNNING\<rparr>)
     else if tflags (thr s2 (current s)) AND THREAD_FPU_ENABLED \<noteq> 0
     then (\<lambda>x. x\<lparr>tflags := tflags x AND NOT THREAD_FPU_ENABLED, t_state := RUNNING,
                 context_switches := context_switches x + 1\<rparr>)
     else (\<lambda>x. x\<lparr>t_state := RUNNING, context_switches := context_switches x + 1\<rparr>))"
  let ?u = "upd_thread t f (s2\<lparr>current := t\<rparr>)"
  have "current s2 = current s" using some(6) cur by (simp add: same_core_def)
  then have d: "dispatch dpcs s = Ret ?u"
    using some(4) dp unfolding dispatch_def
    by (simp add: Let_def f_def mark_thread_running_def upd_thread_def)
  have T: "sched_inv ?u (q1(p := ts))" "current ?u = t" "t_state (thr ?u t) = RUNNING"
    by (rule take_inv [OF I1 idle1 some(1,2,5,6), of ?u f]; simp add: f_def)+
  have "priority (thr s1 t) = p" using queuesD(3) [OF sched_invD(1) [OF I1] some(1)] some(2) by auto
  then have "priority (thr ?u t) = p" by (auto simp: f_def F)
  moreover have "\<forall>j < 32. p < j \<longrightarrow> q1 j = []" using some(3) by (metis not_le)
  moreover have "\<not> (\<forall>p < 32. q1 p = [])" using some(1,2) by (metis list.distinct(1))
  moreover have "\<forall>x. x \<noteq> t \<longrightarrow> core (thr ?u x) = core (thr s1 x)" using c2 by simp
  ultimately show ?thesis
    unfolding picks_def d using some(1,2) T by (simp only: if_False) blast
qed

lemma dpcs_okD:
  assumes I: "sched_inv s q" and D: "dpcs_ok dpcs" and idle: "t_state (thr s (current s)) \<noteq> RUNNING"
    and dp: "dpcs (s\<lparr>preempt_flag := False\<rparr>) = Ret s1"
  shows "\<exists>q1. sched_inv s1 q1" "current s1 = current s" "\<forall>x. t_state (thr s1 x) \<noteq> RUNNING"
proof -
  have "sched_inv (s\<lparr>preempt_flag := False\<rparr>) q" using I by (rule flag_inv)
  then obtain q1 where I1: "sched_inv s1 q1" and cur: "current s1 = current s"
    and keep: "\<And>x. t_state (thr s1 x) = RUNNING \<Longrightarrow> t_state (thr s x) = RUNNING"
    using D dp unfolding dpcs_ok_def by fastforce
  then show "\<exists>q1. sched_inv s1 q1" "current s1 = current s" by auto
  show "\<forall>x. t_state (thr s1 x) \<noteq> RUNNING"
    using keep idle sched_invD(5) [OF I1] cur by metis
qed

text \<open>
  C6. \<^verbatim>\<open>dispatch\<close> implements strict priority scheduling, first in first out within a priority. With the
  invariant, and provided the deferred procedure calls keep it, the thread that runs next is the
  first one of the highest queue that is not empty after those calls; it leaves that queue and no
  other thread changes. The call panics when no thread at all is ready, or when a procedure panics.
\<close>

theorem dispatch_highest_priority:
  assumes "sched_inv s q" "dpcs_ok dpcs" "t_state (thr s (current s)) \<noteq> RUNNING"
  shows "case dpcs (s\<lparr>preempt_flag := False\<rparr>) of
      Panic e \<Rightarrow> dispatch dpcs s = Panic e
    | Ret s1 \<Rightarrow> \<exists>q1. sched_inv s1 q1 \<and> picks s1 q1 (dispatch dpcs s)"
proof (cases "dpcs (s\<lparr>preempt_flag := False\<rparr>)")
  case (Panic e)
  then show ?thesis by (simp add: dispatch_def)
next
  case (Ret s1)
  from dpcs_okD [OF assms Ret] dispatch_picks [of dpcs s s1] Ret show ?thesis by auto
qed

section \<open>Every operation keeps the invariant\<close>

definition sched_ok :: "'z sched_scheme \<Rightarrow> bool" where
  "sched_ok s \<longleftrightarrow> (\<exists>q. sched_inv s q) \<and> t_state (thr s (current s)) = RUNNING"

lemma dispatch_ok:
  assumes "sched_inv s q" "dpcs_ok dpcs" "t_state (thr s (current s)) \<noteq> RUNNING" "dispatch dpcs s = Ret s'"
  shows "sched_ok s'"
proof (cases "dpcs (s\<lparr>preempt_flag := False\<rparr>)")
  case (Panic e)
  then show ?thesis using assms(4) by (simp add: dispatch_def)
next
  case (Ret s1)
  from dpcs_okD [OF assms(1-3) Ret] obtain q1 where "picks s1 q1 (dispatch dpcs s)"
    using dispatch_picks [of dpcs s s1] Ret by blast
  then show ?thesis using assms(4) by (auto simp: picks_def sched_ok_def split: if_splits)
qed

lemma upd_current_inv:
  assumes "sched_inv s q" "t_state (thr s (current s)) = RUNNING"
    "t_state (f (thr s (current s))) \<noteq> READY" "priority (f (thr s (current s))) < 32"
    "base_priority (f (thr s (current s))) < 32"
    "t_state (f (thr s (current s))) = RUNNING \<Longrightarrow> suspend_count (f (thr s (current s))) = 0"
  shows "sched_inv (upd_thread (current s) f s) q"
  by (rule upd_out_inv [OF assms(1)]) (use assms in auto)

text \<open>Taking a thread out of its ready queue and giving it a state that is not queued.\<close>

lemma queues_soft_cong:
  assumes "queues s q" "\<And>x. next_ready (thr s' x) = next_ready (thr s x) \<and>
      prev_ready (thr s' x) = prev_ready (thr s x) \<and> priority (thr s' x) = priority (thr s x)"
    "ready_head s' = ready_head s" "ready_tail s' = ready_tail s" "summary s' = summary s"
  shows "queues s' q"
proof -
  have "nxt s' = nxt s" "prv s' = prv s" using assms(2) by (auto simp: nxt_def prv_def)
  with assms show ?thesis by (simp add: queues_def)
qed

lemma remove_inv:
  assumes I: "sched_inv s q" and t: "t_state (thr s t) = READY" "t \<noteq> current s"
    and g: "\<And>th. next_ready (g th) = next_ready th \<and> prev_ready (g th) = prev_ready th \<and>
      priority (g th) = priority th"
    and f: "\<And>th. core th = core (g (thr s t)) \<Longrightarrow> t_state (f th) \<noteq> READY \<and> t_state (f th) \<noteq> RUNNING \<and>
      priority (f th) < 32 \<and> base_priority (f th) < 32"
  shows "sched_inv (upd_thread t f (remove_from_ready_queue t (upd_thread t g s)))
      (q(priority (thr s t) := remove1 t (q (priority (thr s t))))) \<and>
    (\<forall>x. x \<noteq> t \<longrightarrow> core (thr (remove_from_ready_queue t (upd_thread t g s)) x) = core (thr s x)) \<and>
    core (thr (remove_from_ready_queue t (upd_thread t g s)) t) = core (g (thr s t)) \<and>
    current (remove_from_ready_queue t (upd_thread t g s)) = current s"
proof -
  let ?p = "priority (thr s t)" and ?s1 = "upd_thread t g s"
  let ?s2 = "remove_from_ready_queue t ?s1" and ?q = "q(priority (thr s t) := remove1 t (q (priority (thr s t))))"
  let ?u = "upd_thread t f ?s2"
  have p: "?p < 32" using sched_invD(3) [OF I] .
  obtain j where "j < 32" "t \<in> set (q j)" using sched_invD(2) [OF I, of t] t(1) by blast
  moreover from this have "j = ?p" using queuesD(3) [OF sched_invD(1) [OF I]] by auto
  ultimately have "t \<in> set (q ?p)" by simp
  moreover have "queues ?s1 q"
    by (rule queues_soft_cong [OF sched_invD(1) [OF I]]) (use g in auto)
  moreover have "priority (thr ?s1 t) = ?p" using g by simp
  ultimately have Q: "queues ?s2 ?q" and C: "same_core ?s1 ?s2"
    using remove_from_ready_queue_queues [of ?s1 q t ?p] p by blast+
  have cc: "core (thr ?s2 x) = core (thr ?s1 x)" for x using C by (simp add: same_core_def)
  note F = core_fields [OF this]
  have dist: "distinct (q ?p)" using dll_distinct [OF queuesD(1) [OF sched_invD(1) [OF I] p]] .
  have out: "\<forall>j < 32. t \<notin> set (?q j)"
    using queuesD(3) [OF sched_invD(1) [OF I]] dist by auto
  have "queues ?u ?q" using queues_upd_out Q out by blast
  moreover have "(\<exists>j < 32. x \<in> set (?q j)) \<longleftrightarrow> x \<noteq> t \<and> (\<exists>j < 32. x \<in> set (q j))" for x
  proof (cases "x = t")
    case True
    with out show ?thesis by blast
  next
    case False
    then have "x \<in> set (?q j) \<longleftrightarrow> x \<in> set (q j)" for j by simp
    with False show ?thesis by simp
  qed
  moreover have ft: "t_state (f (thr ?s2 t)) \<noteq> READY \<and> t_state (f (thr ?s2 t)) \<noteq> RUNNING \<and>
      priority (f (thr ?s2 t)) < 32 \<and> base_priority (f (thr ?s2 t)) < 32"
    using f [of "thr ?s2 t"] cc [of t] by simp
  ultimately have "sched_inv ?u ?q"
  proof (intro sched_invI)
    fix x
    assume R: "\<And>x. (\<exists>j < 32. x \<in> set (?q j)) \<longleftrightarrow> x \<noteq> t \<and> (\<exists>j < 32. x \<in> set (q j))"
    show "t_state (thr ?u x) = READY \<longleftrightarrow> (\<exists>j < 32. x \<in> set (?q j))"
      unfolding R using sched_invD(2) [OF I, of x] ft by (simp add: F)
    show "priority (thr ?u x) < 32" "base_priority (thr ?u x) < 32"
      using sched_invD(3,4) [OF I, of x] ft by (simp_all add: F)
    show "t_state (thr ?u x) = RUNNING \<Longrightarrow> x = current ?u"
      using sched_invD(5) [OF I, of x] ft C by (simp add: F same_core_def split: if_splits)
    show "t_state (thr ?u x) = READY \<or> t_state (thr ?u x) = RUNNING \<Longrightarrow> suspend_count (thr ?u x) = 0"
      using sched_invD(6) [OF I, of x] ft by (simp add: F split: if_splits)
  qed auto
  then show ?thesis using cc C by (simp add: same_core_def)
qed

lemma remove_ok:
  assumes I: "sched_inv s q" and run: "t_state (thr s (current s)) = RUNNING"
    and t: "t_state (thr s t) = READY" "t \<noteq> current s"
    and g: "\<And>th. next_ready (g th) = next_ready th \<and> prev_ready (g th) = prev_ready th \<and>
      priority (g th) = priority th"
    and f: "\<And>th. core th = core (g (thr s t)) \<Longrightarrow> t_state (f th) \<noteq> READY \<and> t_state (f th) \<noteq> RUNNING \<and>
      priority (f th) < 32 \<and> base_priority (f th) < 32"
  shows "sched_ok (upd_thread t f (remove_from_ready_queue t (upd_thread t g s)))"
    "current (upd_thread t f (remove_from_ready_queue t (upd_thread t g s))) = current s"
proof -
  let ?r = "remove_from_ready_queue t (upd_thread t g s)"
  note R = remove_inv [where f = f and g = g, OF I t g f]
  have "core (thr ?r (current s)) = core (thr s (current s))" and cur: "current ?r = current s"
    using R t(2) by auto
  then have "t_state (thr ?r (current s)) = RUNNING" using core_fields(1) run by metis
  then show "sched_ok (upd_thread t f ?r)" using R t(2) cur by (auto simp: sched_ok_def)
  show "current (upd_thread t f ?r) = current s" using cur by simp
qed

lemma mark_other_ok:
  assumes "sched_ok s" "t \<noteq> current s" "mark_thread_ready t c b s = Ret s'"
  shows "sched_ok s'"
proof -
  from assms obtain q where I: "sched_inv s q" and run: "t_state (thr s (current s)) = RUNNING"
    by (auto simp: sched_ok_def)
  from mark_thread_ready_inv [OF I assms(3)] obtain q' where "sched_inv s' q'" "current s' = current s"
    "core (thr s' (current s)) = core (thr s (current s))" using assms(2) by metis
  with run show ?thesis by (auto simp: sched_ok_def dest: core_fields(1))
qed

text \<open>\<^verbatim>\<open>mark_thread_ready(self())\<close> followed by \<^verbatim>\<open>dispatch\<close>.\<close>

lemma mark_self_dispatch_ok:
  assumes I: "sched_inv s q" and run: "t_state (thr s (current s)) = RUNNING" and D: "dpcs_ok dpcs"
    and m: "mark_thread_ready (current s) c b s = Ret s1" and d: "dispatch dpcs s1 = Ret s'"
  shows "sched_ok s'"
proof -
  have "suspend_count (thr s (current s)) = 0" using sched_invD(6) [OF I] run by blast
  with mark_thread_ready_inv [OF I m] run obtain q' where J: "sched_inv s1 q'" "current s1 = current s"
    "core (thr s1 (current s)) = core (boosted c b (thr s (current s)))" by auto
  have "t_state (thr s1 (current s1)) = READY" using core_fields(1) [OF J(3)] J(2) by simp
  then show ?thesis
    using dispatch_ok [OF J(1) D _ d] by simp
qed

lemma enter_wait_ok:
  assumes "sched_ok s" "dpcs_ok dpcs" "enter_wait dpcs r s = Ret s'"
  shows "sched_ok s'"
proof -
  from assms obtain q where I: "sched_inv s q" and run: "t_state (thr s (current s)) = RUNNING"
    by (auto simp: sched_ok_def)
  let ?f = "\<lambda>x. x\<lparr>t_state := WAITING, wait_reason := r\<rparr>"
  have "sched_inv (upd_thread (current s) ?f s) q"
    by (rule upd_current_inv [OF I run]) (use sched_invD(3,4) [OF I] in auto)
  then show ?thesis
    using assms(2,3) by (auto simp: enter_wait_def intro: dispatch_ok)
qed

lemma enter_alertable_wait_ok:
  assumes "sched_ok s" "dpcs_ok dpcs" "enter_alertable_wait dpcs r s = Ret (Inr s')"
  shows "sched_ok s'"
proof -
  from assms obtain q where I: "sched_inv s q" and run: "t_state (thr s (current s)) = RUNNING"
    by (auto simp: sched_ok_def)
  let ?f = "\<lambda>x. x\<lparr>t_state := WAITING, wait_reason := r,
    tflags := (tflags x AND NOT THREAD_INTERRUPTED) OR THREAD_ALERTABLE\<rparr>"
  have J: "sched_inv (upd_thread (current s) ?f s) q"
    by (rule upd_current_inv [OF I run]) (use sched_invD(3,4) [OF I] in auto)
  have "dispatch dpcs (upd_thread (current s) ?f s) = Ret s'"
    using assms(3) by (auto simp: enter_alertable_wait_def kbind_Ret_iff split: if_splits)
  then show ?thesis using dispatch_ok [OF J assms(2)] by simp
qed

lemma leave_alertable_wait_ok:
  assumes "sched_ok s" "leave_alertable_wait s = (rc, s')"
  shows "sched_ok s'"
proof -
  from assms obtain q where I: "sched_inv s q" and run: "t_state (thr s (current s)) = RUNNING"
    by (auto simp: sched_ok_def)
  have "\<exists>f. s' = upd_thread (current s) (\<lambda>x. x\<lparr>tflags := f x\<rparr>) s"
  proof (cases "rc = 0")
    case True
    then show ?thesis
      using assms(2) by (auto simp: leave_alertable_wait_def Let_def errno_defs split: if_splits)
  next
    case False
    then show ?thesis
      using assms(2) by (intro exI [of _ "\<lambda>x. (tflags x AND NOT THREAD_ALERTABLE) AND NOT THREAD_INTERRUPTED"])
        (auto simp: leave_alertable_wait_def Let_def upd_thread_def split: if_splits)
  qed
  then obtain f where s': "s' = upd_thread (current s) (\<lambda>x. x\<lparr>tflags := f x\<rparr>) s" ..
  have "sched_inv s' q"
    unfolding s' by (rule upd_current_inv [OF I run])
      (use sched_invD(3,4) [OF I] sched_invD(6) [OF I] run in auto)
  with s' run show ?thesis by (auto simp: sched_ok_def)
qed

lemma interrupt_thread_ok:
  assumes "sched_ok s" "interrupt_thread t s = Ret (rc, s')"
  shows "sched_ok s'"
proof -
  from assms obtain q where I: "sched_inv s q" and run: "t_state (thr s (current s)) = RUNNING"
    by (auto simp: sched_ok_def)
  let ?f = "\<lambda>x. x\<lparr>tflags := tflags x OR THREAD_INTERRUPTED\<rparr>"
  show ?thesis
  proof (cases "t_state (thr s t) = WAITING \<and> tflags (thr s t) AND THREAD_ALERTABLE \<noteq> 0")
    case True
    then have m: "mark_thread_ready t 1 1 (upd_thread t ?f s) = Ret s'"
      using assms(2) by (auto simp: interrupt_thread_def kbind_Ret_iff)
    have "sched_inv (upd_thread t ?f s) q"
      by (rule upd_out_inv [OF I]) (use True sched_invD(3,4) [OF I] in auto)
    then have "sched_ok (upd_thread t ?f s)" using run by (auto simp: sched_ok_def)
    moreover have "t \<noteq> current s" using True run by auto
    ultimately show ?thesis using mark_other_ok [OF _ _ m] by simp
  next
    case False
    then have "s' = s" using assms(2) by (auto simp: interrupt_thread_def split: if_splits)
    with assms(1) show ?thesis by simp
  qed
qed

lemma preempt_thread_ok:
  assumes "sched_ok s" "dpcs_ok dpcs" "preempt_thread dpcs s = Ret s'"
  shows "sched_ok s'"
proof -
  from assms obtain q where I: "sched_inv s q" and run: "t_state (thr s (current s)) = RUNNING"
    by (auto simp: sched_ok_def)
  let ?t = "current s"
  define th where "th =
    (if quantum (thr s ?t) \<le> 0
     then (thr s ?t)\<lparr>preempts := preempts (thr s ?t) + 1, quantum := DEFAULT_QUANTUM,
       priority := (if priority (thr s ?t) > base_priority (thr s ?t) then priority (thr s ?t) - 1
                    else priority (thr s ?t)), t_state := READY\<rparr>
     else (thr s ?t)\<lparr>preempts := preempts (thr s ?t) + 1, t_state := READY\<rparr>)"
  have d: "dispatch dpcs (insert_ready_tail ?t (upd_thread ?t (\<lambda>_. th) s)) = Ret s'"
    using assms(3)
    by (cases "quantum (thr s ?t) \<le> 0") (simp_all add: preempt_thread_def Let_def th_def upd_thread_def cong: if_cong)
  have th: "t_state th = READY" "priority th < 32" "base_priority th < 32" "suspend_count th = 0"
    using sched_invD(3,4,6) [OF I, of ?t] run by (auto simp: th_def)
  have "sched_inv (insert_ready_tail ?t (upd_thread ?t (\<lambda>_. th) s))
      (q(priority th := q (priority th) @ [?t]))" and
    C: "same_core (upd_thread ?t (\<lambda>_. th) s) (insert_ready_tail ?t (upd_thread ?t (\<lambda>_. th) s))"
    using insert_inv [OF I _ th, of ?t insert_ready_tail "q (priority th) @ [?t]"] run by auto
  moreover have "t_state (thr (insert_ready_tail ?t (upd_thread ?t (\<lambda>_. th) s)) ?t) = READY"
    using C th core_fields(1) unfolding same_core_def by (metis fun_upd_same upd_thread_simps(1))
  ultimately show ?thesis
    using dispatch_ok [OF _ assms(2) _ d] by (auto simp: same_core_def)
qed

lemma yield_ok:
  assumes "sched_ok s" "dpcs_ok dpcs" "yield dpcs s = Ret s'"
  shows "sched_ok s'"
proof -
  from assms obtain q where I: "sched_inv s q" and run: "t_state (thr s (current s)) = RUNNING"
    by (auto simp: sched_ok_def)
  let ?u = "upd_thread (current s) (\<lambda>x. x\<lparr>quantum := 0\<rparr>) s"
  have J: "sched_inv ?u q"
    by (rule upd_current_inv [OF I run])
      (use sched_invD(3,4) [OF I] sched_invD(6) [OF I] run in auto)
  obtain s1 where "mark_thread_ready (current ?u) 0 0 ?u = Ret s1" "dispatch dpcs s1 = Ret s'"
    using assms(3) by (auto simp: yield_def kbind_Ret_iff)
  then show ?thesis using mark_self_dispatch_ok [OF J _ assms(2)] run by simp
qed

lemma suspend_thread_ok:
  assumes "sched_ok s" "dpcs_ok dpcs" "suspend_thread dpcs t s = Ret (n, s')"
  shows "sched_ok s'"
proof -
  from assms obtain q where I: "sched_inv s q" and run: "t_state (thr s (current s)) = RUNNING"
    by (auto simp: sched_ok_def)
  let ?g = "\<lambda>x. x\<lparr>suspend_count := suspend_count x + 1\<rparr>" and ?f = "\<lambda>x. x\<lparr>t_state := SUSPENDED\<rparr>"
  let ?s1 = "upd_thread t ?g s"
  consider (ready) "t_state (thr s t) = READY" | (run) "t_state (thr s t) = RUNNING"
    | (other) "t_state (thr s t) \<noteq> READY" "t_state (thr s t) \<noteq> RUNNING" by blast
  then show ?thesis
  proof cases
    case ready
    then have "suspend_count (thr s t) = 0" using sched_invD(6) [OF I] by blast
    then have s': "s' = upd_thread t ?f (remove_from_ready_queue t ?s1)"
      using assms(3) ready by (simp add: suspend_thread_def Let_def)
    have ne: "t \<noteq> current s" using ready run by auto
    have "core th = core (?g (thr s t)) \<Longrightarrow> priority th < 32 \<and> base_priority th < 32" for th
      using core_fields(2,3) [of th "?g (thr s t)"] sched_invD(3,4) [OF I, of t] by simp
    then show ?thesis
      unfolding s' by (intro remove_ok(1) [OF I run ready ne]) auto
  next
    case run
    then have t: "t = current s" "suspend_count (thr s t) = 0"
      using sched_invD(5,6) [OF I] by blast+
    let ?h = "\<lambda>x. x\<lparr>suspend_count := suspend_count x + 1, t_state := SUSPENDED\<rparr>"
    have "dispatch dpcs (upd_thread t ?h s) = Ret s'"
      using assms(3) run t by (simp add: suspend_thread_def Let_def kbind_Ret_iff upd_thread_def)
    moreover have "sched_inv (upd_thread t ?h s) q"
      by (rule upd_out_inv [OF I]) (use run sched_invD(3,4) [OF I] in auto)
    ultimately show ?thesis using dispatch_ok [OF _ assms(2)] t by simp
  next
    case other
    then have s': "s' = ?s1"
      using assms(3) by (simp add: suspend_thread_def Let_def split: if_splits)
    have "sched_inv ?s1 q"
      by (rule upd_out_inv [OF I]) (use other sched_invD(3,4) [OF I] in auto)
    with s' other run show ?thesis by (auto simp: sched_ok_def)
  qed
qed

lemma resume_thread_ok:
  assumes "sched_ok s" "resume_thread t s = Ret (n, s')"
  shows "sched_ok s'"
proof -
  from assms obtain q where I: "sched_inv s q" and run: "t_state (thr s (current s)) = RUNNING"
    by (auto simp: sched_ok_def)
  let ?u = "upd_thread t (\<lambda>x. x\<lparr>suspend_count := suspend_count x - 1\<rparr>) s"
  show ?thesis
  proof (cases "suspend_count (thr s t) > 0")
    case True
    then have out: "t_state (thr s t) \<noteq> READY" "t_state (thr s t) \<noteq> RUNNING"
      using sched_invD(6) [OF I, of t] by auto
    then have ne: "t \<noteq> current s" using run by auto
    have "sched_inv ?u q"
      by (rule upd_out_inv [OF I]) (use out sched_invD(3,4) [OF I] in auto)
    then have "sched_ok ?u" using run ne by (auto simp: sched_ok_def)
    with assms(2) True ne show ?thesis
      using mark_other_ok [of ?u t 0 0 s']
      by (auto simp: resume_thread_def Let_def kbind_Ret_iff split: if_splits)
  next
    case False
    with assms show ?thesis by (simp add: resume_thread_def)
  qed
qed

lemma set_thread_priority_ok:
  assumes "sched_ok s" "dpcs_ok dpcs" "set_thread_priority dpcs t prio s = Ret (rc, s')"
  shows "sched_ok s'"
proof -
  from assms obtain q where I: "sched_inv s q" and run: "t_state (thr s (current s)) = RUNNING"
    by (auto simp: sched_ok_def)
  let ?p = "nat prio"
  let ?u = "upd_thread t (set_both ?p) s"
  show ?thesis
  proof (cases "prio < 0 \<or> prio \<ge> int THREAD_PRIORITY_LEVELS \<or> int (base_priority (thr s t)) = prio")
    case True
    then have "s' = s" using assms(3) by (auto simp: set_thread_priority_def split: if_splits)
    with assms(1) show ?thesis by simp
  next
    case False
    then have p: "?p < 32" by (simp add: THREAD_PRIORITY_LEVELS_def nat_less_iff)
    note call = assms(3) [unfolded set_thread_priority_def]
    consider (self) "t = current s" | (ready) "t \<noteq> current s" "t_state (thr s t) = READY"
      | (other) "t \<noteq> current s" "t_state (thr s t) \<noteq> READY" by blast
    then show ?thesis
    proof cases
      case self
      have J: "sched_inv ?u q"
        unfolding self by (rule upd_current_inv [OF I run])
          (use sched_invD(6) [OF I] p run in \<open>auto simp: set_both_def\<close>)
      have runu: "t_state (thr ?u (current ?u)) = RUNNING" using run self by (simp add: set_both_def)
      show ?thesis
      proof (cases "?p < priority (thr s t)")
        case True
        then obtain s1 where "mark_thread_ready (current ?u) 0 0 ?u = Ret s1" "dispatch dpcs s1 = Ret s'"
          using call False self by (auto simp: kbind_Ret_iff)
        then show ?thesis using mark_self_dispatch_ok [OF J runu assms(2)] by blast
      next
        case False': False
        then have "s' = ?u" using call False self by simp
        then show ?thesis using J runu by (auto simp: sched_ok_def)
      qed
    next
      case ready
      let ?f = "\<lambda>x. (set_both ?p x)\<lparr>t_state := TRANSITION\<rparr>"
      let ?v = "upd_thread t ?f (remove_from_ready_queue t (upd_thread t (\<lambda>x. x) s))"
      have id: "upd_thread t (\<lambda>x. x) s = s" by (simp add: upd_thread_def)
      have m: "mark_thread_ready t 0 0 ?v = Ret s'"
        using call False ready unfolding id by (auto simp: kbind_Ret_iff)
      have ok: "sched_ok ?v" "current ?v = current s"
        by (rule remove_ok [OF I run ready(2,1)]; use p in \<open>simp add: set_both_def\<close>)+
      then show ?thesis using mark_other_ok [OF ok(1) _ m] ready(1) by simp
    next
      case other
      then have "t_state (thr s t) \<noteq> RUNNING" using sched_invD(5) [OF I, of t] by blast
      then have "sched_inv ?u q"
        by (intro upd_out_inv [OF I]) (use other p in \<open>auto simp: set_both_def\<close>)
      moreover have "s' = ?u" using call False other by simp
      ultimately show ?thesis using other run by (auto simp: sched_ok_def)
    qed
  qed
qed

section \<open>Reachable scheduler states\<close>

text \<open>
  The scheduler as a transition system: a wake-up of another thread (by a deferred call, a
  timer or another thread), or a system call of the current one.
\<close>

inductive sched_step ::
  "'z dpcs \<Rightarrow> 'z sched_scheme \<Rightarrow> 'z sched_scheme \<Rightarrow> bool" for dpcs where
  wake: "t \<noteq> current s \<Longrightarrow> mark_thread_ready t c b s = Ret s' \<Longrightarrow> sched_step dpcs s s'"
| wait: "enter_wait dpcs r s = Ret s' \<Longrightarrow> sched_step dpcs s s'"
| alertable: "enter_alertable_wait dpcs r s = Ret (Inr s') \<Longrightarrow> sched_step dpcs s s'"
| leave: "leave_alertable_wait s = (rc, s') \<Longrightarrow> sched_step dpcs s s'"
| interrupt: "interrupt_thread t s = Ret (rc, s') \<Longrightarrow> sched_step dpcs s s'"
| preempted: "preempt_thread dpcs s = Ret s' \<Longrightarrow> sched_step dpcs s s'"
| yielding: "yield dpcs s = Ret s' \<Longrightarrow> sched_step dpcs s s'"
| suspend: "suspend_thread dpcs t s = Ret (n, s') \<Longrightarrow> sched_step dpcs s s'"
| resume: "resume_thread t s = Ret (n, s') \<Longrightarrow> sched_step dpcs s s'"
| reprioritise: "set_thread_priority dpcs t p s = Ret (rc, s') \<Longrightarrow> sched_step dpcs s s'"

lemma sched_step_ok:
  assumes "dpcs_ok dpcs" "sched_step dpcs s s'" "sched_ok s"
  shows "sched_ok s'"
  using assms(2,3)
  by (induction rule: sched_step.induct)
    (use assms(1) in \<open>blast intro: mark_other_ok enter_wait_ok enter_alertable_wait_ok
      leave_alertable_wait_ok interrupt_thread_ok preempt_thread_ok yield_ok suspend_thread_ok
      resume_thread_ok set_thread_priority_ok\<close>)+

text \<open>
  C7. In every state the scheduler can reach from a well-formed one, the ready queues are
  well-linked lists of exactly the ready threads, each in the queue of its own priority, and
  the summary word says which queues are non-empty; exactly one thread, the current one, is
  running, and no ready or running thread is suspended.
\<close>

theorem sched_reachable_ok:
  assumes "sched_ok s" "dpcs_ok dpcs" "(sched_step dpcs)\<^sup>*\<^sup>* s s'"
  shows "\<exists>q. (\<forall>p < 32. dll (ready_head s' p) (ready_tail s' p) (nxt s') (prv s') (q p) \<and>
        (bit (summary s') p \<longleftrightarrow> q p \<noteq> [])) \<and>
      (\<forall>t. t_state (thr s' t) = READY \<longleftrightarrow> t \<in> set (q (priority (thr s' t)))) \<and>
      (\<forall>t. t_state (thr s' t) = RUNNING \<longleftrightarrow> t = current s') \<and>
      (\<forall>t. suspend_count (thr s' t) > 0 \<longrightarrow> t_state (thr s' t) \<noteq> READY \<and> t \<noteq> current s')"
proof -
  have "sched_ok s'" using assms(3,1) by (induction rule: rtranclp_induct)
    (blast intro: sched_step_ok [OF assms(2)])+
  then obtain q where I: "sched_inv s' q" and run: "t_state (thr s' (current s')) = RUNNING"
    by (auto simp: sched_ok_def)
  note Q = queuesD [OF sched_invD(1) [OF I]]
  have "t_state (thr s' t) = READY \<longleftrightarrow> t \<in> set (q (priority (thr s' t)))" for t
  proof
    assume "t_state (thr s' t) = READY"
    then obtain p where "p < 32" "t \<in> set (q p)" using sched_invD(2) [OF I, of t] by blast
    with Q(3) show "t \<in> set (q (priority (thr s' t)))" by auto
  next
    assume "t \<in> set (q (priority (thr s' t)))"
    with sched_invD(2,3) [OF I, of t] show "t_state (thr s' t) = READY" by blast
  qed
  moreover have "t_state (thr s' t) = RUNNING \<longleftrightarrow> t = current s'" for t
    using sched_invD(5) [OF I, of t] run by blast
  moreover have "suspend_count (thr s' t) > 0 \<Longrightarrow> t_state (thr s' t) \<noteq> READY \<and> t \<noteq> current s'" for t
    using sched_invD(6) [OF I, of t] run by force
  ultimately show ?thesis using Q(1,2) by blast
qed

section \<open>Dynamic priorities\<close>

text \<open>
  The rules of the comment in \<^verbatim>\<open>mark_thread_ready\<close>: a boost never moves a thread into the
  realtime range above \<^verbatim>\<open>PRIORITY_TIME_CRITICAL\<close> unless its base priority is there, the dynamic
  priority never falls below the base priority, and it only decreases, by one step, when the
  thread has used up its quantum; a queued thread always leaves with a positive quantum.
\<close>

theorem mark_thread_ready_priority:
  assumes "sched_inv s q" "mark_thread_ready t c b s = Ret s'"
    and "suspend_count (thr s t) = 0" "t_state (thr s t) \<noteq> READY"
    and "base_priority (thr s t) \<le> priority (thr s t)"
    and "priority (thr s t) \<le> max PRIORITY_TIME_CRITICAL (base_priority (thr s t))"
  shows "base_priority (thr s' t) \<le> priority (thr s' t) \<and>
    priority (thr s' t) \<le> max PRIORITY_TIME_CRITICAL (base_priority (thr s' t)) \<and>
    (if quantum (thr s t) - c > 0 then priority (thr s t) \<le> priority (thr s' t)
     else priority (thr s t) \<le> Suc (priority (thr s' t))) \<and>
    quantum (thr s' t) > 0"
proof -
  have "core (thr s' t) = core (boosted c b (thr s t))"
    using mark_thread_ready_inv [OF assms(1,2)] assms(3,4) by auto
  note F = core_fields [OF this]
  show ?thesis
    unfolding F using assms(5,6) by (auto simp: boosted_def Let_def DEFAULT_QUANTUM_def)
qed

section \<open>The state after initialisation\<close>

text \<open>
  \<^verbatim>\<open>init_sched\<close> sets the summary bit of the idle priority although the idle thread is in no
  queue: a search for a ready thread in this state would dereference a null queue head
  instead of reporting that no thread is ready.
\<close>

theorem init_sched_summary_stale:
  "find_ready_thread (init_sched s) = Panic ''null dereference''"
proof -
  have "bit (1 :: u32) (find_highest_bit 1)" using find_highest_bit_spec(1) [of 1] by simp
  then have "find_highest_bit 1 = 0" by (simp add: bit_1_iff)
  then show ?thesis by (simp add: find_ready_thread_def init_sched_def)
qed

section \<open>Witnesses\<close>

text \<open>Thread 0 runs at priority 8, thread 1 is ready at priority 10, the others do not exist yet.\<close>

definition demo_sched :: sched where
  "demo_sched =
     \<lparr>thr = (\<lambda>_. zero_thread)
        (0 := zero_thread\<lparr>t_state := RUNNING, priority := 8, base_priority := 8, quantum := 36\<rparr>,
         1 := zero_thread\<lparr>t_state := READY, priority := 10, base_priority := 10, quantum := 36\<rparr>),
      current = 0, preempt_flag = False,
      ready_head = (\<lambda>_. None)(10 := Some 1), ready_tail = (\<lambda>_. None)(10 := Some 1),
      summary = 1024\<rparr>"

lemma bit_1024: "bit (1024 :: int) p \<longleftrightarrow> p = 10"
  using bit_exp_iff [of 10 p, where 'a = int] by simp

lemma demo_sched_inv: "sched_inv demo_sched ((\<lambda>_. [])(10 := [1]))"
proof (rule sched_invI)
  show "queues demo_sched ((\<lambda>_. [])(10 := [1]))"
    by (auto simp: queues_def demo_sched_def dll_def nxt_def prv_def zero_thread_def bit_1024)
qed (auto simp: demo_sched_def zero_thread_def split: if_splits)

lemma demo_sched_ok: "sched_ok demo_sched"
  using demo_sched_inv by (auto simp: sched_ok_def) (simp add: demo_sched_def)

lemma id_dpcs_ok: "dpcs_ok Ret"
  by (auto simp: dpcs_ok_def)

theorem mark_thread_ready_correct_witness:
  "\<exists>s' q'. mark_thread_ready 2 1 1 demo_sched = Ret s' \<and> sched_inv s' q' \<and>
     (let up = max (min (base_priority (thr demo_sched 2) + 1) 15) (priority (thr demo_sched 2));
          left = quantum (thr demo_sched 2) - 1;
          p = (if 0 < left \<or> up \<le> base_priority (thr demo_sched 2) then up else up - 1) in
      core (thr s' 2) = core ((thr demo_sched 2)\<lparr>t_state := READY, priority := p,
        quantum := (if 0 < left then left else 36)\<rparr>) \<and>
      q' = ((\<lambda>_. [])(10 := [1])) (p := (if 0 < left then 2 # ((\<lambda>_. [])(10 := [1])) p
        else ((\<lambda>_. [])(10 := [1])) p @ [2])))"
proof -
  obtain s' where m: "mark_thread_ready 2 1 1 demo_sched = Ret s'"
    by (simp add: mark_thread_ready_cases demo_sched_def zero_thread_def Let_def)
  have "suspend_count (thr demo_sched 2) = 0" "t_state (thr demo_sched 2) \<noteq> READY"
    by (simp_all add: demo_sched_def zero_thread_def)
  then show ?thesis
    using mark_thread_ready_correct [OF demo_sched_inv, of 2 1 1] m by (auto simp: Let_def)
qed

definition demo_idle :: sched where
  "demo_idle = upd_thread 0 (\<lambda>x. x\<lparr>t_state := WAITING\<rparr>) demo_sched"

lemma demo_idle_inv: "sched_inv demo_idle ((\<lambda>_. [])(10 := [1]))"
  unfolding demo_idle_def
  by (rule upd_out_inv [OF demo_sched_inv]) (simp_all add: demo_sched_def zero_thread_def)

theorem dispatch_highest_priority_witness:
  "\<exists>q1. sched_inv (demo_idle\<lparr>preempt_flag := False\<rparr>) q1 \<and>
     picks (demo_idle\<lparr>preempt_flag := False\<rparr>) q1 (dispatch Ret demo_idle)"
  using dispatch_highest_priority [OF demo_idle_inv id_dpcs_ok]
  by (simp add: demo_idle_def demo_sched_def)

theorem sched_reachable_ok_witness:
  "\<exists>q. (\<forall>p < 32. dll (ready_head demo_sched p) (ready_tail demo_sched p) (nxt demo_sched)
          (prv demo_sched) (q p) \<and> (bit (summary demo_sched) p \<longleftrightarrow> q p \<noteq> [])) \<and>
      (\<forall>t. t_state (thr demo_sched t) = READY \<longleftrightarrow> t \<in> set (q (priority (thr demo_sched t)))) \<and>
      (\<forall>t. t_state (thr demo_sched t) = RUNNING \<longleftrightarrow> t = current demo_sched) \<and>
      (\<forall>t. suspend_count (thr demo_sched t) > 0 \<longrightarrow>
         t_state (thr demo_sched t) \<noteq> READY \<and> t \<noteq> current demo_sched)"
  by (rule sched_reachable_ok [OF demo_sched_ok id_dpcs_ok rtranclp.rtrancl_refl])

theorem mark_thread_ready_priority_witness:
  "\<exists>s'. mark_thread_ready 2 1 1 demo_sched = Ret s' \<and>
     base_priority (thr s' 2) \<le> priority (thr s' 2) \<and> quantum (thr s' 2) > 0"
proof -
  obtain s' where m: "mark_thread_ready 2 1 1 demo_sched = Ret s'"
    by (simp add: mark_thread_ready_cases demo_sched_def zero_thread_def Let_def)
  from mark_thread_ready_priority [OF demo_sched_inv m] m show ?thesis
    by (simp add: demo_sched_def zero_thread_def)
qed

end
