(* ===== verification/Timer.thy ===== *)
theory Timer
  imports Dll
begin

text \<open>
  The timer wheel of \<^verbatim>\<open>src/src/sys/krnl/timer.c\<close>: five vectors of circular lists, the first with
  one slot per tick for the next 256 ticks and four coarser ones of 64 slots each, from
  which timers move to a finer vector when their slot comes up. Ticks are 32-bit words that
  wrap around.

  \<open>tvecs\<close> numbers the vectors from 0 (\<^verbatim>\<open>tv1\<close>) to 4 (\<^verbatim>\<open>tv5\<close>). A call that would dereference
  \<^verbatim>\<open>NULL\<close> or loop forever has the value \<open>None\<close>.
\<close>

section \<open>State\<close>

text \<open>\<^verbatim>\<open>struct timer_link\<close> objects: the slots of the vectors, and the links inside timers.\<close>

datatype tlink = Slot nat nat | Tmr nat

record timer =
  expires :: u32
  active :: bool
  handler :: nat
  targ :: nat

record timers =
  timer_ticks :: u32
  tv_index :: "nat \<Rightarrow> nat"
  lnext :: "tlink \<Rightarrow> tlink option"
  lprev :: "tlink \<Rightarrow> tlink option"
  tmr :: "nat \<Rightarrow> timer"

definition NOOF_TVECS :: nat where "NOOF_TVECS = 5"

fun is_slot :: "tlink \<Rightarrow> bool" where
  "is_slot (Slot n i) = (n = 0 \<and> i < 256 \<or> 0 < n \<and> n < NOOF_TVECS \<and> i < 64)"
| "is_slot (Tmr t) = False"

definition upd_tmr :: "nat \<Rightarrow> (timer \<Rightarrow> timer) \<Rightarrow> 'z timers_scheme \<Rightarrow> 'z timers_scheme" where
  "upd_tmr t f s = s\<lparr>tmr := (tmr s)(t := f (tmr s t))\<rparr>"

section \<open>Operations\<close>

definition timer_slot :: "u32 \<Rightarrow> 'z timers_scheme \<Rightarrow> tlink" where
  "timer_slot e s =
     (let idx = e - timer_ticks s in
      if idx < 256 then Slot 0 (unat (e AND 255))
      else if idx < push_bit 14 1 then Slot 1 (unat (drop_bit 8 e AND 63))
      else if idx < push_bit 20 1 then Slot 2 (unat (drop_bit 14 e AND 63))
      else if idx < push_bit 26 1 then Slot 3 (unat (drop_bit 20 e AND 63))
      else if sint idx < 0 then Slot 0 (tv_index s 0)
      else Slot 4 (unat (drop_bit 26 e AND 63)))"

definition attach_timer :: "nat \<Rightarrow> 'z timers_scheme \<Rightarrow> 'z timers_scheme option" where
  "attach_timer t s =
     (let vec = timer_slot (expires (tmr s t)) s in
      case lprev s vec of
        None \<Rightarrow> None
      | Some pv \<Rightarrow>
          Some (upd_tmr t (\<lambda>x. x\<lparr>active := True\<rparr>)
            (s\<lparr>lnext := (lnext s)(Tmr t := Some vec, pv := Some (Tmr t)),
               lprev := (lprev s)(Tmr t := Some pv, vec := Some (Tmr t))\<rparr>)))"

definition detach_timer :: "nat \<Rightarrow> 'z timers_scheme \<Rightarrow> (int \<times> 'z timers_scheme) option" where
  "detach_timer t s =
     (if \<not> active (tmr s t) then Some (0, s)
      else
        case (lnext s (Tmr t), lprev s (Tmr t)) of
          (Some nx, Some pv) \<Rightarrow>
            Some (1, upd_tmr t (\<lambda>x. x\<lparr>active := False\<rparr>)
              (s\<lparr>lnext := (lnext s)(pv := Some nx), lprev := (lprev s)(nx := Some pv)\<rparr>))
        | _ \<Rightarrow> None)"

definition init_timers :: "'z timers_scheme \<Rightarrow> 'z timers_scheme" where
  "init_timers s =
     s\<lparr>lnext := (\<lambda>l. if is_slot l then Some l else lnext s l),
       lprev := (\<lambda>l. if is_slot l then Some l else lprev s l)\<rparr>"

text \<open>\<^verbatim>\<open>init_timer\<close> clears \<^verbatim>\<open>link.next\<close> twice and leaves \<^verbatim>\<open>link.prev\<close> as it was.\<close>

definition init_timer :: "nat \<Rightarrow> nat \<Rightarrow> nat \<Rightarrow> 'z timers_scheme \<Rightarrow> 'z timers_scheme" where
  "init_timer t h a s =
     upd_tmr t (\<lambda>x. x\<lparr>expires := 0, active := False, handler := h, targ := a\<rparr>)
       (s\<lparr>lnext := (lnext s)(Tmr t := None)\<rparr>)"

definition add_timer :: "nat \<Rightarrow> 'z timers_scheme \<Rightarrow> 'z timers_scheme option" where
  "add_timer t s = (if active (tmr s t) then Some s else attach_timer t s)"

definition clear_link :: "nat \<Rightarrow> 'z timers_scheme \<Rightarrow> 'z timers_scheme" where
  "clear_link t s = s\<lparr>lnext := (lnext s)(Tmr t := None), lprev := (lprev s)(Tmr t := None)\<rparr>"

definition del_timer :: "nat \<Rightarrow> 'z timers_scheme \<Rightarrow> (int \<times> 'z timers_scheme) option" where
  "del_timer t s =
     (case detach_timer t s of None \<Rightarrow> None | Some (rc, s') \<Rightarrow> Some (rc, clear_link t s'))"

definition mod_timer :: "nat \<Rightarrow> u32 \<Rightarrow> 'z timers_scheme \<Rightarrow> (int \<times> 'z timers_scheme) option" where
  "mod_timer t e s =
     do {
       (rc, s1) \<leftarrow> detach_timer t (upd_tmr t (\<lambda>x. x\<lparr>expires := e\<rparr>) s);
       s2 \<leftarrow> attach_timer t s1;
       Some (rc, s2)
     }"

text \<open>The walk of \<^verbatim>\<open>cascade_timers\<close> from \<open>cur\<close> to the head; the list is not unlinked on the way.\<close>

partial_function (option) cascade_loop ::
  "tlink \<Rightarrow> tlink option \<Rightarrow> 'z timers_scheme \<Rightarrow> 'z timers_scheme option" where
  "cascade_loop head cur s =
     (if cur = Some head then Some s
      else
        case cur of
          Some (Tmr t) \<Rightarrow>
            do {
              s' \<leftarrow> attach_timer t s;
              cascade_loop head (lnext s (Tmr t)) s'
            }
        | _ \<Rightarrow> None)"

definition cascade_timers :: "nat \<Rightarrow> 'z timers_scheme \<Rightarrow> 'z timers_scheme option" where
  "cascade_timers n s =
     (let head = Slot n (tv_index s n) in
      do {
        s1 \<leftarrow> cascade_loop head (lnext s head) s;
        Some (s1\<lparr>lnext := (lnext s1)(head := Some head), lprev := (lprev s1)(head := Some head),
                 tv_index := (tv_index s1)(n := (tv_index s1 n + 1) mod 64)\<rparr>)
      })"

text \<open>\<^verbatim>\<open>do { cascade_timers(tvecs[n]); } while (tvecs[n]->index == 1 && ++n < NOOF_TVECS)\<close>\<close>

function cascade_levels :: "nat \<Rightarrow> 'z timers_scheme \<Rightarrow> 'z timers_scheme option" where
  "cascade_levels n s =
     do {
       s1 \<leftarrow> cascade_timers n s;
       if tv_index s1 n = 1 \<and> n + 1 < NOOF_TVECS then cascade_levels (n + 1) s1 else Some s1
     }"
  by pat_completeness auto
termination by (relation "measure (\<lambda>(n, s). NOOF_TVECS - n)") auto

text \<open>
  The loop that fires the timers of the current slot. \<open>h p a\<close> stands for the call of the
  handler \<open>p\<close> with argument \<open>a\<close>; it may do anything to the state, arm timers included.
\<close>

partial_function (option) run_slot ::
  "(nat \<Rightarrow> nat \<Rightarrow> 'z timers_scheme \<Rightarrow> 'z timers_scheme option) \<Rightarrow> 'z timers_scheme \<Rightarrow> 'z timers_scheme option" where
  "run_slot h s =
     (let head = Slot 0 (tv_index s 0) in
      if lnext s head = Some head then Some s
      else
        case lnext s head of
          Some (Tmr t) \<Rightarrow>
            do {
              (rc, s1) \<leftarrow> detach_timer t s;
              s2 \<leftarrow> h (handler (tmr s t)) (targ (tmr s t)) (clear_link t s1);
              run_slot h s2
            }
        | _ \<Rightarrow> None)"

definition run_tick ::
  "(nat \<Rightarrow> nat \<Rightarrow> 'z timers_scheme \<Rightarrow> 'z timers_scheme option) \<Rightarrow> 'z timers_scheme \<Rightarrow> 'z timers_scheme option" where
  "run_tick h s =
     do {
       s1 \<leftarrow> (if tv_index s 0 = 0 then cascade_levels 1 s else Some s);
       s2 \<leftarrow> run_slot h s1;
       Some (s2\<lparr>timer_ticks := timer_ticks s2 + 1, tv_index := (tv_index s2)(0 := (tv_index s2 0 + 1) mod 256)\<rparr>)
     }"

partial_function (option) run_timer_list ::
  "(nat \<Rightarrow> nat \<Rightarrow> 'z timers_scheme \<Rightarrow> 'z timers_scheme option) \<Rightarrow> u32 \<Rightarrow> 'z timers_scheme \<Rightarrow> 'z timers_scheme option" where
  "run_timer_list h ticks s =
     (if sint (ticks - timer_ticks s) \<ge> 0
      then do { s' \<leftarrow> run_tick h s; run_timer_list h ticks s' }
      else Some s)"

section \<open>Where a timer belongs\<close>

text \<open>
  \<open>sh n\<close> is the number of ticks of one slot of vector \<open>n > 0\<close>, as a power of two. \<open>placed P T l e\<close>
  says that slot \<open>l\<close> is right for a timer that expires at \<open>e\<close> when the next tick to run is
  \<open>T\<close>: in the first vector the tick itself, or the current slot for a time that has passed; in
  the others the slot that cascades at or after \<open>T\<close> and not after \<open>e\<close>. \<open>P\<close> are the vectors
  whose slot still has to cascade at \<open>T\<close>.
\<close>

definition sh :: "nat \<Rightarrow> nat" where "sh n = 2 + 6 * n"

fun placed :: "nat set \<Rightarrow> u32 \<Rightarrow> tlink \<Rightarrow> u32 \<Rightarrow> bool" where
  "placed P T (Tmr t) e = False"
| "placed P T (Slot n i) e =
     (let d = unat (e - T) in
      if n = 0 then i = unat e mod 256 \<and> d < 256 \<or> i = unat T mod 256 \<and> 2 ^ 31 \<le> d
      else d < 2 ^ (sh n + 6) \<and> d < 2 ^ 31 \<and> i = unat e div 2 ^ sh n mod 64 \<and>
        unat e mod 2 ^ sh n \<le> d \<and> (unat e mod 2 ^ sh n = d \<longrightarrow> n \<in> P))"

definition index_ok :: "nat set \<Rightarrow> 'z timers_scheme \<Rightarrow> bool" where
  "index_ok P s \<longleftrightarrow>
     tv_index s 0 = unat (timer_ticks s) mod 256 \<and>
     (\<forall>n. 0 < n \<and> n < NOOF_TVECS \<longrightarrow>
        (n \<in> P \<longrightarrow> unat (timer_ticks s) mod 2 ^ sh n = 0) \<and>
        tv_index s n = (unat (timer_ticks s) div 2 ^ sh n + (if n \<in> P then 0 else 1)) mod 64)"

lemma mod_64_shift: "(m + q) mod 64 = m mod 64 \<Longrightarrow> q < 64 \<Longrightarrow> q = 0" for m q :: nat
  using mod_eq_dvd_iff_nat [of m "m + q" 64] by (auto dest: nat_dvd_not_less)

lemma field_mod: "s + 6 \<le> 32 \<Longrightarrow> x mod 4294967296 div 2 ^ s mod 64 = x div 2 ^ s mod 64" for x :: nat
proof -
  assume s: "s + 6 \<le> 32"
  have *: "y div 2 ^ s mod 64 = y mod 2 ^ (s + 6) div 2 ^ s" for y :: nat
    using drop_bit_take_bit [of s "s + 6" y] by (simp add: take_bit_eq_mod drop_bit_eq_div)
  have "(2::nat) ^ (s + 6) dvd 2 ^ 32" using s by (intro le_imp_power_dvd; simp)
  then show ?thesis by (simp add: * mod_mod_cancel)
qed

lemma mod_pow_mod: "s \<le> 32 \<Longrightarrow> x mod 4294967296 mod 2 ^ s = x mod 2 ^ s" for x :: nat
  using le_imp_power_dvd [of s 32 "2 :: nat"] by (simp add: mod_mod_cancel)

lemma slot_due:
  fixes T d :: nat
  assumes T: "T mod 2 ^ s = 0" and d: "d < 2 ^ (s + 6)" and s: "s + 6 \<le> 32"
    and eq: "(T + d) mod 2 ^ 32 div 2 ^ s mod 64 = T div 2 ^ s mod 64"
  shows "(T + d) mod 2 ^ 32 mod 2 ^ s = d"
proof -
  obtain m where m: "T = 2 ^ s * m" using T by auto
  have 1: "(T + d) mod 2 ^ 32 mod 2 ^ s = d mod 2 ^ s" using s mod_pow_mod [of s "T + d"] by (simp add: m)
  have "(T + d) mod 2 ^ 32 div 2 ^ s mod 64 = (T + d) div 2 ^ s mod 64"
    using field_mod [OF s, of "T + d"] by simp
  also have "(T + d) div 2 ^ s = m + d div 2 ^ s" by (simp add: m)
  finally have "(m + d div 2 ^ s) mod 64 = m mod 64" using eq m by simp
  moreover have "d div 2 ^ s < 64" using d by (simp add: power_add less_mult_imp_div_less mult.commute)
  ultimately have "d div 2 ^ s = 0" by (rule mod_64_shift)
  then have "d < 2 ^ s" by (simp add: div_eq_0_iff)
  with 1 show ?thesis by simp
qed

lemma placed_due:
  assumes "placed P T (Slot n (unat T div 2 ^ sh n mod 64)) e" "unat T mod 2 ^ sh n = 0" "0 < n" "n < 5"
  shows "unat (e - T) < 2 ^ sh n"
proof -
  have "sh n + 6 \<le> 32" using assms(4) by (simp add: sh_def)
  then have "unat e mod 2 ^ sh n = unat (e - T)"
    using assms slot_due [of "unat T" "sh n" "unat (e - T)"] unat_diff_eq [of e T]
    by (simp add: Let_def)
  then show ?thesis by (metis mod_less_divisor zero_less_numeral zero_less_power)
qed

lemma timer_slot_placed:
  assumes "index_ok P s"
  shows "is_slot (timer_slot e s) \<and> placed P (timer_ticks s) (timer_slot e s) e"
proof -
  let ?d = "unat (e - timer_ticks s)"
  have r: "unat e mod k < k" if "0 < k" for k :: nat using that by simp
  consider "?d < 256" | "256 \<le> ?d" "?d < 2 ^ 14" | "2 ^ 14 \<le> ?d" "?d < 2 ^ 20" | "2 ^ 20 \<le> ?d" "?d < 2 ^ 26"
    | "2 ^ 26 \<le> ?d" "?d < 2 ^ 31" | "2 ^ 31 \<le> ?d" by linarith
  then show ?thesis
    using r [of "2 ^ 8"] r [of "2 ^ 14"] r [of "2 ^ 20"] r [of "2 ^ 26"] assms
    by cases (auto simp: timer_slot_def Let_def word_less_nat_alt sint_neg_iff unat_and_255 unat_field
      sh_def index_ok_def NOOF_TVECS_def not_less)
qed

lemma timer_slot_level:
  assumes "unat (e - timer_ticks s) < 2 ^ sh n" "0 < n" "n < 5" "timer_slot e s = Slot k i"
  shows "k < n"
proof -
  have "n = 1 \<or> n = 2 \<or> n = 3 \<or> n = 4" using assms(2,3) by linarith
  then show ?thesis
    using assms by (auto simp: timer_slot_def Let_def word_less_nat_alt sint_neg_iff sh_def split: if_splits)
qed

section \<open>The circular lists\<close>

text \<open>\<open>rings X s L\<close>: every slot outside \<open>X\<close> is the ring of the timers \<open>L\<close> gives it.\<close>

definition rings :: "tlink set \<Rightarrow> 'z timers_scheme \<Rightarrow> (tlink \<Rightarrow> nat list) \<Rightarrow> bool" where
  "rings X s L \<longleftrightarrow>
     (\<forall>l. is_slot l \<and> l \<notin> X \<longrightarrow> ring (lnext s) (lprev s) l (map Tmr (L l))) \<and>
     (\<forall>l. \<not> is_slot l \<longrightarrow> L l = []) \<and>
     (\<forall>l l' t. t \<in> set (L l) \<longrightarrow> t \<in> set (L l') \<longrightarrow> l = l')"

lemma slot_not_Tmr [simp]: "is_slot l \<Longrightarrow> l \<noteq> Tmr t" "is_slot l \<Longrightarrow> Tmr t \<noteq> l"
  by auto

lemma ringsD:
  assumes "rings X s L"
  shows "is_slot l \<Longrightarrow> l \<notin> X \<Longrightarrow> ring (lnext s) (lprev s) l (map Tmr (L l))"
    "t \<in> set (L l) \<Longrightarrow> is_slot l" "t \<in> set (L l) \<Longrightarrow> t \<in> set (L l') \<Longrightarrow> l = l'"
  using assms by (auto simp: rings_def)

lemma rings_distinct: "rings X s L \<Longrightarrow> l \<notin> X \<Longrightarrow> distinct (L l)"
  using ring_distinct [OF ringsD(1), of X s L l]
  by (cases "is_slot l") (auto simp: distinct_map rings_def)

definition same_wheel :: "'z timers_scheme \<Rightarrow> 'z timers_scheme \<Rightarrow> bool" where
  "same_wheel s s' \<longleftrightarrow> timer_ticks s' = timer_ticks s \<and> tv_index s' = tv_index s \<and>
     timers.more s' = timers.more s"

lemma same_wheel_refl [simp]: "same_wheel s s"
  by (simp add: same_wheel_def)

lemma same_wheel_trans: "same_wheel a b \<Longrightarrow> same_wheel b c \<Longrightarrow> same_wheel a c"
  by (simp add: same_wheel_def)

lemma attach_rings:
  assumes R: "rings X s L" and t: "\<And>l. t \<notin> set (L l)"
    and vec: "vec = timer_slot (expires (tmr s t)) s" "is_slot vec" "vec \<notin> X"
  obtains s' where "attach_timer t s = Some s'" "rings X s' (L(vec := L vec @ [t]))" "same_wheel s s'"
    "tmr s' = (tmr s)(t := (tmr s t)\<lparr>active := True\<rparr>)"
    "\<And>u. u \<noteq> t \<Longrightarrow> (\<And>l. u \<notin> set (L l)) \<Longrightarrow> lnext s' (Tmr u) = lnext s (Tmr u)"
proof -
  have rv: "ring (lnext s) (lprev s) vec (map Tmr (L vec))" using ringsD(1) [OF R] vec by blast
  define pv where "pv = last (vec # map Tmr (L vec))"
  then have pv: "lprev s vec = Some pv" "pv = last (vec # map Tmr (L vec))"
    using ring_prev [OF rv] by simp_all
  have pvin: "pv \<in> insert vec (Tmr ` set (L vec))"
    using pv(2) last_in_set [of "vec # map Tmr (L vec)"] by simp
  define s' where "s' = upd_tmr t (\<lambda>x. x\<lparr>active := True\<rparr>)
            (s\<lparr>lnext := (lnext s)(Tmr t := Some vec, pv := Some (Tmr t)),
               lprev := (lprev s)(Tmr t := Some pv, vec := Some (Tmr t))\<rparr>)"
  have "ring (lnext s') (lprev s') l (map Tmr ((L(vec := L vec @ [t])) l))" if l: "is_slot l" "l \<notin> X" for l
  proof (cases "l = vec")
    case True
    have "ring ((lnext s)(Tmr t := Some vec, pv := Some (Tmr t)))
        ((lprev s)(Tmr t := Some pv, vec := Some (Tmr t))) vec (map Tmr (L vec) @ [Tmr t])"
      using ring_insert_last [OF rv _ pv(1), of "Tmr t"] t vec by auto
    with True show ?thesis by (simp add: s'_def upd_tmr_def)
  next
    case False
    have "Tmr t \<notin> insert l (Tmr ` set (L l))" "pv \<notin> insert l (Tmr ` set (L l))" "vec \<notin> insert l (Tmr ` set (L l))"
      using t l vec pvin False ringsD(3) [OF R] by auto
    then have "ring (lnext s') (lprev s') l (map Tmr (L l)) \<longleftrightarrow> ring (lnext s) (lprev s) l (map Tmr (L l))"
      by (intro ring_cong) (auto simp: s'_def upd_tmr_def)
    with False l ringsD(1) [OF R] show ?thesis by simp
  qed
  moreover have "l = l'" if "u \<in> set ((L(vec := L vec @ [t])) l)" "u \<in> set ((L(vec := L vec @ [t])) l')" for u l l'
    using that t ringsD(3) [OF R, of u] by (cases "u = t") (auto split: if_splits)
  ultimately have "rings X s' (L(vec := L vec @ [t]))"
    using R vec unfolding rings_def by (metis fun_upd_other)
  moreover have "attach_timer t s = Some s'"
    by (simp add: attach_timer_def s'_def Let_def pv(1) flip: vec(1))
  moreover have "u \<noteq> t \<Longrightarrow> (\<And>l. u \<notin> set (L l)) \<Longrightarrow> lnext s' (Tmr u) = lnext s (Tmr u)" for u
    using pvin vec by (auto simp: s'_def upd_tmr_def)
  ultimately show thesis
    using that [of s'] by (simp add: s'_def upd_tmr_def same_wheel_def)
qed

lemma detach_rings:
  assumes R: "rings X s L" and t: "t \<in> set (L l)" "l \<notin> X" "active (tmr s t)"
  obtains s' where "detach_timer t s = Some (1, s')" "rings X s' (L(l := remove1 t (L l)))" "same_wheel s s'"
    "tmr s' = (tmr s)(t := (tmr s t)\<lparr>active := False\<rparr>)"
proof -
  have l: "is_slot l" "ring (lnext s) (lprev s) l (map Tmr (L l))" using ringsD [OF R] t by blast+
  have "Tmr t \<in> set (map Tmr (L l))" using t by simp
  then obtain a b where ab: "lnext s (Tmr t) = Some b" "lprev s (Tmr t) = Some a"
    "a \<in> insert l (set (map Tmr (L l)))" "b \<in> insert l (set (map Tmr (L l)))" "a \<noteq> Tmr t" "b \<noteq> Tmr t"
    "ring ((lnext s)(a := Some b)) ((lprev s)(b := Some a)) l (remove1 (Tmr t) (map Tmr (L l)))"
    by (rule ring_remove [OF l(2)])
  define s' where "s' = upd_tmr t (\<lambda>x. x\<lparr>active := False\<rparr>)
              (s\<lparr>lnext := (lnext s)(a := Some b), lprev := (lprev s)(b := Some a)\<rparr>)"
  have rem: "remove1 (Tmr t) (map Tmr xs) = map Tmr (remove1 t xs)" for xs by (induction xs) auto
  have "ring (lnext s') (lprev s') k (map Tmr ((L(l := remove1 t (L l))) k))" if k: "is_slot k" "k \<notin> X" for k
  proof (cases "k = l")
    case True
    with ab(7) show ?thesis by (simp add: s'_def upd_tmr_def rem)
  next
    case False
    have "a \<notin> insert k (Tmr ` set (L k))" "b \<notin> insert k (Tmr ` set (L k))"
      using k l ab(3,4) False ringsD(3) [OF R] by auto
    then have "ring (lnext s') (lprev s') k (map Tmr (L k)) \<longleftrightarrow> ring (lnext s) (lprev s) k (map Tmr (L k))"
      by (intro ring_cong) (auto simp: s'_def upd_tmr_def)
    with False k ringsD(1) [OF R] show ?thesis by simp
  qed
  then have "rings X s' (L(l := remove1 t (L l)))"
    using R l unfolding rings_def by (metis fun_upd_apply set_remove1_subset subset_iff)
  then show thesis
    using that [of s'] ab t by (simp add: detach_timer_def s'_def upd_tmr_def same_wheel_def)
qed

lemma clear_link_rings:
  assumes "rings X s L" "\<And>l. t \<notin> set (L l)"
  shows "rings X (clear_link t s) L"
proof -
  have "ring (lnext (clear_link t s)) (lprev (clear_link t s)) l (map Tmr (L l)) \<longleftrightarrow>
      ring (lnext s) (lprev s) l (map Tmr (L l))" if "is_slot l" for l
    using assms(2) that by (intro ring_cong) (auto simp: clear_link_def)
  with assms(1) show ?thesis by (auto simp: rings_def)
qed

fun walk :: "(tlink \<Rightarrow> tlink option) \<Rightarrow> tlink option \<Rightarrow> nat list \<Rightarrow> tlink \<Rightarrow> bool" where
  "walk n c [] h = (c = Some h)"
| "walk n c (x # xs) h = (c = Some (Tmr x) \<and> walk n (n (Tmr x)) xs h)"

lemma walk_cong: "(\<And>x. x \<in> set xs \<Longrightarrow> n (Tmr x) = n' (Tmr x)) \<Longrightarrow> walk n c xs h = walk n' c xs h"
  by (induction xs arbitrary: c) auto

lemma ring_walk: "ring n p h (map Tmr xs) \<Longrightarrow> walk n (n h) xs h"
proof -
  have "chain n p (y # map Tmr xs @ [h]) \<Longrightarrow> walk n (n y) xs h" for y
    by (induction xs arbitrary: y) auto
  then show "ring n p h (map Tmr xs) \<Longrightarrow> walk n (n h) xs h" by (simp add: ring_def)
qed

lemma cascade_loop_correct:
  assumes "rings {head} s L" "walk (lnext s) cur xs head" "distinct xs" "is_slot head"
    "\<And>x l. x \<in> set xs \<Longrightarrow> x \<notin> set (L l)"
    "\<And>x. x \<in> set xs \<Longrightarrow> active (tmr s x)"
    "\<And>x. x \<in> set xs \<Longrightarrow> is_slot (timer_slot (expires (tmr s x)) s) \<and> timer_slot (expires (tmr s x)) s \<noteq> head"
  shows "\<exists>s'. cascade_loop head cur s = Some s' \<and> same_wheel s s' \<and> tmr s' = tmr s \<and>
    rings {head} s' (\<lambda>l. L l @ filter (\<lambda>x. timer_slot (expires (tmr s x)) s = l) xs)"
  using assms
proof (induction xs arbitrary: s L cur)
  case Nil
  then show ?case by (auto simp: cascade_loop.simps)
next
  case (Cons x xs)
  define vec where "vec = timer_slot (expires (tmr s x)) s"
  have vec: "is_slot vec" "vec \<notin> {head}" using Cons.prems(7) by (auto simp: vec_def)
  obtain s1 where s1: "attach_timer x s = Some s1" "rings {head} s1 (L(vec := L vec @ [x]))" "same_wheel s s1"
    "tmr s1 = (tmr s)(x := (tmr s x)\<lparr>active := True\<rparr>)"
    "\<And>u. u \<noteq> x \<Longrightarrow> (\<And>l. u \<notin> set (L l)) \<Longrightarrow> lnext s1 (Tmr u) = lnext s (Tmr u)"
    using attach_rings [OF Cons.prems(1) _ vec_def vec] Cons.prems(5) by auto
  have tm: "tmr s1 = tmr s" using s1(4) Cons.prems(6) [of x] by auto
  have ts: "timer_slot e s1 = timer_slot e s" for e
    using s1(3) by (simp add: timer_slot_def same_wheel_def cong: if_cong)
  have "walk (lnext s) (lnext s (Tmr x)) xs head" using Cons.prems(2) by simp
  then have w: "walk (lnext s1) (lnext s (Tmr x)) xs head"
    using walk_cong [of xs "lnext s1" "lnext s"] s1(5) Cons.prems(3,5) by fastforce
  have dj: "u \<notin> set ((L(vec := L vec @ [x])) l)" if "u \<in> set xs" for u l
    using that Cons.prems(3,5) by auto
  obtain s' where s': "cascade_loop head (lnext s (Tmr x)) s1 = Some s'" "same_wheel s1 s'" "tmr s' = tmr s1"
    "rings {head} s' (\<lambda>l. (L(vec := L vec @ [x])) l @ filter (\<lambda>x. timer_slot (expires (tmr s1 x)) s1 = l) xs)"
    using Cons.IH [OF s1(2) w _ Cons.prems(4) dj] Cons.prems(3,6,7) tm ts by auto
  have "(\<lambda>l. (L(vec := L vec @ [x])) l @ filter (\<lambda>x. timer_slot (expires (tmr s1 x)) s1 = l) xs) =
      (\<lambda>l. L l @ filter (\<lambda>x. timer_slot (expires (tmr s x)) s = l) (x # xs))"
    by (auto simp: tm ts vec_def)
  moreover have "cascade_loop head cur s = Some s'"
    using s1(1) s'(1) Cons.prems(2,4) by (subst cascade_loop.simps) simp
  ultimately show ?case using s' s1(3) tm same_wheel_trans by auto
qed

section \<open>The invariant of the wheel\<close>

definition wheel_ok :: "nat set \<Rightarrow> 'z timers_scheme \<Rightarrow> (tlink \<Rightarrow> nat list) \<Rightarrow> bool" where
  "wheel_ok P s L \<longleftrightarrow>
     rings {} s L \<and> index_ok P s \<and> (\<forall>t. active (tmr s t) \<longleftrightarrow> (\<exists>l. t \<in> set (L l))) \<and>
     (\<forall>l t. t \<in> set (L l) \<longrightarrow> placed P (timer_ticks s) l (expires (tmr s t)))"

lemma wheel_okD:
  assumes "wheel_ok P s L"
  shows "rings {} s L" "index_ok P s" "active (tmr s t) \<longleftrightarrow> (\<exists>l. t \<in> set (L l))"
    "t \<in> set (L l) \<Longrightarrow> placed P (timer_ticks s) l (expires (tmr s t))"
  using assms by (auto simp: wheel_ok_def)

lemma attach_ok:
  assumes W: "wheel_ok P s L" and t: "\<not> active (tmr s t)"
  obtains s' where "attach_timer t s = Some s'"
    "wheel_ok P s' (L(timer_slot (expires (tmr s t)) s := L (timer_slot (expires (tmr s t)) s) @ [t]))"
    "same_wheel s s'" "tmr s' = (tmr s)(t := (tmr s t)\<lparr>active := True\<rparr>)"
proof -
  define vec where "vec = timer_slot (expires (tmr s t)) s"
  have tn: "t \<notin> set (L l)" for l using wheel_okD(3) [OF W] t by blast
  have p: "is_slot vec" "placed P (timer_ticks s) vec (expires (tmr s t))"
    using timer_slot_placed [OF wheel_okD(2) [OF W]] by (simp_all add: vec_def)
  obtain s' where s': "attach_timer t s = Some s'" "rings {} s' (L(vec := L vec @ [t]))" "same_wheel s s'"
    "tmr s' = (tmr s)(t := (tmr s t)\<lparr>active := True\<rparr>)"
    using attach_rings [OF wheel_okD(1) [OF W] tn vec_def p(1)] by auto
  have "active (tmr s' u) \<longleftrightarrow> (\<exists>l. u \<in> set ((L(vec := L vec @ [t])) l))" for u
    using wheel_okD(3) [OF W, of u] by (cases "u = t") (auto simp: s'(4))
  then have "wheel_ok P s' (L(vec := L vec @ [t]))"
    using s' p tn wheel_okD(2,4) [OF W] by (auto simp: wheel_ok_def index_ok_def same_wheel_def)
  with s' that show thesis by (simp add: vec_def)
qed

lemma detach_ok:
  assumes W: "wheel_ok P s L"
  obtains s' where "detach_timer t s = Some (if active (tmr s t) then 1 else 0, s')"
    "wheel_ok P s' (\<lambda>l. removeAll t (L l))" "same_wheel s s'"
    "tmr s' = (tmr s)(t := (tmr s t)\<lparr>active := False\<rparr>)"
proof (cases "active (tmr s t)")
  case False
  have "(\<lambda>l. removeAll t (L l)) = L" using False wheel_okD(3) [OF W, of t] by (auto simp: fun_eq_iff)
  then show thesis
  proof (intro that [of s])
    have "(tmr s t)\<lparr>active := False\<rparr> = tmr s t" using False by (cases "tmr s t") simp
    then show "tmr s = (tmr s)(t := (tmr s t)\<lparr>active := False\<rparr>)" by (rule ssubst) simp
  qed (use False W in \<open>simp_all add: detach_timer_def\<close>)
next
  case True
  then obtain l where l: "t \<in> set (L l)" using wheel_okD(3) [OF W] by blast
  obtain s' where s': "detach_timer t s = Some (1, s')" "rings {} s' (L(l := remove1 t (L l)))" "same_wheel s s'"
    "tmr s' = (tmr s)(t := (tmr s t)\<lparr>active := False\<rparr>)"
    using detach_rings [OF wheel_okD(1) [OF W] l _ True] by auto
  have "distinct (L l)"
    using rings_distinct [OF wheel_okD(1) [OF W]] by simp
  moreover have "t \<notin> set (L k)" if "k \<noteq> l" for k using that l ringsD(3) [OF wheel_okD(1) [OF W]] by blast
  ultimately have eq: "(\<lambda>l. removeAll t (L l)) = L(l := remove1 t (L l))"
    by (auto simp: fun_eq_iff distinct_remove1_removeAll)
  have "wheel_ok P s' (\<lambda>l. removeAll t (L l))"
    using s' wheel_okD [OF W] unfolding wheel_ok_def eq [symmetric]
    by (auto simp: index_ok_def same_wheel_def)
  with s' True that show thesis by simp
qed

lemma clear_link_ok:
  assumes "wheel_ok P s L" "\<not> active (tmr s t)"
  shows "wheel_ok P (clear_link t s) L"
  using assms clear_link_rings [of "{}" s L t] wheel_okD [OF assms(1)]
  by (auto simp: wheel_ok_def index_ok_def clear_link_def)

text \<open>The vectors that cascade at tick \<open>T\<close>, and the number of ticks until a timer fires.\<close>

definition pend :: "u32 \<Rightarrow> nat set" where
  "pend T = {n. 0 < n \<and> n < NOOF_TVECS \<and> unat T mod 2 ^ sh n = 0}"

definition remaining :: "'z timers_scheme \<Rightarrow> nat \<Rightarrow> nat" where
  "remaining s t =
     (let d = unat (expires (tmr s t) - timer_ticks s) in if 2 ^ 31 \<le> d then 0 else d)"

lemma mod_256_shift: "(T + d) mod 4294967296 mod 256 = T mod 256 \<Longrightarrow> d < 256 \<Longrightarrow> d = 0" for T d :: nat
  using mod_eq_dvd_iff_nat [of T "T + d" 256] mod_pow_mod [of 8 "T + d"] by (auto dest: nat_dvd_not_less)

lemma tv1_due: "unat e mod 256 = unat T mod 256 \<Longrightarrow> unat (e - T) < 256 \<Longrightarrow> unat (e - T) = 0" for e T :: u32
  using mod_256_shift [of "unat T" "unat (e - T)"] by (simp flip: unat_diff_eq [of e T])

lemma tv1_now: "unat (e - T) = 0 \<Longrightarrow> e = T" for e T :: u32
  by (simp add: unat_eq_zero)

lemma current_slot:
  assumes W: "wheel_ok {} s L"
  shows "t \<in> set (L (Slot 0 (tv_index s 0))) \<longleftrightarrow> active (tmr s t) \<and> remaining s t = 0"
proof -
  let ?e = "expires (tmr s t)" and ?T = "timer_ticks s"
  have i: "tv_index s 0 = unat ?T mod 256" using wheel_okD(2) [OF W] by (simp add: index_ok_def)
  show ?thesis
  proof
    assume t: "t \<in> set (L (Slot 0 (tv_index s 0)))"
    have "remaining s t = 0"
      using wheel_okD(4) [OF W t] tv1_due [of ?e ?T] i by (auto simp: remaining_def Let_def)
    with t show "active (tmr s t) \<and> remaining s t = 0" using wheel_okD(3) [OF W] by blast
  next
    assume a: "active (tmr s t) \<and> remaining s t = 0"
    then obtain l where l: "t \<in> set (L l)" using wheel_okD(3) [OF W] by blast
    obtain n j where nj: "l = Slot n j" using wheel_okD(4) [OF W l] by (cases l) auto
    have "l = Slot 0 (tv_index s 0)"
      using wheel_okD(4) [OF W l] a nj i tv1_now [of ?e ?T]
      by (auto simp: remaining_def Let_def split: if_splits)
    with l show "t \<in> set (L (Slot 0 (tv_index s 0)))" by simp
  qed
qed

section \<open>Cascading\<close>

lemma index_okD:
  assumes "index_ok P s" "0 < n" "n < 5"
  shows "n \<in> P \<Longrightarrow> unat (timer_ticks s) mod 2 ^ sh n = 0"
    "tv_index s n = (unat (timer_ticks s) div 2 ^ sh n + (if n \<in> P then 0 else 1)) mod 64"
  using assms by (auto simp: index_ok_def NOOF_TVECS_def)

text \<open>The timers of the slot that cascades move to a finer vector.\<close>

lemma cascade_lower:
  assumes W: "wheel_ok P s L" and n: "0 < n" "n < 5" "n \<in> P" and x: "x \<in> set (L (Slot n (tv_index s n)))"
  obtains k i where "timer_slot (expires (tmr s x)) s = Slot k i" "k < n" "is_slot (Slot k i)"
    "placed P (timer_ticks s) (Slot k i) (expires (tmr s x))"
proof -
  have ix: "tv_index s n = unat (timer_ticks s) div 2 ^ sh n mod 64" "unat (timer_ticks s) mod 2 ^ sh n = 0"
    using index_okD [OF wheel_okD(2) [OF W] n(1,2)] n(3) by auto
  have d: "unat (expires (tmr s x) - timer_ticks s) < 2 ^ sh n"
    using placed_due [OF _ ix(2) n(1,2)] wheel_okD(4) [OF W x] ix(1) by simp
  note p = timer_slot_placed [OF wheel_okD(2) [OF W], of "expires (tmr s x)"]
  then obtain k i where ki: "timer_slot (expires (tmr s x)) s = Slot k i"
    by (cases "timer_slot (expires (tmr s x)) s") auto
  show thesis using that [OF ki timer_slot_level [OF d n(1,2) ki]] p ki by simp
qed

text \<open>The lists after a cascade: the slot is empty and its timers are at the end of their new slots.\<close>

definition cascaded :: "nat \<Rightarrow> 'z timers_scheme \<Rightarrow> (tlink \<Rightarrow> nat list) \<Rightarrow> tlink \<Rightarrow> nat list" where
  "cascaded n s L =
     (let head = Slot n (tv_index s n) in
      (\<lambda>l. (L(head := [])) l @ filter (\<lambda>x. timer_slot (expires (tmr s x)) s = l) (L head)))"

lemma cascade_rings:
  assumes W: "wheel_ok P s L" and n: "0 < n" "n < 5" "n \<in> P"
  obtains s' where "cascade_timers n s = Some s'" "rings {} s' (cascaded n s L)"
    "timer_ticks s' = timer_ticks s" "tmr s' = tmr s" "timers.more s' = timers.more s"
    "tv_index s' = (tv_index s)(n := (tv_index s n + 1) mod 64)"
proof -
  define head where "head = Slot n (tv_index s n)"
  have hs: "is_slot head" using index_okD(2) [OF wheel_okD(2) [OF W] n(1,2)] n by (simp add: head_def NOOF_TVECS_def)
  have R: "rings {} s L" using wheel_okD(1) [OF W] .
  have lower: "is_slot (timer_slot (expires (tmr s x)) s) \<and> timer_slot (expires (tmr s x)) s \<noteq> head"
    if "x \<in> set (L head)" for x
    using cascade_lower [OF W n, of x] that by (metis head_def less_irrefl tlink.inject(1))
  have "rings {head} s (L(head := []))" using R by (auto simp: rings_def)
  moreover have "walk (lnext s) (lnext s head) (L head) head" using ring_walk ringsD(1) [OF R hs] by simp
  moreover have "x \<notin> set ((L(head := [])) l)" if "x \<in> set (L head)" for x l
    using ringsD(3) [OF R] that by auto
  moreover have "active (tmr s x)" if "x \<in> set (L head)" for x using wheel_okD(3) [OF W] that by auto
  ultimately obtain s1 where s1: "cascade_loop head (lnext s head) s = Some s1" "same_wheel s s1" "tmr s1 = tmr s"
    "rings {head} s1 (cascaded n s L)"
    using cascade_loop_correct [of head s "L(head := [])" "lnext s head" "L head"] lower hs
      rings_distinct [OF R, of head] by (auto simp: cascaded_def Let_def head_def)
  define s' where "s' = s1\<lparr>lnext := (lnext s1)(head := Some head), lprev := (lprev s1)(head := Some head),
                 tv_index := (tv_index s1)(n := (tv_index s1 n + 1) mod 64)\<rparr>"
  have Lh: "cascaded n s L head = []" using lower by (auto simp: cascaded_def Let_def head_def filter_empty_conv)
  have "ring (lnext s') (lprev s') l (map Tmr (cascaded n s L l))" if l: "is_slot l" for l
  proof (cases "l = head")
    case True
    then show ?thesis by (simp add: Lh ring_Nil s'_def)
  next
    case False
    then have "ring (lnext s') (lprev s') l (map Tmr (cascaded n s L l)) \<longleftrightarrow>
        ring (lnext s1) (lprev s1) l (map Tmr (cascaded n s L l))"
      using hs by (intro ring_cong) (auto simp: s'_def)
    with False l ringsD(1) [OF s1(4)] show ?thesis by simp
  qed
  then have "rings {} s' (cascaded n s L)" using s1(4) by (auto simp: rings_def)
  then show thesis
    using that [of s'] s1 by (simp add: cascade_timers_def s'_def head_def same_wheel_def Let_def)
qed

lemma due_slot:
  fixes e T :: u32
  assumes T: "unat T mod 2 ^ sh n = 0" and d: "unat e mod 2 ^ sh n = unat (e - T)" and n: "n < 5"
  shows "unat e div 2 ^ sh n mod 64 = unat T div 2 ^ sh n mod 64"
proof -
  have s: "sh n + 6 \<le> 32" using n by (simp add: sh_def)
  have "unat e div 2 ^ sh n mod 64 = (unat T + unat (e - T)) div 2 ^ sh n mod 64"
    using field_mod [OF s, of "unat T + unat (e - T)"] unat_diff_eq [of e T] by simp
  also have "(unat T + unat (e - T)) div 2 ^ sh n = unat T div 2 ^ sh n"
  proof -
    obtain m where m: "unat T = 2 ^ sh n * m" using T by auto
    have "unat (e - T) < 2 ^ sh n" using d by (metis mod_less_divisor zero_less_numeral zero_less_power)
    then show ?thesis by (simp add: m)
  qed
  finally show ?thesis .
qed

lemma cascade_ok:
  assumes W: "wheel_ok P s L" and n: "0 < n" "n < 5" "n \<in> P"
  obtains s' where "cascade_timers n s = Some s'" "wheel_ok (P - {n}) s' (cascaded n s L)"
    "timer_ticks s' = timer_ticks s" "tmr s' = tmr s" "timers.more s' = timers.more s"
    "tv_index s' = (tv_index s)(n := (tv_index s n + 1) mod 64)"
proof -
  obtain s' where s': "cascade_timers n s = Some s'" "rings {} s' (cascaded n s L)"
    "timer_ticks s' = timer_ticks s" "tmr s' = tmr s" "timers.more s' = timers.more s"
    "tv_index s' = (tv_index s)(n := (tv_index s n + 1) mod 64)"
    using cascade_rings [OF W n] .
  define head where "head = Slot n (tv_index s n)"
  note I = index_okD [OF wheel_okD(2) [OF W] n(1,2)]
  have ih: "tv_index s n = unat (timer_ticks s) div 2 ^ sh n mod 64" using I(2) n(3) by simp
  have mem: "x \<in> set (cascaded n s L l) \<longleftrightarrow>
      x \<in> set (L head) \<and> l = timer_slot (expires (tmr s x)) s \<or> x \<in> set (L l) \<and> l \<noteq> head" for x l
    by (auto simp: cascaded_def head_def Let_def)
  have pl: "placed (P - {n}) (timer_ticks s) l (expires (tmr s x))" if "x \<in> set (cascaded n s L l)" for x l
    using that unfolding mem
  proof (elim disjE conjE)
    assume x: "x \<in> set (L head)" and l: "l = timer_slot (expires (tmr s x)) s"
    obtain k i where "timer_slot (expires (tmr s x)) s = Slot k i" "k < n" "is_slot (Slot k i)"
      "placed P (timer_ticks s) (Slot k i) (expires (tmr s x))"
      by (rule cascade_lower [OF W n x [unfolded head_def]])
    then show ?thesis using l by (auto simp: Let_def)
  next
    assume x: "x \<in> set (L l)" "l \<noteq> head"
    then show ?thesis
      using wheel_okD(4) [OF W x(1)] due_slot [OF I(1) [OF n(3)] _ n(2), of "expires (tmr s x)"] ih
      by (cases l) (auto simp: Let_def head_def)
  qed
  have "index_ok (P - {n}) s'"
    using wheel_okD(2) [OF W] n s' ih by (auto simp: index_ok_def mod_Suc_eq)
  moreover have "active (tmr s x) \<longleftrightarrow> (\<exists>l. x \<in> set (cascaded n s L l))" for x
    using wheel_okD(3) [OF W, of x] mem by blast
  ultimately have "wheel_ok (P - {n}) s' (cascaded n s L)"
    using s' pl by (auto simp: wheel_ok_def)
  with s' that show thesis by blast
qed

lemma pend_next:
  assumes "unat T mod 2 ^ sh n = 0"
  shows "unat T mod 2 ^ sh (Suc n) = 0 \<longleftrightarrow> unat T div 2 ^ sh n mod 64 = 0"
proof -
  have "unat T mod 2 ^ sh (Suc n) = 2 ^ sh n * (unat T div 2 ^ sh n mod 64) + unat T mod 2 ^ sh n"
    using mod_mult2_eq [of "unat T" "2 ^ sh n" 64] by (simp add: sh_def power_add mult.commute)
  with assms show ?thesis by simp
qed

lemma pend_mono: "n \<in> pend T \<Longrightarrow> 0 < m \<Longrightarrow> m \<le> n \<Longrightarrow> m \<in> pend T"
  using le_imp_power_dvd [of "sh m" "sh n" "2 :: nat"] dvd_trans [of "2 ^ sh m" "2 ^ sh n" "unat T"]
  by (simp add: pend_def sh_def mod_eq_0_iff_dvd)

lemma cascade_levels_ok:
  assumes "wheel_ok {m \<in> pend (timer_ticks s). n \<le> m} s L" "n \<in> pend (timer_ticks s)"
  shows "\<exists>s' L'. cascade_levels n s = Some s' \<and> wheel_ok {} s' L' \<and> timer_ticks s' = timer_ticks s \<and>
    tmr s' = tmr s \<and> timers.more s' = timers.more s"
  using assms
proof (induction "5 - n" arbitrary: n s L)
  case 0
  then show ?case by (simp add: pend_def NOOF_TVECS_def)
next
  case (Suc k)
  let ?T = "timer_ticks s" and ?P = "{m \<in> pend (timer_ticks s). n \<le> m}"
  have n: "0 < n" "n < 5" "n \<in> ?P" "unat ?T mod 2 ^ sh n = 0"
    using Suc.prems(2) by (auto simp: pend_def NOOF_TVECS_def)
  obtain s1 where s1: "cascade_timers n s = Some s1" "wheel_ok (?P - {n}) s1 (cascaded n s L)"
    "timer_ticks s1 = ?T" "tmr s1 = tmr s" "timers.more s1 = timers.more s"
    "tv_index s1 = (tv_index s)(n := (tv_index s n + 1) mod 64)"
    by (rule cascade_ok [OF Suc.prems(1) n(1-3)])
  have P: "?P - {n} = {m \<in> pend ?T. Suc n \<le> m}" by auto
  have ix: "tv_index s1 n = 1 \<longleftrightarrow> unat ?T div 2 ^ sh n mod 64 = 0"
    using index_okD(2) [OF wheel_okD(2) [OF Suc.prems(1)] n(1,2)] n(3) s1(6)
    by (auto simp: mod_Suc)
  show ?case
  proof (cases "tv_index s1 n = 1 \<and> Suc n < NOOF_TVECS")
    case True
    then have m: "Suc n \<in> pend ?T" using ix pend_next [OF n(4)] by (simp add: pend_def)
    have "\<exists>s' L'. cascade_levels (Suc n) s1 = Some s' \<and> wheel_ok {} s' L' \<and> timer_ticks s' = timer_ticks s1 \<and>
        tmr s' = tmr s1 \<and> timers.more s' = timers.more s1"
      using Suc.hyps(1) [of "Suc n" s1 "cascaded n s L"] Suc.hyps(2) s1(2,3) m P by simp
    then show ?thesis using True s1 by (subst cascade_levels.simps) auto
  next
    case False
    then have "Suc n \<notin> pend ?T" using ix pend_next [OF n(4)] by (auto simp: pend_def)
    then have "{m \<in> pend ?T. Suc n \<le> m} = {}" using pend_mono [of _ ?T "Suc n"] by blast
    with P have P0: "?P - {n} = {}" by simp
    have "cascade_levels n s = Some s1" using False s1(1) by (subst cascade_levels.simps) auto
    with s1(2) [unfolded P0] s1(3-5) show ?thesis by blast
  qed
qed

lemma begin_tick_ok:
  assumes W: "wheel_ok (pend (timer_ticks s)) s L"
  shows "\<exists>s' L'. (if tv_index s 0 = 0 then cascade_levels 1 s else Some s) = Some s' \<and>
    wheel_ok {} s' L' \<and> timer_ticks s' = timer_ticks s \<and> tmr s' = tmr s \<and> timers.more s' = timers.more s"
proof -
  have i: "tv_index s 0 = unat (timer_ticks s) mod 256" using wheel_okD(2) [OF W] by (simp add: index_ok_def)
  show ?thesis
  proof (cases "tv_index s 0 = 0")
    case True
    then have "1 \<in> pend (timer_ticks s)" using i by (simp add: pend_def NOOF_TVECS_def sh_def)
    moreover have "pend (timer_ticks s) = {m \<in> pend (timer_ticks s). 1 \<le> m}" by (auto simp: pend_def)
    ultimately show ?thesis using cascade_levels_ok [of s 1 L] W True by auto
  next
    case False
    then have "1 \<notin> pend (timer_ticks s)" using i by (simp add: pend_def NOOF_TVECS_def sh_def)
    moreover have "0 < m" if "m \<in> pend (timer_ticks s)" for m using that by (simp add: pend_def)
    ultimately have "pend (timer_ticks s) = {}"
      using pend_mono [of _ "timer_ticks s" 1] by (metis One_nat_def Suc_leI equals0I zero_less_one)
    with W False show ?thesis by auto
  qed
qed

lemma unat_diff_Suc: "unat (e - (T + 1)) = unat (e - T) - 1" if "unat (e - T) \<noteq> 0" for e T :: u32
  unfolding diff_diff_add [symmetric] using unat_minus_one [of "e - T"] that
  by (cases "e = T") auto

lemma due_pend:
  assumes r: "unat e mod 2 ^ sh n = unat (e - T)" and n: "0 < n" "n < 5"
  shows "n \<in> pend T"
proof -
  have s: "sh n \<le> 32" using n by (simp add: sh_def)
  have "(unat T + unat (e - T)) mod 2 ^ sh n = unat (e - T)"
    using r mod_pow_mod [OF s, of "unat T + unat (e - T)"] unat_diff_eq [of e T] by simp
  moreover from this have "unat (e - T) < 2 ^ sh n" by (metis mod_less_divisor zero_less_numeral zero_less_power)
  ultimately have "2 ^ sh n dvd unat T"
    using mod_eq_dvd_iff_nat [of "unat (e - T)" "unat T + unat (e - T)" "2 ^ sh n"] by simp
  with n show ?thesis by (simp add: pend_def NOOF_TVECS_def)
qed

lemma placed_next:
  assumes p: "placed {} T l e" and l: "l \<noteq> Slot 0 (unat T mod 256)" "is_slot l"
  shows "placed (pend (T + 1)) (T + 1) l e"
proof (cases l)
  case (Slot n i)
  let ?d = "unat (e - T)"
  have d0: "?d \<noteq> 0"
    using p l Slot tv1_now [of e T] by (auto simp: Let_def split: if_splits)
  have n: "n < 5" using l Slot by (auto simp: NOOF_TVECS_def)
  note d1 = unat_diff_Suc [OF d0]
  show ?thesis
  proof (cases "n = 0")
    case True
    then show ?thesis using p l Slot d0 d1 by (auto simp: Let_def)
  next
    case False
    then show ?thesis using p Slot d0 d1 due_pend [of e n "T + 1"] n by (auto simp: Let_def)
  qed
qed (use p in simp)

lemma index_step:
  "i = Suc q mod 64 \<Longrightarrow> u mod 64 = (if z then Suc q else q) mod 64 \<Longrightarrow>
   i = (u + (if z then 0 else 1)) mod 64" for i q u :: nat
  using mod_Suc_eq [of u 64] mod_Suc_eq [of q 64] by (cases z) (simp_all only: if_True if_False add_0_right Suc_eq_plus1)

lemma index_next:
  assumes "index_ok {} s"
  shows "index_ok (pend (timer_ticks s + 1)) (s\<lparr>timer_ticks := timer_ticks s + 1, tv_index := (tv_index s)(0 := (tv_index s 0 + 1) mod 256)\<rparr>)"
proof -
  let ?T = "timer_ticks s"
  have T: "unat (?T + 1) = Suc (unat ?T) mod 4294967296" using unat_word_ariths(1) [of ?T 1] by simp
  have "(tv_index s 0 + 1) mod 256 = unat (?T + 1) mod 256"
    using assms mod_pow_mod [of 8 "Suc (unat ?T)"] by (simp add: index_ok_def T mod_Suc_eq)
  moreover have "tv_index s n = (unat (?T + 1) div 2 ^ sh n + (if n \<in> pend (?T + 1) then 0 else 1)) mod 64"
    if n: "0 < n" "n < 5" for n
  proof -
    have s: "sh n + 6 \<le> 32" using n by (simp add: sh_def)
    have "n \<in> pend (?T + 1) \<longleftrightarrow> Suc (unat ?T) mod 2 ^ sh n = 0"
      using n mod_pow_mod [of "sh n" "Suc (unat ?T)"] s by (simp add: pend_def NOOF_TVECS_def T)
    moreover have "unat (?T + 1) div 2 ^ sh n mod 64 = Suc (unat ?T) div 2 ^ sh n mod 64"
      using field_mod [OF s] by (simp add: T)
    moreover have "tv_index s n = Suc (unat ?T div 2 ^ sh n) mod 64" using index_okD(2) [OF assms n] by simp
    ultimately show ?thesis using index_step by (simp only: div_Suc)
  qed
  ultimately show ?thesis by (auto simp: index_ok_def pend_def NOOF_TVECS_def)
qed

section \<open>A tick\<close>

abbreviation current_list :: "'z timers_scheme \<Rightarrow> (tlink \<Rightarrow> nat list) \<Rightarrow> nat list" where
  "current_list s L \<equiv> L (Slot 0 (tv_index s 0))"

definition advance :: "'z timers_scheme \<Rightarrow> 'z timers_scheme" where
  "advance s = s\<lparr>timer_ticks := timer_ticks s + 1, tv_index := (tv_index s)(0 := (tv_index s 0 + 1) mod 256)\<rparr>"

lemma tick_index: "wheel_ok P s L \<Longrightarrow> tv_index s 0 = unat (timer_ticks s) mod 256"
  by (simp add: wheel_ok_def index_ok_def)

lemma advance_ok:
  assumes W: "wheel_ok {} s L" and e: "current_list s L = []"
  shows "wheel_ok (pend (timer_ticks s + 1)) (advance s) L"
proof -
  have "placed (pend (timer_ticks s + 1)) (timer_ticks s + 1) l (expires (tmr s t))" if t: "t \<in> set (L l)" for l t
    using placed_next [OF wheel_okD(4) [OF W t]] ringsD(2) [OF wheel_okD(1) [OF W] t] e t tick_index [OF W]
    by (cases "l = Slot 0 (unat (timer_ticks s) mod 256)") auto
  moreover have "rings {} (advance s) L" using wheel_okD(1) [OF W] by (simp add: rings_def advance_def)
  ultimately show ?thesis
    using index_next [OF wheel_okD(2) [OF W]] wheel_okD(3) [OF W] by (auto simp: wheel_ok_def advance_def)
qed

text \<open>Taking the first timer of the current slot off its list.\<close>

lemma pop_timer:
  assumes W: "wheel_ok {} s L" and c: "current_list s L = t # ts"
  obtains s1 where "lnext s (Slot 0 (tv_index s 0)) = Some (Tmr t)" "detach_timer t s = Some (1, s1)"
    "wheel_ok {} (clear_link t s1) (L(Slot 0 (tv_index s 0) := ts))" "same_wheel s (clear_link t s1)"
    "tmr (clear_link t s1) = (tmr s)(t := (tmr s t)\<lparr>active := False\<rparr>)"
proof -
  let ?h = "Slot 0 (tv_index s 0)"
  have hs: "is_slot ?h" using tick_index [OF W] by simp
  have nx: "lnext s ?h = Some (Tmr t)" using ring_next [OF ringsD(1) [OF wheel_okD(1) [OF W] hs]] c by simp
  have act: "active (tmr s t)" using wheel_okD(3) [OF W] c by (metis list.set_intros(1))
  obtain s1 where s1: "detach_timer t s = Some (if active (tmr s t) then 1 else 0, s1)"
    "wheel_ok {} s1 (\<lambda>l. removeAll t (L l))" "same_wheel s s1"
    "tmr s1 = (tmr s)(t := (tmr s t)\<lparr>active := False\<rparr>)"
    by (rule detach_ok [OF W])
  have "distinct (t # ts)" using rings_distinct [OF wheel_okD(1) [OF W], of ?h] c by simp
  moreover have "t \<notin> set (L l)" if "l \<noteq> ?h" for l
    using ringsD(3) [OF wheel_okD(1) [OF W], of t ?h l] c that by auto
  ultimately have "(\<lambda>l. removeAll t (L l)) = L(?h := ts)" using c by (auto simp: fun_eq_iff)
  then have "wheel_ok {} (clear_link t s1) (L(?h := ts))"
    using clear_link_ok [OF s1(2), of t] s1(4) by simp
  then show thesis
    using that [of s1] nx s1 act by (simp add: same_wheel_def clear_link_def)
qed

section \<open>Handlers\<close>

text \<open>
  What the wheel needs of the handlers: they return, they use the timer operations properly
  and do not arm more timers for the tick at hand than they disarm.
\<close>

locale timer_handler =
  fixes h :: "nat \<Rightarrow> nat \<Rightarrow> 'z timers_scheme \<Rightarrow> 'z timers_scheme option"
  assumes handler_ok: "wheel_ok {} s L \<Longrightarrow>
    \<exists>s' L'. h p a s = Some s' \<and> wheel_ok {} s' L' \<and> timer_ticks s' = timer_ticks s \<and>
      length (current_list s' L') \<le> length (current_list s L)"
begin

lemma run_slot_ok:
  "wheel_ok {} s L \<Longrightarrow>
   \<exists>s' L'. run_slot h s = Some s' \<and> wheel_ok {} s' L' \<and> timer_ticks s' = timer_ticks s \<and> current_list s' L' = []"
proof (induction "length (current_list s L)" arbitrary: s L rule: less_induct)
  case less
  have hs: "is_slot (Slot 0 (tv_index s 0))" using tick_index [OF less.prems] by simp
  show ?case
  proof (cases "current_list s L")
    case Nil
    then have "run_slot h s = Some s"
      using ring_next [OF ringsD(1) [OF wheel_okD(1) [OF less.prems] hs]] by (subst run_slot.simps) simp
    with Nil less.prems show ?thesis by blast
  next
    case (Cons t ts)
    obtain s1 where s1: "lnext s (Slot 0 (tv_index s 0)) = Some (Tmr t)" "detach_timer t s = Some (1, s1)"
      "wheel_ok {} (clear_link t s1) (L(Slot 0 (tv_index s 0) := ts))" "same_wheel s (clear_link t s1)"
      by (rule pop_timer [OF less.prems Cons])
    obtain s2 L2 where s2: "h (handler (tmr s t)) (targ (tmr s t)) (clear_link t s1) = Some s2" "wheel_ok {} s2 L2"
      "timer_ticks s2 = timer_ticks s" "length (current_list s2 L2) \<le> length ts"
      using handler_ok [OF s1(3), of "handler (tmr s t)" "targ (tmr s t)"] s1(4) by (auto simp: same_wheel_def)
    have "run_slot h s = run_slot h s2" using s1(1,2) s2(1) by (subst run_slot.simps) simp
    with less.hyps [OF _ s2(2)] s2 Cons show ?thesis by auto
  qed
qed

lemma run_tick_ok:
  assumes "wheel_ok (pend (timer_ticks s)) s L"
  shows "\<exists>s' L'. run_tick h s = Some s' \<and> wheel_ok (pend (timer_ticks s')) s' L' \<and> timer_ticks s' = timer_ticks s + 1"
proof -
  obtain s1 L1 where s1: "(if tv_index s 0 = 0 then cascade_levels 1 s else Some s) = Some s1"
    "wheel_ok {} s1 L1" "timer_ticks s1 = timer_ticks s"
    using begin_tick_ok [OF assms] by blast
  obtain s2 L2 where s2: "run_slot h s1 = Some s2" "wheel_ok {} s2 L2" "timer_ticks s2 = timer_ticks s"
    "current_list s2 L2 = []"
    using run_slot_ok [OF s1(2)] s1(3) by auto
  have "run_tick h s = Some (advance s2)"
    using s1(1) s2(1) by (simp add: run_tick_def advance_def split: if_splits)
  with advance_ok [OF s2(2,4)] s2(3) show ?thesis by (auto simp: advance_def)
qed

lemma run_timer_list_ok:
  assumes "wheel_ok (pend (timer_ticks s)) s L" "sint (now - timer_ticks s) \<ge> 0"
  shows "\<exists>s' L'. run_timer_list h now s = Some s' \<and> wheel_ok (pend (now + 1)) s' L' \<and> timer_ticks s' = now + 1"
  using assms
proof (induction "unat (now - timer_ticks s)" arbitrary: s L)
  case 0
  obtain s' L' where s': "run_tick h s = Some s'" "wheel_ok (pend (timer_ticks s')) s' L'" "timer_ticks s' = now + 1"
    using run_tick_ok [OF "0.prems"(1)] "0.hyps" tv1_now by metis
  then have "sint (now - timer_ticks s') < 0" by simp
  then have "run_timer_list h now s = Some s'"
    using s'(1) "0.prems"(2) by (subst run_timer_list.simps) (simp add: run_timer_list.simps)
  with s' show ?case by auto
next
  case (Suc k)
  obtain s1 L1 where s1: "run_tick h s = Some s1" "wheel_ok (pend (timer_ticks s1)) s1 L1" "timer_ticks s1 = timer_ticks s + 1"
    using run_tick_ok [OF Suc.prems(1)] by blast
  have k: "unat (now - timer_ticks s1) = k" using unat_diff_Suc [of now "timer_ticks s"] Suc.hyps(2) s1(3) by simp
  have "sint (now - timer_ticks s1) \<ge> 0"
    using sint_neg_iff [of "now - timer_ticks s"] sint_neg_iff [of "now - timer_ticks s1"] Suc.prems(2) k Suc.hyps(2) by linarith
  then show ?case
    using Suc.hyps(1) [of s1 L1] k s1 Suc.prems(2) by (subst run_timer_list.simps) simp
qed

end

section \<open>The operations on timers\<close>

lemma del_timer_ok:
  assumes "wheel_ok P s L"
  obtains s' where "del_timer t s = Some (if active (tmr s t) then 1 else 0, s')"
    "wheel_ok P s' (\<lambda>l. removeAll t (L l))" "same_wheel s s'"
    "tmr s' = (tmr s)(t := (tmr s t)\<lparr>active := False\<rparr>)"
proof -
  obtain s1 where s1: "detach_timer t s = Some (if active (tmr s t) then 1 else 0, s1)"
    "wheel_ok P s1 (\<lambda>l. removeAll t (L l))" "same_wheel s s1"
    "tmr s1 = (tmr s)(t := (tmr s t)\<lparr>active := False\<rparr>)"
    by (rule detach_ok [OF assms])
  then show thesis
    using that [of "clear_link t s1"] clear_link_ok [OF s1(2), of t]
    by (simp add: del_timer_def same_wheel_def clear_link_def)
qed

lemma timer_upd_comm: "x\<lparr>active := a, expires := e\<rparr> = x\<lparr>expires := e, active := a\<rparr>" for x :: timer
  by simp

lemma upd_expires_ok:
  assumes W: "wheel_ok P s L" and t: "\<not> active (tmr s t)"
  shows "wheel_ok P (upd_tmr t (\<lambda>x. x\<lparr>expires := e\<rparr>) s) L"
proof -
  have n: "t \<notin> set (L l)" for l using t wheel_okD(3) [OF W] by blast
  have "rings {} (upd_tmr t (\<lambda>x. x\<lparr>expires := e\<rparr>) s) L"
    using wheel_okD(1) [OF W] by (simp add: rings_def upd_tmr_def)
  moreover have "placed P (timer_ticks s) l (expires (((tmr s)(t := (tmr s t)\<lparr>expires := e\<rparr>)) u))"
    if "u \<in> set (L l)" for u l
    using wheel_okD(4) [OF W that] that n [of l] by (cases "u = t") simp_all
  ultimately show ?thesis
    using wheel_okD(2,3) [OF W] by (simp add: wheel_ok_def upd_tmr_def index_ok_def)
qed

lemma mod_timer_ok:
  fixes s :: "'z timers_scheme"
  assumes W: "wheel_ok P s L"
  obtains s' L' where "mod_timer t e s = Some (if active (tmr s t) then 1 else 0, s')"
    "wheel_ok P s' L'" "same_wheel s s'"
    "L' = (\<lambda>l. removeAll t (L l) @ (if l = timer_slot e s then [t] else []))"
    "tmr s' = (tmr s)(t := (tmr s t)\<lparr>expires := e, active := True\<rparr>)"
proof -
  obtain s0 where s0: "detach_timer t s = Some (if active (tmr s t) then 1 else 0, s0)"
    "wheel_ok P s0 (\<lambda>l. removeAll t (L l))" "same_wheel s s0"
    "tmr s0 = (tmr s)(t := (tmr s t)\<lparr>active := False\<rparr>)"
    by (rule detach_ok [OF W])
  define s1 where "s1 = upd_tmr t (\<lambda>x. x\<lparr>expires := e\<rparr>) s0"
  have d: "detach_timer t (upd_tmr t (\<lambda>x. x\<lparr>expires := e\<rparr>) s) = Some (if active (tmr s t) then 1 else 0, s1)"
    using s0(1) by (auto simp: detach_timer_def upd_tmr_def s1_def timer_upd_comm split: option.splits if_splits)
  have W1: "wheel_ok P s1 (\<lambda>l. removeAll t (L l))" "\<not> active (tmr s1 t)"
    using upd_expires_ok [OF s0(2), of t e] s0(4) by (simp_all add: s1_def upd_tmr_def)
  obtain s' where s': "attach_timer t s1 = Some s'"
    "wheel_ok P s' ((\<lambda>l. removeAll t (L l))(timer_slot (expires (tmr s1 t)) s1 := removeAll t (L (timer_slot (expires (tmr s1 t)) s1)) @ [t]))"
    "same_wheel s1 s'" "tmr s' = (tmr s1)(t := (tmr s1 t)\<lparr>active := True\<rparr>)"
    by (rule attach_ok [OF W1])
  have ts: "timer_slot (expires (tmr s1 t)) s1 = timer_slot e s"
    using s0(3) by (simp add: timer_slot_def s1_def upd_tmr_def same_wheel_def cong: if_cong)
  have L: "(\<lambda>l. removeAll t (L l))(timer_slot e s := removeAll t (L (timer_slot e s)) @ [t]) =
      (\<lambda>l. removeAll t (L l) @ (if l = timer_slot e s then [t] else []))" by auto
  have "tmr s' = (tmr s)(t := (tmr s t)\<lparr>expires := e, active := True\<rparr>)"
    using s'(4) s0(4) by (simp add: s1_def upd_tmr_def fun_eq_iff)
  moreover have "same_wheel s s'" using s'(3) s0(3) by (simp add: same_wheel_def s1_def upd_tmr_def)
  ultimately show thesis using that [OF _ s'(2) [unfolded ts L]] d s'(1) by (simp add: mod_timer_def)
qed

lemma init_timer_ok:
  assumes W: "wheel_ok P s L" and t: "\<not> active (tmr s t)"
  shows "wheel_ok P (init_timer t h a s) L"
proof -
  have n: "t \<notin> set (L l)" for l using t wheel_okD(3) [OF W] by blast
  have "ring ((lnext s)(Tmr t := None)) (lprev s) l (map Tmr (L l)) \<longleftrightarrow> ring (lnext s) (lprev s) l (map Tmr (L l))"
    if "is_slot l" for l
    using n that by (intro ring_cong) auto
  then have "rings {} (init_timer t h a s) L"
    using wheel_okD(1) [OF W] by (simp add: rings_def init_timer_def upd_tmr_def)
  then show ?thesis
    using wheel_okD(2-4) [OF W] n t by (auto simp: wheel_ok_def init_timer_def upd_tmr_def index_ok_def)
qed

lemma init_timers_ok:
  assumes "timer_ticks s = 0" "\<forall>n. tv_index s n = 0" "\<forall>t. \<not> active (tmr s t)"
  shows "wheel_ok (pend 0) (init_timers s) (\<lambda>_. [])"
  using assms by (auto simp: wheel_ok_def rings_def ring_Nil index_ok_def init_timers_def pend_def)

text \<open>
  The handlers that arm their timer again, as those of the ARP and TCP timers do: \<open>p\<close> is the
  interval in ticks.
\<close>

definition periodic_handler :: "nat \<Rightarrow> nat \<Rightarrow> 'z timers_scheme \<Rightarrow> 'z timers_scheme option" where
  "periodic_handler p a s =
     (if 0 < p \<and> p < 2 ^ 31 then map_option snd (mod_timer a (timer_ticks s + of_nat p) s) else Some s)"

interpretation periodic: timer_handler periodic_handler
proof
  fix s :: "'z timers_scheme" and L p a
  assume W: "wheel_ok {} s L"
  show "\<exists>s' L'. periodic_handler p a s = Some s' \<and> wheel_ok {} s' L' \<and> timer_ticks s' = timer_ticks s \<and>
      length (current_list s' L') \<le> length (current_list s L)"
  proof (cases "0 < p \<and> p < 2 ^ 31")
    case True
    let ?e = "timer_ticks s + of_nat p"
    obtain s' L' where s': "mod_timer a ?e s = Some (if active (tmr s a) then 1 else 0, s')"
      "wheel_ok {} s' L'" "same_wheel s s'"
      "L' = (\<lambda>l. removeAll a (L l) @ (if l = timer_slot ?e s then [a] else []))"
      "tmr s' = (tmr s)(a := (tmr s a)\<lparr>expires := ?e, active := True\<rparr>)"
      by (rule mod_timer_ok [OF W])
    have "unat (of_nat p :: u32) = p" using True by (simp add: unsigned_of_nat take_bit_nat_eq_self)
    then have "remaining s' a = p" using True s'(3,5) by (simp add: remaining_def same_wheel_def Let_def)
    then have "a \<notin> set (current_list s' L')" using current_slot [OF s'(2)] True by simp
    then have "Slot 0 (tv_index s 0) \<noteq> timer_slot ?e s" using s'(3,4) by (auto simp: same_wheel_def)
    then have "length (current_list s' L') \<le> length (current_list s L)"
      using s'(3,4) by (simp add: same_wheel_def removeAll_filter_not_eq)
    with s' True show ?thesis by (auto simp: periodic_handler_def same_wheel_def)
  qed (use W in \<open>auto simp: periodic_handler_def\<close>)
qed

section \<open>Which timers fire, and when\<close>

text \<open>
  To state which timers fire, the handler is one that keeps a log of its argument and the
  tick. \<open>remaining s t\<close> is the number of ticks until timer \<open>t\<close> is due, 0 for a time in the past.
\<close>

record traced = timers +
  fired :: "(nat \<times> u32) list"

definition log_handler :: "nat \<Rightarrow> nat \<Rightarrow> traced \<Rightarrow> traced option" where
  "log_handler p a s = Some (s\<lparr>fired := fired s @ [(a, timer_ticks s)]\<rparr>)"

definition disarm :: "nat list \<Rightarrow> (nat \<Rightarrow> timer) \<Rightarrow> nat \<Rightarrow> timer" where
  "disarm ts f t = (if t \<in> set ts then (f t)\<lparr>active := False\<rparr> else f t)"

lemma disarm_Nil [simp]: "disarm [] f = f"
  by (simp add: disarm_def fun_eq_iff)

lemma disarm_simps [simp]:
  "active (disarm ts f t) \<longleftrightarrow> active (f t) \<and> t \<notin> set ts"
  "expires (disarm ts f t) = expires (f t)" "targ (disarm ts f t) = targ (f t)"
  by (auto simp: disarm_def)

lemma disarm_append: "disarm us (disarm ts f) = disarm (ts @ us) f"
  by (auto simp: disarm_def fun_eq_iff)

lemma same_wheel_fired: "same_wheel s s' \<Longrightarrow> fired s' = fired s"
  by (cases s; cases s') (auto simp: same_wheel_def)

lemma wheel_ok_fired: "wheel_ok P (s\<lparr>fired := x\<rparr>) L \<longleftrightarrow> wheel_ok P s L"
  by (simp add: wheel_ok_def rings_def index_ok_def)

lemma run_slot_log:
  "wheel_ok {} s L \<Longrightarrow> current_list s L = ts \<Longrightarrow>
   \<exists>s'. run_slot log_handler s = Some s' \<and> wheel_ok {} s' (L(Slot 0 (tv_index s 0) := [])) \<and>
     timer_ticks s' = timer_ticks s \<and> tv_index s' = tv_index s \<and>
     fired s' = fired s @ map (\<lambda>t. (targ (tmr s t), timer_ticks s)) ts \<and>
     tmr s' = disarm ts (tmr s)"
proof (induction ts arbitrary: s L)
  case Nil
  have hs: "is_slot (Slot 0 (tv_index s 0))" using tick_index [OF Nil(1)] by simp
  have "run_slot log_handler s = Some s"
    using ring_next [OF ringsD(1) [OF wheel_okD(1) [OF Nil(1)] hs]] Nil(2) by (subst run_slot.simps) simp
  moreover have "L(Slot 0 (tv_index s 0) := []) = L" using Nil(2) by auto
  ultimately show ?case using Nil by auto
next
  case (Cons t ts)
  let ?h = "Slot 0 (tv_index s 0)"
  obtain s1 where s1: "lnext s ?h = Some (Tmr t)" "detach_timer t s = Some (1, s1)"
    "wheel_ok {} (clear_link t s1) (L(?h := ts))" "same_wheel s (clear_link t s1)"
    "tmr (clear_link t s1) = (tmr s)(t := (tmr s t)\<lparr>active := False\<rparr>)"
    by (rule pop_timer [OF Cons.prems])
  define s2 where "s2 = (clear_link t s1)\<lparr>fired := fired (clear_link t s1) @ [(targ (tmr s t), timer_ticks s)]\<rparr>"
  have f: "fired (clear_link t s1) = fired s" using same_wheel_fired [OF s1(4)] .
  have W2: "wheel_ok {} s2 (L(?h := ts))" "tv_index s2 = tv_index s" "timer_ticks s2 = timer_ticks s"
      "tmr s2 = (tmr s)(t := (tmr s t)\<lparr>active := False\<rparr>)"
    using s1(3-5) by (simp_all add: s2_def wheel_ok_fired same_wheel_def)
  obtain s' where s': "run_slot log_handler s2 = Some s'" "wheel_ok {} s' (L(?h := []))"
     "timer_ticks s' = timer_ticks s" "tv_index s' = tv_index s"
     "fired s' = fired s2 @ map (\<lambda>t. (targ (tmr s2 t), timer_ticks s)) ts" "tmr s' = disarm ts (tmr s2)"
    using Cons.IH [OF W2(1)] W2(2,3) by (simp only: fun_upd_same fun_upd_upd) blast
  have "run_slot log_handler s = run_slot log_handler s2"
    using s1 by (subst run_slot.simps) (simp add: log_handler_def s2_def same_wheel_def)
  moreover have tg: "targ (tmr s2 x) = targ (tmr s x)" for x by (simp add: W2(4))
  moreover have "tmr s' = disarm (t # ts) (tmr s)" by (auto simp: s'(6) W2(4) disarm_def fun_eq_iff)
  moreover have "fired s' = fired s @ map (\<lambda>t. (targ (tmr s t), timer_ticks s)) (t # ts)"
    by (simp add: s'(5) tg) (simp add: s2_def f)
  ultimately show ?case using s' by metis
qed

lemma run_tick_log:
  assumes W: "wheel_ok (pend (timer_ticks s)) s L"
  shows "\<exists>s' L' ts. run_tick log_handler s = Some s' \<and> wheel_ok (pend (timer_ticks s')) s' L' \<and>
    timer_ticks s' = timer_ticks s + 1 \<and> distinct ts \<and>
    set ts = {t. active (tmr s t) \<and> remaining s t = 0} \<and> tmr s' = disarm ts (tmr s) \<and>
    fired s' = fired s @ map (\<lambda>t. (targ (tmr s t), timer_ticks s)) ts"
proof -
  obtain s1 L1 where s1: "(if tv_index s 0 = 0 then cascade_levels 1 s else Some s) = Some s1"
    "wheel_ok {} s1 L1" "timer_ticks s1 = timer_ticks s" "tmr s1 = tmr s" "timers.more s1 = timers.more s"
    using begin_tick_ok [OF W] by blast
  have f: "fired s1 = fired s" using s1(5) by (cases s; cases s1) auto
  define ts where "ts = current_list s1 L1"
  obtain s2 where s2: "run_slot log_handler s1 = Some s2" "wheel_ok {} s2 (L1(Slot 0 (tv_index s1 0) := []))"
     "timer_ticks s2 = timer_ticks s" "tv_index s2 = tv_index s1"
     "fired s2 = fired s @ map (\<lambda>t. (targ (tmr s t), timer_ticks s)) ts" "tmr s2 = disarm ts (tmr s)"
    using run_slot_log [OF s1(2)] s1(3,4) f by (auto simp: ts_def)
  have "run_tick log_handler s = Some (advance s2)"
    using s1(1) s2(1) by (simp add: run_tick_def advance_def split: if_splits)
  moreover have "wheel_ok (pend (timer_ticks s + 1)) (advance s2) (L1(Slot 0 (tv_index s1 0) := []))"
    using advance_ok [OF s2(2)] s2(3,4) by simp
  moreover have "set ts = {t. active (tmr s t) \<and> remaining s t = 0}"
    using current_slot [OF s1(2)] s1(3,4) by (auto simp: ts_def remaining_def)
  moreover have "distinct ts" using rings_distinct [OF wheel_okD(1) [OF s1(2)]] by (simp add: ts_def)
  ultimately show ?thesis
    using s2 by (intro exI [of _ "advance s2"] exI [of _ "L1(Slot 0 (tv_index s1 0) := [])"] exI [of _ ts])
      (simp add: advance_def)
qed

definition due :: "'z timers_scheme \<Rightarrow> nat \<Rightarrow> u32" where
  "due s t = timer_ticks s + of_nat (remaining s t)"

lemma due_expires: "unat (expires (tmr s t) - timer_ticks s) < 2 ^ 31 \<Longrightarrow> due s t = expires (tmr s t)"
  by (simp add: due_def remaining_def)

lemma remaining_next:
  assumes "timer_ticks s' = timer_ticks s + 1" "expires (tmr s' t) = expires (tmr s t)" "remaining s t \<noteq> 0"
  shows "remaining s' t = remaining s t - 1" "due s' t = due s t"
proof -
  have d: "unat (expires (tmr s t) - timer_ticks s) < 2 ^ 31" "unat (expires (tmr s t) - timer_ticks s) \<noteq> 0"
    using assms(3) by (auto simp: remaining_def Let_def split: if_splits)
  note d1 = unat_diff_Suc [OF d(2)]
  show 1: "remaining s' t = remaining s t - 1" using d d1 assms(1,2) by (simp add: remaining_def Let_def)
  show "due s' t = due s t"
    using assms(1,3) unfolding due_def 1 by simp
qed

lemma run_timer_list_log:
  assumes "wheel_ok (pend (timer_ticks s)) s L" "sint (now - timer_ticks s) \<ge> 0"
  shows "\<exists>s' L' ts. run_timer_list log_handler now s = Some s' \<and> wheel_ok (pend (now + 1)) s' L' \<and>
    timer_ticks s' = now + 1 \<and> distinct ts \<and> sorted (map (remaining s) ts) \<and>
    set ts = {t. active (tmr s t) \<and> remaining s t \<le> unat (now - timer_ticks s)} \<and>
    tmr s' = disarm ts (tmr s) \<and> fired s' = fired s @ map (\<lambda>t. (targ (tmr s t), due s t)) ts"
  using assms
proof (induction "unat (now - timer_ticks s)" arbitrary: s L)
  case 0
  obtain s' L' ts where s': "run_tick log_handler s = Some s'" "wheel_ok (pend (timer_ticks s')) s' L'"
    "timer_ticks s' = now + 1" "distinct ts" "set ts = {t. active (tmr s t) \<and> remaining s t = 0}"
    "tmr s' = disarm ts (tmr s)" "fired s' = fired s @ map (\<lambda>t. (targ (tmr s t), timer_ticks s)) ts"
    using run_tick_log [OF "0.prems"(1)] "0.hyps" tv1_now [of now "timer_ticks s"] by (auto simp del: disarm_simps)
  have "run_timer_list log_handler now s = Some s'"
    using s'(1,3) "0.prems"(2) by (subst run_timer_list.simps) (simp add: run_timer_list.simps)
  moreover have "map (\<lambda>t. (targ (tmr s t), timer_ticks s)) ts = map (\<lambda>t. (targ (tmr s t), due s t)) ts"
    using s'(5) by (auto simp: due_def)
  moreover have "map (remaining s) ts = map (\<lambda>_. 0) ts" using s'(5) by auto
  ultimately show ?case using s' "0.hyps" by (auto simp: map_replicate_const)
next
  case (Suc k)
  obtain s1 L1 ts where s1: "run_tick log_handler s = Some s1" "wheel_ok (pend (timer_ticks s1)) s1 L1"
    "timer_ticks s1 = timer_ticks s + 1" "distinct ts" "set ts = {t. active (tmr s t) \<and> remaining s t = 0}"
    "tmr s1 = disarm ts (tmr s)" "fired s1 = fired s @ map (\<lambda>t. (targ (tmr s t), timer_ticks s)) ts"
    using run_tick_log [OF Suc.prems(1)] by blast
  have k: "unat (now - timer_ticks s1) = k" using unat_diff_Suc [of now "timer_ticks s"] Suc.hyps(2) s1(3) by simp
  have pos: "sint (now - timer_ticks s1) \<ge> 0"
    using sint_neg_iff [of "now - timer_ticks s"] sint_neg_iff [of "now - timer_ticks s1"] Suc.prems(2) k Suc.hyps(2) by linarith
  obtain s' L' us where s': "run_timer_list log_handler now s1 = Some s'" "wheel_ok (pend (now + 1)) s' L'"
    "timer_ticks s' = now + 1" "distinct us" "sorted (map (remaining s1) us)"
    "set us = {t. active (tmr s1 t) \<and> remaining s1 t \<le> k}"
    "tmr s' = disarm us (tmr s1)" "fired s' = fired s1 @ map (\<lambda>t. (targ (tmr s1 t), due s1 t)) us"
    using Suc.hyps(1) [OF k [symmetric] s1(2) pos] k by auto
  have us: "remaining s1 t = remaining s t - 1 \<and> due s1 t = due s t \<and> remaining s t \<noteq> 0" if "active (tmr s1 t)" for t
    using that s1(5,6) remaining_next [OF s1(3), of t] by auto
  have "run_timer_list log_handler now s = Some s'"
    using s1(1) s'(1) Suc.prems(2) by (subst run_timer_list.simps) simp
  moreover have "set (ts @ us) = {t. active (tmr s t) \<and> remaining s t \<le> unat (now - timer_ticks s)}"
  proof (intro set_eqI)
    fix t show "t \<in> set (ts @ us) \<longleftrightarrow> t \<in> {t. active (tmr s t) \<and> remaining s t \<le> unat (now - timer_ticks s)}"
      using us [of t] Suc.hyps(2) [symmetric] by (cases "t \<in> set ts") (simp_all add: s'(6) s1(5,6), linarith?)
  qed
  moreover have "sorted (map (remaining s) (ts @ us))"
  proof -
    have "map (remaining s) us = map (\<lambda>t. Suc (remaining s1 t)) us" using us s'(6) by auto
    then have "sorted (map (remaining s) us)" using s'(5) by (simp only:) (simp add: sorted_wrt_map)
    moreover have "map (remaining s) ts = map (\<lambda>_. 0) ts" using s1(5) by auto
    ultimately show ?thesis by (auto simp: sorted_append map_replicate_const)
  qed
  moreover have "fired s' = fired s @ map (\<lambda>t. (targ (tmr s t), due s t)) (ts @ us)"
  proof -
    have "map (\<lambda>t. (targ (tmr s t), timer_ticks s)) ts = map (\<lambda>t. (targ (tmr s t), due s t)) ts"
      by (simp add: due_def s1(5))
    moreover have "map (\<lambda>t. (targ (tmr s1 t), due s1 t)) us = map (\<lambda>t. (targ (tmr s t), due s t)) us"
      using us by (simp add: s'(6) s1(6))
    ultimately show ?thesis by (simp add: s1(7) s'(8))
  qed
  moreover have "distinct (ts @ us)" using s1(4) s'(4) by (auto simp: s'(6) s1(6))
  moreover have "tmr s' = disarm (ts @ us) (tmr s)" using s'(7) s1(6) by (simp add: disarm_append)
  ultimately show ?case using s'(2,3) by blast
qed

section \<open>Correctness\<close>

definition timers_ok :: "'z timers_scheme \<Rightarrow> bool" where
  "timers_ok s \<longleftrightarrow> (\<exists>L. wheel_ok (pend (timer_ticks s)) s L)"

text \<open>
  C12. \<^verbatim>\<open>run_timer_list\<close> returns, advances \<^verbatim>\<open>timer_ticks\<close> to the tick after \<open>now\<close>, and fires exactly
  the armed timers that are due by then, each once, in the order of their expiry and each at
  its own tick (a timer armed for the past at the first tick): no timer fires early, late or
  twice, however far its slot had to cascade and also across the wrap-around of the tick
  counter. The other timers stay armed.
\<close>

theorem run_timer_list_fires:
  assumes "timers_ok s" "sint (now - timer_ticks s) \<ge> 0"
  shows "\<exists>s' ts. run_timer_list log_handler now s = Some s' \<and> timers_ok s' \<and>
    timer_ticks s' = now + 1 \<and> distinct ts \<and> sorted (map (remaining s) ts) \<and>
    set ts = {t. active (tmr s t) \<and> remaining s t \<le> unat (now - timer_ticks s)} \<and>
    tmr s' = disarm ts (tmr s) \<and> fired s' = fired s @ map (\<lambda>t. (targ (tmr s t), due s t)) ts"
proof -
  obtain L where "wheel_ok (pend (timer_ticks s)) s L" using assms(1) by (auto simp: timers_ok_def)
  from run_timer_list_log [OF this assms(2)] show ?thesis by (fastforce simp: timers_ok_def simp del: disarm_simps)
qed

text \<open>
  C13. With any handlers that keep the laws of \<open>timer_handler\<close>, which may arm, change and delete
  timers, \<^verbatim>\<open>run_timer_list\<close> returns with the wheel in order and the ticks up to \<open>now\<close> run.
\<close>

theorem run_timer_list_returns:
  assumes "timer_handler h" "timers_ok s" "sint (now - timer_ticks s) \<ge> 0"
  shows "\<exists>s'. run_timer_list h now s = Some s' \<and> timers_ok s' \<and> timer_ticks s' = now + 1"
  using timer_handler.run_timer_list_ok [OF assms(1) _ assms(3)] assms(2) unfolding timers_ok_def by metis

text \<open>
  C14. \<^verbatim>\<open>mod_timer\<close> arms the timer for the new tick wherever it was before, \<^verbatim>\<open>add_timer\<close> arms an idle
  timer and leaves an armed one alone, \<^verbatim>\<open>del_timer\<close> disarms; each keeps the wheel in order
  and every other timer as it was, and the first and the last report whether the timer was
  armed.
\<close>

theorem timer_operations_correct:
  assumes "timers_ok s"
  shows "(\<exists>s'. mod_timer t e s = Some (if active (tmr s t) then 1 else 0, s') \<and> timers_ok s' \<and>
      timer_ticks s' = timer_ticks s \<and> tmr s' = (tmr s)(t := (tmr s t)\<lparr>expires := e, active := True\<rparr>)) \<and>
    (\<exists>s'. add_timer t s = Some s' \<and> timers_ok s' \<and> timer_ticks s' = timer_ticks s \<and>
      tmr s' = (tmr s)(t := (tmr s t)\<lparr>active := True\<rparr>)) \<and>
    (\<exists>s'. del_timer t s = Some (if active (tmr s t) then 1 else 0, s') \<and> timers_ok s' \<and>
      timer_ticks s' = timer_ticks s \<and> tmr s' = (tmr s)(t := (tmr s t)\<lparr>active := False\<rparr>))"
proof -
  obtain L where W: "wheel_ok (pend (timer_ticks s)) s L" using assms by (auto simp: timers_ok_def)
  have "\<exists>s'. mod_timer t e s = Some (if active (tmr s t) then 1 else 0, s') \<and> timers_ok s' \<and>
      timer_ticks s' = timer_ticks s \<and> tmr s' = (tmr s)(t := (tmr s t)\<lparr>expires := e, active := True\<rparr>)"
    by (rule mod_timer_ok [OF W, of t e]) (auto simp: timers_ok_def same_wheel_def)
  moreover have "\<exists>s'. add_timer t s = Some s' \<and> timers_ok s' \<and> timer_ticks s' = timer_ticks s \<and>
      tmr s' = (tmr s)(t := (tmr s t)\<lparr>active := True\<rparr>)"
  proof (cases "active (tmr s t)")
    case True
    then have "(tmr s t)\<lparr>active := True\<rparr> = tmr s t" by (cases "tmr s t") simp
    then have e: "tmr s = (tmr s)(t := (tmr s t)\<lparr>active := True\<rparr>)" by (rule ssubst) simp
    show ?thesis by (intro exI [of _ s] conjI) (simp add: add_timer_def True, rule assms, rule refl, rule e)
  next
    case False
    show ?thesis
      by (rule attach_ok [OF W False]) (use False in \<open>auto simp: timers_ok_def same_wheel_def add_timer_def\<close>)
  qed
  moreover have "\<exists>s'. del_timer t s = Some (if active (tmr s t) then 1 else 0, s') \<and> timers_ok s' \<and>
      timer_ticks s' = timer_ticks s \<and> tmr s' = (tmr s)(t := (tmr s t)\<lparr>active := False\<rparr>)"
    by (rule del_timer_ok [OF W, of t]) (auto simp: timers_ok_def same_wheel_def)
  ultimately show ?thesis by blast
qed

section \<open>Witnesses\<close>

text \<open>The wheel after \<^verbatim>\<open>init_timers\<close> on zeroed memory.\<close>

definition zero_timers :: traced where
  "zero_timers =
     init_timers \<lparr>timer_ticks = 0, tv_index = (\<lambda>_. 0), lnext = (\<lambda>_. None), lprev = (\<lambda>_. None),
       tmr = (\<lambda>t. \<lparr>expires = 0, active = False, handler = 0, targ = t\<rparr>), fired = []\<rparr>"

lemma zero_timers_ok: "timers_ok zero_timers" "timer_ticks zero_timers = 0"
  "tmr zero_timers = (\<lambda>t. \<lparr>expires = 0, active = False, handler = 0, targ = t\<rparr>)" "fired zero_timers = []"
  using init_timers_ok [of "\<lparr>timer_ticks = 0, tv_index = (\<lambda>_. 0), lnext = (\<lambda>_. None), lprev = (\<lambda>_. None),
       tmr = (\<lambda>t. \<lparr>expires = 0, active = False, handler = 0, targ = t\<rparr>), fired = []\<rparr>"]
  by (auto simp: timers_ok_def zero_timers_def) (auto simp: init_timers_def)

theorem timer_operations_correct_witness:
  "timers_ok zero_timers \<and> (\<exists>s'. mod_timer 7 300 zero_timers = Some (0, s') \<and> timers_ok s' \<and>
     expires (tmr s' 7) = 300 \<and> active (tmr s' 7))"
  using timer_operations_correct [OF zero_timers_ok(1), of 7 300] zero_timers_ok by auto

lemma armed_timer:
  obtains s :: traced where "timers_ok s" "timer_ticks s = 0" "fired s = []"
    "tmr s = (tmr zero_timers)(7 := \<lparr>expires = 300, active = True, handler = 0, targ = 7\<rparr>)"
proof -
  obtain L where W: "wheel_ok (pend (timer_ticks zero_timers)) zero_timers L"
    using zero_timers_ok(1) by (auto simp: timers_ok_def)
  obtain s L' where s: "wheel_ok (pend (timer_ticks zero_timers)) s L'" "same_wheel zero_timers s"
    "tmr s = (tmr zero_timers)(7 := (tmr zero_timers 7)\<lparr>expires := 300, active := True\<rparr>)"
    by (rule mod_timer_ok [OF W, of 7 300])
  have "fired s = []" using same_wheel_fired [OF s(2)] zero_timers_ok(4) by simp
  with s that [of s] zero_timers_ok show thesis by (auto simp: timers_ok_def same_wheel_def)
qed

text \<open>A timer for tick 300 waits in the second vector, cascades at tick 256 and fires at 300.\<close>

theorem run_timer_list_fires_witness:
  "\<exists>s s' :: traced. timers_ok s \<and> sint (400 - timer_ticks s) \<ge> 0 \<and> active (tmr s 7) \<and>
     run_timer_list log_handler 400 s = Some s' \<and> timer_ticks s' = 401 \<and> fired s' = [(7, 300)]"
proof -
  obtain s :: traced where s: "timers_ok s" "timer_ticks s = 0" "fired s = []"
    "tmr s = (tmr zero_timers)(7 := \<lparr>expires = 300, active = True, handler = 0, targ = 7\<rparr>)"
    by (rule armed_timer)
  have now: "sint (400 - timer_ticks s) \<ge> 0" using s(2) sint_neg_iff [of "400 - timer_ticks s"] by simp
  have rem: "remaining s 7 = 300" "due s 7 = 300" using s(2,4) by (simp_all add: remaining_def due_def)
  obtain s' ts where s': "run_timer_list log_handler 400 s = Some s'" "timer_ticks s' = 401" "distinct ts"
    "set ts = {t. active (tmr s t) \<and> remaining s t \<le> unat (400 - timer_ticks s)}"
    "fired s' = fired s @ map (\<lambda>t. (targ (tmr s t), due s t)) ts"
    using run_timer_list_fires [OF s(1) now] by auto
  have "set ts = {7}" using s'(4) s(2,4) rem zero_timers_ok(3) by auto
  then have "ts = [7]" using s'(3) by (metis distinct.simps(2)
        set_empty2 singletonD insert_not_empty list.set_intros(1) list.exhaust list.set_intros(2))
  with s' s rem now show ?thesis by (intro exI [of _ s] exI [of _ s']) auto
qed

theorem run_timer_list_returns_witness:
  "\<exists>s s' :: traced. timer_handler (periodic_handler :: nat \<Rightarrow> nat \<Rightarrow> traced \<Rightarrow> traced option) \<and>
     timers_ok s \<and> active (tmr s 7) \<and>
     run_timer_list periodic_handler 400 s = Some s' \<and> timers_ok s' \<and> timer_ticks s' = 401"
proof -
  obtain s :: traced where s: "timers_ok s" "timer_ticks s = 0" "fired s = []"
    "tmr s = (tmr zero_timers)(7 := \<lparr>expires = 300, active = True, handler = 0, targ = 7\<rparr>)"
    by (rule armed_timer)
  have "sint (400 - timer_ticks s) \<ge> 0" using s(2) sint_neg_iff [of "400 - timer_ticks s"] by simp
  then show ?thesis
    using run_timer_list_returns [OF periodic.timer_handler_axioms s(1), of 400] s periodic.timer_handler_axioms by auto
qed

end
