(* ===== verification/Object.thy ===== *)
theory Object
  imports Sched Timer
begin

text \<open>
  The object manager of \<^verbatim>\<open>src/src/sys/krnl/object.c\<close>: waitable objects, the wait blocks that
  link a waiting thread into the wait list of every object it waits for, and the operations
  that signal objects and release threads.

  The local wait blocks and the local timer of a waiting call are named by the addresses the
  caller passes. A call that ends in a panic, follows a null pointer or never ends has the
  value \<open>None\<close>.
\<close>

section \<open>Objects and wait blocks\<close>

text \<open>
  The type of an object with what the larger structure around \<^verbatim>\<open>struct object\<close> adds: the thread,
  \<^verbatim>\<open>manual_reset\<close>, the timer, \<^verbatim>\<open>owner\<close> and \<^verbatim>\<open>recursion\<close>, \<^verbatim>\<open>count\<close>.
\<close>

datatype okind =
  OThread nat | OEvent bool | OTimer nat | OMutex ptr int | OSem u32 | OFile | OSocket | OIomux | OFilemap

record object =
  okind :: okind
  signaled :: bool
  handle_count :: u16
  lock_count :: u16
  waitlist_head :: ptr
  waitlist_tail :: ptr

datatype waittype = WAIT_ALL | WAIT_ANY

record waitblock =
  wb_thread :: nat
  wb_object :: ptr
  waittype :: waittype
  wb_waitkey :: int
  wb_next :: ptr
  next_wait :: ptr
  prev_wait :: ptr

record ksys = sched +
  obj :: "nat \<Rightarrow> object"
  wb :: "nat \<Rightarrow> waitblock"
  wheel :: timers
  ticks :: u32

definition ETIMEOUT :: int where "ETIMEOUT = 70"
definition INFINITE :: u32 where "INFINITE = 0xFFFFFFFF"
definition MSECS_PER_TICK :: u32 where "MSECS_PER_TICK = 10"
definition MAX_WAIT_OBJECTS :: nat where "MAX_WAIT_OBJECTS = 16"
definition THREAD_WAIT_OBJECT :: nat where "THREAD_WAIT_OBJECT = 0"
definition THREAD_WAIT_SLEEP :: nat where "THREAD_WAIT_SLEEP = 4"

definition upd_obj :: "nat \<Rightarrow> (object \<Rightarrow> object) \<Rightarrow> 'z ksys_scheme \<Rightarrow> 'z ksys_scheme" where
  "upd_obj o1 f s = s\<lparr>obj := (obj s)(o1 := f (obj s o1))\<rparr>"

definition upd_wb :: "nat \<Rightarrow> (waitblock \<Rightarrow> waitblock) \<Rightarrow> 'z ksys_scheme \<Rightarrow> 'z ksys_scheme" where
  "upd_wb b f s = s\<lparr>wb := (wb s)(b := f (wb s b))\<rparr>"

definition upd_wb_opt :: "ptr \<Rightarrow> (waitblock \<Rightarrow> waitblock) \<Rightarrow> 'z ksys_scheme \<Rightarrow> 'z ksys_scheme" where
  "upd_wb_opt q f s = (case q of None \<Rightarrow> s | Some b \<Rightarrow> upd_wb b f s)"

definition ret :: "'a kres \<Rightarrow> 'a option" where
  "ret r = (case r of Panic e \<Rightarrow> None | Ret x \<Rightarrow> Some x)"

section \<open>Wait lists\<close>

definition insert_in_waitlist :: "nat \<Rightarrow> nat \<Rightarrow> 'z ksys_scheme \<Rightarrow> 'z ksys_scheme" where
  "insert_in_waitlist o1 b s =
     (let tl = waitlist_tail (obj s o1);
          s1 = upd_wb b (\<lambda>w. w\<lparr>next_wait := None, prev_wait := tl\<rparr>) s;
          s2 = upd_wb_opt tl (\<lambda>w. w\<lparr>next_wait := Some b\<rparr>) s1 in
      upd_obj o1 (\<lambda>x. x\<lparr>waitlist_tail := Some b,
        waitlist_head := (if waitlist_head x = None then Some b else waitlist_head x)\<rparr>) s2)"

definition remove_from_waitlist :: "nat \<Rightarrow> 'z ksys_scheme \<Rightarrow> 'z ksys_scheme option" where
  "remove_from_waitlist b s =
     (let w = wb s b;
          s1 = upd_wb_opt (next_wait w) (\<lambda>x. x\<lparr>prev_wait := prev_wait w\<rparr>) s;
          s2 = upd_wb_opt (prev_wait w) (\<lambda>x. x\<lparr>next_wait := next_wait w\<rparr>) s1 in
      case wb_object w of
        None \<Rightarrow> None
      | Some o1 \<Rightarrow>
          Some (upd_wb b (\<lambda>x. x\<lparr>wb_object := None, next_wait := None, prev_wait := None\<rparr>)
            (upd_obj o1 (\<lambda>x. x\<lparr>
                waitlist_head := (if waitlist_head x = Some b then next_wait w else waitlist_head x),
                waitlist_tail := (if waitlist_tail x = Some b then prev_wait w else waitlist_tail x)\<rparr>) s2)))"

text \<open>\<^verbatim>\<open>thread_ready_to_run\<close>: the result and the state with the new \<^verbatim>\<open>waitkey\<close>.\<close>

partial_function (option) ready_loop ::
  "nat \<Rightarrow> ptr \<Rightarrow> bool \<Rightarrow> bool \<Rightarrow> 'z ksys_scheme \<Rightarrow> (bool \<times> 'z ksys_scheme) option" where
  "ready_loop t p any al s =
     (case p of
        None \<Rightarrow> Some (any \<or> al, s)
      | Some b \<Rightarrow>
          (case wb_object (wb s b) of
             None \<Rightarrow> None
           | Some o1 \<Rightarrow>
               let sg = signaled (obj s o1);
                   s' = (if sg then upd_thread t (\<lambda>x. x\<lparr>waitkey := wb_waitkey (wb s b)\<rparr>) s else s) in
               if waittype (wb s b) = WAIT_ANY
               then ready_loop t (wb_next (wb s b)) (any \<or> sg) al s'
               else ready_loop t (wb_next (wb s b)) any (al \<and> sg) s'))"

definition thread_ready_to_run :: "nat \<Rightarrow> 'z ksys_scheme \<Rightarrow> (bool \<times> 'z ksys_scheme) option" where
  "thread_ready_to_run t s = ready_loop t (waitlist (thr s t)) False True s"

partial_function (option) cancel_loop :: "ptr \<Rightarrow> 'z ksys_scheme \<Rightarrow> 'z ksys_scheme option" where
  "cancel_loop p s =
     (case p of
        None \<Rightarrow> Some s
      | Some b \<Rightarrow> do { s1 \<leftarrow> remove_from_waitlist b s; cancel_loop (wb_next (wb s1 b)) s1 })"

definition cancel_wait :: "nat \<Rightarrow> 'z ksys_scheme \<Rightarrow> 'z ksys_scheme option" where
  "cancel_wait t s =
     do {
       s1 \<leftarrow> cancel_loop (waitlist (thr s t)) s;
       Some (upd_thread t (\<lambda>x. x\<lparr>waitlist := None\<rparr>) s1)
     }"

definition release_thread :: "nat \<Rightarrow> 'z ksys_scheme \<Rightarrow> 'z ksys_scheme option" where
  "release_thread t s = do { s1 \<leftarrow> cancel_wait t s; ret (mark_thread_ready t 1 1 s1) }"

partial_function (option) release_waiters_loop :: "int \<Rightarrow> ptr \<Rightarrow> 'z ksys_scheme \<Rightarrow> 'z ksys_scheme option" where
  "release_waiters_loop key p s =
     (case p of
        None \<Rightarrow> Some s
      | Some b \<Rightarrow>
          do {
            (r, s1) \<leftarrow> thread_ready_to_run (wb_thread (wb s b)) s;
            s2 \<leftarrow> (if r then release_thread (wb_thread (wb s b))
                              (upd_thread (wb_thread (wb s b)) (\<lambda>x. x\<lparr>waitkey := key\<rparr>) s1)
                    else Some s1);
            release_waiters_loop key (next_wait (wb s b)) s2
          })"

definition release_waiters :: "nat \<Rightarrow> int \<Rightarrow> 'z ksys_scheme \<Rightarrow> 'z ksys_scheme option" where
  "release_waiters o1 key s = release_waiters_loop key (waitlist_head (obj s o1)) s"

section \<open>Objects\<close>

definition set_signaled :: "nat \<Rightarrow> bool \<Rightarrow> 'z ksys_scheme \<Rightarrow> 'z ksys_scheme" where
  "set_signaled o1 v s = upd_obj o1 (\<lambda>x. x\<lparr>signaled := v\<rparr>) s"

text \<open>\<open>deq\<close> stands for \<^verbatim>\<open>dequeue_event_from_iomux\<close>.\<close>

definition enter_object ::
  "(nat \<Rightarrow> 'z ksys_scheme \<Rightarrow> int \<times> 'z ksys_scheme) \<Rightarrow> nat \<Rightarrow> 'z ksys_scheme \<Rightarrow> int \<times> 'z ksys_scheme" where
  "enter_object deq o1 s =
     (case okind (obj s o1) of
        OThread t \<Rightarrow> (exitcode (thr s t), s)
      | OEvent manual \<Rightarrow> (0, if manual then s else set_signaled o1 False s)
      | OTimer _ \<Rightarrow> (0, s)
      | OMutex _ _ \<Rightarrow> (0, upd_obj o1 (\<lambda>x. x\<lparr>signaled := False, okind := OMutex (Some (current s)) 1\<rparr>) s)
      | OSem n \<Rightarrow> (0, upd_obj o1 (\<lambda>x. x\<lparr>okind := OSem (n - 1), signaled := (signaled x \<and> n - 1 \<noteq> 0)\<rparr>) s)
      | OFile \<Rightarrow> (0, s)
      | OSocket \<Rightarrow> (0, s)
      | OIomux \<Rightarrow> deq o1 s
      | OFilemap \<Rightarrow> (0, set_signaled o1 False s))"

definition init_object :: "nat \<Rightarrow> okind \<Rightarrow> 'z ksys_scheme \<Rightarrow> 'z ksys_scheme" where
  "init_object o1 k s =
     upd_obj o1 (\<lambda>_. \<lparr>okind = k, signaled = False, handle_count = 0, lock_count = 0,
       waitlist_head = None, waitlist_tail = None\<rparr>) s"

definition exit_thread :: "nat \<Rightarrow> nat \<Rightarrow> 'z ksys_scheme \<Rightarrow> 'z ksys_scheme option" where
  "exit_thread o1 t s = release_waiters o1 (exitcode (thr s t)) (set_signaled o1 True s)"

section \<open>Events\<close>

definition init_event :: "nat \<Rightarrow> bool \<Rightarrow> bool \<Rightarrow> 'z ksys_scheme \<Rightarrow> 'z ksys_scheme" where
  "init_event e manual initial s = set_signaled e initial (init_object e (OEvent manual) s)"

definition manual_reset :: "object \<Rightarrow> bool" where
  "manual_reset x = (case okind x of OEvent m \<Rightarrow> m | _ \<Rightarrow> False)"

partial_function (option) pulse_event_loop :: "nat \<Rightarrow> ptr \<Rightarrow> 'z ksys_scheme \<Rightarrow> 'z ksys_scheme option" where
  "pulse_event_loop e p s =
     (case p of
        None \<Rightarrow> Some s
      | Some b \<Rightarrow>
          do {
            (r, s1) \<leftarrow> thread_ready_to_run (wb_thread (wb s b)) s;
            if r then
              do {
                s2 \<leftarrow> release_thread (wb_thread (wb s b)) s1;
                if \<not> manual_reset (obj s2 e) then Some s2
                else pulse_event_loop e (next_wait (wb s b)) s2
              }
            else pulse_event_loop e (Some b) s1
          })"

definition pulse_event :: "nat \<Rightarrow> 'z ksys_scheme \<Rightarrow> 'z ksys_scheme option" where
  "pulse_event e s =
     do {
       s1 \<leftarrow> pulse_event_loop e (waitlist_head (obj s e)) (set_signaled e True s);
       Some (set_signaled e False s1)
     }"

partial_function (option) set_event_loop :: "nat \<Rightarrow> ptr \<Rightarrow> 'z ksys_scheme \<Rightarrow> 'z ksys_scheme option" where
  "set_event_loop e p s =
     (case p of
        None \<Rightarrow> Some s
      | Some b \<Rightarrow>
          do {
            (r, s1) \<leftarrow> thread_ready_to_run (wb_thread (wb s b)) s;
            if r then
              do {
                s2 \<leftarrow> release_thread (wb_thread (wb s b)) s1;
                if \<not> manual_reset (obj s2 e) then Some (set_signaled e False s2)
                else set_event_loop e (next_wait (wb s b)) s2
              }
            else set_event_loop e (next_wait (wb s b)) s1
          })"

definition set_event :: "nat \<Rightarrow> 'z ksys_scheme \<Rightarrow> 'z ksys_scheme option" where
  "set_event e s = set_event_loop e (waitlist_head (obj s e)) (set_signaled e True s)"

definition reset_event :: "nat \<Rightarrow> 'z ksys_scheme \<Rightarrow> 'z ksys_scheme" where
  "reset_event e s = set_signaled e False s"

section \<open>Semaphores\<close>

definition sem_count :: "object \<Rightarrow> u32" where
  "sem_count x = (case okind x of OSem n \<Rightarrow> n | _ \<Rightarrow> 0)"

definition set_count :: "nat \<Rightarrow> u32 \<Rightarrow> 'z ksys_scheme \<Rightarrow> 'z ksys_scheme" where
  "set_count o1 n s = upd_obj o1 (\<lambda>x. x\<lparr>okind := OSem n\<rparr>) s"

definition init_sem :: "nat \<Rightarrow> u32 \<Rightarrow> 'z ksys_scheme \<Rightarrow> 'z ksys_scheme" where
  "init_sem o1 n s = set_signaled o1 (n > 0) (init_object o1 (OSem n) s)"

partial_function (option) sem_loop :: "nat \<Rightarrow> ptr \<Rightarrow> 'z ksys_scheme \<Rightarrow> 'z ksys_scheme option" where
  "sem_loop o1 p s =
     (case p of
        None \<Rightarrow> Some s
      | Some b \<Rightarrow>
          do {
            (r, s1) \<leftarrow> thread_ready_to_run (wb_thread (wb s b)) s;
            if r then
              do {
                s2 \<leftarrow> release_thread (wb_thread (wb s b)) (set_count o1 (sem_count (obj s1 o1) - 1) s1);
                if sem_count (obj s2 o1) = 0 then Some (set_signaled o1 False s2)
                else sem_loop o1 (next_wait (wb s b)) s2
              }
            else sem_loop o1 (next_wait (wb s b)) s1
          })"

definition sem_release_all :: "nat \<Rightarrow> 'z ksys_scheme \<Rightarrow> 'z ksys_scheme option" where
  "sem_release_all o1 s =
     (if sem_count (obj s o1) > 0
      then sem_loop o1 (waitlist_head (obj s o1)) (set_signaled o1 True s) else Some s)"

definition release_sem :: "nat \<Rightarrow> u32 \<Rightarrow> 'z ksys_scheme \<Rightarrow> (u32 \<times> 'z ksys_scheme) option" where
  "release_sem o1 n s =
     (let prev = sem_count (obj s o1) in
      do { s1 \<leftarrow> sem_release_all o1 (set_count o1 (prev + n) s); Some (prev, s1) })"

definition set_sem :: "nat \<Rightarrow> u32 \<Rightarrow> 'z ksys_scheme \<Rightarrow> (u32 \<times> 'z ksys_scheme) option" where
  "set_sem o1 n s =
     (let prev = sem_count (obj s o1) in
      do { s1 \<leftarrow> sem_release_all o1 (set_count o1 n s); Some (prev, s1) })"

section \<open>Mutexes and file maps\<close>

definition init_mutex :: "nat \<Rightarrow> bool \<Rightarrow> 'z ksys_scheme \<Rightarrow> 'z ksys_scheme" where
  "init_mutex o1 owned s =
     (if owned then set_signaled o1 False (init_object o1 (OMutex (Some (current s)) 1) s)
      else set_signaled o1 True (init_object o1 (OMutex None 0) s))"

text \<open>The first waiting thread that is ready to run.\<close>

partial_function (option) first_ready :: "ptr \<Rightarrow> 'z ksys_scheme \<Rightarrow> (ptr \<times> 'z ksys_scheme) option" where
  "first_ready p s =
     (case p of
        None \<Rightarrow> Some (None, s)
      | Some b \<Rightarrow>
          do {
            (r, s1) \<leftarrow> thread_ready_to_run (wb_thread (wb s b)) s;
            if r then Some (Some b, s1) else first_ready (next_wait (wb s1 b)) s1
          })"

definition release_mutex :: "nat \<Rightarrow> 'z ksys_scheme \<Rightarrow> (int \<times> 'z ksys_scheme) option" where
  "release_mutex o1 s =
     (case okind (obj s o1) of
        OMutex owner rec \<Rightarrow>
          if owner \<noteq> Some (current s) then Some (- EPERM, s)
          else if rec - 1 > 0 then Some (0, upd_obj o1 (\<lambda>x. x\<lparr>okind := OMutex owner (rec - 1)\<rparr>) s)
          else
            do {
              (p, s1) \<leftarrow> first_ready (waitlist_head (obj s o1))
                 (upd_obj o1 (\<lambda>x. x\<lparr>okind := OMutex None (rec - 1), signaled := True\<rparr>) s);
              (case p of
                 None \<Rightarrow> Some (0, s1)
               | Some b \<Rightarrow>
                   do {
                     s2 \<leftarrow> release_thread (wb_thread (wb s1 b))
                       (upd_obj o1 (\<lambda>x. x\<lparr>okind := OMutex (Some (wb_thread (wb s1 b))) 1, signaled := False\<rparr>) s1);
                     Some (0, s2)
                   })
            }
      | _ \<Rightarrow> None)"

definition unlock_filemap :: "nat \<Rightarrow> 'z ksys_scheme \<Rightarrow> (int \<times> 'z ksys_scheme) option" where
  "unlock_filemap o1 s =
     do {
       (p, s1) \<leftarrow> first_ready (waitlist_head (obj s o1)) (set_signaled o1 True s);
       (case p of
          None \<Rightarrow> Some (0, s1)
        | Some b \<Rightarrow>
            do { s2 \<leftarrow> release_thread (wb_thread (wb s1 b)) (set_signaled o1 False s1); Some (0, s2) })
     }"

section \<open>Waitable timers\<close>

definition expire_waitable_timer :: "nat \<Rightarrow> 'z ksys_scheme \<Rightarrow> 'z ksys_scheme option" where
  "expire_waitable_timer o1 s = release_waiters o1 0 (set_signaled o1 True s)"

definition tmr_sleep :: "nat \<Rightarrow> 'z ksys_scheme \<Rightarrow> 'z ksys_scheme option" where
  "tmr_sleep t s = ret (mark_thread_ready t 1 0 s)"

text \<open>The handlers the timers of this component carry: \<^verbatim>\<open>tmr_sleep\<close> and \<^verbatim>\<open>expire_waitable_timer\<close>.\<close>

definition TMR_SLEEP :: nat where "TMR_SLEEP = 0"
definition EXPIRE_WAITABLE_TIMER :: nat where "EXPIRE_WAITABLE_TIMER = 1"

definition init_waitable_timer :: "nat \<Rightarrow> nat \<Rightarrow> u32 \<Rightarrow> 'z ksys_scheme \<Rightarrow> 'z ksys_scheme option" where
  "init_waitable_timer o1 m e s =
     (let s1 = init_object o1 (OTimer m) s;
          w = upd_tmr m (\<lambda>x. x\<lparr>expires := e\<rparr>) (init_timer m EXPIRE_WAITABLE_TIMER o1 (wheel s1)) in
      if sint (ticks s1 - e) \<ge> 0 then Some (set_signaled o1 True (s1\<lparr>wheel := w\<rparr>))
      else do { w' \<leftarrow> add_timer m w; Some (s1\<lparr>wheel := w'\<rparr>) })"

definition modify_waitable_timer :: "nat \<Rightarrow> u32 \<Rightarrow> 'z ksys_scheme \<Rightarrow> 'z ksys_scheme option" where
  "modify_waitable_timer m e s = do { (rc, w) \<leftarrow> mod_timer m e (wheel s); Some (s\<lparr>wheel := w\<rparr>) }"

definition cancel_waitable_timer :: "nat \<Rightarrow> 'z ksys_scheme \<Rightarrow> 'z ksys_scheme option" where
  "cancel_waitable_timer m s =
     (if active (tmr (wheel s) m) then do { (rc, w) \<leftarrow> del_timer m (wheel s); Some (s\<lparr>wheel := w\<rparr>) }
      else Some s)"

section \<open>Closing objects\<close>

text \<open>
  \<open>closer\<close> stands for \<^verbatim>\<open>close\<close>, \<^verbatim>\<open>closesocket\<close> and \<^verbatim>\<open>close_iomux\<close>, and \<open>destroyer\<close> for
  \<^verbatim>\<open>destroy_thread\<close> and \<^verbatim>\<open>destroy\<close>, which belong to other components.
\<close>

partial_function (option) close_loop :: "nat \<Rightarrow> 'z ksys_scheme \<Rightarrow> 'z ksys_scheme option" where
  "close_loop o1 s =
     (case waitlist_head (obj s o1) of
        None \<Rightarrow> Some s
      | Some b \<Rightarrow>
          do {
            s1 \<leftarrow> release_thread (wb_thread (wb s b)) (upd_thread (wb_thread (wb s b)) (\<lambda>x. x\<lparr>waitkey := - EINTR\<rparr>) s);
            close_loop o1 s1
          })"

definition close_object ::
  "(nat \<Rightarrow> 'z ksys_scheme \<Rightarrow> (int \<times> 'z ksys_scheme) option) \<Rightarrow> nat \<Rightarrow> 'z ksys_scheme \<Rightarrow> (int \<times> 'z ksys_scheme) option" where
  "close_object closer o1 s =
     do {
       s1 \<leftarrow> close_loop o1 s;
       (case okind (obj s1 o1) of
          OTimer m \<Rightarrow> do { s2 \<leftarrow> cancel_waitable_timer m s1; Some (0, s2) }
        | OFile \<Rightarrow> closer o1 s1
        | OSocket \<Rightarrow> closer o1 s1
        | OIomux \<Rightarrow> closer o1 s1
        | _ \<Rightarrow> Some (0, s1))
     }"

definition destroy_object ::
  "(nat \<Rightarrow> 'z ksys_scheme \<Rightarrow> (int \<times> 'z ksys_scheme) option) \<Rightarrow> nat \<Rightarrow> 'z ksys_scheme \<Rightarrow> (int \<times> 'z ksys_scheme) option" where
  "destroy_object destroyer o1 s =
     (case okind (obj s o1) of
        OThread _ \<Rightarrow> destroyer o1 s
      | OFile \<Rightarrow> destroyer o1 s
      | _ \<Rightarrow> Some (0, s))"

section \<open>Waiting\<close>

text \<open>
  A waiting call ends at once with a result, or the thread blocks: then another thread runs
  in the state given, and the call goes on with \<open>wait_finish\<close> when the thread runs again.
\<close>

datatype 'a wait = Returned int 'a | Blocked 'a

text \<open>
  One wait block is filled in, linked behind the previous one of the thread (or as its first)
  and put on the wait list of the object.
\<close>

definition add_waitblock ::
  "nat \<Rightarrow> ptr \<Rightarrow> nat \<Rightarrow> nat \<Rightarrow> waittype \<Rightarrow> int \<Rightarrow> 'z ksys_scheme \<Rightarrow> 'z ksys_scheme" where
  "add_waitblock t prev b o1 ty key s =
     (let s1 = (case prev of None \<Rightarrow> upd_thread t (\<lambda>x. x\<lparr>waitlist := Some b\<rparr>) s
                | Some p \<Rightarrow> upd_wb p (\<lambda>w. w\<lparr>wb_next := Some b\<rparr>) s);
          s2 = upd_wb b (\<lambda>w. w\<lparr>wb_thread := t, wb_object := Some o1, waittype := ty, wb_waitkey := key, wb_next := None\<rparr>) s1 in
      insert_in_waitlist o1 b s2)"

fun add_waitblocks ::
  "nat \<Rightarrow> ptr \<Rightarrow> nat list \<Rightarrow> nat list \<Rightarrow> waittype \<Rightarrow> int \<Rightarrow> 'z ksys_scheme \<Rightarrow> 'z ksys_scheme" where
  "add_waitblocks t prev (b # bs) (o1 # os) ty n s =
     add_waitblocks t (Some b) bs os ty (n + 1) (add_waitblock t prev b o1 ty n s)"
| "add_waitblocks t prev _ _ ty n s = s"

definition tick_timeout :: "u32 \<Rightarrow> u32" where
  "tick_timeout timeout = (if timeout < MSECS_PER_TICK then MSECS_PER_TICK else timeout) div MSECS_PER_TICK"

text \<open>The timer for a timeout and its wait block.\<close>

definition add_timeout :: "nat \<Rightarrow> nat \<Rightarrow> nat \<Rightarrow> nat \<Rightarrow> nat \<Rightarrow> u32 \<Rightarrow> 'z ksys_scheme \<Rightarrow> 'z ksys_scheme option" where
  "add_timeout t prev btmo otmo m timeout s =
     do {
       s1 \<leftarrow> init_waitable_timer otmo m (ticks s + tick_timeout timeout) s;
       Some (add_waitblock t (Some prev) btmo otmo WAIT_ANY (- ETIMEOUT) s1)
     }"

text \<open>The end of every waiting call, from \<^verbatim>\<open>enter_wait\<close> or \<^verbatim>\<open>enter_alertable_wait\<close> on.\<close>

definition wait_block ::
  "('z ksys_scheme \<Rightarrow> 'z ksys_scheme kres) \<Rightarrow> bool \<Rightarrow> nat option \<Rightarrow> 'z ksys_scheme \<Rightarrow> 'z ksys_scheme wait option" where
  "wait_block dpcs alertable m s =
     (if alertable then
        do {
          r \<leftarrow> ret (enter_alertable_wait dpcs THREAD_WAIT_OBJECT s);
          (case r of
             Inr s' \<Rightarrow> Some (Blocked s')
           | Inl rc \<Rightarrow>
               do {
                 s1 \<leftarrow> cancel_wait (current s) s;
                 let s2 = upd_thread (current s) (\<lambda>x. x\<lparr>waitkey := rc\<rparr>) s1;
                 s3 \<leftarrow> (case m of None \<Rightarrow> Some s2 | Some tm \<Rightarrow> cancel_waitable_timer tm s2);
                 Some (Returned rc s3)
               })
        }
      else do { s' \<leftarrow> ret (enter_wait dpcs THREAD_WAIT_OBJECT s); Some (Blocked s') })"

definition wait_finish :: "bool \<Rightarrow> nat option \<Rightarrow> 'z ksys_scheme \<Rightarrow> (int \<times> 'z ksys_scheme) option" where
  "wait_finish alertable m s =
     do {
       s1 \<leftarrow> (if alertable then
                case leave_alertable_wait s of (rc, s') \<Rightarrow>
                  if rc < 0 then
                    do { s'' \<leftarrow> cancel_wait (current s') s';
                         Some (upd_thread (current s') (\<lambda>x. x\<lparr>waitkey := rc\<rparr>) s'') }
                  else Some s'
              else Some s);
       s2 \<leftarrow> (case m of None \<Rightarrow> Some s1 | Some tm \<Rightarrow> cancel_waitable_timer tm s1);
       Some (waitkey (thr s2 (current s2)), s2)
     }"

definition owned_by :: "nat \<Rightarrow> object \<Rightarrow> bool" where
  "owned_by t x = (case okind x of OMutex owner _ \<Rightarrow> owner = Some t | _ \<Rightarrow> False)"

definition recurse :: "nat \<Rightarrow> 'z ksys_scheme \<Rightarrow> 'z ksys_scheme" where
  "recurse o1 s =
     (case okind (obj s o1) of
        OMutex owner rec \<Rightarrow> upd_obj o1 (\<lambda>x. x\<lparr>okind := OMutex owner (rec + 1)\<rparr>) s | _ \<Rightarrow> s)"

definition wait_for_one_object ::
  "('z ksys_scheme \<Rightarrow> 'z ksys_scheme kres) \<Rightarrow> (nat \<Rightarrow> 'z ksys_scheme \<Rightarrow> int \<times> 'z ksys_scheme) \<Rightarrow>
   nat \<Rightarrow> nat \<Rightarrow> nat \<Rightarrow> nat \<Rightarrow> nat \<Rightarrow> u32 \<Rightarrow> bool \<Rightarrow> 'z ksys_scheme \<Rightarrow> 'z ksys_scheme wait option" where
  "wait_for_one_object dpcs deq b btmo otmo m o1 timeout alertable s =
     (let t = current s in
      if signaled (obj s o1) then (case enter_object deq o1 s of (rc, s') \<Rightarrow> Some (Returned rc s'))
      else if owned_by t (obj s o1) then Some (Returned 0 (recurse o1 s))
      else if timeout = 0 then Some (Returned (- ETIMEOUT) s)
      else
        let s1 = add_waitblock t None b o1 WAIT_ANY 0 s in
        if timeout = INFINITE then wait_block dpcs alertable None s1
        else do { s2 \<leftarrow> add_timeout t b btmo otmo m timeout s1; wait_block dpcs alertable (Some m) s2 })"

definition wait_for_object where
  "wait_for_object dpcs deq b btmo otmo m o1 timeout s = wait_for_one_object dpcs deq b btmo otmo m o1 timeout False s"

text \<open>\<^verbatim>\<open>msleep\<close> with its local timer \<open>m\<close>.\<close>

definition msleep :: "('z ksys_scheme \<Rightarrow> 'z ksys_scheme kres) \<Rightarrow> nat \<Rightarrow> u32 \<Rightarrow> 'z ksys_scheme \<Rightarrow> 'z ksys_scheme wait option" where
  "msleep dpcs m millisecs s =
     (if millisecs = 0 then do { s' \<leftarrow> ret (yield dpcs s); Some (Blocked s') }
      else
        do {
          w \<leftarrow> add_timer m (upd_tmr m (\<lambda>x. x\<lparr>expires := ticks s + millisecs div MSECS_PER_TICK\<rparr>)
                 (init_timer m TMR_SLEEP (current s) (wheel s)));
          let s1 = s\<lparr>wheel := w\<rparr>;
          r \<leftarrow> ret (enter_alertable_wait dpcs THREAD_WAIT_SLEEP s1);
          (case r of
             Inr s' \<Rightarrow> Some (Blocked s')
           | Inl _ \<Rightarrow>
               do {
                 (rc, w') \<leftarrow> del_timer m w;
                 let left = sint ((expires (tmr w m) - ticks s) * MSECS_PER_TICK);
                 Some (Returned (if left < 0 then 0 else left) (s1\<lparr>wheel := w'\<rparr>))
               })
        })"

definition msleep_finish :: "nat \<Rightarrow> 'z ksys_scheme \<Rightarrow> (int \<times> 'z ksys_scheme) option" where
  "msleep_finish m s =
     (case leave_alertable_wait s of (rc, s1) \<Rightarrow>
        do {
          (d, w) \<leftarrow> del_timer m (wheel s1);
          let left = sint ((expires (tmr (wheel s1) m) - ticks s1) * MSECS_PER_TICK);
          Some (if rc = - EINTR then (if left < 0 then 0 else left) else rc, s1\<lparr>wheel := w\<rparr>)
        })"

fun all_signaled :: "nat \<Rightarrow> nat list \<Rightarrow> 'z ksys_scheme \<Rightarrow> bool" where
  "all_signaled t [] s = True"
| "all_signaled t (o1 # os) s =
     ((case okind (obj s o1) of
         OMutex owner _ \<Rightarrow> signaled (obj s o1) \<and> owner = Some t
       | _ \<Rightarrow> signaled (obj s o1)) \<and> all_signaled t os s)"

fun enter_all ::
  "(nat \<Rightarrow> 'z ksys_scheme \<Rightarrow> int \<times> 'z ksys_scheme) \<Rightarrow> nat \<Rightarrow> nat list \<Rightarrow> u32 \<Rightarrow> 'z ksys_scheme \<Rightarrow> u32 \<times> 'z ksys_scheme" where
  "enter_all deq t [] rc s = (rc, s)"
| "enter_all deq t (o1 # os) rc s =
     (if signaled (obj s o1) then
        case enter_object deq o1 s of (r, s') \<Rightarrow> enter_all deq t os (rc OR word_of_int r) s'
      else if owned_by t (obj s o1) then enter_all deq t os rc (recurse o1 s)
      else enter_all deq t os rc s)"

definition wait_for_all_objects ::
  "('z ksys_scheme \<Rightarrow> 'z ksys_scheme kres) \<Rightarrow> (nat \<Rightarrow> 'z ksys_scheme \<Rightarrow> int \<times> 'z ksys_scheme) \<Rightarrow>
   nat list \<Rightarrow> nat \<Rightarrow> nat \<Rightarrow> nat \<Rightarrow> nat list \<Rightarrow> u32 \<Rightarrow> bool \<Rightarrow> 'z ksys_scheme \<Rightarrow> 'z ksys_scheme wait option" where
  "wait_for_all_objects dpcs deq bs btmo otmo m os timeout alertable s =
     (let t = current s in
      if os = [] then
        if timeout = INFINITE then Some (Returned (- EINVAL) s)
        else do {
          r \<leftarrow> msleep dpcs m timeout s;
          (case r of Returned rc s' \<Rightarrow> Some (Returned (if rc > 0 then - EINTR else 0) s') | Blocked s' \<Rightarrow> Some (Blocked s'))
        }
      else if length os > MAX_WAIT_OBJECTS then Some (Returned (- EINVAL) s)
      else if all_signaled t os s then (case enter_all deq t os 0 s of (rc, s') \<Rightarrow> Some (Returned (sint rc) s'))
      else if timeout = 0 then Some (Returned (- ETIMEOUT) s)
      else
        let s1 = add_waitblocks t None bs os WAIT_ALL 0 s in
        if timeout = INFINITE then wait_block dpcs alertable None s1
        else do {
          s2 \<leftarrow> add_timeout t (bs ! (length os - 1)) btmo otmo m timeout s1;
          wait_block dpcs alertable (Some m) s2
        })"

text \<open>The first object that is signaled or a mutex of the thread: the result is its number, or the key of the object.\<close>

fun enter_first ::
  "(nat \<Rightarrow> 'z ksys_scheme \<Rightarrow> int \<times> 'z ksys_scheme) \<Rightarrow> nat \<Rightarrow> nat list \<Rightarrow> int \<Rightarrow> 'z ksys_scheme \<Rightarrow> (int \<times> 'z ksys_scheme) option" where
  "enter_first deq t [] n s = None"
| "enter_first deq t (o1 # os) n s =
     (if signaled (obj s o1) then
        case enter_object deq o1 s of (rc, s') \<Rightarrow> Some (if rc \<noteq> 0 then rc else n, s')
      else if owned_by t (obj s o1) then Some (n, recurse o1 s)
      else enter_first deq t os (n + 1) s)"

definition wait_for_any_object ::
  "('z ksys_scheme \<Rightarrow> 'z ksys_scheme kres) \<Rightarrow> (nat \<Rightarrow> 'z ksys_scheme \<Rightarrow> int \<times> 'z ksys_scheme) \<Rightarrow>
   nat list \<Rightarrow> nat \<Rightarrow> nat \<Rightarrow> nat \<Rightarrow> nat list \<Rightarrow> u32 \<Rightarrow> bool \<Rightarrow> 'z ksys_scheme \<Rightarrow> 'z ksys_scheme wait option" where
  "wait_for_any_object dpcs deq bs btmo otmo m os timeout alertable s =
     (let t = current s in
      if os = [] then
        if timeout = INFINITE then Some (Returned (- EINVAL) s)
        else do {
          r \<leftarrow> msleep dpcs m timeout s;
          (case r of Returned rc s' \<Rightarrow> Some (Returned (if rc > 0 then - EINTR else 0) s') | Blocked s' \<Rightarrow> Some (Blocked s'))
        }
      else if length os > MAX_WAIT_OBJECTS then Some (Returned (- EINVAL) s)
      else
        case enter_first deq t os 0 s of
          Some (rc, s') \<Rightarrow> Some (Returned rc s')
        | None \<Rightarrow>
            if timeout = 0 then Some (Returned (- ETIMEOUT) s)
            else
              let s1 = add_waitblocks t None bs os WAIT_ANY 0 s in
              if timeout = INFINITE then wait_block dpcs alertable None s1
              else do {
                s2 \<leftarrow> add_timeout t (bs ! (length os - 1)) btmo otmo m timeout s1;
                wait_block dpcs alertable (Some m) s2
              })"

end
