(* ===== verification/Waiting.thy ===== *)
theory Waiting
  imports Object
begin

text \<open>
  The theory of wait lists behind the object manager: what the wait and release operations
  leave unchanged (frames), the invariant \<open>wait_inv\<close> that ties the wait lists of the objects,
  the wait blocks of the threads and the ready queues together, when a thread is ready to
  run, and the locale \<open>serve_loop\<close>, the contract shared by the loops that walk a wait list and
  release threads.
\<close>

section \<open>Frames\<close>

text \<open>What the wait-list and ready-queue operations never change of a thread, an object or a wait block.\<close>

definition tstat :: "thread \<Rightarrow> thread" where
  "tstat th = th\<lparr>next_ready := None, prev_ready := None, waitkey := 0\<rparr>"

definition plain :: "object \<Rightarrow> object" where
  "plain x = x\<lparr>waitlist_head := None, waitlist_tail := None\<rparr>"

definition static :: "waitblock \<Rightarrow> waitblock" where
  "static w = w\<lparr>wb_object := None, next_wait := None, prev_wait := None\<rparr>"

lemma tstat_fields:
  assumes "tstat a = tstat b"
  shows "t_state a = t_state b" "suspend_count a = suspend_count b" "tflags a = tflags b"
    "waitlist a = waitlist b" "priority a = priority b" "base_priority a = base_priority b"
    "exitcode a = exitcode b"
  using assms by (cases a, cases b, simp add: tstat_def)+

lemma plain_fields:
  assumes "plain a = plain b"
  shows "okind a = okind b" "signaled a = signaled b" "handle_count a = handle_count b"
    "lock_count a = lock_count b"
  using assms by (cases a, cases b, simp add: plain_def)+

lemma static_fields:
  assumes "static a = static b"
  shows "wb_thread a = wb_thread b" "waittype a = waittype b" "wb_waitkey a = wb_waitkey b"
    "wb_next a = wb_next b"
  using assms by (cases a, cases b, simp add: static_def)+

lemma core_tstat: "core a = core b \<Longrightarrow> tstat a = tstat b"
  by (cases a, cases b) (simp add: core_def tstat_def)

lemma tstat_waitkey [simp]: "tstat (th\<lparr>waitkey := k\<rparr>) = tstat th"
  by (simp add: tstat_def)

text \<open>The part of the state that is not the scheduler's.\<close>

lemma upd_thread_more [simp]:
  "sched.more (upd_thread t f s) = sched.more s"
  by (simp add: upd_thread_def)

lemma ksys_more:
  assumes "sched.more s' = sched.more (s :: 'z ksys_scheme)"
  shows "obj s' = obj s" "wb s' = wb s" "wheel s' = wheel s" "ticks s' = ticks s"
    "ksys.more s' = ksys.more s"
  using assms by (cases s, cases s', simp)+

lemma upd_thread_ksys [simp]:
  "obj (upd_thread t f s) = obj s" "wb (upd_thread t f s) = wb s" "wheel (upd_thread t f s) = wheel s"
  "ticks (upd_thread t f s) = ticks s" "ksys.more (upd_thread t f s) = ksys.more s"
  using ksys_more [of "upd_thread t f s" s] by simp_all

lemma insert_ready_more [simp]:
  "sched.more (insert_ready_head t s) = sched.more s" "sched.more (insert_ready_tail t s) = sched.more s"
  by (simp_all add: insert_ready_head_def insert_ready_tail_def upd_thread_def Let_def split: option.splits)

lemma set_preempt_more [simp]: "sched.more (set_preempt t s) = sched.more s"
  by (simp add: set_preempt_def)

lemma mark_thread_ready_more:
  "mark_thread_ready t c b s = Ret s' \<Longrightarrow> sched.more s' = sched.more s"
  by (auto simp: mark_thread_ready_cases Let_def split: if_splits)

definition woken :: "thread \<Rightarrow> bool" where
  "woken th \<longleftrightarrow> t_state th = READY \<or> t_state th = SUSPENDED"

definition can_wake :: "thread \<Rightarrow> bool" where
  "can_wake th \<longleftrightarrow> \<not> (suspend_count th = 0 \<and> t_state th = READY \<and> tflags th AND THREAD_INTERRUPTED = 0)"

lemma mark_thread_ready_wakes:
  assumes I: "sched_inv s q" and w: "can_wake (thr s t)"
  obtains s' q' where "mark_thread_ready t c b s = Ret s'" "sched_inv s' q'" "sched.more s' = sched.more s"
    "current s' = current s" "\<forall>x. x \<noteq> t \<longrightarrow> core (thr s' x) = core (thr s x)" "woken (thr s' t)"
    "waitlist (thr s' t) = waitlist (thr s t)" "waitkey (thr s' t) = waitkey (thr s t)"
proof -
  obtain s' where r: "mark_thread_ready t c b s = Ret s'"
    using w by (cases "mark_thread_ready t c b s")
      (auto simp: mark_thread_ready_cases can_wake_def Let_def split: if_splits)
  obtain q' where q': "sched_inv s' q'" "current s' = current s"
    "\<forall>x. x \<noteq> t \<longrightarrow> core (thr s' x) = core (thr s x)"
    "if suspend_count (thr s t) > 0 then q' = q \<and> t_state (thr s' t) = SUSPENDED
     else if t_state (thr s t) = READY then s' = s \<and> q' = q
     else core (thr s' t) = core (boosted c b (thr s t)) \<and>
       (let p = priority (thr s' t) in
        q' = q(p := (if quantum (thr s t) - c > 0 then t # q p else q p @ [t])))"
    using mark_thread_ready_inv [OF I r] by blast
  have "woken (thr s' t) \<and> waitlist (thr s' t) = waitlist (thr s t) \<and> waitkey (thr s' t) = waitkey (thr s t)"
  proof (cases "suspend_count (thr s t) > 0")
    case True
    then show ?thesis using r by (auto simp: mark_thread_ready_cases woken_def)
  next
    case False
    then show ?thesis
      using q'(4) core_fields [of "thr s' t" "boosted c b (thr s t)"]
      by (cases "t_state (thr s t) = READY") (auto simp: woken_def)
  qed
  then show thesis using that [OF r q'(1) mark_thread_ready_more [OF r] q'(2,3)] by blast
qed

lemma sched_inv_soft:
  assumes I: "sched_inv s q" and e: "\<And>x. tstat' (thr s' x) = tstat' (thr s x)"
    and t: "tstat' = (\<lambda>th. th\<lparr>waitkey := 0, waitlist := None\<rparr>)"
    and h: "ready_head s' = ready_head s" "ready_tail s' = ready_tail s" "summary s' = summary s" "current s' = current s"
  shows "sched_inv s' q"
proof -
  have f: "next_ready (thr s' x) = next_ready (thr s x) \<and> prev_ready (thr s' x) = prev_ready (thr s x) \<and>
      priority (thr s' x) = priority (thr s x) \<and> base_priority (thr s' x) = base_priority (thr s x) \<and>
      t_state (thr s' x) = t_state (thr s x) \<and> suspend_count (thr s' x) = suspend_count (thr s x)" for x
    using e [of x] unfolding t by (cases "thr s' x", cases "thr s x") simp
  show ?thesis
    using f sched_invD [OF I] h(4)
    by (intro sched_invI queues_soft_cong [OF sched_invD(1) [OF I]] h) auto
qed

lemma sched_inv_wait:
  assumes "sched_inv s q"
  shows "sched_inv (upd_thread t (\<lambda>x. x\<lparr>waitkey := k\<rparr>) s) q" "sched_inv (upd_thread t (\<lambda>x. x\<lparr>waitlist := p\<rparr>) s) q"
  by (rule sched_inv_soft [OF assms _ refl]; simp)+


section \<open>The wait lists\<close>

definition waitlists :: "'z ksys_scheme \<Rightarrow> (nat \<Rightarrow> nat list) \<Rightarrow> bool" where
  "waitlists s W \<longleftrightarrow>
     (\<forall>o1. dll (waitlist_head (obj s o1)) (waitlist_tail (obj s o1)) (\<lambda>b. next_wait (wb s b))
        (\<lambda>b. prev_wait (wb s b)) (W o1)) \<and>
     (\<forall>o1. \<forall>b \<in> set (W o1). wb_object (wb s b) = Some o1)"

lemma waitlistsD:
  assumes "waitlists s W"
  shows "dll (waitlist_head (obj s o1)) (waitlist_tail (obj s o1)) (\<lambda>b. next_wait (wb s b)) (\<lambda>b. prev_wait (wb s b)) (W o1)"
    "b \<in> set (W o1) \<Longrightarrow> wb_object (wb s b) = Some o1"
    "b \<in> set (W o1) \<Longrightarrow> b \<in> set (W o2) \<Longrightarrow> o1 = o2"
  using assms unfolding waitlists_def by - (blast, blast, metis option.inject)

text \<open>The state after a change of wait lists only.\<close>

definition wframe :: "'z ksys_scheme \<Rightarrow> 'z ksys_scheme \<Rightarrow> bool" where
  "wframe s s' \<longleftrightarrow> s' = s\<lparr>obj := obj s', wb := wb s'\<rparr> \<and> (\<forall>o1. plain (obj s' o1) = plain (obj s o1)) \<and>
     (\<forall>b. static (wb s' b) = static (wb s b))"

lemma wframe_refl [simp]: "wframe s s"
  by (simp add: wframe_def)

lemma wframe_trans:
  assumes "wframe a b" "wframe b c"
  shows "wframe a c"
proof -
  have b: "b = a\<lparr>obj := obj b, wb := wb b\<rparr>" and c: "c = b\<lparr>obj := obj c, wb := wb c\<rparr>"
    using assms by (auto simp: wframe_def)
  have "c = a\<lparr>obj := obj c, wb := wb c\<rparr>" by (subst c, subst b) simp
  with assms show ?thesis by (simp add: wframe_def)
qed

lemma wframeD:
  assumes "wframe s s'"
  shows "thr s' = thr s" "current s' = current s" "ready_head s' = ready_head s" "ready_tail s' = ready_tail s"
    "summary s' = summary s" "preempt_flag s' = preempt_flag s" "wheel s' = wheel s" "ticks s' = ticks s"
    "ksys.more s' = ksys.more s"
    "plain (obj s' o1) = plain (obj s o1)" "static (wb s' b) = static (wb s b)"
proof -
  have e: "s' = s\<lparr>obj := obj s', wb := wb s'\<rparr>" using assms by (simp add: wframe_def)
  show "thr s' = thr s" "current s' = current s" "ready_head s' = ready_head s" "ready_tail s' = ready_tail s"
    "summary s' = summary s" "preempt_flag s' = preempt_flag s" "wheel s' = wheel s" "ticks s' = ticks s"
    "ksys.more s' = ksys.more s" by (subst e, simp)+
  show "plain (obj s' o1) = plain (obj s o1)" "static (wb s' b) = static (wb s b)" using assms by (simp_all add: wframe_def)
qed

lemma remove_lists:
  assumes L: "waitlists s W" and b: "b \<in> set (W o1)"
  obtains s' where "remove_from_waitlist b s = Some s'" "waitlists s' (W(o1 := remove1 b (W o1)))" "wframe s s'"
    "\<forall>x. wb_object (wb s' x) = (if x = b then None else wb_object (wb s x))"
proof -
  let ?n = "\<lambda>b. next_wait (wb s b)" and ?p = "\<lambda>b. prev_wait (wb s b)"
  let ?h = "waitlist_head (obj s o1)" and ?t = "waitlist_tail (obj s o1)"
  have ob: "wb_object (wb s b) = Some o1" using waitlistsD(2) [OF L b] .
  have D: "dll ?h ?t ?n ?p (W o1)" using waitlistsD(1) [OF L] .
  define s2 where "s2 = upd_wb_opt (?p b) (\<lambda>x. x\<lparr>next_wait := ?n b\<rparr>)
    (upd_wb_opt (?n b) (\<lambda>x. x\<lparr>prev_wait := ?p b\<rparr>) s)"
  define s' where "s' = upd_wb b (\<lambda>x. x\<lparr>wb_object := None, next_wait := None, prev_wait := None\<rparr>)
            (upd_obj o1 (\<lambda>x. x\<lparr>
                waitlist_head := (if waitlist_head x = Some b then ?n b else waitlist_head x),
                waitlist_tail := (if waitlist_tail x = Some b then ?p b else waitlist_tail x)\<rparr>) s2)"
  obtain ys zs where split: "W o1 = ys @ b # zs" using b by (meson split_list)
  note M = dll_mid [OF D [unfolded split]]
  have dist: "distinct (W o1)" using D dll_distinct by blast
  have nb: "?n b = Some x \<Longrightarrow> x \<in> set (W o1) \<and> x \<noteq> b" "?p b = Some x \<Longrightarrow> x \<in> set (W o1) \<and> x \<noteq> b" for x
    using M(1,2) dist split by (auto split: if_splits)
  have nx: "next_wait (wb s' x) = (case ?p b of None \<Rightarrow> ?n | Some a \<Rightarrow> ?n(a := ?n b)) x" if "x \<noteq> b" for x
    using that by (auto simp: s'_def s2_def upd_wb_def upd_obj_def upd_wb_opt_def split: option.splits)
  have px: "prev_wait (wb s' x) = (case ?n b of None \<Rightarrow> ?p | Some a \<Rightarrow> ?p(a := ?p b)) x" if "x \<noteq> b" for x
    using that by (auto simp: s'_def s2_def upd_wb_def upd_obj_def upd_wb_opt_def split: option.splits)
  have r: "remove_from_waitlist b s = Some s'"
    using ob by (simp add: remove_from_waitlist_def s'_def s2_def Let_def)
  have oo: "wb_object (wb s' x) = (if x = b then None else wb_object (wb s x))" for x
    by (auto simp: s'_def s2_def upd_wb_def upd_obj_def upd_wb_opt_def split: option.splits)
  have F: "wframe s s'"
    by (auto simp: wframe_def s'_def s2_def upd_wb_def upd_obj_def upd_wb_opt_def plain_def static_def split: option.splits)
  have ho: "waitlist_head (obj s' o2) = (if o2 = o1 \<and> ?h = Some b then ?n b else waitlist_head (obj s o2))"
    "waitlist_tail (obj s' o2) = (if o2 = o1 \<and> ?t = Some b then ?p b else waitlist_tail (obj s o2))" for o2
    by (auto simp: s'_def s2_def upd_wb_def upd_obj_def upd_wb_opt_def split: option.splits)
  have "dll (waitlist_head (obj s' o2)) (waitlist_tail (obj s' o2)) (\<lambda>b. next_wait (wb s' b)) (\<lambda>b. prev_wait (wb s' b))
      ((W(o1 := remove1 b (W o1))) o2)" for o2
  proof (cases "o2 = o1")
    case True
    have "b \<notin> set (remove1 b (W o1))" using dist by simp
    then show ?thesis
      using dll_remove [OF D b] True ho
      by (subst dll_cong [where n' = "case ?p b of None \<Rightarrow> ?n | Some a \<Rightarrow> ?n(a := ?n b)"
            and p' = "case ?n b of None \<Rightarrow> ?p | Some a \<Rightarrow> ?p(a := ?p b)"]) (auto intro: nx px)
  next
    case False
    have "x \<noteq> b \<and> ?n b \<noteq> Some x \<and> ?p b \<noteq> Some x" if "x \<in> set (W o2)" for x
      using that False waitlistsD(3) [OF L] nb b by blast
    then show ?thesis
      using waitlistsD(1) [OF L, of o2] False ho
      by (subst dll_cong [where n' = ?n and p' = ?p]) (auto simp: nx px split: option.splits)
  qed
  then have "waitlists s' (W(o1 := remove1 b (W o1)))"
    using waitlistsD(2) [OF L] waitlistsD(3) [OF L b] dist by (auto simp: waitlists_def oo dest: notin_set_remove1)
  with r F oo that show thesis by blast
qed


lemma cancel_loop_lists:
  assumes "waitlists s W" "lseg (\<lambda>b. wb_next (wb s b)) p ys None" "distinct ys"
    "\<And>b. b \<in> set ys \<Longrightarrow> \<exists>o1. b \<in> set (W o1)"
  shows "\<exists>s'. cancel_loop p s = Some s' \<and> waitlists s' (\<lambda>o1. filter (\<lambda>b. b \<notin> set ys) (W o1)) \<and> wframe s s' \<and>
    (\<forall>x. wb_object (wb s' x) = (if x \<in> set ys then None else wb_object (wb s x)))"
  using assms
proof (induction ys arbitrary: s W p)
  case Nil
  then show ?case by (subst cancel_loop.simps) auto
next
  case (Cons b ys)
  obtain o1 where b: "b \<in> set (W o1)" using Cons.prems(4) [of b] by auto
  obtain s1 where s1: "remove_from_waitlist b s = Some s1" "waitlists s1 (W(o1 := remove1 b (W o1)))" "wframe s s1"
    "\<forall>x. wb_object (wb s1 x) = (if x = b then None else wb_object (wb s x))"
    by (rule remove_lists [OF Cons.prems(1) b])
  have nx: "wb_next (wb s1 x) = wb_next (wb s x)" for x using static_fields(4) [OF wframeD(11) [OF s1(3)]] .
  have dist: "distinct (W o1)" using dll_distinct [OF waitlistsD(1) [OF Cons.prems(1)]] .
  have only: "b \<in> set (W o2) \<longleftrightarrow> o2 = o1" for o2 using waitlistsD(3) [OF Cons.prems(1) b] b by blast
  have W: "filter (\<lambda>b. b \<notin> set ys) ((W(o1 := remove1 b (W o1))) o2) = filter (\<lambda>x. x \<notin> set (b # ys)) (W o2)" for o2
    using only [of o2] dist by (auto simp: distinct_remove1_removeAll removeAll_filter_not_eq intro!: filter_cong)
  have "lseg (\<lambda>b. wb_next (wb s1 b)) (wb_next (wb s1 b)) ys None" "p = Some b" using Cons.prems(2) by (simp_all add: nx)
  moreover have "\<exists>o2. x \<in> set ((W(o1 := remove1 b (W o1))) o2)" if "x \<in> set ys" for x
    using Cons.prems(3) Cons.prems(4) [of x] that by (auto, metis in_set_remove1)
  ultimately obtain s' where s': "cancel_loop (wb_next (wb s1 b)) s1 = Some s'"
    "waitlists s' (\<lambda>o1. filter (\<lambda>x. x \<notin> set (b # ys)) (W o1))" "wframe s1 s'"
    "\<forall>x. wb_object (wb s' x) = (if x \<in> set ys then None else wb_object (wb s1 x))"
    using Cons.IH [OF s1(2), of "wb_next (wb s1 b)"] Cons.prems(3) unfolding W by auto
  moreover have "cancel_loop p s = Some s'" using s'(1) s1(1) Cons.prems(2) by (subst cancel_loop.simps) simp
  ultimately show ?case using wframe_trans [OF s1(3)] s1(4) by auto
qed

section \<open>The invariant of waiting threads\<close>

text \<open>
  \<open>W\<close> gives the wait list of every object and \<open>B\<close> the wait blocks of every thread. They are
  two views of the same blocks, and a thread with wait blocks can be made ready.
\<close>

definition wait_inv :: "'z ksys_scheme \<Rightarrow> (nat \<Rightarrow> nat list) \<Rightarrow> (nat \<Rightarrow> nat list) \<Rightarrow> bool" where
  "wait_inv s W B \<longleftrightarrow>
     waitlists s W \<and>
     (\<forall>t. lseg (\<lambda>b. wb_next (wb s b)) (waitlist (thr s t)) (B t) None \<and> distinct (B t)) \<and>
     (\<forall>t. \<forall>b \<in> set (B t). wb_thread (wb s b) = t \<and> (\<exists>o1. b \<in> set (W o1))) \<and>
     (\<forall>o1. \<forall>b \<in> set (W o1). b \<in> set (B (wb_thread (wb s b)))) \<and>
     (\<forall>t. B t \<noteq> [] \<longrightarrow> can_wake (thr s t)) \<and>
     (\<exists>q. sched_inv s q)"

lemma wait_invD:
  assumes "wait_inv s W B"
  shows "waitlists s W" "lseg (\<lambda>b. wb_next (wb s b)) (waitlist (thr s t)) (B t) None" "distinct (B t)"
    "b \<in> set (B t) \<Longrightarrow> wb_thread (wb s b) = t" "b \<in> set (B t) \<Longrightarrow> \<exists>o1. b \<in> set (W o1)"
    "b \<in> set (W o1) \<Longrightarrow> b \<in> set (B (wb_thread (wb s b)))"
    "B t \<noteq> [] \<Longrightarrow> can_wake (thr s t)" "\<exists>q. sched_inv s q"
  using assms by (auto simp: wait_inv_def)

text \<open>What is left when the threads of a set have been released.\<close>

definition purge :: "'z ksys_scheme \<Rightarrow> nat set \<Rightarrow> (nat \<Rightarrow> nat list) \<Rightarrow> nat \<Rightarrow> nat list" where
  "purge s T W o1 = filter (\<lambda>b. wb_thread (wb s b) \<notin> T) (W o1)"

definition unblock :: "nat set \<Rightarrow> (nat \<Rightarrow> nat list) \<Rightarrow> nat \<Rightarrow> nat list" where
  "unblock T B t = (if t \<in> T then [] else B t)"

definition rframe :: "nat set \<Rightarrow> 'z ksys_scheme \<Rightarrow> 'z ksys_scheme \<Rightarrow> bool" where
  "rframe T s s' \<longleftrightarrow>
     (\<forall>o1. plain (obj s' o1) = plain (obj s o1)) \<and> (\<forall>b. static (wb s' b) = static (wb s b)) \<and>
     (\<forall>b. wb_thread (wb s b) \<notin> T \<longrightarrow> wb_object (wb s' b) = wb_object (wb s b)) \<and>
     current s' = current s \<and> wheel s' = wheel s \<and> ticks s' = ticks s \<and> ksys.more s' = ksys.more s \<and>
     (\<forall>t. t \<notin> T \<longrightarrow> tstat (thr s' t) = tstat (thr s t)) \<and> (\<forall>t \<in> T. woken (thr s' t))"

lemma rframe_refl [simp]: "rframe {} s s"
  by (simp add: rframe_def)

lemma rframe_trans:
  assumes "rframe T s s1" "rframe T' s1 s2"
  shows "rframe (T \<union> T') s s2"
proof -
  have th: "wb_thread (wb s1 b) = wb_thread (wb s b)" for b
    using assms(1) static_fields(1) [of "wb s1 b" "wb s b"] by (simp add: rframe_def)
  have "woken (thr s2 t)" if "t \<in> T \<union> T'" for t
    using assms that tstat_fields(1) [of "thr s2 t" "thr s1 t"] by (cases "t \<in> T'") (auto simp: rframe_def woken_def)
  with assms th show ?thesis by (auto simp: rframe_def)
qed

text \<open>\<^verbatim>\<open>cancel_wait\<close> takes the blocks of the thread, and no others, off all wait lists.\<close>

lemma cancel_wait_correct:
  assumes I: "wait_inv s W B"
  obtains s' where "cancel_wait t s = Some s'" "wait_inv s' (purge s {t} W) (unblock {t} B)"
    "thr s' = (thr s)(t := (thr s t)\<lparr>waitlist := None\<rparr>)"
    "\<forall>b. static (wb s' b) = static (wb s b)" "\<forall>o1. plain (obj s' o1) = plain (obj s o1)"
    "\<forall>b. wb_thread (wb s b) \<noteq> t \<longrightarrow> wb_object (wb s' b) = wb_object (wb s b)"
    "current s' = current s" "wheel s' = wheel s" "ticks s' = ticks s" "ksys.more s' = ksys.more s"
proof -
  obtain q where q: "sched_inv s q" using wait_invD(8) [OF I] by blast
  obtain s1 where s1: "cancel_loop (waitlist (thr s t)) s = Some s1"
    "waitlists s1 (\<lambda>o1. filter (\<lambda>b. b \<notin> set (B t)) (W o1))" "wframe s s1"
    "\<forall>x. wb_object (wb s1 x) = (if x \<in> set (B t) then None else wb_object (wb s x))"
    using cancel_loop_lists [OF wait_invD(1-3) [OF I]] wait_invD(5) [OF I] by blast
  note F = wframeD [OF s1(3)]
  define s' where "s' = upd_thread t (\<lambda>x. x\<lparr>waitlist := None\<rparr>) s1"
  have "sched_inv s1 q" by (rule sched_inv_soft [OF q _ refl]) (simp_all add: F)
  then have q': "sched_inv s' q" using sched_inv_wait(2) by (simp add: s'_def)
  have st: "static (wb s' b) = static (wb s b)" "plain (obj s' o1) = plain (obj s o1)" for b o1
    using F(10,11) by (simp_all add: s'_def)
  note sf = static_fields [OF st(1)]
  have mem: "b \<in> set (B t) \<longleftrightarrow> wb_thread (wb s b) = t" if "b \<in> set (W o1)" for b o1
    using wait_invD(4,6) [OF I] that by blast
  have "filter (\<lambda>b. b \<notin> set (B t)) (W o1) = purge s {t} W o1" for o1
    using mem by (auto simp: purge_def intro!: filter_cong)
  then have "waitlists s' (purge s {t} W)" using s1(2) by (simp add: waitlists_def s'_def)
  moreover have "lseg (\<lambda>b. wb_next (wb s' b)) (waitlist (thr s' x)) (unblock {t} B x) None \<and> distinct (unblock {t} B x)" for x
    using wait_invD(2,3) [OF I, of x] by (auto simp: unblock_def sf) (auto simp: s'_def F)
  moreover have "wb_thread (wb s' b) = x \<and> (\<exists>o1. b \<in> set (purge s {t} W o1))" if "b \<in> set (unblock {t} B x)" for b x
    using that wait_invD(4,5) [OF I, of b x] by (auto simp: unblock_def sf purge_def split: if_splits)
  moreover have "b \<in> set (unblock {t} B (wb_thread (wb s' b)))" if "b \<in> set (purge s {t} W o1)" for b o1
    using that wait_invD(6) [OF I] by (auto simp: unblock_def sf purge_def)
  moreover have "can_wake (thr s' x)" if "unblock {t} B x \<noteq> []" for x
    using that wait_invD(7) [OF I, of x] by (auto simp: unblock_def s'_def F split: if_splits)
  ultimately have "wait_inv s' (purge s {t} W) (unblock {t} B)"
    using q' unfolding wait_inv_def by blast
  moreover have "cancel_wait t s = Some s'" using s1(1) by (simp add: cancel_wait_def s'_def)
  moreover have "\<forall>b. wb_thread (wb s b) \<noteq> t \<longrightarrow> wb_object (wb s' b) = wb_object (wb s b)"
    using s1(4) wait_invD(4) [OF I] by (auto simp: s'_def)
  ultimately show thesis using that [of s'] st F by (simp add: s'_def)
qed

lemma wait_inv_sched:
  assumes I: "wait_inv s W B" and q: "sched_inv s' q'" and m: "sched.more s' = sched.more s"
    and t: "B t = []" "waitlist (thr s' t) = waitlist (thr s t)"
    and o: "\<forall>x. x \<noteq> t \<longrightarrow> core (thr s' x) = core (thr s x)"
  shows "wait_inv s' W B"
proof -
  have c: "waitlist (thr s' x) = waitlist (thr s x) \<and> (B x \<noteq> [] \<longrightarrow> can_wake (thr s' x))" for x
    using core_fields [of "thr s' x" "thr s x"] o t wait_invD(7) [OF I, of x]
    by (cases "x = t") (auto simp: can_wake_def)
  show ?thesis
    using I q c unfolding wait_inv_def waitlists_def by (auto simp: ksys_more [OF m])
qed

lemma release_thread_correct:
  assumes I: "wait_inv s W B" and t: "can_wake (thr s t)"
  obtains s' where "release_thread t s = Some s'" "wait_inv s' (purge s {t} W) (unblock {t} B)" "rframe {t} s s'"
    "\<forall>u. waitkey (thr s' u) = waitkey (thr s u)"
proof -
  obtain s2 where s2: "cancel_wait t s = Some s2" "wait_inv s2 (purge s {t} W) (unblock {t} B)"
    "thr s2 = (thr s)(t := (thr s t)\<lparr>waitlist := None\<rparr>)"
    "\<forall>b. static (wb s2 b) = static (wb s b)" "\<forall>o1. plain (obj s2 o1) = plain (obj s o1)"
    "\<forall>b. wb_thread (wb s b) \<noteq> t \<longrightarrow> wb_object (wb s2 b) = wb_object (wb s b)"
    "current s2 = current s" "wheel s2 = wheel s" "ticks s2 = ticks s" "ksys.more s2 = ksys.more s"
    by (rule cancel_wait_correct [OF I])
  obtain q where q2: "sched_inv s2 q" using wait_invD(8) [OF s2(2)] by blast
  have cw: "can_wake (thr s2 t)" using t by (simp add: s2(3) can_wake_def)
  obtain s' q' where s': "mark_thread_ready t 1 1 s2 = Ret s'" "sched_inv s' q'" "sched.more s' = sched.more s2"
    "current s' = current s2" "\<forall>x. x \<noteq> t \<longrightarrow> core (thr s' x) = core (thr s2 x)" "woken (thr s' t)"
    "waitlist (thr s' t) = waitlist (thr s2 t)" "waitkey (thr s' t) = waitkey (thr s2 t)"
    by (rule mark_thread_ready_wakes [OF q2 cw, of 1 1])
  note K = ksys_more [OF s'(3)]
  have inv: "wait_inv s' (purge s {t} W) (unblock {t} B)"
    using wait_inv_sched [OF s2(2) s'(2,3) _ s'(7,5)] by (simp add: unblock_def)
  have ts: "tstat (thr s' x) = tstat (thr s x) \<and> waitkey (thr s' x) = waitkey (thr s x)" if "x \<noteq> t" for x
    using core_tstat [of "thr s' x" "thr s2 x"] core_fields(8) [of "thr s' x" "thr s2 x"] s'(5) s2(3) that by simp
  have "rframe {t} s s'"
    using s'(4,6) ts s2(4-10) by (auto simp: rframe_def K)
  moreover have "release_thread t s = Some s'"
    using s2(1) s'(1) by (simp add: release_thread_def ret_def)
  moreover have "waitkey (thr s' u) = waitkey (thr s u)" for u
    using ts s'(8) s2(3) by (cases "u = t") simp_all
  ultimately show thesis using that inv by blast
qed


section \<open>Which threads are ready\<close>

definition sig :: "'z ksys_scheme \<Rightarrow> nat \<Rightarrow> bool" where
  "sig s b = signaled (obj s (the (wb_object (wb s b))))"

text \<open>
  The condition \<^verbatim>\<open>thread_ready_to_run\<close> computes: some \<open>WAIT_ANY\<close> object is signaled, or all
  \<open>WAIT_ALL\<close> objects are. With no \<open>WAIT_ALL\<close> object the second part holds vacuously.
\<close>

definition ready :: "'z ksys_scheme \<Rightarrow> (nat \<Rightarrow> nat list) \<Rightarrow> nat \<Rightarrow> bool" where
  "ready s B t \<longleftrightarrow>
     (\<exists>b \<in> set (B t). waittype (wb s b) = WAIT_ANY \<and> sig s b) \<or>
     (\<forall>b \<in> set (B t). waittype (wb s b) = WAIT_ALL \<longrightarrow> sig s b)"

text \<open>The wait key a thread is left with: that of the last signaled object it waits for.\<close>

definition key_of :: "'z ksys_scheme \<Rightarrow> nat list \<Rightarrow> int \<Rightarrow> int" where
  "key_of s ys k = fold (\<lambda>b k. if sig s b then wb_waitkey (wb s b) else k) ys k"

lemma upd_waitkey_twice:
  "upd_thread t (\<lambda>x. x\<lparr>waitkey := k\<rparr>) (upd_thread t (\<lambda>x. x\<lparr>waitkey := k'\<rparr>) s) = upd_thread t (\<lambda>x. x\<lparr>waitkey := k\<rparr>) s"
  by (simp add: upd_thread_def)

lemma upd_waitkey_same: "upd_thread t (\<lambda>x. x\<lparr>waitkey := waitkey (thr s t)\<rparr>) s = s"
  by (simp add: upd_thread_def)

lemma ready_loop_correct:
  assumes "lseg (\<lambda>b. wb_next (wb s b)) p ys None" "\<forall>b \<in> set ys. wb_object (wb s b) \<noteq> None"
  shows "ready_loop t p any al s = Some
    ((any \<or> (\<exists>b \<in> set ys. waittype (wb s b) = WAIT_ANY \<and> sig s b)) \<or>
     (al \<and> (\<forall>b \<in> set ys. waittype (wb s b) = WAIT_ALL \<longrightarrow> sig s b)),
     upd_thread t (\<lambda>x. x\<lparr>waitkey := key_of s ys (waitkey (thr s t))\<rparr>) s)"
  using assms
proof (induction ys arbitrary: p any al s)
  case Nil
  then show ?case by (subst ready_loop.simps) (simp add: key_of_def upd_waitkey_same)
next
  case (Cons b ys)
  obtain o1 where o1: "wb_object (wb s b) = Some o1" using Cons.prems(2) by auto
  define s1 where "s1 = (if sig s b then upd_thread t (\<lambda>x. x\<lparr>waitkey := wb_waitkey (wb s b)\<rparr>) s else s)"
  have e: "wb s1 = wb s" "obj s1 = obj s" by (simp_all add: s1_def)
  have sg: "sig s1 x = sig s x" for x by (simp add: sig_def e)
  have k: "key_of s1 ys (waitkey (thr s1 t)) = key_of s (b # ys) (waitkey (thr s t))"
  proof -
    have "key_of s1 ys k0 = key_of s ys k0" for k0 unfolding key_of_def sg e ..
    then show ?thesis by (simp add: key_of_def) (simp add: s1_def)
  qed
  have u: "upd_thread t (\<lambda>x. x\<lparr>waitkey := k\<rparr>) s1 = upd_thread t (\<lambda>x. x\<lparr>waitkey := k\<rparr>) s" for k
    by (simp add: s1_def upd_waitkey_twice)
  have IH: "ready_loop t (wb_next (wb s b)) any al s1 = Some
    ((any \<or> (\<exists>b \<in> set ys. waittype (wb s b) = WAIT_ANY \<and> sig s b)) \<or>
     (al \<and> (\<forall>b \<in> set ys. waittype (wb s b) = WAIT_ALL \<longrightarrow> sig s b)),
     upd_thread t (\<lambda>x. x\<lparr>waitkey := key_of s (b # ys) (waitkey (thr s t))\<rparr>) s)" for any al
    using Cons.IH [of s1 "wb_next (wb s b)" any al] Cons.prems by (simp add: e sg k u)
  have "ready_loop t p any al s =
      (if waittype (wb s b) = WAIT_ANY then ready_loop t (wb_next (wb s b)) (any \<or> sig s b) al s1
       else ready_loop t (wb_next (wb s b)) any (al \<and> sig s b) s1)"
    using Cons.prems(1) o1 by (subst ready_loop.simps) (simp add: s1_def sig_def Let_def)
  then show ?case unfolding IH by (cases "waittype (wb s b)") auto
qed

text \<open>Updates that leave the wait lists alone.\<close>

lemma wait_inv_upd_obj:
  assumes "wait_inv s W B" "\<And>x. waitlist_head (f x) = waitlist_head x \<and> waitlist_tail (f x) = waitlist_tail x"
  shows "wait_inv (upd_obj o1 f s) W B"
proof -
  obtain q where "sched_inv s q" using wait_invD(8) [OF assms(1)] by blast
  then have "sched_inv (upd_obj o1 f s) q" by (rule sched_inv_soft [OF _ _ refl]) (simp_all add: upd_obj_def)
  moreover have "waitlists (upd_obj o1 f s) W"
    using wait_invD(1) [OF assms(1)] assms(2) by (auto simp: waitlists_def upd_obj_def)
  ultimately show ?thesis using assms(1) by (auto simp: wait_inv_def upd_obj_def)
qed

lemma wait_inv_upd_key:
  assumes "wait_inv s W B"
  shows "wait_inv (upd_thread t (\<lambda>x. x\<lparr>waitkey := k\<rparr>) s) W B"
proof -
  obtain q where "sched_inv s q" using wait_invD(8) [OF assms(1)] by blast
  then have q: "sched_inv (upd_thread t (\<lambda>x. x\<lparr>waitkey := k\<rparr>) s) q" by (rule sched_inv_wait)
  have "waitlists (upd_thread t (\<lambda>x. x\<lparr>waitkey := k\<rparr>) s) W"
    using wait_invD(1) [OF assms(1)] by (simp add: waitlists_def)
  moreover have "lseg (\<lambda>b. wb_next (wb s b)) (waitlist (((thr s)(t := (thr s t)\<lparr>waitkey := k\<rparr>)) x)) (B x) None \<and> distinct (B x)" for x
    using wait_invD(2,3) [OF assms, of x] by (cases "x = t") simp_all
  moreover have "can_wake (((thr s)(t := (thr s t)\<lparr>waitkey := k\<rparr>)) x)" if "B x \<noteq> []" for x
    using wait_invD(7) [OF assms that] by (cases "x = t") (simp_all add: can_wake_def)
  ultimately show ?thesis
    using wait_invD(4-6) [OF assms] q unfolding wait_inv_def by auto
qed

lemma rframe_upd_key: "rframe {} s (upd_thread t (\<lambda>x. x\<lparr>waitkey := k\<rparr>) s)"
  by (simp add: rframe_def)

text \<open>One visit of a waiting thread: its readiness is computed, nothing but its wait key changes.\<close>

lemma visit:
  assumes I: "wait_inv s W B"
  shows "thread_ready_to_run t s =
    Some (ready s B t, upd_thread t (\<lambda>x. x\<lparr>waitkey := key_of s (B t) (waitkey (thr s t))\<rparr>) s)"
proof -
  have "\<forall>b \<in> set (B t). wb_object (wb s b) \<noteq> None"
    using wait_invD(5) [OF I] waitlistsD(2) [OF wait_invD(1) [OF I]] by fastforce
  then show ?thesis
    using ready_loop_correct [OF wait_invD(2) [OF I]] by (simp add: thread_ready_to_run_def ready_def)
qed

lemma ready_frame:
  assumes F: "rframe T s s'" and I: "wait_inv s W B" and u: "u \<notin> T"
  shows "ready s' (unblock T B) u = ready s B u"
proof -
  have B: "unblock T B u = B u" using u by (simp add: unblock_def)
  have "waittype (wb s' b) = waittype (wb s b) \<and> sig s' b = sig s b" if "b \<in> set (B u)" for b
  proof -
    have st: "static (wb s' b) = static (wb s b)" using F by (simp add: rframe_def)
    have "wb_object (wb s' b) = wb_object (wb s b)" using F wait_invD(4) [OF I that] u by (simp add: rframe_def)
    moreover have "signaled (obj s' x) = signaled (obj s x)" for x
      using F plain_fields(2) [of "obj s' x" "obj s x"] by (simp add: rframe_def)
    ultimately show ?thesis using static_fields(2) [OF st] by (simp add: sig_def)
  qed
  then show ?thesis by (simp add: ready_def B)
qed

text \<open>The list of waiting blocks from a given one on.\<close>

definition first :: "nat list \<Rightarrow> ptr" where
  "first ys = (case ys of [] \<Rightarrow> None | b # _ \<Rightarrow> Some b)"

lemma first_simps [simp]: "first [] = None" "first (b # ys) = Some b"
  by (simp_all add: first_def)

lemma next_waiter:
  assumes "wait_inv s W B" "W e = xs @ b # ys"
  shows "next_wait (wb s b) = first ys"
  using dll_mid(1) [OF waitlistsD(1) [OF wait_invD(1) [OF assms(1)], of e, unfolded assms(2)]]
  by (cases ys) simp_all

lemma head_waiter: "wait_inv s W B \<Longrightarrow> waitlist_head (obj s e) = first (W e)"
  using dll_head [of "waitlist_head (obj s e)"] waitlistsD(1) [OF wait_invD(1), of s W B e]
    dll_empty_iff [OF waitlistsD(1) [OF wait_invD(1), of s W B e]]
  by (cases "W e") auto

text \<open>No thread waits twice for the same object.\<close>

definition one_each :: "'z ksys_scheme \<Rightarrow> nat list \<Rightarrow> bool" where
  "one_each s ws \<longleftrightarrow> distinct (map (\<lambda>b. wb_thread (wb s b)) ws)"

lemma purge_one:
  assumes "one_each s (W e)" "W e = xs @ b # ys"
  shows "purge s {wb_thread (wb s b)} W e = xs @ ys"
proof -
  let ?P = "\<lambda>c. wb_thread (wb s c) \<noteq> wb_thread (wb s b)"
  let ?f = "\<lambda>c. wb_thread (wb s c)"
  have "distinct (map ?f (xs @ b # ys))" using assms by (simp only: one_each_def)
  then have "?f b \<notin> ?f ` set xs" "?f b \<notin> ?f ` set ys" by simp_all
  then have "\<forall>c \<in> set xs \<union> set ys. ?P c" by (metis UnE image_eqI)
  then have "filter ?P xs = xs" "filter ?P ys = ys" by simp_all
  with assms(2) show ?thesis by (simp add: purge_def)
qed

lemma purge_purge:
  assumes "\<And>b. static (wb s' b) = static (wb s b)"
  shows "purge s' T' (purge s T W) = purge s (T \<union> T') W" "unblock T' (unblock T B) = unblock (T \<union> T') B"
  using static_fields(1) [OF assms] by (auto simp: purge_def unblock_def fun_eq_iff)

lemma purge_empty [simp]: "purge s {} W = W" "unblock {} B = B"
  by (auto simp: purge_def unblock_def fun_eq_iff)

lemma waiter_can_wake:
  assumes "wait_inv s W B" "b \<in> set (W e)"
  shows "can_wake (thr s (wb_thread (wb s b)))"
  using wait_invD(6) [OF assms] wait_invD(7) [OF assms(1), of "wb_thread (wb s b)"]
  by (cases "B (wb_thread (wb s b))") auto


section \<open>Serving a wait list\<close>

text \<open>The blocks of a wait list whose threads are ready, and their threads.\<close>

definition ready_blocks :: "'z ksys_scheme \<Rightarrow> (nat \<Rightarrow> nat list) \<Rightarrow> nat list \<Rightarrow> nat list" where
  "ready_blocks s B ys = filter (\<lambda>b. ready s B (wb_thread (wb s b))) ys"

definition threads_of :: "'z ksys_scheme \<Rightarrow> nat list \<Rightarrow> nat set" where
  "threads_of s ys = (\<lambda>b. wb_thread (wb s b)) ` set ys"

lemma threads_of_simps [simp]:
  "threads_of s [] = {}" "threads_of s (b # ys) = insert (wb_thread (wb s b)) (threads_of s ys)"
  by (simp_all add: threads_of_def)

lemma rframe_static: "rframe T s s' \<Longrightarrow> static (wb s' b) = static (wb s b)"
  by (simp add: rframe_def)

lemma rframe_plain: "rframe T s s' \<Longrightarrow> plain (obj s' o1) = plain (obj s o1)"
  by (simp add: rframe_def)

lemma rframe_thread: "rframe T s s' \<Longrightarrow> wb_thread (wb s' b) = wb_thread (wb s b)"
  by (rule static_fields(1) [OF rframe_static])

lemma threads_of_frame: "rframe T s s' \<Longrightarrow> threads_of s' ys = threads_of s ys"
  by (simp add: threads_of_def rframe_thread)

lemma one_each_frame: "rframe T s s' \<Longrightarrow> one_each s' ys = one_each s ys"
  by (simp add: one_each_def rframe_thread)

lemma ready_blocks_frame:
  assumes "rframe T s s'" "wait_inv s W B" "threads_of s ys \<inter> T = {}"
  shows "ready_blocks s' (unblock T B) ys = ready_blocks s B ys"
  unfolding ready_blocks_def
proof (rule filter_cong [OF refl])
  fix b assume "b \<in> set ys"
  then have "wb_thread (wb s b) \<notin> T" using assms(3) by (auto simp: threads_of_def)
  then show "ready s' (unblock T B) (wb_thread (wb s' b)) = ready s B (wb_thread (wb s b))"
    using ready_frame [OF assms(1,2)] by (simp add: rframe_thread [OF assms(1)])
qed

text \<open>The visit of one waiting thread that is ready, and what is left to do.\<close>

lemma serve_one:
  assumes I: "wait_inv s W B" and o: "one_each s (W e)" and W: "W e = xs @ b # ys"
  obtains s' where "release_thread (wb_thread (wb s b)) s = Some s'"
    "wait_inv s' (purge s {wb_thread (wb s b)} W) (unblock {wb_thread (wb s b)} B)"
    "rframe {wb_thread (wb s b)} s s'" "purge s {wb_thread (wb s b)} W e = xs @ ys"
    "one_each s' (xs @ ys)" "ready_blocks s' (unblock {wb_thread (wb s b)} B) ys = ready_blocks s B ys"
    "\<forall>u. waitkey (thr s' u) = waitkey (thr s u)"
proof -
  have "can_wake (thr s (wb_thread (wb s b)))" using waiter_can_wake [OF I, of b e] W by simp
  then obtain s' where s': "release_thread (wb_thread (wb s b)) s = Some s'"
    "wait_inv s' (purge s {wb_thread (wb s b)} W) (unblock {wb_thread (wb s b)} B)"
    "rframe {wb_thread (wb s b)} s s'"
    "\<forall>u. waitkey (thr s' u) = waitkey (thr s u)"
    by (rule release_thread_correct [OF I])
  have "distinct (map (\<lambda>b. wb_thread (wb s b)) (xs @ b # ys))" using o W by (simp only: one_each_def)
  then have "threads_of s ys \<inter> {wb_thread (wb s b)} = {}" "one_each s (xs @ ys)"
    by (auto simp: threads_of_def one_each_def)
  then show thesis
    using that [OF s'(1-3) purge_one [of s W e, OF o W]] ready_blocks_frame [OF s'(3) I] one_each_frame [OF s'(3)] s'(4) by simp
qed

definition set_kind :: "nat \<Rightarrow> okind \<Rightarrow> 'z ksys_scheme \<Rightarrow> 'z ksys_scheme" where
  "set_kind e k s = upd_obj e (\<lambda>x. x\<lparr>okind := k\<rparr>) s"

definition set_key :: "int option \<Rightarrow> nat \<Rightarrow> 'z ksys_scheme \<Rightarrow> 'z ksys_scheme" where
  "set_key key t s = (case key of None \<Rightarrow> s | Some k \<Rightarrow> upd_thread t (\<lambda>x. x\<lparr>waitkey := k\<rparr>) s)"

lemma set_kind_simps [simp]:
  "thr (set_kind e k s) = thr s" "wb (set_kind e k s) = wb s" "okind (obj (set_kind e k s) e) = k"
  "set_kind e k (set_kind e k' s) = set_kind e k s" "set_kind e (okind (obj s e)) s = s"
  by (simp_all add: set_kind_def upd_obj_def)

lemma set_key_simps [simp]:
  "obj (set_key key t s) = obj s" "wb (set_key key t s) = wb s"
  by (simp_all add: set_key_def split: option.splits)

lemma set_key_frame: "rframe {} s (set_key key t s)" "wait_inv s W B \<Longrightarrow> wait_inv (set_key key t s) W B"
  by (auto simp: set_key_def rframe_upd_key wait_inv_upd_key split: option.splits)

lemma wait_inv_set_kind: "wait_inv s W B \<Longrightarrow> wait_inv (set_kind e k s) W B"
  unfolding set_kind_def by (erule wait_inv_upd_obj) simp

lemma wait_inv_set_signaled: "wait_inv s W B \<Longrightarrow> wait_inv (set_signaled e v s) W B"
  unfolding set_signaled_def by (erule wait_inv_upd_obj) simp

lemma rframe_upd_obj:
  assumes "rframe T a b" "\<And>x y. plain x = plain y \<Longrightarrow> plain (f x) = plain (f y)"
  shows "rframe T (upd_obj e f a) (upd_obj e f b)"
proof -
  have "plain (obj (upd_obj e f b) o1) = plain (obj (upd_obj e f a) o1)" for o1
    using rframe_plain [OF assms(1), of o1] assms(2) [OF rframe_plain [OF assms(1), of e]]
    by (cases "o1 = e") (simp_all add: upd_obj_def)
  moreover have "rframe T (a\<lparr>obj := x\<rparr>) (b\<lparr>obj := y\<rparr>)" if "\<And>o1. plain (y o1) = plain (x o1)" for x y
    using assms(1) that by (simp add: rframe_def)
  ultimately show ?thesis by (simp add: upd_obj_def)
qed

lemma plain_eq_iff:
  "plain x = plain y \<longleftrightarrow> okind x = okind y \<and> signaled x = signaled y \<and> handle_count x = handle_count y \<and>
    lock_count x = lock_count y"
  by (cases x; cases y) (simp add: plain_def)

lemma rframe_set_kind: "rframe T a b \<Longrightarrow> rframe T (set_kind e k a) (set_kind e k b)"
  unfolding set_kind_def by (erule rframe_upd_obj) (simp add: plain_eq_iff)

lemma rframe_set_signaled: "rframe T a b \<Longrightarrow> rframe T (set_signaled e v a) (set_signaled e v b)"
  unfolding set_signaled_def by (erule rframe_upd_obj) (simp add: plain_eq_iff)

lemma ready_set_kind: "ready (set_kind e k s) B t = ready s B t"
proof -
  have "sig (set_kind e k s) b = sig s b" for b by (simp add: sig_def set_kind_def upd_obj_def)
  then show ?thesis by (simp add: ready_def)
qed

lemma ready_blocks_set_kind [simp]: "ready_blocks (set_kind e k s) B ys = ready_blocks s B ys"
  by (simp add: ready_blocks_def ready_set_kind)

text \<open>
  The loops of \<^verbatim>\<open>set_event\<close>, \<^verbatim>\<open>release_sem\<close>, \<^verbatim>\<open>set_sem\<close> and \<^verbatim>\<open>release_waiters\<close> are instances of one
  pattern: every ready thread on the list is released, with \<open>upd\<close> applied to the object before
  (the count of a semaphore goes down) and a wait key set if there is one, until \<open>stop\<close> holds of
  the object, which then becomes nonsignaled.
\<close>

fun serve :: "(okind \<Rightarrow> okind) \<Rightarrow> (okind \<Rightarrow> bool) \<Rightarrow> okind \<Rightarrow> nat list \<Rightarrow> nat list \<times> okind \<times> bool" where
  "serve upd stop k [] = ([], k, False)"
| "serve upd stop k (b # bs) =
     (if stop (upd k) then ([b], upd k, True)
      else case serve upd stop (upd k) bs of (cs, k', st) \<Rightarrow> (b # cs, k', st))"

definition served_state :: "nat \<Rightarrow> okind \<Rightarrow> bool \<Rightarrow> 'z ksys_scheme \<Rightarrow> 'z ksys_scheme" where
  "served_state e k st s = (if st then set_signaled e False (set_kind e k s) else set_kind e k s)"

lemma rframe_served_state: "rframe T a b \<Longrightarrow> rframe T (served_state e k st a) (served_state e k st b)"
  by (simp add: served_state_def rframe_set_kind rframe_set_signaled)

lemma served_state_set_kind [simp]: "served_state e k st (set_kind e k' s) = served_state e k st s"
  by (simp add: served_state_def)

locale serve_loop =
  fixes e :: nat and loop :: "ptr \<Rightarrow> 'z ksys_scheme \<Rightarrow> 'z ksys_scheme option"
    and upd :: "okind \<Rightarrow> okind" and stop :: "okind \<Rightarrow> bool" and key :: "int option"
  assumes loop_None: "loop None s = Some s"
    and loop_Some: "loop (Some b) s =
      do {
        (r, s1) \<leftarrow> thread_ready_to_run (wb_thread (wb s b)) s;
        if r then
          do {
            s2 \<leftarrow> release_thread (wb_thread (wb s b))
              (set_key key (wb_thread (wb s b)) (set_kind e (upd (okind (obj s1 e))) s1));
            if stop (okind (obj s2 e)) then Some (set_signaled e False s2)
            else loop (next_wait (wb s b)) s2
          }
        else loop (next_wait (wb s b)) s1
      }"
begin

lemma loop_correct:
  assumes "wait_inv s W B" "one_each s (W e)" "W e = xs @ ys"
    "serve upd stop (okind (obj s e)) (ready_blocks s B ys) = (bs, k', st)"
  shows "\<exists>s'. loop (first ys) s = Some s' \<and>
    wait_inv s' (purge s (threads_of s bs) W) (unblock (threads_of s bs) B) \<and>
    rframe (threads_of s bs) (served_state e k' st s) s' \<and>
    (\<forall>u. u \<notin> threads_of s ys \<longrightarrow> waitkey (thr s' u) = waitkey (thr s u)) \<and>
    (\<forall>k u. key = Some k \<longrightarrow> u \<in> threads_of s bs \<longrightarrow> waitkey (thr s' u) = k)"
  using assms
proof (induction ys arbitrary: s W B xs bs)
  case Nil
  then have "bs = []" "k' = okind (obj s e)" "\<not> st" by (simp_all add: ready_blocks_def)
  then show ?case using Nil(1) by (simp add: loop_None served_state_def)
next
  case (Cons b ys)
  let ?t = "wb_thread (wb s b)" and ?k = "okind (obj s e)"
  define s1 where "s1 = upd_thread ?t (\<lambda>x. x\<lparr>waitkey := key_of s (B ?t) (waitkey (thr s ?t))\<rparr>) s"
  have v: "thread_ready_to_run ?t s = Some (ready s B ?t, s1)" using visit [OF Cons.prems(1)] by (simp add: s1_def)
  have I1: "wait_inv s1 W B" using wait_inv_upd_key [OF Cons.prems(1)] by (simp add: s1_def)
  have F1: "rframe {} s s1" using rframe_upd_key by (simp add: s1_def)
  have nx: "next_wait (wb s b) = first ys" using next_waiter [OF Cons.prems(1,3)] .
  have e1: "wb s1 = wb s" "obj s1 = obj s" "u \<noteq> ?t \<Longrightarrow> thr s1 u = thr s u" for u by (simp_all add: s1_def)
  have rb: "ready_blocks s1 B zs = ready_blocks s B zs" for zs
    using ready_blocks_frame [OF F1 Cons.prems(1)] by simp
  have o1: "one_each s1 (W e)" using Cons.prems(2) one_each_frame [OF F1] by simp
  have dt: "?t \<notin> threads_of s ys" using Cons.prems(2,3) by (auto simp: one_each_def threads_of_def)
  show ?case
  proof (cases "ready s B ?t")
    case True
    define s0 where "s0 = set_key key ?t (set_kind e (upd ?k) s1)"
    have I0: "wait_inv s0 W B" using set_key_frame(2) [OF wait_inv_set_kind [OF I1]] by (simp add: s0_def)
    have F0: "rframe {} (set_kind e (upd ?k) s) s0"
      using rframe_trans [OF rframe_set_kind [OF F1] set_key_frame(1)] by (simp add: s0_def)
    have e0: "wb s0 = wb s" "okind (obj s0 e) = upd ?k" by (simp_all add: s0_def e1)
    have rb0: "ready_blocks s0 B zs = ready_blocks s B zs" for zs
      using ready_blocks_frame [OF F0 wait_inv_set_kind [OF Cons.prems(1)]] by simp
    have o0: "one_each s0 (W e)" using Cons.prems(2) by (simp add: one_each_def e0)
    have pg: "purge s0 T W = purge s T W" "threads_of s0 zs = threads_of s zs" for T zs
      by (simp_all add: purge_def fun_eq_iff e0 threads_of_def)
    have k0: "key = Some k \<Longrightarrow> waitkey (thr s0 ?t) = k" "u \<noteq> ?t \<Longrightarrow> waitkey (thr s0 u) = waitkey (thr s u)" for k u
      using e1(3) by (simp_all add: s0_def set_key_def split: option.splits)
    obtain s2 where s2: "release_thread (wb_thread (wb s0 b)) s0 = Some s2"
      "wait_inv s2 (purge s0 {wb_thread (wb s0 b)} W) (unblock {wb_thread (wb s0 b)} B)"
      "rframe {wb_thread (wb s0 b)} s0 s2" "purge s0 {wb_thread (wb s0 b)} W e = xs @ ys"
      "one_each s2 (xs @ ys)" "ready_blocks s2 (unblock {wb_thread (wb s0 b)} B) ys = ready_blocks s0 B ys"
      "\<forall>u. waitkey (thr s2 u) = waitkey (thr s0 u)"
      by (rule serve_one [OF I0 o0 Cons.prems(3)])
    note s2 = s2 [unfolded e0 pg rb0]
    have F2: "rframe {?t} (set_kind e (upd ?k) s) s2" using rframe_trans [OF F0 s2(3)] by simp
    have k2: "okind (obj s2 e) = upd ?k" using plain_fields(1) [OF rframe_plain [OF F2], of e] by simp
    have th2: "threads_of s2 zs = threads_of s zs" for zs using threads_of_frame [OF F2] by (simp add: threads_of_def)
    have lp: "loop (first (b # ys)) s =
        (if stop (upd ?k) then Some (set_signaled e False s2) else loop (first ys) s2)"
      using v s2(1) True nx k2 by (simp add: loop_Some s0_def e1)
    have sv: "serve upd stop ?k (b # ready_blocks s B ys) = (bs, k', st)"
      using Cons.prems(4) True by (simp add: ready_blocks_def)
    show ?thesis
    proof (cases "stop (upd ?k)")
      case st: True
      then have bs: "bs = [b]" "k' = upd ?k" "st" using sv by simp_all
      have "rframe {?t} (served_state e k' st s) (set_signaled e False s2)"
        using rframe_set_signaled [OF F2] bs by (simp add: served_state_def)
      moreover have "wait_inv (set_signaled e False s2) (purge s {?t} W) (unblock {?t} B)"
        using wait_inv_set_signaled [OF s2(2)] .
      ultimately show ?thesis
        using lp st bs k0 s2(7) by (auto simp: set_signaled_def upd_obj_def)
    next
      case go: False
      then obtain cs where cs: "serve upd stop (upd ?k) (ready_blocks s B ys) = (cs, k', st)" "bs = b # cs"
        using sv by (auto split: prod.splits)
      obtain s' where s': "loop (first ys) s2 = Some s'"
        "wait_inv s' (purge s2 (threads_of s cs) (purge s {?t} W)) (unblock (threads_of s cs) (unblock {?t} B))"
        "rframe (threads_of s cs) (served_state e k' st s2) s'"
        "\<forall>u. u \<notin> threads_of s ys \<longrightarrow> waitkey (thr s' u) = waitkey (thr s2 u)"
        "\<forall>k u. key = Some k \<longrightarrow> u \<in> threads_of s cs \<longrightarrow> waitkey (thr s' u) = k"
        using Cons.IH [OF s2(2) _ s2(4), of cs] s2(4-6) k2 cs th2 by auto
      have F: "rframe ({?t} \<union> threads_of s cs) (served_state e k' st s) s'"
        using rframe_trans [OF rframe_served_state [OF F2] s'(3)] by simp
      have wk: "waitkey (thr s' ?t) = waitkey (thr s0 ?t)" using s'(4) s2(7) dt by simp
      have "\<And>u. wb_thread (wb s2 u) = wb_thread (wb s u)" using rframe_thread [OF F2] by simp
      then have pp: "purge s2 (threads_of s cs) (purge s {?t} W) = purge s ({?t} \<union> threads_of s cs) W"
        by (auto simp: purge_def fun_eq_iff)
      have "unblock (threads_of s cs) (unblock {?t} B) = unblock ({?t} \<union> threads_of s cs) B"
        by (auto simp: unblock_def fun_eq_iff)
      then show ?thesis
        using lp go s' F pp cs(2) wk k0 s2(7) by auto
    qed
  next
    case False
    have W: "W e = (xs @ [b]) @ ys" using Cons.prems(3) by simp
    have rbs: "ready_blocks s B (b # ys) = ready_blocks s B ys" using False by (simp add: ready_blocks_def)
    have ps: "purge s1 T W = purge s T W" "threads_of s1 zs = threads_of s zs" for T zs
      by (simp_all add: purge_def fun_eq_iff e1 threads_of_def)
    obtain s' where s': "loop (first ys) s1 = Some s'"
      "wait_inv s' (purge s (threads_of s bs) W) (unblock (threads_of s bs) B)"
      "rframe (threads_of s bs) (served_state e k' st s1) s'"
      "\<forall>u. u \<notin> threads_of s ys \<longrightarrow> waitkey (thr s' u) = waitkey (thr s1 u)"
      "\<forall>k u. key = Some k \<longrightarrow> u \<in> threads_of s bs \<longrightarrow> waitkey (thr s' u) = k"
      using Cons.IH [OF I1 o1 W, of bs] Cons.prems(4) e1 rb rbs ps by auto
    have "loop (first (b # ys)) s = Some s'"
      using v s'(1) False nx by (simp add: loop_Some)
    then show ?thesis
      using s' rframe_trans [OF rframe_served_state [OF F1] s'(3)] e1(3) by auto
  qed
qed

end


end
