(* ===== verification/Signal.thy ===== *)
theory Signal
  imports Waiting
begin

text \<open>
  The operations that signal objects (events, semaphores, mutexes, timers, threads, closing an
  object) as instances of the loop contract of \<open>Waiting\<close>, the interrupted wait, and the
  properties of the object manager.
\<close>

section \<open>The loops as instances\<close>

definition kmanual :: "okind \<Rightarrow> bool" where
  "kmanual k = (case k of OEvent m \<Rightarrow> m | _ \<Rightarrow> False)"

definition kcount :: "okind \<Rightarrow> u32" where
  "kcount k = (case k of OSem n \<Rightarrow> n | _ \<Rightarrow> 0)"

lemma manual_reset_kind: "manual_reset x = kmanual (okind x)"
  by (simp add: manual_reset_def kmanual_def)

lemma sem_count_kind: "sem_count x = kcount (okind x)"
  by (simp add: sem_count_def kcount_def)

lemma set_count_kind: "set_count e n = set_kind e (OSem n)"
  by (simp add: fun_eq_iff set_count_def set_kind_def)

lemma set_signaled_twice [simp]: "set_signaled e v (set_signaled e v' s) = set_signaled e v s"
  by (simp add: set_signaled_def upd_obj_def)

interpretation set_ev: serve_loop e "set_event_loop e" "\<lambda>k. k" "\<lambda>k. \<not> kmanual k" None for e
  by unfold_locales (subst set_event_loop.simps, simp add: manual_reset_kind set_key_def cong: if_cong)+

interpretation sem: serve_loop e "sem_loop e" "\<lambda>k. OSem (kcount k - 1)" "\<lambda>k. kcount k = 0" None for e
  by unfold_locales (subst sem_loop.simps, simp add: sem_count_kind set_count_kind set_key_def cong: if_cong)+

interpretation waiters: serve_loop e "release_waiters_loop key" "\<lambda>k. k" "\<lambda>_. False" "Some key" for e key
  by unfold_locales (subst release_waiters_loop.simps, simp add: set_key_def if_distrib [of "\<lambda>x. Option.bind x _"] cong: if_cong)+

lemma serve_event:
  "serve (\<lambda>k. k) (\<lambda>k. \<not> kmanual k) (OEvent m) rs =
    (if m then rs else take 1 rs, OEvent m, \<not> m \<and> rs \<noteq> [])"
  by (induction rs) (auto simp: kmanual_def)

lemma serve_all: "serve (\<lambda>k. k) (\<lambda>_. False) k rs = (rs, k, False)"
  by (induction rs) auto

lemma serve_sem:
  "0 < n \<Longrightarrow> serve (\<lambda>k. OSem (kcount k - 1)) (\<lambda>k. kcount k = 0) (OSem n) rs =
    (take (unat n) rs, OSem (n - of_nat (length (take (unat n) rs))), unat n \<le> length rs)"
proof (induction rs arbitrary: n)
  case Nil
  then show ?case by (simp add: word_less_nat_alt)
next
  case (Cons b rs)
  have n: "unat n = Suc (unat (n - 1))" using Cons.prems unat_minus_one [of n] by (simp add: word_less_nat_alt unat_gt_0)
  show ?case
  proof (cases "n - 1 = 0")
    case True
    then show ?thesis using n by (simp add: kcount_def)
  next
    case False
    then have "0 < n - 1" by (simp add: word_greater_zero_iff)
    with Cons.IH [of "n - 1"] False n show ?thesis by (simp add: kcount_def algebra_simps)
  qed
qed

section \<open>Signalling\<close>

lemma set_event_spec:
  assumes I: "wait_inv s W B" and o: "one_each s (W e)" and k: "okind (obj s e) = OEvent m"
    and rs: "rs = ready_blocks (set_signaled e True s) B (W e)" and bs: "bs = (if m then rs else take 1 rs)"
  shows "\<exists>s'. set_event e s = Some s' \<and> wait_inv s' (purge s (threads_of s bs) W) (unblock (threads_of s bs) B) \<and>
    rframe (threads_of s bs) (set_signaled e (m \<or> rs = []) s) s'"
proof -
  let ?s = "set_signaled e True s"
  have I1: "wait_inv ?s W B" using wait_inv_set_signaled [OF I] .
  have e: "wb ?s = wb s" "okind (obj ?s e) = OEvent m" "waitlist_head (obj ?s e) = first (W e)"
    using k head_waiter [OF I] by (simp_all add: set_signaled_def upd_obj_def)
  have "one_each ?s (W e)" using o by (simp add: one_each_def e)
  then obtain s' where s': "set_event_loop e (first (W e)) ?s = Some s'"
    "wait_inv s' (purge ?s (threads_of ?s bs) W) (unblock (threads_of ?s bs) B)"
    "rframe (threads_of ?s bs) (served_state e (OEvent m) (\<not> m \<and> rs \<noteq> []) ?s) s'"
    using set_ev.loop_correct [OF I1 _ append_Nil [symmetric], of e] by (fastforce simp: e serve_event simp flip: rs bs)
  have "served_state e (OEvent m) (\<not> m \<and> rs \<noteq> []) ?s = set_signaled e (m \<or> rs = []) s"
    using set_kind_simps(5) [of e ?s, unfolded e] by (auto simp: served_state_def)
  moreover have "threads_of ?s bs = threads_of s bs" "purge ?s T W = purge s T W" for T
    by (simp_all add: threads_of_def purge_def fun_eq_iff e)
  ultimately show ?thesis using s' head_waiter [OF I] by (simp add: set_event_def)
qed


lemma threads_purge_cong:
  "wb s' = wb s \<Longrightarrow> threads_of s' bs = threads_of s bs" "wb s' = wb s \<Longrightarrow> purge s' T W = purge s T W"
  by (simp_all add: threads_of_def purge_def fun_eq_iff)

lemma sem_release_all_spec:
  assumes I: "wait_inv s W B" and o: "one_each s (W e)" and k: "okind (obj s e) = OSem n" and n: "0 < n"
    and bs: "bs = take (unat n) (ready_blocks (set_signaled e True s) B (W e))" and n': "n' = n - of_nat (length bs)"
  shows "\<exists>s'. sem_release_all e s = Some s' \<and> wait_inv s' (purge s (threads_of s bs) W) (unblock (threads_of s bs) B) \<and>
    rframe (threads_of s bs) (set_signaled e (n' > 0) (set_count e n' s)) s' \<and> unat n' + length bs = unat n"
proof -
  let ?s = "set_signaled e True s" and ?rs = "ready_blocks (set_signaled e True s) B (W e)"
  have I1: "wait_inv ?s W B" using wait_inv_set_signaled [OF I] .
  have e: "wb ?s = wb s" "okind (obj ?s e) = OSem n" "waitlist_head (obj ?s e) = first (W e)"
    using k head_waiter [OF I] by (simp_all add: set_signaled_def upd_obj_def)
  have len: "length bs \<le> unat n" by (simp add: bs)
  have "length bs < 2 ^ 32" using le_less_trans [OF len unat_u32_less] by simp
  then have ub: "unat (of_nat (length bs) :: u32) = length bs" by (simp add: unsigned_of_nat take_bit_nat_eq_self)
  then have "of_nat (length bs) \<le> n" using len by (simp add: word_le_nat_alt)
  with ub have cnt: "unat n' + length bs = unat n" by (simp add: n' unat_sub len)
  have st: "unat n \<le> length ?rs \<longleftrightarrow> n' = 0" using cnt n by (auto simp: bs word_less_nat_alt unat_eq_zero)
  have "one_each ?s (W e)" using o by (simp add: one_each_def e)
  then obtain s' where s': "sem_loop e (first (W e)) ?s = Some s'"
    "wait_inv s' (purge ?s (threads_of ?s bs) W) (unblock (threads_of ?s bs) B)"
    "rframe (threads_of ?s bs) (served_state e (OSem n') (n' = 0) ?s) s'"
    using sem.loop_correct [OF I1 _ append_Nil [symmetric], of e] by (fastforce simp: e serve_sem [OF n] st simp flip: bs n')
  have "served_state e (OSem n') (n' = 0) ?s = set_signaled e (n' > 0) (set_count e n' s)"
    by (auto simp: served_state_def set_count_kind word_gt_0 set_kind_def set_signaled_def upd_obj_def fun_eq_iff)
  with s' show ?thesis
    using n k cnt threads_purge_cong [OF e(1)] head_waiter [OF I]
    by (simp add: sem_release_all_def sem_count_kind kcount_def)
qed

lemma release_waiters_spec:
  assumes I: "wait_inv s W B" and o: "one_each s (W e)" and bs: "bs = ready_blocks s B (W e)"
  shows "\<exists>s'. release_waiters e key s = Some s' \<and> wait_inv s' (purge s (threads_of s bs) W) (unblock (threads_of s bs) B) \<and>
    rframe (threads_of s bs) s s' \<and> (\<forall>t \<in> threads_of s bs. waitkey (thr s' t) = key)"
  using waiters.loop_correct [OF I o append_Nil [symmetric], of bs "okind (obj s e)" False] head_waiter [OF I]
  by (simp add: serve_all bs release_waiters_def served_state_def) blast

lemma first_ready_spec:
  assumes "wait_inv s W B" "W e = xs @ ys"
  shows "\<exists>s'. first_ready (first ys) s = Some (first (ready_blocks s B ys), s') \<and> wait_inv s' W B \<and> rframe {} s s' \<and>
    wb s' = wb s \<and> obj s' = obj s"
  using assms
proof (induction ys arbitrary: s xs)
  case Nil
  then show ?case by (subst first_ready.simps) (simp add: ready_blocks_def)
next
  case (Cons b ys)
  let ?t = "wb_thread (wb s b)"
  define s1 where "s1 = upd_thread ?t (\<lambda>x. x\<lparr>waitkey := key_of s (B ?t) (waitkey (thr s ?t))\<rparr>) s"
  have v: "thread_ready_to_run ?t s = Some (ready s B ?t, s1)" using visit [OF Cons.prems(1)] by (simp add: s1_def)
  have I1: "wait_inv s1 W B" using wait_inv_upd_key [OF Cons.prems(1)] by (simp add: s1_def)
  have F1: "rframe {} s s1" using rframe_upd_key by (simp add: s1_def)
  have e1: "wb s1 = wb s" "obj s1 = obj s" by (simp_all add: s1_def)
  have nx: "next_wait (wb s b) = first ys" using next_waiter [OF Cons.prems] .
  have rb: "ready_blocks s1 B zs = ready_blocks s B zs" for zs
    using ready_blocks_frame [OF F1 Cons.prems(1)] by simp
  show ?case
  proof (cases "ready s B ?t")
    case True
    then have "first_ready (first (b # ys)) s = Some (first (ready_blocks s B (b # ys)), s1)"
      using v by (subst first_ready.simps) (simp add: ready_blocks_def)
    with I1 F1 e1 show ?thesis by auto
  next
    case False
    have "W e = (xs @ [b]) @ ys" using Cons.prems(2) by simp
    from Cons.IH [OF I1 this] obtain s' where s': "first_ready (first ys) s1 = Some (first (ready_blocks s B ys), s')"
      "wait_inv s' W B" "rframe {} s1 s'" "wb s' = wb s" "obj s' = obj s"
      by (auto simp: rb e1)
    have "first_ready (first (b # ys)) s = Some (first (ready_blocks s B (b # ys)), s')"
      using v s'(1) False nx e1 by (subst first_ready.simps) (simp add: ready_blocks_def)
    with s' rframe_trans [OF F1 s'(3)] show ?thesis by auto
  qed
qed

text \<open>The hand-over of a mutex or file map: \<open>f\<close> is what the object becomes while the list is searched,
  \<open>g t\<close> what it becomes for the thread \<open>t\<close> that is served.\<close>

lemma hand_over_spec:
  assumes I: "wait_inv s W B" and rs: "rs = ready_blocks s B (W e)"
    and g: "\<And>t x. waitlist_head (g t x) = waitlist_head x \<and> waitlist_tail (g t x) = waitlist_tail x"
      "\<And>t x y. plain x = plain y \<Longrightarrow> plain (g t x) = plain (g t y)"
  shows "\<exists>p s1. first_ready (waitlist_head (obj s e)) s = Some (p, s1) \<and>
    (case rs of
       [] \<Rightarrow> p = None \<and> wait_inv s1 W B \<and> rframe {} s s1
     | b # _ \<Rightarrow> p = Some b \<and> wb s1 = wb s \<and>
         (\<exists>s2. release_thread (wb_thread (wb s b)) (upd_obj e (g (wb_thread (wb s b))) s1) = Some s2 \<and>
           wait_inv s2 (purge s {wb_thread (wb s b)} W) (unblock {wb_thread (wb s b)} B) \<and>
           rframe {wb_thread (wb s b)} (upd_obj e (g (wb_thread (wb s b))) s) s2))"
proof -
  obtain s1 where s1: "first_ready (first (W e)) s = Some (first rs, s1)" "wait_inv s1 W B" "rframe {} s s1"
    "wb s1 = wb s" "obj s1 = obj s"
    using first_ready_spec [OF I append_Nil [symmetric]] rs by blast
  show ?thesis
  proof (cases rs)
    case Nil
    with s1 head_waiter [OF I] show ?thesis by auto
  next
    case (Cons b bs)
    let ?t = "wb_thread (wb s b)"
    have "b \<in> set (W e)" using Cons rs by (metis filter_is_subset list.set_intros(1) ready_blocks_def subsetD)
    then have cw: "can_wake (thr (upd_obj e (g ?t) s1) ?t)"
      using waiter_can_wake [OF s1(2)] s1(4) by (simp add: upd_obj_def)
    have I2: "wait_inv (upd_obj e (g ?t) s1) W B" using g(1) by (intro wait_inv_upd_obj [OF s1(2)]) blast
    obtain s2 where s2: "release_thread ?t (upd_obj e (g ?t) s1) = Some s2"
      "wait_inv s2 (purge (upd_obj e (g ?t) s1) {?t} W) (unblock {?t} B)" "rframe {?t} (upd_obj e (g ?t) s1) s2"
      by (rule release_thread_correct [OF I2 cw])
    have "rframe {} (upd_obj e (g ?t) s) (upd_obj e (g ?t) s1)" using g(2) by (intro rframe_upd_obj [OF s1(3)]) blast
    from rframe_trans [OF this s2(3)] have F: "rframe {?t} (upd_obj e (g ?t) s) s2" by simp
    have "purge (upd_obj e (g ?t) s1) {?t} W = purge s {?t} W"
      using s1(4) by (intro threads_purge_cong) (simp add: upd_obj_def)
    with s1 s2 F Cons head_waiter [OF I] show ?thesis by auto
  qed
qed

lemma close_loop_spec:
  assumes "wait_inv s W B" "one_each s (W e)"
  shows "\<exists>s'. close_loop e s = Some s' \<and> wait_inv s' (purge s (threads_of s (W e)) W) (unblock (threads_of s (W e)) B) \<and>
    rframe (threads_of s (W e)) s s' \<and> (\<forall>t \<in> threads_of s (W e). waitkey (thr s' t) = - EINTR)  \<and>
    (\<forall>t. t \<notin> threads_of s (W e) \<longrightarrow> waitkey (thr s' t) = waitkey (thr s t))"
  using assms
proof (induction "W e" arbitrary: s W B)
  case Nil
  then show ?case using head_waiter [OF Nil(2), of e] by (subst close_loop.simps) (simp flip: Nil(1))
next
  case (Cons b ys)
  let ?t = "wb_thread (wb s b)"
  define s1 where "s1 = upd_thread ?t (\<lambda>x. x\<lparr>waitkey := - EINTR\<rparr>) s"
  have I1: "wait_inv s1 W B" using wait_inv_upd_key [OF Cons.prems(1)] by (simp add: s1_def)
  have e1: "wb s1 = wb s" by (simp add: s1_def)
  have F1: "rframe {} s s1" using rframe_upd_key by (simp add: s1_def)
  have o1: "one_each s1 (W e)" using Cons.prems(2) by (simp add: one_each_def e1)
  have W: "W e = [] @ b # ys" using Cons.hyps(2) by simp
  obtain s2 where s2: "release_thread (wb_thread (wb s1 b)) s1 = Some s2"
    "wait_inv s2 (purge s1 {wb_thread (wb s1 b)} W) (unblock {wb_thread (wb s1 b)} B)"
    "rframe {wb_thread (wb s1 b)} s1 s2" "purge s1 {wb_thread (wb s1 b)} W e = [] @ ys"
    "one_each s2 ([] @ ys)" "ready_blocks s2 (unblock {wb_thread (wb s1 b)} B) ys = ready_blocks s1 B ys"
    "\<forall>u. waitkey (thr s2 u) = waitkey (thr s1 u)"
    by (rule serve_one [OF I1 o1 W])
  note s2 = s2 [unfolded e1 threads_purge_cong(2) [OF e1] append_Nil]
  have F2: "rframe {?t} s s2" using rframe_trans [OF F1 s2(3)] by simp
  have th: "threads_of s2 zs = threads_of s zs" for zs by (rule threads_of_frame [OF F2])
  obtain s' where s': "close_loop e s2 = Some s'"
    "wait_inv s' (purge s2 (threads_of s ys) (purge s {?t} W)) (unblock (threads_of s ys) (unblock {?t} B))"
    "rframe (threads_of s ys) s2 s'" "\<forall>t \<in> threads_of s ys. waitkey (thr s' t) = - EINTR"
    "\<forall>t. t \<notin> threads_of s ys \<longrightarrow> waitkey (thr s' t) = waitkey (thr s2 t)"
    using Cons.hyps(1) [OF s2(4) [symmetric] s2(2)] s2(4,5) th by auto
  have "close_loop e s = Some s'"
    using s2(1) s'(1) head_waiter [OF Cons.prems(1), of e] W by (subst close_loop.simps) (simp add: s1_def)
  moreover have "waitkey (thr s' u) = - EINTR" if "u \<in> threads_of s (W e)" for u
    using that s'(4,5) s2(7) W by (cases "u \<in> threads_of s ys") (auto simp: s1_def)
  moreover have "waitkey (thr s' u) = waitkey (thr s u)" if "u \<notin> threads_of s (W e)" for u
    using that s'(5) s2(7) W by (auto simp: s1_def)
  ultimately show ?case
    using s'(2) rframe_trans [OF F2 s'(3)] purge_purge [of s2 s, OF rframe_static [OF F2]] W by auto
qed


section \<open>Blocking\<close>

lemma lseg_snoc:
  assumes "lseg n p xs None" "distinct xs" "xs \<noteq> []" "b \<notin> set xs"
  shows "lseg (n(last xs := Some b, b := None)) p (xs @ [b]) None"
  using assms by (cases xs rule: rev_cases) auto

lemma waitlists_insert:
  assumes L: "waitlists s W" and b: "\<And>o2. b \<notin> set (W o2)" "wb_object (wb s b) = Some o1"
  shows "waitlists (insert_in_waitlist o1 b s) (W(o1 := W o1 @ [b]))"
proof -
  let ?n = "\<lambda>b. next_wait (wb s b)" and ?p = "\<lambda>b. prev_wait (wb s b)" and ?s = "insert_in_waitlist o1 b s"
  let ?h = "waitlist_head (obj s o1)" and ?t = "waitlist_tail (obj s o1)"
  have D: "dll ?h ?t ?n ?p (W o1)" using waitlistsD(1) [OF L] .
  have tl: "a \<in> set (W o1)" if "?t = Some a" for a
    using dll_empty_iff [OF D] dll_last [of ?h ?t ?n ?p "butlast (W o1)" "last (W o1)"] D that
    by (cases "W o1" rule: rev_cases) auto
  have nx: "(\<lambda>x. next_wait (wb ?s x)) = (case ?t of None \<Rightarrow> ?n | Some a \<Rightarrow> ?n(a := Some b))(b := None)"
    and px: "(\<lambda>x. prev_wait (wb ?s x)) = ?p(b := ?t)"
    using tl b(1) [of o1] by (auto simp: insert_in_waitlist_def upd_wb_def upd_obj_def upd_wb_opt_def Let_def fun_eq_iff split: option.splits)
  have ho: "waitlist_head (obj ?s o2) = (if o2 = o1 then if ?h = None then Some b else ?h else waitlist_head (obj s o2))"
    "waitlist_tail (obj ?s o2) = (if o2 = o1 then Some b else waitlist_tail (obj s o2))"
    "wb_object (wb ?s x) = wb_object (wb s x)" for o2 x
    by (auto simp: insert_in_waitlist_def upd_wb_def upd_obj_def upd_wb_opt_def Let_def split: option.splits)
  have "dll (waitlist_head (obj ?s o2)) (waitlist_tail (obj ?s o2)) (\<lambda>x. next_wait (wb ?s x)) (\<lambda>x. prev_wait (wb ?s x))
      ((W(o1 := W o1 @ [b])) o2)" for o2
  proof (cases "o2 = o1")
    case True
    then show ?thesis using dll_insert_tail [OF D b(1)] unfolding nx px ho by simp
  next
    case False
    have "x \<noteq> b \<and> ?t \<noteq> Some x" if "x \<in> set (W o2)" for x using that b(1) [of o2] tl waitlistsD(3) [OF L] False by blast
    then show ?thesis
      using waitlistsD(1) [OF L, of o2] False unfolding nx px ho
      by (subst dll_cong [where n' = ?n and p' = ?p]) (auto split: option.splits)
  qed
  moreover have "wb_object (wb ?s x) = Some o2" if "x \<in> set ((W(o1 := W o1 @ [b])) o2)" for x o2
    using that waitlistsD(2) [OF L] b(2) by (auto simp: ho split: if_splits)
  ultimately show ?thesis by (simp add: waitlists_def)
qed

lemma insert_in_waitlist_frame [simp]:
  "thr (insert_in_waitlist o1 b s) = thr s" "current (insert_in_waitlist o1 b s) = current s"
  "wb_thread (wb (insert_in_waitlist o1 b s) x) = wb_thread (wb s x)"
  "wb_next (wb (insert_in_waitlist o1 b s) x) = wb_next (wb s x)"
  "ready_head (insert_in_waitlist o1 b s) = ready_head s" "ready_tail (insert_in_waitlist o1 b s) = ready_tail s"
  "summary (insert_in_waitlist o1 b s) = summary s" "plain (obj (insert_in_waitlist o1 b s) o2) = plain (obj s o2)"
  by (auto simp: insert_in_waitlist_def upd_wb_def upd_obj_def upd_wb_opt_def Let_def plain_def split: option.splits)

lemma add_waitblock_correct:
  assumes I: "wait_inv s W B" and b: "\<And>o2. b \<notin> set (W o2)" "\<And>x. b \<notin> set (B x)"
    and prev: "prev = (if B t = [] then None else Some (last (B t)))" and cw: "can_wake (thr s t)"
  shows "wait_inv (add_waitblock t prev b o1 ty key s) (W(o1 := W o1 @ [b])) (B(t := B t @ [b]))"
proof -
  define s1 where "s1 = (case prev of None \<Rightarrow> upd_thread t (\<lambda>x. x\<lparr>waitlist := Some b\<rparr>) s
                | Some p \<Rightarrow> upd_wb p (\<lambda>w. w\<lparr>wb_next := Some b\<rparr>) s)"
  define s2 where "s2 = upd_wb b (\<lambda>w. w\<lparr>wb_thread := t, wb_object := Some o1, waittype := ty, wb_waitkey := key, wb_next := None\<rparr>) s1"
  let ?s = "insert_in_waitlist o1 b s2"
  have lb: "B t \<noteq> [] \<Longrightarrow> last (B t) \<in> set (B t)" by simp
  have f: "wb_thread (wb s2 x) = (if x = b then t else wb_thread (wb s x))"
    "wb_object (wb s2 x) = (if x = b then Some o1 else wb_object (wb s x))"
    "next_wait (wb s2 x) = next_wait (wb s x)" "prev_wait (wb s2 x) = prev_wait (wb s x)" "obj s2 = obj s"
    "waitlist (thr s2 x) = (if x = t \<and> B t = [] then Some b else waitlist (thr s x))"
    "can_wake (thr s2 x) = can_wake (thr s x)" for x
    by (auto simp: s2_def s1_def prev upd_wb_def can_wake_def)
  have nx: "(\<lambda>x. wb_next (wb s2 x)) = (if B t = [] then (\<lambda>x. wb_next (wb s x)) else (\<lambda>x. wb_next (wb s x))(last (B t) := Some b))(b := None)"
    by (auto simp: s2_def s1_def prev upd_wb_def fun_eq_iff)
  obtain q where q: "sched_inv s q" using wait_invD(8) [OF I] by blast
  have "sched_inv ?s q"
    by (rule sched_inv_soft [OF q _ refl]) (auto simp: s2_def s1_def upd_wb_def split: option.splits)
  moreover have "waitlists s2 W"
    using wait_invD(1) [OF I] b(1) by (auto simp: waitlists_def f)
  then have "waitlists ?s (W(o1 := W o1 @ [b]))" by (rule waitlists_insert) (use b(1) in \<open>auto simp: f\<close>)
  moreover have "lseg (\<lambda>x. wb_next (wb ?s x)) (waitlist (thr ?s x)) ((B(t := B t @ [b])) x) None \<and> distinct ((B(t := B t @ [b])) x)" for x
  proof (cases "x = t")
    case True
    then show ?thesis
      using lseg_snoc [OF wait_invD(2,3) [OF I, of t], of b] wait_invD(3) [OF I, of t] b(2) [of t]
      by (auto simp: f nx)
  next
    case False
    have "last (B t) \<notin> set (B x)" if "B t \<noteq> []" using wait_invD(4) [OF I] lb [OF that] False by blast
    then show ?thesis
      using False wait_invD(2,3) [OF I, of x] b(2) [of x]
      by (simp add: f nx)
  qed
  moreover have "wb_thread (wb ?s c) = x \<and> (\<exists>o2. c \<in> set ((W(o1 := W o1 @ [b])) o2))"
    if "c \<in> set ((B(t := B t @ [b])) x)" for c x
    using that wait_invD(4,5) [OF I, of c x] b(2) [of x] by (auto simp: f split: if_splits)
  moreover have "c \<in> set ((B(t := B t @ [b])) (wb_thread (wb ?s c)))" if "c \<in> set ((W(o1 := W o1 @ [b])) o2)" for c o2
    using that wait_invD(6) [OF I] b(1) by (auto simp: f split: if_splits)
  moreover have "can_wake (thr ?s x)" if "(B(t := B t @ [b])) x \<noteq> []" for x
    using that cw wait_invD(7) [OF I, of x] by (auto simp: f split: if_splits)
  ultimately have "wait_inv ?s (W(o1 := W o1 @ [b])) (B(t := B t @ [b]))"
    unfolding wait_inv_def by blast
  then show ?thesis by (simp add: add_waitblock_def s2_def s1_def Let_def)
qed


lemma current_can_wake: "t_state (thr s t) = RUNNING \<Longrightarrow> can_wake (thr s t)"
  by (simp add: can_wake_def)

lemma add_waitblock_sched [simp]:
  "t_state (thr (add_waitblock t prev b o1 ty key s) x) = t_state (thr s x)"
  "suspend_count (thr (add_waitblock t prev b o1 ty key s) x) = suspend_count (thr s x)"
  "tflags (thr (add_waitblock t prev b o1 ty key s) x) = tflags (thr s x)"
  "pending_signals (thr (add_waitblock t prev b o1 ty key s) x) = pending_signals (thr s x)"
  "blocked_signals (thr (add_waitblock t prev b o1 ty key s) x) = blocked_signals (thr s x)"
  "current (add_waitblock t prev b o1 ty key s) = current s"
  "plain (obj (add_waitblock t prev b o1 ty key s) o2) = plain (obj s o2)"
  by (auto simp: add_waitblock_def Let_def upd_wb_def split: option.splits)

lemma can_wake_add [simp]: "can_wake (thr (add_waitblock t prev b o1 ty key s) x) = can_wake (thr s x)"
  by (simp add: can_wake_def)

definition enqueue_all :: "nat list \<Rightarrow> nat list \<Rightarrow> (nat \<Rightarrow> nat list) \<Rightarrow> nat \<Rightarrow> nat list" where
  "enqueue_all bs os W x = W x @ map fst (filter (\<lambda>p. snd p = x) (zip bs os))"

lemma enqueue_all_Nil [simp]: "enqueue_all [] os W = W" "enqueue_all bs [] W = W"
  by (simp_all add: enqueue_all_def fun_eq_iff)

lemma add_waitblocks_sched [simp]:
  "t_state (thr (add_waitblocks t prev bs os ty n s) x) = t_state (thr s x)"
  "tflags (thr (add_waitblocks t prev bs os ty n s) x) = tflags (thr s x)"
  "pending_signals (thr (add_waitblocks t prev bs os ty n s) x) = pending_signals (thr s x)"
  "blocked_signals (thr (add_waitblocks t prev bs os ty n s) x) = blocked_signals (thr s x)"
  "current (add_waitblocks t prev bs os ty n s) = current s"
  by (induction t prev bs os ty n s rule: add_waitblocks.induct) simp_all

lemma add_waitblocks_correct:
  assumes "wait_inv s W B" "length bs = length os" "distinct bs" "\<forall>b \<in> set bs. \<forall>x. b \<notin> set (W x) \<and> b \<notin> set (B x)"
    "prev = (if B t = [] then None else Some (last (B t)))" "can_wake (thr s t)"
  shows "wait_inv (add_waitblocks t prev bs os ty n s) (enqueue_all bs os W) (B(t := B t @ bs))"
  using assms
proof (induction bs os arbitrary: prev n s W B rule: list_induct2')
  case (4 b bs o1 os)
  let ?s = "add_waitblock t prev b o1 ty n s" and ?W = "W(o1 := W o1 @ [b])" and ?B = "B(t := B t @ [b])"
  have I: "wait_inv ?s ?W ?B"
    using 4(2,5-7) by (intro add_waitblock_correct) auto
  have fresh: "\<forall>c \<in> set bs. \<forall>x. c \<notin> set (?W x) \<and> c \<notin> set (?B x)" using 4(4,5) by auto
  have e: "enqueue_all bs os ?W = enqueue_all (b # bs) (o1 # os) W" "?B(t := ?B t @ bs) = B(t := B t @ b # bs)"
    by (auto simp: enqueue_all_def fun_eq_iff)
  have "wait_inv (add_waitblocks t (Some b) bs os ty (n + 1) ?s) (enqueue_all bs os ?W) (?B(t := ?B t @ bs))"
    by (rule 4(1) [OF I _ _ fresh]) (use 4(3,4,7) in simp_all)
  then show ?case unfolding e by (simp only: add_waitblocks.simps)
qed simp_all

lemma purge_enqueue:
  assumes "\<And>b. b \<in> set bs \<Longrightarrow> wb_thread (wb s b) = t" "\<And>o2 b. b \<in> set (W o2) \<Longrightarrow> wb_thread (wb s b) \<noteq> t"
  shows "purge s {t} (enqueue_all bs os W) = W"
proof
  fix x
  have "filter (\<lambda>b. wb_thread (wb s b) \<notin> {t}) (W x) = W x" using assms(2) by (simp add: filter_id_conv)
  moreover have "filter (\<lambda>b. wb_thread (wb s b) \<notin> {t}) (map fst (filter (\<lambda>p. snd p = x) (zip bs os))) = []"
    using assms(1) by (auto simp: filter_empty_conv dest: set_zip_leftD)
  ultimately show "purge s {t} (enqueue_all bs os W) x = W x" by (simp add: purge_def enqueue_all_def)
qed

section \<open>Waits that a signal ends\<close>

text \<open>What a waiting call leaves of the timer wheel: its own timer disarmed, the others untouched.\<close>

definition disarmed :: "nat option \<Rightarrow> timers \<Rightarrow> timers \<Rightarrow> bool" where
  "disarmed tm w w' \<longleftrightarrow> timers_ok w' \<and> timer_ticks w' = timer_ticks w \<and>
     (\<forall>m. tm = Some m \<longrightarrow> \<not> active (tmr w' m)) \<and> (\<forall>u. tm \<noteq> Some u \<longrightarrow> tmr w' u = tmr w u)"

lemma wait_inv_wheel: "wait_inv (s\<lparr>wheel := w\<rparr>) W B \<longleftrightarrow> wait_inv s W B"
proof -
  have "nxt (s\<lparr>wheel := w\<rparr>) = nxt s" "prv (s\<lparr>wheel := w\<rparr>) = prv s"
    by (simp_all add: nxt_def prv_def fun_eq_iff)
  then have "sched_inv (s\<lparr>wheel := w\<rparr>) q \<longleftrightarrow> sched_inv s q" for q
    by (simp add: sched_inv_def queues_def)
  then show ?thesis by (simp add: wait_inv_def waitlists_def)
qed

lemma init_waitable_timer_correct:
  assumes I: "wait_inv s W B" and w: "timers_ok (wheel s)" "\<not> active (tmr (wheel s) m)" and o: "W o1 = []"
  obtains s' where "init_waitable_timer o1 m e s = Some s'" "wait_inv s' W B" "timers_ok (wheel s')"
    "timer_ticks (wheel s') = timer_ticks (wheel s)" "\<forall>u. u \<noteq> m \<longrightarrow> tmr (wheel s') u = tmr (wheel s) u"
    "thr s' = thr s" "current s' = current s"
proof -
  let ?s = "init_object o1 (OTimer m) s"
  define w1 where "w1 = upd_tmr m (\<lambda>x. x\<lparr>expires := e\<rparr>) (init_timer m EXPIRE_WAITABLE_TIMER o1 (wheel s))"
  obtain L where L: "wheel_ok (pend (timer_ticks (wheel s))) (wheel s) L" using w(1) by (auto simp: timers_ok_def)
  have t1: "timer_ticks w1 = timer_ticks (wheel s)" "\<not> active (tmr w1 m)" "\<forall>u. u \<noteq> m \<longrightarrow> tmr w1 u = tmr (wheel s) u"
    by (simp_all add: w1_def upd_tmr_def init_timer_def)
  have W1: "wheel_ok (pend (timer_ticks (wheel s))) w1 L"
    unfolding w1_def by (rule upd_expires_ok [OF init_timer_ok [OF L w(2)]]) (simp add: init_timer_def upd_tmr_def)
  obtain w2 where w2: "add_timer m w1 = Some w2" "timers_ok w2" "timer_ticks w2 = timer_ticks w1"
    "\<forall>u. u \<noteq> m \<longrightarrow> tmr w2 u = tmr w1 u"
  proof -
    obtain w2 where w2: "attach_timer m w1 = Some w2"
      "wheel_ok (pend (timer_ticks (wheel s))) w2 (L(timer_slot (expires (tmr w1 m)) w1 := L (timer_slot (expires (tmr w1 m)) w1) @ [m]))"
      "same_wheel w1 w2" "tmr w2 = (tmr w1)(m := (tmr w1 m)\<lparr>active := True\<rparr>)"
      by (rule attach_ok [OF W1 t1(2)])
    have "timer_ticks w2 = timer_ticks w1" using w2(3) by (simp add: same_wheel_def)
    moreover from this have "timers_ok w2" using w2(2) t1(1) by (auto simp: timers_ok_def)
    ultimately show thesis using that [of w2] w2(1,4) t1(2) by (simp add: add_timer_def)
  qed
  obtain q where q: "sched_inv s q" using wait_invD(8) [OF I] by blast
  have "waitlists ?s W" using wait_invD(1) [OF I] o by (auto simp: waitlists_def init_object_def upd_obj_def dll_def)
  moreover have "sched_inv ?s q" by (rule sched_inv_soft [OF q _ refl]) (simp_all add: init_object_def upd_obj_def)
  ultimately have J: "wait_inv ?s W B" using I by (auto simp: wait_inv_def init_object_def upd_obj_def)
  have f: "thr ?s = thr s" "current ?s = current s" "wheel ?s = wheel s" "ticks ?s = ticks s"
    by (simp_all add: init_object_def upd_obj_def)
  have e: "init_waitable_timer o1 m e s =
      (if sint (ticks s - e) \<ge> 0 then Some (set_signaled o1 True (?s\<lparr>wheel := w1\<rparr>)) else Some (?s\<lparr>wheel := w2\<rparr>))"
    using w2(1) by (simp add: init_waitable_timer_def Let_def f w1_def)
  have J1: "wait_inv (set_signaled o1 True (?s\<lparr>wheel := w1\<rparr>)) W B" "wait_inv (?s\<lparr>wheel := w2\<rparr>) W B"
    using J by (simp_all add: wait_inv_set_signaled wait_inv_wheel)
  have w1: "timers_ok w1" using W1 t1(1) by (auto simp: timers_ok_def)
  have g: "thr (set_signaled o1 True (?s\<lparr>wheel := w1\<rparr>)) = thr s" "current (set_signaled o1 True (?s\<lparr>wheel := w1\<rparr>)) = current s"
    "wheel (set_signaled o1 True (?s\<lparr>wheel := w1\<rparr>)) = w1"
    by (simp_all add: set_signaled_def upd_obj_def f)
  show thesis
  proof (cases "sint (ticks s - e) \<ge> 0")
    case True
    show ?thesis by (rule that [OF _ J1(1)]) (use True e g w1 t1 in simp_all)
  next
    case False
    show ?thesis by (rule that [OF _ J1(2)]) (use False e w2 t1 f in simp_all)
  qed
qed

lemma cancel_waitable_timer_correct:
  assumes "timers_ok (wheel s)"
  obtains w where "cancel_waitable_timer m s = Some (s\<lparr>wheel := w\<rparr>)" "disarmed (Some m) (wheel s) w"
proof (cases "active (tmr (wheel s) m)")
  case True
  obtain L where L: "wheel_ok (pend (timer_ticks (wheel s))) (wheel s) L" using assms by (auto simp: timers_ok_def)
  obtain w where w: "del_timer m (wheel s) = Some (1, w)" "wheel_ok (pend (timer_ticks (wheel s))) w (\<lambda>l. removeAll m (L l))"
    "same_wheel (wheel s) w" "tmr w = (tmr (wheel s))(m := (tmr (wheel s) m)\<lparr>active := False\<rparr>)"
    by (rule del_timer_ok [OF L, of m]) (use True in simp)
  have "timer_ticks w = timer_ticks (wheel s)" using w(3) by (simp add: same_wheel_def)
  then have "disarmed (Some m) (wheel s) w" using w(2,4) by (auto simp: disarmed_def timers_ok_def)
  then show ?thesis using that w(1) True by (simp add: cancel_waitable_timer_def)
next
  case False
  then show ?thesis using that [of "wheel s"] assms by (simp add: cancel_waitable_timer_def disarmed_def)
qed

text \<open>How an interrupted wait ends, whether or not the thread had blocked.\<close>

lemma end_wait_correct:
  assumes I: "wait_inv s W B" and w: "timers_ok (wheel s)"
  obtains s1 s' where "cancel_wait (current s) s = Some s1"
    "(case tm of None \<Rightarrow> Some (upd_thread (current s) (\<lambda>x. x\<lparr>waitkey := k\<rparr>) s1)
      | Some m \<Rightarrow> cancel_waitable_timer m (upd_thread (current s) (\<lambda>x. x\<lparr>waitkey := k\<rparr>) s1)) = Some s'"
    "wait_inv s' (purge s {current s} W) (unblock {current s} B)" "disarmed tm (wheel s) (wheel s')"
    "current s' = current s" "waitkey (thr s' (current s)) = k"
    "\<forall>o1. plain (obj s' o1) = plain (obj s o1)" "\<forall>x. x \<noteq> current s \<longrightarrow> thr s' x = thr s x"
proof -
  obtain s1 where s1: "cancel_wait (current s) s = Some s1" "wait_inv s1 (purge s {current s} W) (unblock {current s} B)"
    "thr s1 = (thr s)(current s := (thr s (current s))\<lparr>waitlist := None\<rparr>)" "\<forall>o1. plain (obj s1 o1) = plain (obj s o1)"
    "current s1 = current s" "wheel s1 = wheel s"
    by (rule cancel_wait_correct [OF I])
  let ?s = "upd_thread (current s) (\<lambda>x. x\<lparr>waitkey := k\<rparr>) s1"
  have J: "wait_inv ?s (purge s {current s} W) (unblock {current s} B)" by (rule wait_inv_upd_key [OF s1(2)])
  show thesis
  proof (cases tm)
    case None
    then show ?thesis using that [OF s1(1), of ?s] J s1 w by (simp add: disarmed_def)
  next
    case (Some m)
    obtain w' where "cancel_waitable_timer m ?s = Some (?s\<lparr>wheel := w'\<rparr>)" "disarmed (Some m) (wheel ?s) w'"
      by (rule cancel_waitable_timer_correct [of ?s m]) (use w s1(6) in auto)
    then show ?thesis using that [OF s1(1), of "?s\<lparr>wheel := w'\<rparr>"] J s1 Some by (simp add: wait_inv_wheel)
  qed
qed

lemma alert_bits: "bit (4 :: int) n \<longleftrightarrow> n = 2" "bit (8 :: int) n \<longleftrightarrow> n = 3"
  using bit_exp_iff [where 'a = int, of 2 n] bit_exp_iff [where 'a = int, of 3 n] by simp_all

lemma wait_inv_upd_current:
  assumes I: "wait_inv s W B" and r: "t_state (thr s (current s)) = RUNNING"
    and f: "\<And>x. waitlist (f x) = waitlist x \<and> priority (f x) = priority x \<and> base_priority (f x) = base_priority x \<and>
      suspend_count (f x) = suspend_count x" "t_state (f (thr s (current s))) \<noteq> READY"
  shows "wait_inv (upd_thread (current s) f s) W B"
proof -
  obtain q where q: "sched_inv s q" using wait_invD(8) [OF I] by blast
  have "sched_inv (upd_thread (current s) f s) q"
    by (rule upd_current_inv [OF q r]) (use f(2) f(1) sched_invD(3,4,6) [OF q] r in auto)
  moreover have "can_wake (f (thr s (current s)))" using f(2) by (simp add: can_wake_def)
  ultimately show ?thesis using I f(1) unfolding wait_inv_def waitlists_def by auto
qed

lemma wait_block_interrupted:
  assumes I: "wait_inv s W B" and w: "timers_ok (wheel s)" and sg: "signals_ready (thr s (current s))"
  shows "\<exists>s'. wait_block dpcs True tm s = Some (Returned (- EINTR) s') \<and>
    wait_inv s' (purge s {current s} W) (unblock {current s} B) \<and> disarmed tm (wheel s) (wheel s')"
  by (rule end_wait_correct [OF I w, where tm = tm and k = "- EINTR"])
    (use sg in \<open>auto simp: wait_block_def enter_alertable_wait_def ret_def\<close>)

lemma wait_block_blocks:
  assumes I: "wait_inv s W B" and r: "t_state (thr s (current s)) = RUNNING" and sg: "\<not> signals_ready (thr s (current s))"
  obtains u where "wait_block dpcs True tm s = map_option Blocked (ret (dispatch dpcs u))" "wait_inv u W B"
    "current u = current s" "t_state (thr u (current s)) = WAITING" "tflags (thr u (current s)) AND THREAD_ALERTABLE \<noteq> 0"
    "tflags (thr u (current s)) AND THREAD_INTERRUPTED = 0" "wheel u = wheel s" "wb u = wb s"
proof -
  define u where "u = upd_thread (current s)
          (\<lambda>x. x\<lparr>t_state := WAITING, wait_reason := THREAD_WAIT_OBJECT,
                 tflags := (tflags x AND NOT THREAD_INTERRUPTED) OR THREAD_ALERTABLE\<rparr>) s"
  have "wait_inv u W B" unfolding u_def by (rule wait_inv_upd_current [OF I r]) simp_all
  moreover have "wait_block dpcs True tm s = map_option Blocked (ret (dispatch dpcs u))"
    using sg by (cases "dispatch dpcs u") (simp_all add: wait_block_def enter_alertable_wait_def ret_def u_def [symmetric])
  moreover have "((f AND NOT 8) OR 4) AND 4 \<noteq> (0 :: u32)" "((f AND NOT 8) OR 4) AND 8 = (0 :: u32)" for f
    by (auto simp: bit_eq_iff [where 'a = u32] bit_simps alert_bits)
  ultimately show thesis
    using that [of u] by (simp add: u_def THREAD_ALERTABLE_def THREAD_INTERRUPTED_def)
qed

lemma wait_finish_interrupted:
  assumes I: "wait_inv s W B" and w: "timers_ok (wheel s)" and r: "t_state (thr s (current s)) = RUNNING"
    and i: "tflags (thr s (current s)) AND THREAD_INTERRUPTED \<noteq> 0"
  shows "\<exists>s'. wait_finish True tm s = Some (- EINTR, s') \<and>
    wait_inv s' (purge s {current s} W) (unblock {current s} B) \<and> disarmed tm (wheel s) (wheel s')"
proof -
  define u where "u = snd (leave_alertable_wait s)"
  have f: "(x AND NOT THREAD_ALERTABLE) AND THREAD_INTERRUPTED = x AND THREAD_INTERRUPTED" for x
    by (auto simp: THREAD_ALERTABLE_def THREAD_INTERRUPTED_def bit_eq_iff [where 'a = u32] bit_simps alert_bits)
  have u: "leave_alertable_wait s = (- EINTR, u)"
    using i by (simp add: u_def leave_alertable_wait_def Let_def f)
  have u': "u = upd_thread (current s) (\<lambda>x. x\<lparr>tflags := (tflags x AND NOT THREAD_ALERTABLE) AND NOT THREAD_INTERRUPTED\<rparr>) s"
    using i by (simp add: u_def leave_alertable_wait_def Let_def f upd_thread_def)
  have J: "wait_inv u W B" unfolding u' by (rule wait_inv_upd_current [OF I r]) (use r in simp_all)
  have c: "current u = current s" "wheel u = wheel s" "wb u = wb s" by (simp_all add: u')
  obtain s1 s' where e: "cancel_wait (current u) u = Some s1"
    "(case tm of None \<Rightarrow> Some (upd_thread (current u) (\<lambda>x. x\<lparr>waitkey := - EINTR\<rparr>) s1)
      | Some m \<Rightarrow> cancel_waitable_timer m (upd_thread (current u) (\<lambda>x. x\<lparr>waitkey := - EINTR\<rparr>) s1)) = Some s'"
    "wait_inv s' (purge u {current u} W) (unblock {current u} B)" "disarmed tm (wheel u) (wheel s')"
    "current s' = current u" "waitkey (thr s' (current u)) = - EINTR"
    by (rule end_wait_correct [OF J]) (use w c in auto)
  have "- EINTR < 0" by (simp add: errno_defs)
  then have "wait_finish True tm s = Some (- EINTR, s')"
    using e(1,2,5,6) by (simp add: wait_finish_def u)
  moreover have "purge u {current u} W = purge s {current s} W" by (simp add: purge_def fun_eq_iff c)
  ultimately show ?thesis using e(3,4) c by auto
qed

lemma add_waitblock_wheel [simp]: "wheel (add_waitblock t prev b o1 ty key s) = wheel s"
  by (simp add: add_waitblock_def insert_in_waitlist_def upd_wb_def upd_obj_def upd_wb_opt_def Let_def split: option.splits)

lemma add_waitblocks_wheel [simp]: "wheel (add_waitblocks t prev bs os ty n s) = wheel s"
  by (induction t prev bs os ty n s rule: add_waitblocks.induct) simp_all

text \<open>The wait blocks and the objects of a call that does not return at once: a timeout adds one of each.\<close>

definition wait_blocks :: "nat list \<Rightarrow> nat \<Rightarrow> u32 \<Rightarrow> nat list" where
  "wait_blocks bs btmo timeout = (if timeout = INFINITE then bs else bs @ [btmo])"

definition wait_timer :: "nat \<Rightarrow> u32 \<Rightarrow> nat option" where
  "wait_timer m timeout = (if timeout = INFINITE then None else Some m)"

lemma wait_for_any_enqueues:
  assumes I: "wait_inv s W B" and t: "t = current s" "t_state (thr s t) = RUNNING" "B t = []"
    and n: "os \<noteq> []" "length os \<le> MAX_WAIT_OBJECTS" "length bs = length os"
    and fresh: "distinct (bs @ [btmo])" "\<forall>b \<in> set (bs @ [btmo]). \<forall>x. b \<notin> set (W x) \<and> b \<notin> set (B x)"
    and w: "timers_ok (wheel s)" "\<not> active (tmr (wheel s) m)" "W otmo = []" "otmo \<notin> set os"
    and no: "enter_first deq t os 0 s = None" "timeout \<noteq> 0"
  obtains u where
    "wait_for_any_object dpcs deq bs btmo otmo m os timeout alertable s = wait_block dpcs alertable (wait_timer m timeout) u"
    "wait_inv u (enqueue_all (wait_blocks bs btmo timeout) (wait_blocks os otmo timeout) W) (B(t := wait_blocks bs btmo timeout))"
    "current u = t" "t_state (thr u t) = RUNNING" "signals_ready (thr u t) = signals_ready (thr s t)" "timers_ok (wheel u)"
    "timer_ticks (wheel u) = timer_ticks (wheel s)" "\<forall>x. x \<noteq> m \<longrightarrow> tmr (wheel u) x = tmr (wheel s) x"
    "timeout = INFINITE \<longrightarrow> wheel u = wheel s"
proof -
  let ?u = "add_waitblocks t None bs os WAIT_ANY 0 s" and ?W = "enqueue_all bs os W" and ?B = "B(t := bs)"
  have "wait_inv ?u ?W (B(t := B t @ bs))"
    by (rule add_waitblocks_correct [OF I n(3)]) (use fresh t in \<open>auto simp: current_can_wake\<close>)
  then have J: "wait_inv ?u ?W ?B" using t(3) by simp
  show thesis
  proof (cases "timeout = INFINITE")
    case True
    then show ?thesis
      using that [of ?u] J t n no w by (simp add: wait_for_any_object_def Let_def wait_blocks_def wait_timer_def signals_ready_def)
  next
    case False
    have o: "?W otmo = []" using w(3,4) by (auto simp: enqueue_all_def filter_empty_conv dest: set_zip_rightD)
    obtain u where u: "init_waitable_timer otmo m (ticks ?u + tick_timeout timeout) ?u = Some u" "wait_inv u ?W ?B" "timers_ok (wheel u)"
      "timer_ticks (wheel u) = timer_ticks (wheel ?u)" "\<forall>x. x \<noteq> m \<longrightarrow> tmr (wheel u) x = tmr (wheel ?u) x"
      "thr u = thr ?u" "current u = current ?u"
      by (rule init_waitable_timer_correct [OF J _ _ o]) (use w in auto)
    have bs: "bs \<noteq> []" using n by auto
    then have bl: "bs ! (length os - 1) = last bs" using n(3) by (simp add: last_conv_nth)
    let ?v = "add_waitblock t (Some (last bs)) btmo otmo WAIT_ANY (- ETIMEOUT) u"
    have e: "?W(otmo := ?W otmo @ [btmo]) = enqueue_all (bs @ [btmo]) (os @ [otmo]) W" "?B(t := ?B t @ [btmo]) = B(t := bs @ [btmo])"
      using n(3) by (auto simp: enqueue_all_def fun_eq_iff)
    have "btmo \<notin> set (?W x)" for x using fresh by (auto simp: enqueue_all_def dest: set_zip_leftD)
    then have "wait_inv ?v (?W(otmo := ?W otmo @ [btmo])) (?B(t := ?B t @ [btmo]))"
      by (intro add_waitblock_correct [OF u(2)]) (use fresh bs t u(6) in \<open>auto simp: can_wake_def\<close>)
    moreover have "wait_for_any_object dpcs deq bs btmo otmo m os timeout alertable s = wait_block dpcs alertable (Some m) ?v"
      using n no t(1) False u(1) bl by (simp add: wait_for_any_object_def add_timeout_def Let_def)
    ultimately show ?thesis
      using that [of ?v] False e u t by (simp add: wait_blocks_def wait_timer_def signals_ready_def)
  qed
qed

lemma purge_call:
  assumes I: "wait_inv u (enqueue_all bs os W) (B(t := bs))" and B: "B t = []" and f: "\<forall>b \<in> set bs. \<forall>x. b \<notin> set (W x)"
  shows "purge u {t} (enqueue_all bs os W) = W" "unblock {t} (B(t := bs)) = B"
proof -
  have "wb_thread (wb u b) = t" if "b \<in> set bs" for b using wait_invD(4) [OF I, of b t] that by simp
  moreover have "wb_thread (wb u b) \<noteq> t" if "b \<in> set (W x)" for b x
    using wait_invD(6) [OF I, of b x] that f by (auto simp: enqueue_all_def)
  ultimately show "purge u {t} (enqueue_all bs os W) = W" by (rule purge_enqueue)
  show "unblock {t} (B(t := bs)) = B" using B by (auto simp: unblock_def fun_eq_iff)
qed

section \<open>A pulse that never ends\<close>

lemma pulse_event_loop_stuck:
  assumes "wait_inv s W B" "\<not> ready s B (wb_thread (wb s b))"
  shows "pulse_event_loop e (Some b) s = None"
proof (rule ccontr)
  assume "pulse_event_loop e (Some b) s \<noteq> None"
  then obtain y where y: "pulse_event_loop e (Some b) s = Some y" by blast
  have "\<not> (Some b = Some b \<and> wait_inv s W B \<and> \<not> ready s B (wb_thread (wb s b)))"
  proof (rule pulse_event_loop.raw_induct
      [where P = "\<lambda>e p s z. \<not> (p = Some b \<and> wait_inv s W B \<and> \<not> ready s B (wb_thread (wb s b)))", OF _ y])
    fix f :: "nat \<Rightarrow> ptr \<Rightarrow> 'a ksys_scheme \<Rightarrow> 'a ksys_scheme option" and e p and s z :: "'a ksys_scheme"
    assume IH: "\<And>e p s z. f e p s = Some z \<Longrightarrow> \<not> (p = Some b \<and> wait_inv s W B \<and> \<not> ready s B (wb_thread (wb s b)))"
      and body: "(case p of None \<Rightarrow> Some s
        | Some b \<Rightarrow> thread_ready_to_run (wb_thread (wb s b)) s \<bind>
            (\<lambda>(r, s1). if r then release_thread (wb_thread (wb s b)) s1 \<bind>
                (\<lambda>s2. if \<not> manual_reset (obj s2 e) then Some s2 else f e (next_wait (wb s b)) s2)
              else f e (Some b) s1)) = Some z"
    show "\<not> (p = Some b \<and> wait_inv s W B \<and> \<not> ready s B (wb_thread (wb s b)))"
    proof
      assume a: "p = Some b \<and> wait_inv s W B \<and> \<not> ready s B (wb_thread (wb s b))"
      let ?t = "wb_thread (wb s b)"
      define s1 where "s1 = upd_thread ?t (\<lambda>x. x\<lparr>waitkey := key_of s (B ?t) (waitkey (thr s ?t))\<rparr>) s"
      have v: "thread_ready_to_run ?t s = Some (False, s1)" using visit [of s W B] a by (simp add: s1_def)
      have "f e (Some b) s1 = Some z" using body a v by simp
      then have "\<not> (wait_inv s1 W B \<and> \<not> ready s1 B (wb_thread (wb s1 b)))" using IH by blast
      moreover have "wait_inv s1 W B" unfolding s1_def by (rule wait_inv_upd_key) (use a in simp)
      moreover have "ready s1 B (wb_thread (wb s1 b)) = ready s B ?t"
      proof -
        have "rframe {} s s1" unfolding s1_def by (rule rframe_upd_key)
        then show ?thesis using ready_frame [of "{}" s s1 W B ?t] a by (simp add: s1_def)
      qed
      ultimately show False using a by simp
    qed
  qed
  with assms show False by blast
qed


section \<open>Properties of the object manager\<close>

lemma object_upd_comm: "(x::object)\<lparr>signaled := v, okind := k\<rparr> = x\<lparr>okind := k, signaled := v\<rparr>"
  by simp

text \<open>
  C15. \<^verbatim>\<open>set_event\<close> returns, and releases exactly the waiting threads that are ready once the event
  is signaled: all of them for a manual-reset event, which stays signaled, and the first one
  for an auto-reset event, which is then nonsignaled again (it stays signaled when there was
  none). A released thread is off every wait list and ready or suspended; every other
  thread, object and wait list is as before.
\<close>

theorem set_event_correct:
  assumes "wait_inv s W B" "one_each s (W e)" "okind (obj s e) = OEvent m"
  shows "let rs = ready_blocks (set_signaled e True s) B (W e);
             T = threads_of s (if m then rs else take 1 rs) in
    \<exists>s'. set_event e s = Some s' \<and> wait_inv s' (purge s T W) (unblock T B) \<and>
      rframe T (set_signaled e (m \<or> rs = []) s) s'"
  unfolding Let_def using set_event_spec [OF assms refl refl] .

text \<open>
  C16. \<^verbatim>\<open>release_sem\<close> returns the old count and gives the new resources to the ready waiting
  threads in the order of the wait list: the threads served and the count left add up to the
  old count and the resources released, and the semaphore is signaled if and only if some
  are left.
\<close>

theorem release_sem_correct:
  assumes "wait_inv s W B" "one_each s (W e)" "okind (obj s e) = OSem n" "unat n + unat c < 2 ^ 32" "0 < n + c"
  shows "let bs = take (unat (n + c)) (ready_blocks (set_signaled e True s) B (W e));
             n' = n + c - of_nat (length bs); T = threads_of s bs in
    unat n' + length bs = unat n + unat c \<and>
    (\<exists>s'. release_sem e c s = Some (n, s') \<and> wait_inv s' (purge s T W) (unblock T B) \<and>
      rframe T (set_signaled e (n' > 0) (set_count e n' s)) s')"
proof -
  let ?s = "set_count e (n + c) s"
  have w: "wb ?s = wb s" "okind (obj ?s e) = OSem (n + c)" by (simp_all add: set_count_kind)
  have I: "wait_inv ?s W B" using wait_inv_set_kind [OF assms(1)] by (simp add: set_count_kind)
  have o: "one_each ?s (W e)" using assms(2) by (simp add: one_each_def w)
  have c: "set_signaled e v (set_count e k s) = set_count e k (set_signaled e v s)" for k v
    by (simp add: set_signaled_def set_count_def upd_obj_def object_upd_comm)
  have rb: "ready_blocks (set_signaled e True ?s) B (W e) = ready_blocks (set_signaled e True s) B (W e)"
    unfolding c by (simp add: set_count_kind)
  have k: "set_count e k ?s = set_count e k s" for k by (simp add: set_count_kind)
  have u: "unat (n + c) = unat n + unat c" using assms(4) by (simp add: unat_add_no_wrap)
  from sem_release_all_spec [OF I o w(2) assms(5) refl refl] show ?thesis
    unfolding rb threads_purge_cong [OF w(1)] k u
    by (auto simp: release_sem_def Let_def sem_count_kind assms(3) kcount_def u)
qed

text \<open>
  C17. \<^verbatim>\<open>release_mutex\<close> fails with \<open>EPERM\<close> for a thread that is not the owner and undoes one level of
  recursion for the owner. At the last level the first ready waiting thread becomes the
  owner, with recursion 1, and is released; with no such thread the mutex is free and
  signaled. Ownership is never given to two threads and never lost to nobody while a thread
  waits for it.
\<close>

theorem release_mutex_correct:
  assumes I: "wait_inv s W B" and k: "okind (obj s e) = OMutex owner r"
  shows "let s1 = upd_obj e (\<lambda>x. x\<lparr>okind := OMutex None (r - 1), signaled := True\<rparr>) s;
             rs = ready_blocks s1 B (W e) in
    if owner \<noteq> Some (current s) then release_mutex e s = Some (- EPERM, s)
    else if r > 1 then release_mutex e s = Some (0, upd_obj e (\<lambda>x. x\<lparr>okind := OMutex owner (r - 1)\<rparr>) s)
    else
      case rs of
        [] \<Rightarrow> \<exists>s'. release_mutex e s = Some (0, s') \<and> wait_inv s' W B \<and> rframe {} s1 s'
      | b # _ \<Rightarrow> let t = wb_thread (wb s b) in
          \<exists>s'. release_mutex e s = Some (0, s') \<and> wait_inv s' (purge s {t} W) (unblock {t} B) \<and>
            rframe {t} (upd_obj e (\<lambda>x. x\<lparr>okind := OMutex (Some t) 1, signaled := False\<rparr>) s) s'"
proof (cases "owner = Some (current s) \<and> \<not> r > 1")
  case False
  then show ?thesis using k by (auto simp: release_mutex_def Let_def)
next
  case True
  define s1 where "s1 = upd_obj e (\<lambda>x. x\<lparr>okind := OMutex None (r - 1), signaled := True\<rparr>) s"
  let ?g = "\<lambda>t x. x\<lparr>okind := OMutex (Some t) 1, signaled := False\<rparr>"
  have I1: "wait_inv s1 W B" unfolding s1_def by (rule wait_inv_upd_obj [OF I]) simp
  have e1: "wb s1 = wb s" "waitlist_head (obj s1 e) = waitlist_head (obj s e)"
    "upd_obj e (?g t) s1 = upd_obj e (?g t) s" for t by (simp_all add: s1_def upd_obj_def)
  have g: "waitlist_head (?g t x) = waitlist_head x \<and> waitlist_tail (?g t x) = waitlist_tail x"
    "plain x = plain y \<Longrightarrow> plain (?g t x) = plain (?g t y)" for t x y by (simp_all add: plain_eq_iff)
  note H = hand_over_spec [where g = ?g, OF I1 refl g, of e, unfolded e1 threads_purge_cong(2) [OF e1(1)]]
  have "release_mutex e s =
      do {
        (p, s2) \<leftarrow> first_ready (waitlist_head (obj s e)) s1;
        (case p of None \<Rightarrow> Some (0, s2)
         | Some b \<Rightarrow> do { s3 \<leftarrow> release_thread (wb_thread (wb s2 b)) (upd_obj e (?g (wb_thread (wb s2 b))) s2); Some (0, s3) })
      }"
    using True k by (simp add: release_mutex_def s1_def)
  then show ?thesis
    using True H by (auto simp: Let_def simp flip: s1_def split: list.splits)
qed

text \<open>
  C18. \<^verbatim>\<open>close_object\<close> (for the objects that need no more than that) returns with the wait list of the
  object empty: every thread that waited for it has been released with the wait key
  \<open>-EINTR\<close>, and no other thread is affected.
\<close>

theorem close_object_releases_all:
  assumes "wait_inv s W B" "one_each s (W e)" "okind (obj s e) \<in> {OEvent m, OMutex w r, OSem n, OFilemap, OThread t0}"
  shows "let T = threads_of s (W e) in
    \<exists>s'. close_object closer e s = Some (0, s') \<and> wait_inv s' (purge s T W) (unblock T B) \<and>
      purge s T W e = [] \<and> rframe T s s' \<and> (\<forall>t. t \<in> T \<longrightarrow> waitkey (thr s' t) = - EINTR)"
proof -
  let ?T = "threads_of s (W e)"
  obtain s' where s': "close_loop e s = Some s'" "wait_inv s' (purge s ?T W) (unblock ?T B)" "rframe ?T s s'"
    "\<forall>t \<in> ?T. waitkey (thr s' t) = - EINTR"
    using close_loop_spec [OF assms(1,2)] by blast
  have "okind (obj s' e) = okind (obj s e)" by (rule plain_fields(1) [OF rframe_plain [OF s'(3)]])
  then have "close_object closer e s = Some (0, s')" using s'(1) assms(3) by (auto simp: close_object_def)
  moreover have "purge s ?T W e = []" by (auto simp: purge_def threads_of_def filter_empty_conv)
  ultimately show ?thesis using s' by (auto simp: Let_def)
qed

text \<open>
  \<^verbatim>\<open>exit_thread\<close> signals the thread object and releases every ready thread that waits for it,
  each with the exit code as its wait key.
\<close>

theorem exit_thread_correct:
  assumes "wait_inv s W B" "one_each s (W e)"
  shows "let T = threads_of s (ready_blocks (set_signaled e True s) B (W e)) in
    \<exists>s'. exit_thread e t s = Some s' \<and> wait_inv s' (purge s T W) (unblock T B) \<and>
      rframe T (set_signaled e True s) s' \<and> (\<forall>u. u \<in> T \<longrightarrow> waitkey (thr s' u) = exitcode (thr s t))"
proof -
  let ?s = "set_signaled e True s"
  have w: "wb ?s = wb s" by (simp add: set_signaled_def upd_obj_def)
  have "one_each ?s (W e)" using assms(2) by (simp add: one_each_def w)
  from release_waiters_spec [OF wait_inv_set_signaled [OF assms(1)] this refl, of "exitcode (thr s t)"]
  show ?thesis unfolding threads_purge_cong [OF w] by (auto simp: exit_thread_def Let_def)
qed

text \<open>
  When the timer of a wait with a timeout expires, the waiting thread is released with wait
  key 0, the value of a successful wait, although its wait block carries \<open>-ETIMEOUT\<close>:
  \<^verbatim>\<open>expire_waitable_timer\<close> passes 0 to \<^verbatim>\<open>release_waiters\<close>, which overwrites the key
  \<^verbatim>\<open>thread_ready_to_run\<close> had set.
\<close>

theorem expire_waitable_timer_key:
  assumes "wait_inv s W B" "one_each s (W e)" "b \<in> set (W e)" "waittype (wb s b) = WAIT_ANY" "wb_waitkey (wb s b) = - ETIMEOUT"
  shows "\<exists>s'. expire_waitable_timer e s = Some s' \<and> woken (thr s' (wb_thread (wb s b))) \<and>
    waitkey (thr s' (wb_thread (wb s b))) = 0"
proof -
  let ?s = "set_signaled e True s" and ?t = "wb_thread (wb s b)"
  have w: "wb ?s = wb s" by (simp add: set_signaled_def upd_obj_def)
  have o: "one_each ?s (W e)" using assms(2) by (simp add: one_each_def w)
  have "wb_object (wb s b) = Some e" using waitlistsD(2) [OF wait_invD(1) [OF assms(1)] assms(3)] .
  then have "sig ?s b" by (simp add: sig_def set_signaled_def upd_obj_def)
  then have "ready ?s B ?t" using wait_invD(6) [OF assms(1,3)] assms(4) w by (auto simp: ready_def)
  then have t: "?t \<in> threads_of s (ready_blocks ?s B (W e))" using assms(3) by (auto simp: threads_of_def ready_blocks_def w)
  obtain s' where s': "expire_waitable_timer e s = Some s'" "rframe (threads_of s (ready_blocks ?s B (W e))) ?s s'"
    "\<forall>u \<in> threads_of s (ready_blocks ?s B (W e)). waitkey (thr s' u) = 0"
    using release_waiters_spec [OF wait_inv_set_signaled [OF assms(1)] o refl, of 0]
    unfolding threads_purge_cong [OF w] by (auto simp: expire_waitable_timer_def)
  with t show ?thesis by (auto simp: rframe_def)
qed

text \<open>
  \<^verbatim>\<open>pulse_event\<close> never returns when the first waiting thread is not ready to run, for example
  because it waits for all of several objects: the loop goes on to the next wait block only
  after it has released a thread.
\<close>

theorem pulse_event_never_returns:
  assumes "wait_inv s W B" "W e = b # bs" "\<not> ready (set_signaled e True s) B (wb_thread (wb s b))"
  shows "pulse_event e s = None"
proof -
  have w: "wb (set_signaled e True s) = wb s" by (simp add: set_signaled_def upd_obj_def)
  have "pulse_event_loop e (Some b) (set_signaled e True s) = None"
    using pulse_event_loop_stuck [OF wait_inv_set_signaled [OF assms(1)]] assms(3) by (simp add: w)
  then show ?thesis using head_waiter [OF assms(1), of e] assms(2) by (simp add: pulse_event_def)
qed

text \<open>
  C19. An alertable \<^verbatim>\<open>wait_for_any_object\<close>, with or without a timeout, for objects none of which can be
  entered at once. With signals pending at entry it returns \<open>-EINTR\<close> and leaves every wait
  list exactly as it found it, and its local timer disarmed: the wait blocks it had put on
  the lists, which live on the stack of the call, are gone again. Otherwise it puts one wait
  block on the list of each object, and of the timer, marks the thread as waiting and
  alertable and dispatches. When the thread runs again, in whatever state the others have left,
  and was interrupted, the call returns \<open>-EINTR\<close> with all blocks of the thread taken off all lists,
  the blocks of the other threads in their order, and the timer disarmed.
\<close>

theorem interrupted_wait_restores:
  assumes I: "wait_inv s W B" and t: "t = current s" "t_state (thr s t) = RUNNING" "B t = []"
    and n: "os \<noteq> []" "length os \<le> MAX_WAIT_OBJECTS" "length bs = length os"
    and fresh: "distinct (bs @ [btmo])" "\<forall>b \<in> set (bs @ [btmo]). \<forall>x. b \<notin> set (W x) \<and> b \<notin> set (B x)"
    and w: "timers_ok (wheel s)" "\<not> active (tmr (wheel s) m)" "W otmo = []" "otmo \<notin> set os"
    and no: "enter_first deq t os 0 s = None" "timeout \<noteq> 0"
  shows "let call = wait_for_any_object dpcs deq bs btmo otmo m os timeout True s; tm = wait_timer m timeout;
      bs' = wait_blocks bs btmo timeout; os' = wait_blocks os otmo timeout in
    if signals_ready (thr s t) then
      \<exists>s'. call = Some (Returned (- EINTR) s') \<and> wait_inv s' W B \<and> disarmed tm (wheel s) (wheel s')
    else
      (\<exists>u. call = map_option Blocked (ret (dispatch dpcs u)) \<and> wait_inv u (enqueue_all bs' os' W) (B(t := bs')) \<and>
        t_state (thr u t) = WAITING \<and> tflags (thr u t) AND THREAD_ALERTABLE \<noteq> 0 \<and> tflags (thr u t) AND THREAD_INTERRUPTED = 0) \<and>
      (\<forall>v W1 B1. wait_inv v W1 B1 \<and> timers_ok (wheel v) \<and> current v = t \<and> t_state (thr v t) = RUNNING \<and>
          tflags (thr v t) AND THREAD_INTERRUPTED \<noteq> 0 \<longrightarrow>
        (\<exists>v'. wait_finish True tm v = Some (- EINTR, v') \<and> wait_inv v' (purge v {t} W1) (unblock {t} B1) \<and>
          disarmed tm (wheel v) (wheel v')))"
proof -
  let ?bs = "wait_blocks bs btmo timeout" and ?os = "wait_blocks os otmo timeout" and ?tm = "wait_timer m timeout"
  obtain u where u: "wait_for_any_object dpcs deq bs btmo otmo m os timeout True s = wait_block dpcs True ?tm u"
    "wait_inv u (enqueue_all ?bs ?os W) (B(t := ?bs))" "current u = t" "t_state (thr u t) = RUNNING"
    "signals_ready (thr u t) = signals_ready (thr s t)" "timers_ok (wheel u)"
    "timer_ticks (wheel u) = timer_ticks (wheel s)" "\<forall>x. x \<noteq> m \<longrightarrow> tmr (wheel u) x = tmr (wheel s) x"
    "timeout = INFINITE \<longrightarrow> wheel u = wheel s"
    by (rule wait_for_any_enqueues [OF assms, where dpcs = dpcs and alertable = True])
  have d: "disarmed ?tm (wheel s) w'" if "disarmed ?tm (wheel u) w'" for w'
    using that u(7-9) by (auto simp: disarmed_def wait_timer_def split: if_splits)
  have p: "purge u {t} (enqueue_all ?bs ?os W) = W" "unblock {t} (B(t := ?bs)) = B"
    by (rule purge_call [OF u(2) t(3)]; use fresh in \<open>auto simp: wait_blocks_def\<close>)+
  show ?thesis
  proof (cases "signals_ready (thr s t)")
    case True
    then show ?thesis using wait_block_interrupted [OF u(2,6), of dpcs ?tm] u(1,3,5) p d by (auto simp: Let_def)
  next
    case False
    obtain v where v: "wait_block dpcs True ?tm u = map_option Blocked (ret (dispatch dpcs v))"
      "wait_inv v (enqueue_all ?bs ?os W) (B(t := ?bs))" "t_state (thr v t) = WAITING"
      "tflags (thr v t) AND THREAD_ALERTABLE \<noteq> 0" "tflags (thr v t) AND THREAD_INTERRUPTED = 0"
      by (rule wait_block_blocks [OF u(2), of dpcs ?tm]) (use u(3-5) False in auto)
    have "\<exists>v'. wait_finish True ?tm x = Some (- EINTR, v') \<and> wait_inv v' (purge x {t} W1) (unblock {t} B1) \<and>
        disarmed ?tm (wheel x) (wheel v')"
      if "wait_inv x W1 B1 \<and> timers_ok (wheel x) \<and> current x = t \<and> t_state (thr x t) = RUNNING \<and>
        tflags (thr x t) AND THREAD_INTERRUPTED \<noteq> 0" for x W1 B1
      using wait_finish_interrupted [of x W1 B1 ?tm] that by auto
    with v u(1) False show ?thesis unfolding Let_def by auto
  qed
qed


section \<open>Concrete states\<close>

text \<open>The timer wheel after \<^verbatim>\<open>init_timers\<close>.\<close>

definition idle_wheel :: timers where
  "idle_wheel =
     init_timers \<lparr>timer_ticks = 0, tv_index = (\<lambda>_. 0), lnext = (\<lambda>_. None), lprev = (\<lambda>_. None),
       tmr = (\<lambda>t. \<lparr>expires = 0, active = False, handler = 0, targ = t\<rparr>)\<rparr>"

lemma idle_wheel_ok: "timers_ok idle_wheel" "\<not> active (tmr idle_wheel m)"
  using init_timers_ok [of "\<lparr>timer_ticks = 0, tv_index = (\<lambda>_. 0), lnext = (\<lambda>_. None), lprev = (\<lambda>_. None),
       tmr = (\<lambda>t. \<lparr>expires = 0, active = False, handler = 0, targ = t\<rparr>)\<rparr>"]
  by (auto simp: timers_ok_def idle_wheel_def) (auto simp: init_timers_def)

text \<open>
  Thread 0 runs and has a signal pending. Thread 1 waits, with wait type \<open>ty\<close> and wait key
  \<open>key\<close>, for object 5, of kind \<open>k\<close>, and for the event 6, with the wait blocks 9 and 10.
\<close>

definition demo_wait :: "okind \<Rightarrow> waittype \<Rightarrow> int \<Rightarrow> ksys" where
  "demo_wait k ty key =
     \<lparr>thr = (\<lambda>_. zero_thread)
        (0 := zero_thread\<lparr>t_state := RUNNING, pending_signals := 1\<rparr>,
         1 := zero_thread\<lparr>t_state := WAITING, waitlist := Some 9\<rparr>),
      current = 0, preempt_flag = False, ready_head = (\<lambda>_. None), ready_tail = (\<lambda>_. None), summary = 0,
      obj = (\<lambda>_. \<lparr>okind = OEvent True, signaled = False, handle_count = 0, lock_count = 0, waitlist_head = None, waitlist_tail = None\<rparr>)
        (5 := \<lparr>okind = k, signaled = False, handle_count = 1, lock_count = 0, waitlist_head = Some 9, waitlist_tail = Some 9\<rparr>,
         6 := \<lparr>okind = OEvent True, signaled = False, handle_count = 1, lock_count = 0, waitlist_head = Some 10, waitlist_tail = Some 10\<rparr>),
      wb = (\<lambda>_. \<lparr>wb_thread = 0, wb_object = None, waittype = ty, wb_waitkey = 0, wb_next = None, next_wait = None, prev_wait = None\<rparr>)
        (9 := \<lparr>wb_thread = 1, wb_object = Some 5, waittype = ty, wb_waitkey = key, wb_next = Some 10, next_wait = None, prev_wait = None\<rparr>,
         10 := \<lparr>wb_thread = 1, wb_object = Some 6, waittype = ty, wb_waitkey = key, wb_next = None, next_wait = None, prev_wait = None\<rparr>),
      wheel = idle_wheel,
      ticks = 0\<rparr>"

definition demo_W :: "nat \<Rightarrow> nat list" where "demo_W = (\<lambda>_. [])(5 := [9], 6 := [10])"
definition demo_B :: "nat \<Rightarrow> nat list" where "demo_B = (\<lambda>_. [])(1 := [9, 10])"

lemma demo_wait_sched: "sched_inv (demo_wait k ty key) (\<lambda>_. [])"
  unfolding sched_inv_def queues_def
  by (auto simp: demo_wait_def zero_thread_def split: if_splits)

lemma demo_wait_inv: "wait_inv (demo_wait k ty key) demo_W demo_B"
  unfolding wait_inv_def
proof (intro conjI)
  show "waitlists (demo_wait k ty key) demo_W"
    by (auto simp: waitlists_def demo_wait_def demo_W_def dll_def)
  show "\<exists>q. sched_inv (demo_wait k ty key) q" using demo_wait_sched by blast
  show "\<forall>t. \<forall>b \<in> set (demo_B t). wb_thread (wb (demo_wait k ty key) b) = t \<and> (\<exists>o1. b \<in> set (demo_W o1))"
    by (auto simp: demo_wait_def demo_W_def demo_B_def intro: exI [where x = 5])
qed (auto simp: demo_wait_def demo_W_def demo_B_def zero_thread_def can_wake_def)

lemma demo_one_each: "one_each (demo_wait k ty key) (demo_W e)"
  by (auto simp: one_each_def demo_W_def)

lemma demo_okind: "okind (obj (demo_wait k ty key) 5) = k"
  by (simp add: demo_wait_def)

lemmas demo_wait_facts = demo_wait_inv demo_one_each demo_okind

lemma set_event_correct_witness:
  "let s = demo_wait (OEvent False) WAIT_ANY 0;
       rs = ready_blocks (set_signaled 5 True s) demo_B (demo_W 5);
       T = threads_of s (if False then rs else take 1 rs) in
    \<exists>s'. set_event 5 s = Some s' \<and> wait_inv s' (purge s T demo_W) (unblock T demo_B) \<and>
      rframe T (set_signaled 5 (False \<or> rs = []) s) s'"
  using set_event_correct [OF demo_wait_facts] unfolding Let_def .

lemma release_sem_correct_witness:
  "let s = demo_wait (OSem 0) WAIT_ANY 0;
       bs = take (unat (0 + 2 :: u32)) (ready_blocks (set_signaled 5 True s) demo_B (demo_W 5));
       n' = 0 + 2 - of_nat (length bs); T = threads_of s bs in
    unat n' + length bs = unat (0 :: u32) + unat (2 :: u32) \<and>
    (\<exists>s'. release_sem 5 2 s = Some (0, s') \<and> wait_inv s' (purge s T demo_W) (unblock T demo_B) \<and>
      rframe T (set_signaled 5 (n' > 0) (set_count 5 n' s)) s')"
  unfolding Let_def
  by (rule release_sem_correct [OF demo_wait_facts, unfolded Let_def]) simp_all

lemma release_mutex_correct_witness:
  "let s = demo_wait (OMutex (Some 0) 1) WAIT_ANY 0;
       s1 = upd_obj 5 (\<lambda>x. x\<lparr>okind := OMutex None (1 - 1), signaled := True\<rparr>) s;
       rs = ready_blocks s1 demo_B (demo_W 5) in
    if Some 0 \<noteq> Some (current s) then release_mutex 5 s = Some (- EPERM, s)
    else if 1 > (1::int) then release_mutex 5 s = Some (0, upd_obj 5 (\<lambda>x. x\<lparr>okind := OMutex (Some 0) (1 - 1)\<rparr>) s)
    else
      case rs of
        [] \<Rightarrow> \<exists>s'. release_mutex 5 s = Some (0, s') \<and> wait_inv s' demo_W demo_B \<and> rframe {} s1 s'
      | b # _ \<Rightarrow> let t = wb_thread (wb s b) in
          \<exists>s'. release_mutex 5 s = Some (0, s') \<and> wait_inv s' (purge s {t} demo_W) (unblock {t} demo_B) \<and>
            rframe {t} (upd_obj 5 (\<lambda>x. x\<lparr>okind := OMutex (Some t) 1, signaled := False\<rparr>) s) s'"
  using release_mutex_correct [OF demo_wait_inv demo_okind] unfolding Let_def .

lemma close_object_releases_all_witness:
  "let s = demo_wait OFilemap WAIT_ALL 0; T = threads_of s (demo_W 5) in
    \<exists>s'. close_object (\<lambda>_ s. Some (0, s)) 5 s = Some (0, s') \<and> wait_inv s' (purge s T demo_W) (unblock T demo_B) \<and>
      purge s T demo_W 5 = [] \<and> rframe T s s' \<and> (\<forall>t. t \<in> T \<longrightarrow> waitkey (thr s' t) = - EINTR)"
  unfolding Let_def
  by (rule close_object_releases_all [OF demo_wait_inv demo_one_each, unfolded Let_def]) (simp add: demo_okind)

lemma exit_thread_correct_witness:
  "let s = demo_wait (OThread 0) WAIT_ANY 0; T = threads_of s (ready_blocks (set_signaled 5 True s) demo_B (demo_W 5)) in
    \<exists>s'. exit_thread 5 0 s = Some s' \<and> wait_inv s' (purge s T demo_W) (unblock T demo_B) \<and>
      rframe T (set_signaled 5 True s) s' \<and> (\<forall>u. u \<in> T \<longrightarrow> waitkey (thr s' u) = exitcode (thr s 0))"
  using exit_thread_correct [OF demo_wait_inv demo_one_each] unfolding Let_def .

lemma expire_waitable_timer_key_witness:
  "let s = demo_wait (OTimer 3) WAIT_ANY (- ETIMEOUT) in
    \<exists>s'. expire_waitable_timer 5 s = Some s' \<and> woken (thr s' (wb_thread (wb s 9))) \<and>
    waitkey (thr s' (wb_thread (wb s 9))) = 0"
  unfolding Let_def
  by (rule expire_waitable_timer_key [OF demo_wait_inv demo_one_each]) (simp_all add: demo_wait_def demo_W_def)

lemma pulse_event_never_returns_witness:
  "pulse_event 5 (demo_wait (OEvent True) WAIT_ALL 0) = None"
  by (rule pulse_event_never_returns [OF demo_wait_inv, of _ 9 "[]"])
    (simp_all add: demo_wait_def demo_W_def demo_B_def ready_def sig_def set_signaled_def upd_obj_def)

text \<open>Thread 1 runs, before its wait for the events 5 and 6 and when a signal has interrupted it.\<close>

definition demo_calm :: ksys where
  "demo_calm =
     \<lparr>thr = (\<lambda>_. zero_thread)(1 := zero_thread\<lparr>t_state := RUNNING\<rparr>),
      current = 1, preempt_flag = False, ready_head = (\<lambda>_. None), ready_tail = (\<lambda>_. None), summary = 0,
      obj = (\<lambda>_. \<lparr>okind = OEvent True, signaled = False, handle_count = 0, lock_count = 0, waitlist_head = None, waitlist_tail = None\<rparr>),
      wb = (\<lambda>_. \<lparr>wb_thread = 0, wb_object = None, waittype = WAIT_ANY, wb_waitkey = 0, wb_next = None, next_wait = None, prev_wait = None\<rparr>),
      wheel = idle_wheel, ticks = 0\<rparr>"

definition demo_interrupted :: ksys where
  "demo_interrupted = (demo_wait (OEvent True) WAIT_ANY 0)
     \<lparr>thr := (\<lambda>_. zero_thread)(1 := zero_thread\<lparr>t_state := RUNNING, waitlist := Some 9, tflags := THREAD_ALERTABLE OR THREAD_INTERRUPTED\<rparr>),
      current := 1, wheel := idle_wheel\<rparr>"

lemma demo_calm_inv: "wait_inv demo_calm (\<lambda>_. []) (\<lambda>_. [])"
proof -
  have "sched_inv demo_calm (\<lambda>_. [])"
    unfolding sched_inv_def queues_def by (auto simp: demo_calm_def zero_thread_def split: if_splits)
  then show ?thesis by (auto simp: wait_inv_def waitlists_def demo_calm_def dll_def zero_thread_def)
qed

lemma demo_interrupted_inv: "wait_inv demo_interrupted demo_W demo_B"
  unfolding wait_inv_def
proof (intro conjI)
  show "waitlists demo_interrupted demo_W"
    using wait_invD(1) [OF demo_wait_inv, of "OEvent True" WAIT_ANY 0] by (simp add: waitlists_def demo_interrupted_def)
  have "sched_inv demo_interrupted (\<lambda>_. [])"
    unfolding sched_inv_def queues_def by (auto simp: demo_interrupted_def demo_wait_def zero_thread_def split: if_splits)
  then show "\<exists>q. sched_inv demo_interrupted q" by blast
  show "\<forall>t. \<forall>b \<in> set (demo_B t). wb_thread (wb demo_interrupted b) = t \<and> (\<exists>o1. b \<in> set (demo_W o1))"
    by (auto simp: demo_interrupted_def demo_wait_def demo_W_def demo_B_def intro: exI [where x = 5])
qed (auto simp: demo_interrupted_def demo_wait_def demo_W_def demo_B_def zero_thread_def can_wake_def)

lemma interrupted_wait_restores_witness:
  "(\<exists>s'. wait_for_any_object Ret (\<lambda>_ s. (0, s)) [11, 12] 13 7 4 [5, 6] 200 True
      (demo_wait (OEvent True) WAIT_ANY 0) = Some (Returned (- EINTR) s') \<and> wait_inv s' demo_W demo_B \<and>
      disarmed (Some 4) idle_wheel (wheel s')) \<and>
   (\<exists>v'. wait_finish True (Some 4) demo_interrupted = Some (- EINTR, v') \<and> wait_inv v' (\<lambda>_. []) (\<lambda>_. []) \<and>
      disarmed (Some 4) idle_wheel (wheel v'))"
proof
  have tm: "wait_timer 4 200 = Some 4" by (simp add: wait_timer_def INFINITE_def)
  let ?s = "demo_wait (OEvent True) WAIT_ANY 0"
  have e: "enter_first (\<lambda>_ s. (0, s)) 0 [5, 6] 0 ?s = None" "enter_first (\<lambda>_ s. (0, s)) 1 [5, 6] 0 demo_calm = None"
    by (simp_all add: demo_wait_def demo_calm_def owned_by_def)
  have d: "current ?s = 0" "t_state (thr ?s 0) = RUNNING" "signals_ready (thr ?s 0)" "wheel ?s = idle_wheel"
    "current demo_calm = 1" "t_state (thr demo_calm 1) = RUNNING" "\<not> signals_ready (thr demo_calm 1)" "wheel demo_calm = idle_wheel"
    by (simp_all add: demo_wait_def demo_calm_def signals_ready_def zero_thread_def)
  have "let call = wait_for_any_object Ret (\<lambda>_ s. (0, s)) [11, 12] 13 7 4 [5, 6] 200 True ?s in
      \<exists>s'. call = Some (Returned (- EINTR) s') \<and> wait_inv s' demo_W demo_B \<and> disarmed (wait_timer 4 200) (wheel ?s) (wheel s')"
    using interrupted_wait_restores [OF demo_wait_inv, of 0 "OEvent True" WAIT_ANY 0 "[5, 6]" "[11, 12]" 13 4 7 "\<lambda>_ s. (0, s)" 200 Ret]
      d e by (simp add: Let_def idle_wheel_ok MAX_WAIT_OBJECTS_def demo_W_def demo_B_def)
  then show "\<exists>s'. wait_for_any_object Ret (\<lambda>_ s. (0, s)) [11, 12] 13 7 4 [5, 6] 200 True ?s = Some (Returned (- EINTR) s') \<and>
      wait_inv s' demo_W demo_B \<and> disarmed (Some 4) idle_wheel (wheel s')"
    unfolding Let_def tm d(4) .
  have i: "current demo_interrupted = 1" "t_state (thr demo_interrupted 1) = RUNNING" "wheel demo_interrupted = idle_wheel"
    "tflags (thr demo_interrupted 1) AND THREAD_INTERRUPTED \<noteq> 0"
    by (simp_all add: demo_interrupted_def THREAD_ALERTABLE_def THREAD_INTERRUPTED_def)
  have p: "purge demo_interrupted {1} demo_W = (\<lambda>_. [])" "unblock {1} demo_B = (\<lambda>_. [])"
    by (auto simp: purge_def unblock_def demo_W_def demo_B_def demo_interrupted_def demo_wait_def fun_eq_iff)
  have "\<forall>v W1 B1. wait_inv v W1 B1 \<and> timers_ok (wheel v) \<and> current v = 1 \<and> t_state (thr v 1) = RUNNING \<and>
      tflags (thr v 1) AND THREAD_INTERRUPTED \<noteq> 0 \<longrightarrow>
      (\<exists>v'. wait_finish True (wait_timer 4 200) v = Some (- EINTR, v') \<and> wait_inv v' (purge v {1} W1) (unblock {1} B1) \<and>
        disarmed (wait_timer 4 200) (wheel v) (wheel v'))"
    using interrupted_wait_restores [OF demo_calm_inv, of 1 "[5, 6]" "[11, 12]" 13 4 7 "\<lambda>_ s. (0, s)" 200 Ret]
      d e by (simp add: Let_def idle_wheel_ok MAX_WAIT_OBJECTS_def) (elim conjE, assumption)
  then show "\<exists>v'. wait_finish True (Some 4) demo_interrupted = Some (- EINTR, v') \<and> wait_inv v' (\<lambda>_. []) (\<lambda>_. []) \<and>
      disarmed (Some 4) idle_wheel (wheel v')"
    using demo_interrupted_inv i idle_wheel_ok(1) p tm by metis
qed

end
