(* ===== verification/Hndl.thy ===== *)
theory Hndl
  imports Signal
begin

text \<open>
  The handle manager (\<^verbatim>\<open>src/sys/krnl/hndl.c\<close>): the table that maps handles to kernel objects, with the
  free entries in a list threaded through the table, and the reference counts that decide
  when an object is closed and destroyed. An entry is a 32-bit word: the address of an object,
  which is in the kernel half and therefore has bit 31 set, with bit 0 for protection, or the
  index of the next free entry. An object of the object manager is named by its address. The
  page frames behind the table (\<^verbatim>\<open>alloc_pageframe\<close>, \<^verbatim>\<open>map_page\<close>) are not part of the state. A call
  that does not return is \<open>None\<close>.
\<close>

record hsys = ksys +
  htab :: "nat \<Rightarrow> u32"
  hfreelist :: u32
  htabsize :: nat

definition OSBASE :: u32 where "OSBASE = 0x80000000"
definition HPROTECT :: u32 where "HPROTECT = 1"
definition HEND :: u32 where "HEND = 0x7FFFFFFF"
definition HTABSIZE :: nat where "HTABSIZE = 0x01000000"
definition HANDLES_PER_PAGE :: nat where "HANDLES_PER_PAGE = 1024"

definition HOBJ :: "u32 \<Rightarrow> u32" where "HOBJ x = x AND NOT HPROTECT"
definition HPROT :: "u32 \<Rightarrow> bool" where "HPROT x \<longleftrightarrow> x AND HPROTECT \<noteq> 0"
definition HUSED :: "u32 \<Rightarrow> bool" where "HUSED x \<longleftrightarrow> x AND OSBASE \<noteq> 0"

section \<open>Operations\<close>

text \<open>The loop from the last handle of the new page down to the first; \<open>k\<close> are left.\<close>

primrec expand_loop :: "nat \<Rightarrow> 'z hsys_scheme \<Rightarrow> 'z hsys_scheme" where
  "expand_loop 0 s = s"
| "expand_loop (Suc k) s =
     (let h = htabsize s + k in
      expand_loop k (s\<lparr>htab := (htab s)(h := hfreelist s), hfreelist := of_nat h\<rparr>))"

definition expand_htab :: "'z hsys_scheme \<Rightarrow> int \<times> 'z hsys_scheme" where
  "expand_htab s =
     (if htabsize s = HTABSIZE div 4 then (- ENFILE, s)
      else
        let s1 = expand_loop HANDLES_PER_PAGE s in
        (0, s1\<lparr>htabsize := htabsize s1 + HANDLES_PER_PAGE\<rparr>))"

text \<open>The loop of \<^verbatim>\<open>remove_from_freelist\<close> never moves \<^verbatim>\<open>fl\<close> on.\<close>

partial_function (option) freelist_loop :: "u32 \<Rightarrow> u32 \<Rightarrow> 'z hsys_scheme \<Rightarrow> (int \<times> 'z hsys_scheme) option" where
  "freelist_loop h fl s =
     (if fl \<noteq> HEND then
        if htab s (unat fl) = h then Some (0, s\<lparr>htab := (htab s)(unat fl := htab s (unat h))\<rparr>)
        else freelist_loop h fl s
      else Some (- EBADF, s))"

definition remove_from_freelist :: "u32 \<Rightarrow> 'z hsys_scheme \<Rightarrow> (int \<times> 'z hsys_scheme) option" where
  "remove_from_freelist h s =
     (if h = hfreelist s then Some (0, s\<lparr>hfreelist := htab s (unat h)\<rparr>)
      else freelist_loop h (hfreelist s) s)"

definition hlookup :: "u32 \<Rightarrow> 'z hsys_scheme \<Rightarrow> u32 option" where
  "hlookup h s =
     (if sint h < 0 \<or> sint h \<ge> int (htabsize s) then None
      else if \<not> HUSED (htab s (unat h)) then None
      else Some (HOBJ (htab s (unat h))))"

definition add_ref :: "u32 \<Rightarrow> 'z hsys_scheme \<Rightarrow> 'z hsys_scheme" where
  "add_ref p s = upd_obj (unat p) (\<lambda>x. x\<lparr>handle_count := handle_count x + 1\<rparr>) s"

definition drop_ref :: "u32 \<Rightarrow> 'z hsys_scheme \<Rightarrow> 'z hsys_scheme" where
  "drop_ref p s = upd_obj (unat p) (\<lambda>x. x\<lparr>handle_count := handle_count x - 1\<rparr>) s"

definition halloc :: "u32 \<Rightarrow> 'z hsys_scheme \<Rightarrow> int \<times> 'z hsys_scheme" where
  "halloc p s =
     (let (rc, s) = (if hfreelist s = HEND then expand_htab s else (0, s)) in
      if rc < 0 then (rc, s)
      else
        let h = hfreelist s;
            s = s\<lparr>hfreelist := htab s (unat h)\<rparr>;
            s = s\<lparr>htab := (htab s)(unat h := p)\<rparr> in
        (sint h, add_ref p s))"

text \<open>
  The last reference to an object is gone: it is closed and, unless it is locked, destroyed.
  What \<^verbatim>\<open>close_object\<close> and \<^verbatim>\<open>destroy_object\<close> call for files, sockets and threads is passed on.
\<close>

type_synonym 'z objop = "nat \<Rightarrow> 'z hsys_scheme \<Rightarrow> (int \<times> 'z hsys_scheme) option"

definition close_and_destroy :: "'z objop \<Rightarrow> 'z objop \<Rightarrow> u32 \<Rightarrow> 'z hsys_scheme \<Rightarrow> (int \<times> 'z hsys_scheme) option" where
  "close_and_destroy closer destroyer p s =
     do {
       (rc, s) \<leftarrow> close_object closer (unat p) s;
       s \<leftarrow> (if lock_count (obj s (unat p)) = 0 then do { (_, s) \<leftarrow> destroy_object destroyer (unat p) s; Some s } else Some s);
       Some (rc, s)
     }"

partial_function (option) expand_to :: "u32 \<Rightarrow> 'z hsys_scheme \<Rightarrow> (int \<times> 'z hsys_scheme) option" where
  "expand_to h s =
     (if int (htabsize s) \<le> sint h then
        case expand_htab s of (rc, s) \<Rightarrow> if rc < 0 then Some (rc, s) else expand_to h s
      else Some (0, s))"

definition hassign :: "'z objop \<Rightarrow> 'z objop \<Rightarrow> u32 \<Rightarrow> u32 \<Rightarrow> 'z hsys_scheme \<Rightarrow> (int \<times> 'z hsys_scheme) option" where
  "hassign closer destroyer p h s =
     (if unat h > HTABSIZE div 4 then Some (- EBADF, s)
      else do {
        (rc, s) \<leftarrow> expand_to h s;
        if rc < 0 then Some (rc, s)
        else do {
          (rc, s) \<leftarrow>
            (let e = htab s (unat h) in
             if \<not> HUSED e then remove_from_freelist h s
             else if HPROT e then Some (- EACCES, s)
             else
               let oo = HOBJ e; s = drop_ref oo s in
               if handle_count (obj s (unat oo)) = 0 then close_and_destroy closer destroyer oo s else Some (0, s));
          if rc < 0 then Some (rc, s)
          else Some (0, add_ref p (s\<lparr>htab := (htab s)(unat h := p)\<rparr>))
        }
      })"

definition hfree :: "'z objop \<Rightarrow> 'z objop \<Rightarrow> u32 \<Rightarrow> 'z hsys_scheme \<Rightarrow> (int \<times> 'z hsys_scheme) option" where
  "hfree closer destroyer h s =
     (case hlookup h s of
        None \<Rightarrow> Some (- EBADF, s)
      | Some p \<Rightarrow>
          if HPROT (htab s (unat h)) then Some (- EACCES, s)
          else
            let s = s\<lparr>htab := (htab s)(unat h := hfreelist s)\<rparr>;
                s = s\<lparr>hfreelist := h\<rparr>;
                s = drop_ref p s in
            if handle_count (obj s (unat p)) > 0 then Some (0, s)
            else close_and_destroy closer destroyer p s)"

definition hprotect :: "u32 \<Rightarrow> 'z hsys_scheme \<Rightarrow> int \<times> 'z hsys_scheme" where
  "hprotect h s =
     (if hlookup h s = None then (- EBADF, s)
      else (0, s\<lparr>htab := (htab s)(unat h := htab s (unat h) OR HPROTECT)\<rparr>))"

definition hunprotect :: "u32 \<Rightarrow> 'z hsys_scheme \<Rightarrow> int \<times> 'z hsys_scheme" where
  "hunprotect h s =
     (if hlookup h s = None then (- EBADF, s)
      else (0, s\<lparr>htab := (htab s)(unat h := htab s (unat h) AND NOT HPROTECT)\<rparr>))"

text \<open>The type argument of \<^verbatim>\<open>olock\<close> is a test on the kind of the object, which is true for \<open>OBJECT_ANY\<close>.\<close>

definition olock :: "u32 \<Rightarrow> (okind \<Rightarrow> bool) \<Rightarrow> 'z hsys_scheme \<Rightarrow> u32 option \<times> 'z hsys_scheme" where
  "olock h is_type s =
     (case hlookup h s of
        None \<Rightarrow> (None, s)
      | Some p \<Rightarrow>
          if \<not> is_type (okind (obj s (unat p))) then (None, s)
          else if handle_count (obj s (unat p)) = 0 then (None, s)
          else (Some p, upd_obj (unat p) (\<lambda>x. x\<lparr>lock_count := lock_count x + 1\<rparr>) s))"

definition orel :: "'z objop \<Rightarrow> u32 \<Rightarrow> 'z hsys_scheme \<Rightarrow> (int \<times> 'z hsys_scheme) option" where
  "orel destroyer p s =
     (let s = upd_obj (unat p) (\<lambda>x. x\<lparr>lock_count := lock_count x - 1\<rparr>) s in
      if lock_count (obj s (unat p)) = 0 \<and> handle_count (obj s (unat p)) = 0 then destroy_object destroyer (unat p) s
      else Some (0, s))"

end
