(* ===== verification/Iomux.thy ===== *)
theory Iomux
  imports Hndl "HOL-Library.Signed_Division"
begin

text \<open>
  I/O multiplexing (\<^verbatim>\<open>src/src/sys/krnl/iomux.c\<close>): files and sockets carry the events that are signaled
  for them; a multiplexer keeps the objects attached to it in a ready and a waiting queue and
  gives the context of a ready object to each thread that waits for it. \<^verbatim>\<open>select\<close> and \<^verbatim>\<open>poll\<close> build
  a multiplexer on the stack. An I/O object and a multiplexer are named by the address of the
  object at their start, so that \<open>obj\<close> holds their first field. A call that does not return, or
  that follows a null pointer, is \<open>None\<close>.
\<close>

section \<open>State\<close>

record ioobject =
  iob_iomux :: ptr
  iob_context :: int
  iob_next :: ptr
  iob_prev :: ptr
  events_signaled :: u16
  events_monitored :: u16

record iomux =
  mux_flags :: u32
  mux_ready_head :: ptr
  mux_ready_tail :: ptr
  mux_waiting_head :: ptr
  mux_waiting_tail :: ptr

record iosys = hsys +
  iob :: "nat \<Rightarrow> ioobject"
  mux :: "nat \<Rightarrow> iomux"

definition IOEVT_READ :: u16 where "IOEVT_READ = 0x0001"
definition IOEVT_WRITE :: u16 where "IOEVT_WRITE = 0x0002"
definition IOEVT_ERROR :: u16 where "IOEVT_ERROR = 0x0004"
definition IOEVT_ACCEPT :: u16 where "IOEVT_ACCEPT = 0x0008"
definition IOEVT_CONNECT :: u16 where "IOEVT_CONNECT = 0x0010"
definition IOEVT_CLOSE :: u16 where "IOEVT_CLOSE = 0x0020"
definition POLLIN :: u16 where "POLLIN = 0x0001"
definition POLLOUT :: u16 where "POLLOUT = 0x0004"
definition POLLERR :: u16 where "POLLERR = 0x0008"
definition POLLHUP :: u16 where "POLLHUP = 0x0010"
definition POLLNVAL :: u16 where "POLLNVAL = 0x0020"

definition upd_iob :: "nat \<Rightarrow> (ioobject \<Rightarrow> ioobject) \<Rightarrow> 'z iosys_scheme \<Rightarrow> 'z iosys_scheme" where
  "upd_iob i f s = s\<lparr>iob := (iob s)(i := f (iob s i))\<rparr>"

definition upd_iob_opt :: "ptr \<Rightarrow> (ioobject \<Rightarrow> ioobject) \<Rightarrow> 'z iosys_scheme \<Rightarrow> 'z iosys_scheme" where
  "upd_iob_opt p f s = (case p of None \<Rightarrow> s | Some i \<Rightarrow> upd_iob i f s)"

definition upd_mux :: "nat \<Rightarrow> (iomux \<Rightarrow> iomux) \<Rightarrow> 'z iosys_scheme \<Rightarrow> 'z iosys_scheme" where
  "upd_mux x f s = s\<lparr>mux := (mux s)(x := f (mux s x))\<rparr>"

definition ISIOOBJECT :: "nat \<Rightarrow> 'z iosys_scheme \<Rightarrow> bool" where
  "ISIOOBJECT i s \<longleftrightarrow> okind (obj s i) = OSocket \<or> okind (obj s i) = OFile"

text \<open>Some monitored event is signaled: the object belongs into the ready queue.\<close>

definition iob_ready :: "ioobject \<Rightarrow> bool" where
  "iob_ready x \<longleftrightarrow> events_monitored x AND events_signaled x \<noteq> 0"

section \<open>Queues\<close>

definition ready_append :: "nat \<Rightarrow> nat \<Rightarrow> 'z iosys_scheme \<Rightarrow> 'z iosys_scheme" where
  "ready_append x i s =
     (let s = upd_iob i (\<lambda>o1. o1\<lparr>iob_next := None, iob_prev := mux_ready_tail (mux s x)\<rparr>) s;
          s = upd_iob_opt (mux_ready_tail (mux s x)) (\<lambda>o1. o1\<lparr>iob_next := Some i\<rparr>) s;
          s = upd_mux x (\<lambda>m. m\<lparr>mux_ready_tail := Some i\<rparr>) s in
      if mux_ready_head (mux s x) = None then upd_mux x (\<lambda>m. m\<lparr>mux_ready_head := Some i\<rparr>) s else s)"

definition waiting_append :: "nat \<Rightarrow> nat \<Rightarrow> 'z iosys_scheme \<Rightarrow> 'z iosys_scheme" where
  "waiting_append x i s =
     (let s = upd_iob i (\<lambda>o1. o1\<lparr>iob_next := None, iob_prev := mux_waiting_tail (mux s x)\<rparr>) s;
          s = upd_iob_opt (mux_waiting_tail (mux s x)) (\<lambda>o1. o1\<lparr>iob_next := Some i\<rparr>) s;
          s = upd_mux x (\<lambda>m. m\<lparr>mux_waiting_tail := Some i\<rparr>) s in
      if mux_waiting_head (mux s x) = None then upd_mux x (\<lambda>m. m\<lparr>mux_waiting_head := Some i\<rparr>) s else s)"

definition unlink_iob :: "nat \<Rightarrow> 'z iosys_scheme \<Rightarrow> 'z iosys_scheme" where
  "unlink_iob i s =
     (let s = upd_iob_opt (iob_next (iob s i)) (\<lambda>o1. o1\<lparr>iob_prev := iob_prev (iob s i)\<rparr>) s in
      upd_iob_opt (iob_prev (iob s i)) (\<lambda>o1. o1\<lparr>iob_next := iob_next (iob s i)\<rparr>) s)"

definition waiting_remove :: "nat \<Rightarrow> nat \<Rightarrow> 'z iosys_scheme \<Rightarrow> 'z iosys_scheme" where
  "waiting_remove x i s =
     (let s = (if mux_waiting_head (mux s x) = Some i then upd_mux x (\<lambda>m. m\<lparr>mux_waiting_head := iob_next (iob s i)\<rparr>) s else s) in
      if mux_waiting_tail (mux s x) = Some i then upd_mux x (\<lambda>m. m\<lparr>mux_waiting_tail := iob_prev (iob s i)\<rparr>) s else s)"

definition ready_remove :: "nat \<Rightarrow> nat \<Rightarrow> 'z iosys_scheme \<Rightarrow> 'z iosys_scheme" where
  "ready_remove x i s =
     (let s = (if mux_ready_head (mux s x) = Some i then upd_mux x (\<lambda>m. m\<lparr>mux_ready_head := iob_next (iob s i)\<rparr>) s else s) in
      if mux_ready_tail (mux s x) = Some i then upd_mux x (\<lambda>m. m\<lparr>mux_ready_tail := iob_prev (iob s i)\<rparr>) s else s)"

section \<open>Multiplexers and their objects\<close>

definition detach_ioobject :: "nat \<Rightarrow> 'z iosys_scheme \<Rightarrow> 'z iosys_scheme" where
  "detach_ioobject i s =
     (case iob_iomux (iob s i) of
        None \<Rightarrow> s
      | Some x \<Rightarrow>
          let s = unlink_iob i s;
              s = (if iob_ready (iob s i) then
                     let s = ready_remove x i s in
                     if mux_ready_head (mux s x) = None then set_signaled x False s else s
                   else waiting_remove x i s) in
          upd_iob i (\<lambda>o1. o1\<lparr>iob_iomux := None, iob_next := None, iob_prev := None\<rparr>) s)"

text \<open>Both cursors of the loop move on: the ready object to the new first one, the wait block to the next.\<close>

partial_function (option) release_loop :: "nat \<Rightarrow> ptr \<Rightarrow> ptr \<Rightarrow> 'z iosys_scheme \<Rightarrow> 'z iosys_scheme option" where
  "release_loop x pi pw s =
     (case (pi, pw) of
        (Some i, Some b) \<Rightarrow>
          do {
            (r, s1) \<leftarrow> thread_ready_to_run (wb_thread (wb s b)) s;
            if r then
              do {
                s2 \<leftarrow> release_thread (wb_thread (wb s b))
                  (detach_ioobject i (upd_thread (wb_thread (wb s b)) (\<lambda>t. t\<lparr>waitkey := iob_context (iob s1 i)\<rparr>) s1));
                release_loop x (mux_ready_head (mux s2 x)) (next_wait (wb s b)) s2
              }
            else release_loop x (Some i) (next_wait (wb s b)) s1
          }
      | _ \<Rightarrow> Some s)"

definition release_waiting_threads :: "nat \<Rightarrow> 'z iosys_scheme \<Rightarrow> 'z iosys_scheme option" where
  "release_waiting_threads x s = release_loop x (mux_ready_head (mux s x)) (waitlist_head (obj s x)) s"

definition init_iomux :: "nat \<Rightarrow> u32 \<Rightarrow> 'z iosys_scheme \<Rightarrow> 'z iosys_scheme" where
  "init_iomux x flags s =
     upd_mux x (\<lambda>_. \<lparr>mux_flags = flags, mux_ready_head = None, mux_ready_tail = None,
       mux_waiting_head = None, mux_waiting_tail = None\<rparr>) (init_object x OIomux s)"

partial_function (option) close_iomux_loop :: "ptr \<Rightarrow> 'z iosys_scheme \<Rightarrow> 'z iosys_scheme option" where
  "close_iomux_loop p s =
     (case p of
        None \<Rightarrow> Some s
      | Some i \<Rightarrow> close_iomux_loop (iob_next (iob s i)) (upd_iob i (\<lambda>o1. o1\<lparr>iob_iomux := None, iob_next := None, iob_prev := None\<rparr>) s))"

definition close_iomux :: "nat \<Rightarrow> 'z iosys_scheme \<Rightarrow> (int \<times> 'z iosys_scheme) option" where
  "close_iomux x s =
     do {
       s1 \<leftarrow> close_iomux_loop (mux_ready_head (mux s x)) s;
       s2 \<leftarrow> close_iomux_loop (mux_waiting_head (mux s1 x)) s1;
       Some (0, s2)
     }"

definition queue_ioobject :: "nat \<Rightarrow> nat \<Rightarrow> u32 \<Rightarrow> int \<Rightarrow> 'z iosys_scheme \<Rightarrow> (int \<times> 'z iosys_scheme) option" where
  "queue_ioobject x i events context s =
     (if \<not> ISIOOBJECT i s then Some (- EBADF, s)
      else if events = 0 then Some (- EINVAL, s)
      else if iob_iomux (iob s i) \<noteq> None \<and> iob_iomux (iob s i) \<noteq> Some x then Some (- EPERM, s)
      else
        let events = (if iob_iomux (iob s i) \<noteq> None then events OR ucast (events_monitored (iob s i)) else events);
            s = (if iob_iomux (iob s i) \<noteq> None then detach_ioobject i s else s);
            s = upd_iob i (\<lambda>o1. o1\<lparr>iob_iomux := Some x, events_monitored := ucast events, iob_context := context\<rparr>) s;
            s = (if iob_ready (iob s i) then set_signaled x True (ready_append x i s) else waiting_append x i s) in
        do {
          s \<leftarrow> (if signaled (obj s i) then release_waiting_threads x s else Some s);
          Some (0, s)
        })"

definition init_ioobject :: "nat \<Rightarrow> okind \<Rightarrow> 'z iosys_scheme \<Rightarrow> 'z iosys_scheme" where
  "init_ioobject i k s =
     upd_iob i (\<lambda>_. \<lparr>iob_iomux = None, iob_context = 0, iob_next = None, iob_prev = None,
       events_signaled = 0, events_monitored = 0\<rparr>) (init_object i k s)"

definition set_io_event :: "nat \<Rightarrow> u16 \<Rightarrow> 'z iosys_scheme \<Rightarrow> 'z iosys_scheme option" where
  "set_io_event i events s =
     (let s1 = upd_iob i (\<lambda>o1. o1\<lparr>events_signaled := events_signaled o1 OR events\<rparr>) s in
      case iob_iomux (iob s i) of
        Some x \<Rightarrow>
          if \<not> iob_ready (iob s i) \<and> events_monitored (iob s i) AND events \<noteq> 0 then
            release_waiting_threads x (set_signaled x True (ready_append x i (waiting_remove x i (unlink_iob i s1))))
          else Some s1
      | None \<Rightarrow>
          if events_signaled (iob s1 i) AND IOEVT_READ \<noteq> 0 then release_waiters i 0 (set_signaled i True s1)
          else Some s1)"

definition clear_io_event :: "nat \<Rightarrow> u16 \<Rightarrow> 'z iosys_scheme \<Rightarrow> 'z iosys_scheme" where
  "clear_io_event i events s =
     (let s = upd_iob i (\<lambda>o1. o1\<lparr>events_signaled := events_signaled o1 AND NOT events\<rparr>) s in
      if events_signaled (iob s i) AND IOEVT_READ = 0 then set_signaled i False s else s)"

definition dequeue_event_from_iomux :: "nat \<Rightarrow> 'z iosys_scheme \<Rightarrow> int \<times> 'z iosys_scheme" where
  "dequeue_event_from_iomux x s =
     (case mux_ready_head (mux s x) of
        None \<Rightarrow> (- ENOENT, s)
      | Some i \<Rightarrow> let s = detach_ioobject i s in (iob_context (iob s i), s))"

section \<open>select\<close>

record fd_set =
  fd_count :: u32
  fd :: "nat \<Rightarrow> u32"

text \<open>The loop of \<^verbatim>\<open>check_fds\<close>: \<open>k\<close> descriptors are left, the next one is number \<open>n\<close>.\<close>

primrec check_fds_loop ::
  "'z iosys_ext objop \<Rightarrow> u16 \<Rightarrow> nat \<Rightarrow> nat \<Rightarrow> nat \<Rightarrow> fd_set \<Rightarrow> 'z iosys_scheme \<Rightarrow> (int \<times> fd_set \<times> 'z iosys_scheme) option" where
  "check_fds_loop destroyer evts 0 n matches fds s = Some (int matches, fds, s)"
| "check_fds_loop destroyer evts (Suc k) n matches fds s =
     (case olock (fd fds n) (\<lambda>_. True) s of
        (None, s) \<Rightarrow> Some (- EBADF, fds, s)
      | (Some p, s) \<Rightarrow>
          if \<not> ISIOOBJECT (unat p) s then do { (_, s) \<leftarrow> orel destroyer p s; Some (- EBADF, fds, s) }
          else
            let hit = events_signaled (iob s (unat p)) AND evts \<noteq> 0;
                fds = (if hit then fds\<lparr>fd := (fd fds)(matches := fd fds n)\<rparr> else fds) in
            do {
              (_, s) \<leftarrow> orel destroyer p s;
              check_fds_loop destroyer evts k (Suc n) (if hit then Suc matches else matches) fds s
            })"

definition check_fds ::
  "'z iosys_ext objop \<Rightarrow> u16 \<Rightarrow> fd_set option \<Rightarrow> 'z iosys_scheme \<Rightarrow> (int \<times> fd_set option \<times> 'z iosys_scheme) option" where
  "check_fds destroyer evts pfds s =
     (case pfds of
        None \<Rightarrow> Some (0, None, s)
      | Some fds \<Rightarrow>
          do { (n, fds, s) \<leftarrow> check_fds_loop destroyer evts (unat (fd_count fds)) 0 0 fds s; Some (n, Some fds, s) })"

primrec add_fds_loop ::
  "'z iosys_ext objop \<Rightarrow> nat \<Rightarrow> u16 \<Rightarrow> nat \<Rightarrow> nat \<Rightarrow> fd_set \<Rightarrow> 'z iosys_scheme \<Rightarrow> (int \<times> 'z iosys_scheme) option" where
  "add_fds_loop destroyer x evts 0 n fds s = Some (0, s)"
| "add_fds_loop destroyer x evts (Suc k) n fds s =
     (case olock (fd fds n) (\<lambda>_. True) s of
        (None, s) \<Rightarrow> Some (- EBADF, s)
      | (Some p, s) \<Rightarrow>
          if \<not> ISIOOBJECT (unat p) s then do { (_, s) \<leftarrow> orel destroyer p s; Some (- EBADF, s) }
          else
            do {
              (rc, s) \<leftarrow> queue_ioobject x (unat p) (ucast evts) 0 s;
              if rc < 0 then Some (rc, s)
              else do { (_, s) \<leftarrow> orel destroyer p s; add_fds_loop destroyer x evts k (Suc n) fds s }
            })"

definition add_fds_to_iomux ::
  "'z iosys_ext objop \<Rightarrow> nat \<Rightarrow> fd_set option \<Rightarrow> u16 \<Rightarrow> 'z iosys_scheme \<Rightarrow> (int \<times> 'z iosys_scheme) option" where
  "add_fds_to_iomux destroyer x pfds evts s =
     (case pfds of None \<Rightarrow> Some (0, s) | Some fds \<Rightarrow> add_fds_loop destroyer x evts (unat (fd_count fds)) 0 fds s)"

definition read_mask :: u16 where "read_mask = IOEVT_READ OR IOEVT_ACCEPT OR IOEVT_CLOSE"
definition write_mask :: u16 where "write_mask = IOEVT_WRITE OR IOEVT_CONNECT"

type_synonym fdsets = "fd_set option \<times> fd_set option \<times> fd_set option"

definition set_fd_count :: "int \<Rightarrow> fd_set option \<Rightarrow> fd_set option" where
  "set_fd_count n = map_option (\<lambda>fds. fds\<lparr>fd_count := of_int n\<rparr>)"

definition check_select ::
  "'z iosys_ext objop \<Rightarrow> fdsets \<Rightarrow> 'z iosys_scheme \<Rightarrow> (int \<times> fdsets \<times> 'z iosys_scheme) option" where
  "check_select destroyer = (\<lambda>(rd, wr, ex) s.
     do {
       (nr, rd, s) \<leftarrow> check_fds destroyer read_mask rd s;
       if nr < 0 then Some (nr, (rd, wr, ex), s)
       else do {
         (nw, wr, s) \<leftarrow> check_fds destroyer write_mask wr s;
         if nw < 0 then Some (nw, (rd, wr, ex), s)
         else do {
           (ne, ex, s) \<leftarrow> check_fds destroyer IOEVT_ERROR ex s;
           if ne < 0 then Some (ne, (rd, wr, ex), s)
           else if nr \<noteq> 0 \<or> nw \<noteq> 0 \<or> ne \<noteq> 0
           then Some (nr + nw + ne, (set_fd_count nr rd, set_fd_count nw wr, set_fd_count ne ex), s)
           else Some (0, (rd, wr, ex), s)
         }
       }
     })"

record timeval =
  tv_sec :: int
  tv_usec :: int

text \<open>What \<^verbatim>\<open>select\<close> does after its wait has ended with \<open>rc\<close>.\<close>

definition select_finish ::
  "'z iosys_ext objop \<Rightarrow> nat \<Rightarrow> int \<Rightarrow> fdsets \<Rightarrow> 'z iosys_scheme \<Rightarrow> (int \<times> fdsets \<times> 'z iosys_scheme) option" where
  "select_finish destroyer x rc sets s =
     (if rc < 0 then do { (_, s) \<leftarrow> close_iomux x s; Some (if rc = - ETIMEOUT then 0 else rc, sets, s) }
      else do {
        (rc, sets, s) \<leftarrow> check_select destroyer sets s;
        let sets = (if rc = 0 then case sets of (rd, wr, ex) \<Rightarrow> (set_fd_count 0 rd, set_fd_count 0 wr, set_fd_count 0 ex) else sets);
        (_, s) \<leftarrow> close_iomux x s;
        Some (rc, sets, s)
      })"

text \<open>The three sets are attached one after the other; after an error the multiplexer is closed.\<close>

definition select_attach ::
  "'z iosys_ext objop \<Rightarrow> nat \<Rightarrow> fdsets \<Rightarrow> 'z iosys_scheme \<Rightarrow> (int \<times> 'z iosys_scheme) option" where
  "select_attach destroyer x = (\<lambda>(rd, wr, ex) s.
     do {
       (rc, s) \<leftarrow> add_fds_to_iomux destroyer x rd read_mask s;
       if rc < 0 then do { (_, s) \<leftarrow> close_iomux x s; Some (rc, s) }
       else do {
         (rc, s) \<leftarrow> add_fds_to_iomux destroyer x wr write_mask s;
         if rc < 0 then do { (_, s) \<leftarrow> close_iomux x s; Some (rc, s) }
         else do {
           (rc, s) \<leftarrow> add_fds_to_iomux destroyer x ex IOEVT_ERROR s;
           if rc < 0 then do { (_, s) \<leftarrow> close_iomux x s; Some (rc, s) } else Some (0, s)
         }
       }
     })"

text \<open>
  \<^verbatim>\<open>select\<close> with its local multiplexer \<open>x\<close>; \<open>b\<close>, \<open>bt\<close>, \<open>ot\<close> and \<open>m\<close> are the local wait blocks, the timer object and the
  timer of the waiting call. When the thread blocks, the call goes on with \<open>select_finish\<close>
  (or returns, if it only slept).
\<close>

definition select ::
  "'z iosys_ext objop \<Rightarrow> ('z iosys_scheme \<Rightarrow> 'z iosys_scheme kres) \<Rightarrow> nat \<Rightarrow> nat \<Rightarrow> nat \<Rightarrow> nat \<Rightarrow> nat \<Rightarrow>
   fdsets \<Rightarrow> timeval option \<Rightarrow> 'z iosys_scheme \<Rightarrow> (fdsets \<times> 'z iosys_scheme) wait option" where
  "select destroyer dpcs x b bt ot m sets timeout s =
     do {
       (rc, sets, s) \<leftarrow> check_select destroyer sets s;
       if rc \<noteq> 0 then Some (Returned rc (sets, s))
       else
         let tmo = (case timeout of None \<Rightarrow> INFINITE | Some tv \<Rightarrow> of_int (tv_sec tv * 1000 + tv_usec tv sdiv 1000)) in
         if tmo = 0 then Some (Returned 0 (sets, s))
         else if timeout \<noteq> None \<and> sets = (None, None, None) then
           do {
             r \<leftarrow> msleep dpcs m tmo s;
             (case r of Returned rc s \<Rightarrow> Some (Returned (if rc > 0 then - EINTR else 0) (sets, s)) | Blocked s \<Rightarrow> Some (Blocked (sets, s)))
           }
         else
           do {
             (rc, s) \<leftarrow> select_attach destroyer x sets (init_iomux x 0 s);
             if rc < 0 then Some (Returned rc (sets, s))
             else
               do {
                 r \<leftarrow> wait_for_object dpcs dequeue_event_from_iomux b bt ot m x tmo s;
                 (case r of
                    Returned rc s \<Rightarrow> do { (rc, sets, s) \<leftarrow> select_finish destroyer x rc sets s; Some (Returned rc (sets, s)) }
                  | Blocked s \<Rightarrow> Some (Blocked (sets, s)))
               }
           }
     }"

section \<open>poll\<close>

record pollfd =
  pfd :: u32
  pfd_events :: u16
  pfd_revents :: u16

text \<open>\<^verbatim>\<open>orel\<close> of a pointer that may be null.\<close>

definition orel_ptr :: "'z iosys_ext objop \<Rightarrow> u32 option \<Rightarrow> 'z iosys_scheme \<Rightarrow> 'z iosys_scheme option" where
  "orel_ptr destroyer p s = (case p of None \<Rightarrow> None | Some q \<Rightarrow> do { (_, s) \<leftarrow> orel destroyer q s; Some s })"

definition poll_mask :: "u16 \<Rightarrow> u16" where
  "poll_mask events =
     (let evts = IOEVT_ERROR OR IOEVT_CLOSE;
          evts = (if events AND POLLIN \<noteq> 0 then evts OR (IOEVT_READ OR IOEVT_ACCEPT) else evts) in
      if events AND POLLOUT \<noteq> 0 then evts OR (IOEVT_WRITE OR IOEVT_CONNECT) else evts)"

definition poll_revents :: "u16 \<Rightarrow> u16" where
  "poll_revents evts =
     (let r = (if evts AND (IOEVT_READ OR IOEVT_ACCEPT) \<noteq> 0 then POLLIN else 0);
          r = (if evts AND (IOEVT_WRITE OR IOEVT_CONNECT) \<noteq> 0 then r OR POLLOUT else r);
          r = (if evts AND IOEVT_ERROR \<noteq> 0 then r OR POLLERR else r) in
      if evts AND IOEVT_CLOSE \<noteq> 0 then r OR POLLHUP else r)"

text \<open>One descriptor; an object that is not a file or socket is released twice.\<close>

definition poll_one :: "'z iosys_ext objop \<Rightarrow> pollfd \<Rightarrow> 'z iosys_scheme \<Rightarrow> (u16 \<times> 'z iosys_scheme) option" where
  "poll_one destroyer f s =
     (if sint (pfd f) \<ge> 0 then
        case olock (pfd f) (\<lambda>_. True) s of
          (p, s) \<Rightarrow>
            do {
              (revents, s) \<leftarrow>
                (if (case p of None \<Rightarrow> True | Some q \<Rightarrow> \<not> ISIOOBJECT (unat q) s) then
                   do { s \<leftarrow> (if p \<noteq> None then orel_ptr destroyer p s else Some s); Some (POLLNVAL, s) }
                 else Some (poll_revents (poll_mask (pfd_events f) AND events_signaled (iob s (unat (the p)))), s));
              s \<leftarrow> orel_ptr destroyer p s;
              Some (revents, s)
            }
      else Some (0, s))"

primrec check_poll_loop ::
  "'z iosys_ext objop \<Rightarrow> nat \<Rightarrow> nat \<Rightarrow> int \<Rightarrow> (nat \<Rightarrow> pollfd) \<Rightarrow> 'z iosys_scheme \<Rightarrow> (int \<times> (nat \<Rightarrow> pollfd) \<times> 'z iosys_scheme) option" where
  "check_poll_loop destroyer 0 n cnt fds s = Some (cnt, fds, s)"
| "check_poll_loop destroyer (Suc k) n cnt fds s =
     do {
       (revents, s) \<leftarrow> poll_one destroyer (fds n) s;
       check_poll_loop destroyer k (Suc n) (if revents \<noteq> 0 then cnt + 1 else cnt) (fds(n := (fds n)\<lparr>pfd_revents := revents\<rparr>)) s
     }"

definition check_poll ::
  "'z iosys_ext objop \<Rightarrow> (nat \<Rightarrow> pollfd) \<Rightarrow> u32 \<Rightarrow> 'z iosys_scheme \<Rightarrow> (int \<times> (nat \<Rightarrow> pollfd) \<times> 'z iosys_scheme) option" where
  "check_poll destroyer fds nfds s = check_poll_loop destroyer (unat nfds) 0 0 fds s"

definition add_fd_to_iomux :: "'z iosys_ext objop \<Rightarrow> nat \<Rightarrow> u32 \<Rightarrow> u16 \<Rightarrow> 'z iosys_scheme \<Rightarrow> (int \<times> 'z iosys_scheme) option" where
  "add_fd_to_iomux destroyer x h events s =
     (if sint h < 0 then Some (0, s)
      else
        case olock h (\<lambda>_. True) s of
          (None, s) \<Rightarrow> Some (- EBADF, s)
        | (Some p, s) \<Rightarrow>
            if \<not> ISIOOBJECT (unat p) s then do { (_, s) \<leftarrow> orel destroyer p s; Some (- EBADF, s) }
            else
              do {
                (rc, s) \<leftarrow> queue_ioobject x (unat p) (ucast (poll_mask events)) 0 s;
                if rc < 0 then Some (rc, s) else do { (_, s) \<leftarrow> orel destroyer p s; Some (0, s) }
              })"

primrec poll_attach ::
  "'z iosys_ext objop \<Rightarrow> nat \<Rightarrow> nat \<Rightarrow> nat \<Rightarrow> (nat \<Rightarrow> pollfd) \<Rightarrow> 'z iosys_scheme \<Rightarrow> (int \<times> 'z iosys_scheme) option" where
  "poll_attach destroyer x 0 n fds s = Some (0, s)"
| "poll_attach destroyer x (Suc k) n fds s =
     do {
       (rc, s) \<leftarrow> add_fd_to_iomux destroyer x (pfd (fds n)) (pfd_events (fds n)) s;
       if rc < 0 then do { (_, s) \<leftarrow> close_iomux x s; Some (rc, s) } else poll_attach destroyer x k (Suc n) fds s
     }"

definition poll_finish ::
  "'z iosys_ext objop \<Rightarrow> nat \<Rightarrow> int \<Rightarrow> (nat \<Rightarrow> pollfd) \<Rightarrow> u32 \<Rightarrow> 'z iosys_scheme \<Rightarrow> (int \<times> (nat \<Rightarrow> pollfd) \<times> 'z iosys_scheme) option" where
  "poll_finish destroyer x rc fds nfds s =
     (if rc < 0 then do { (_, s) \<leftarrow> close_iomux x s; Some (if rc = - ETIMEOUT then 0 else rc, fds, s) }
      else do { (rc, fds, s) \<leftarrow> check_poll destroyer fds nfds s; (_, s) \<leftarrow> close_iomux x s; Some (rc, fds, s) })"

definition poll ::
  "'z iosys_ext objop \<Rightarrow> ('z iosys_scheme \<Rightarrow> 'z iosys_scheme kres) \<Rightarrow> nat \<Rightarrow> nat \<Rightarrow> nat \<Rightarrow> nat \<Rightarrow> nat \<Rightarrow>
   (nat \<Rightarrow> pollfd) option \<Rightarrow> u32 \<Rightarrow> u32 \<Rightarrow> 'z iosys_scheme \<Rightarrow> ((nat \<Rightarrow> pollfd) option \<times> 'z iosys_scheme) wait option" where
  "poll destroyer dpcs x b bt ot m pfds nfds timeout s =
     (if nfds = 0 then
        do {
          r \<leftarrow> msleep dpcs m timeout s;
          (case r of Returned rc s \<Rightarrow> Some (Returned (if rc > 0 then - EINTR else 0) (pfds, s)) | Blocked s \<Rightarrow> Some (Blocked (pfds, s)))
        }
      else
        case pfds of
          None \<Rightarrow> Some (Returned (- EINVAL) (None, s))
        | Some fds \<Rightarrow>
            do {
              (rc, fds, s) \<leftarrow> check_poll destroyer fds nfds s;
              if rc > 0 then Some (Returned rc (Some fds, s))
              else if timeout = 0 then Some (Returned 0 (Some fds, s))
              else
                do {
                  (rc, s) \<leftarrow> poll_attach destroyer x (unat nfds) 0 fds (init_iomux x 0 s);
                  if rc < 0 then Some (Returned rc (Some fds, s))
                  else
                    do {
                      r \<leftarrow> wait_for_object dpcs dequeue_event_from_iomux b bt ot m x timeout s;
                      (case r of
                         Returned rc s \<Rightarrow> do { (rc, fds, s) \<leftarrow> poll_finish destroyer x rc fds nfds s; Some (Returned rc (Some fds, s)) }
                       | Blocked s \<Rightarrow> Some (Blocked (Some fds, s)))
                    }
                }
            })"

end
