(* ===== verification/Hndl_Laws.thy ===== *)
theory Hndl_Laws
  imports Hndl
begin

text \<open>
  The correctness of the handle manager: the invariant \<open>hinv\<close> of the handle table with the free
  list as a list of handles, and the table as a map from handles to objects, which \<^verbatim>\<open>halloc\<close>
  and \<^verbatim>\<open>hfree\<close> change at one handle.
\<close>

section \<open>Entries\<close>

lemma HUSED_bit: "HUSED x \<longleftrightarrow> bit x 31"
proof -
  have "x AND OSBASE = (if bit x 31 then OSBASE else 0)"
  proof -
    have "bit OSBASE n \<longleftrightarrow> n = 31" for n
      using bit_push_bit_iff [of 31 "1 :: u32" n] by (auto simp: OSBASE_def bit_1_iff)
    then show ?thesis by (intro bit_word_eqI) (auto simp: bit_and_iff)
  qed
  then show ?thesis by (simp add: HUSED_def OSBASE_def)
qed

lemma HUSED_unat: "HUSED x \<longleftrightarrow> 2147483648 \<le> unat x"
proof -
  have "bit x 31 \<longleftrightarrow> bit (unat x) 31" by (simp add: bit_unsigned_iff)
  then show ?thesis by (simp add: HUSED_bit bit_iff_odd half_odd)
qed

lemma HUSED_HEND [simp]: "\<not> HUSED HEND"
  by (simp add: HUSED_unat HEND_def)

lemma unat_index: "h \<le> 0x400000 \<Longrightarrow> unat (of_nat h :: u32) = h"
  by (simp add: unsigned_of_nat take_bit_nat_eq_self)

lemma index_free: "h \<le> 0x400000 \<Longrightarrow> \<not> HUSED (of_nat h)"
  by (simp add: HUSED_unat unat_index)

lemma HOBJ_id: "\<not> HPROT x \<Longrightarrow> HOBJ x = x"
proof -
  assume "\<not> HPROT x"
  then have "\<not> bit x 0" by (simp add: HPROT_def HPROTECT_def and_one_eq odd_iff_mod_2_eq_one bit_0)
  then have "bit (x AND NOT 1) n = bit x n" if "n < 32" for n using that by (cases n) (auto simp: bit_simps)
  then show ?thesis unfolding HOBJ_def HPROTECT_def by (intro bit_word_eqI) simp
qed

lemma sint_index: "h < 0x400000 \<Longrightarrow> sint (of_nat h :: u32) = int h"
  by (simp add: signed_of_nat signed_take_bit_int_eq_self)

section \<open>The free list\<close>

fun fchain :: "(nat \<Rightarrow> u32) \<Rightarrow> u32 \<Rightarrow> nat list \<Rightarrow> bool" where
  "fchain t e [] \<longleftrightarrow> e = HEND"
| "fchain t e (h # hs) \<longleftrightarrow> e = of_nat h \<and> fchain t (t h) hs"

lemma fchain_cong: "(\<And>h. h \<in> set hs \<Longrightarrow> t h = t' h) \<Longrightarrow> fchain t e hs \<longleftrightarrow> fchain t' e hs"
  by (induction hs arbitrary: e) auto

text \<open>The invariant of the table, with the free handles in the order of the list.\<close>

definition hinv :: "'z hsys_scheme \<Rightarrow> nat list \<Rightarrow> bool" where
  "hinv s F \<longleftrightarrow>
     fchain (htab s) (hfreelist s) F \<and> distinct F \<and>
     (\<forall>h. h \<in> set F \<longleftrightarrow> h < htabsize s \<and> \<not> HUSED (htab s h)) \<and>
     htabsize s \<le> 0x400000 \<and> HANDLES_PER_PAGE dvd htabsize s"

lemma hinvD:
  assumes "hinv s F"
  shows "fchain (htab s) (hfreelist s) F" "distinct F" "h \<in> set F \<longleftrightarrow> h < htabsize s \<and> \<not> HUSED (htab s h)"
    "htabsize s \<le> 0x400000" "HANDLES_PER_PAGE dvd htabsize s"
  using assms by (auto simp: hinv_def)

lemma hinv_head:
  assumes "hinv s F"
  shows "hfreelist s = HEND \<longleftrightarrow> F = []" "F = h # hs \<Longrightarrow> hfreelist s = of_nat h \<and> h < 0x400000"
proof -
  have lt: "h < 0x400000" if "h \<in> set F" for h using hinvD(3,4) [OF assms] that by (metis order_less_le_trans)
  have "of_nat h \<noteq> HEND" if "h < 0x400000" for h
  proof
    assume "of_nat h = HEND"
    then have "h = unat HEND" using unat_index [of h] that by simp
    then show False using that by (simp add: HEND_def)
  qed
  then show "hfreelist s = HEND \<longleftrightarrow> F = []" using hinvD(1) [OF assms] lt by (cases F) auto
  show "F = h # hs \<Longrightarrow> hfreelist s = of_nat h \<and> h < 0x400000" using hinvD(1) [OF assms] lt by auto
qed

lemma hlookup_nat:
  assumes "hinv s F"
  shows "hlookup h s = (if unat h < htabsize s \<and> HUSED (htab s (unat h)) then Some (HOBJ (htab s (unat h))) else None)"
proof -
  have n: "htabsize s \<le> 0x400000" using hinvD(4) [OF assms] .
  have "sint h < 0 \<longleftrightarrow> 2147483648 \<le> unat h" by (rule sint_neg_iff)
  moreover have "sint h = int (unat h)" if "\<not> 2147483648 \<le> unat h"
  proof -
    have "int (unat h) < 2147483648" using that by linarith
    then have "uint h < 2 ^ 31" by simp
    then show ?thesis using signed_take_bit_int_eq_self [of 31 "uint h"] uint_nonnegative [of h] by (simp add: sint_uint)
  qed
  ultimately have "sint h < 0 \<or> sint h \<ge> int (htabsize s) \<longleftrightarrow> \<not> unat h < htabsize s"
    using n by (cases "2147483648 \<le> unat h") (simp, linarith)
  then show ?thesis by (auto simp: hlookup_def)
qed

section \<open>Growing the table\<close>

lemma expand_loop_htab:
  "htab (expand_loop k s) h =
     (if htabsize s \<le> h \<and> h < htabsize s + k then if Suc h = htabsize s + k then hfreelist s else of_nat (Suc h) else htab s h)"
  by (induction k arbitrary: s) (auto simp: Let_def simp del: of_nat_add of_nat_Suc)

lemma expand_loop_frame:
  "hfreelist (expand_loop k s) = (if k = 0 then hfreelist s else of_nat (htabsize s))"
  "htabsize (expand_loop k s) = htabsize s" "ksys.truncate (expand_loop k s) = ksys.truncate s"
  by (induction k arbitrary: s) (auto simp: Let_def ksys.truncate_def)

lemma fchain_upt:
  "(\<And>h. n \<le> h \<Longrightarrow> h < n + k \<Longrightarrow> t h = (if Suc h = n + k then HEND else of_nat (Suc h))) \<Longrightarrow>
   fchain t (if k = 0 then HEND else of_nat n) [n..<n + k]"
proof (induction k arbitrary: n)
  case (Suc k)
  have "fchain t (if k = 0 then HEND else of_nat (Suc n)) [Suc n..<Suc n + k]" using Suc.prems by (intro Suc.IH) simp
  moreover have "t n = (if k = 0 then HEND else of_nat (Suc n))" using Suc.prems [of n] by simp
  moreover have "[n..<n + Suc k] = n # [Suc n..<Suc n + k]" by (simp add: upt_conv_Cons del: upt_Suc)
  ultimately show ?case by simp
qed simp

lemma expand_htab_hinv:
  assumes I: "hinv s []"
  shows "if htabsize s = 0x400000 then expand_htab s = (- ENFILE, s)
    else \<exists>s'. expand_htab s = (0, s') \<and> hinv s' [htabsize s..<htabsize s + 1024] \<and> ksys.truncate s' = ksys.truncate s \<and>
      (\<forall>h. hlookup h s' = hlookup h s)"
proof (cases "htabsize s = 0x400000")
  case True
  then show ?thesis by (simp add: expand_htab_def HTABSIZE_def)
next
  case False
  let ?n = "htabsize s"
  obtain q where q: "?n = 1024 * q" using hinvD(5) [OF I] by (auto simp: HANDLES_PER_PAGE_def)
  with False hinvD(4) [OF I] have n: "?n + 1024 \<le> 0x400000" by simp
  let ?t = "\<lambda>h. if ?n \<le> h \<and> h < ?n + 1024 then if Suc h = ?n + 1024 then HEND else of_nat (Suc h) else htab s h"
  let ?s1 = "expand_loop 1024 s"
  let ?s = "?s1\<lparr>htabsize := ?n + 1024\<rparr>"
  have fl: "hfreelist s = HEND" using hinv_head(1) [OF I] by simp
  have e: "expand_htab s = (0, ?s)"
    using False by (simp add: expand_htab_def HTABSIZE_def HANDLES_PER_PAGE_def expand_loop_frame Let_def)
  have t: "htab ?s = ?t" "hfreelist ?s = of_nat ?n" "htabsize ?s = ?n + 1024" "ksys.truncate ?s = ksys.truncate s"
    using expand_loop_frame(3) [of 1024 s] by (auto simp: fun_eq_iff expand_loop_htab expand_loop_frame fl ksys.truncate_def)
  have used: "h < ?n \<longrightarrow> HUSED (htab s h)" for h using hinvD(3) [OF I, of h] by simp
  have free: "\<not> HUSED (?t h)" if "?n \<le> h" "h < ?n + 1024" for h
    using that n index_free [of "Suc h"] by (simp split: if_split)
  have "hinv ?s [?n..<?n + 1024]"
    unfolding hinv_def
  proof (intro conjI allI)
    show "fchain (htab ?s) (hfreelist ?s) [?n..<?n + 1024]" unfolding t using fchain_upt [of ?n 1024 ?t] by simp
    show "h \<in> set [?n..<?n + 1024] \<longleftrightarrow> h < htabsize ?s \<and> \<not> HUSED (htab ?s h)" for h
      unfolding t using free [of h] used [of h] by (cases "h < ?n") auto
  qed (use n hinvD(5) [OF I] in \<open>simp_all only: t HANDLES_PER_PAGE_def\<close>, auto)
  moreover have "hlookup h ?s = hlookup h s" for h
    unfolding hlookup_nat [OF calculation] hlookup_nat [OF I] t using free [of "unat h"] by auto
  ultimately show ?thesis using False e t(4) by auto
qed


section \<open>Taking and returning handles\<close>

text \<open>What the other components see does not depend on the handle table.\<close>

lemma hsys_more:
  assumes "ksys.more s' = ksys.more (s :: 'z hsys_scheme)"
  shows "htab s' = htab s" "hfreelist s' = hfreelist s" "htabsize s' = htabsize s"
  using assms by (cases s, cases s', simp)+

lemma hinv_cong:
  "htab s' = htab s \<Longrightarrow> hfreelist s' = hfreelist s \<Longrightarrow> htabsize s' = htabsize s \<Longrightarrow> hinv s' F \<longleftrightarrow> hinv s F"
  by (simp add: hinv_def)

lemma hlookup_cong: "htab s' = htab s \<Longrightarrow> htabsize s' = htabsize s \<Longrightarrow> hlookup h s' = hlookup h s"
  by (simp add: hlookup_def)

lemma sched_inv_htab: "sched_inv (s\<lparr>htab := t, hfreelist := e\<rparr>) q \<longleftrightarrow> sched_inv (s :: 'z hsys_scheme) q"
proof -
  have "nxt (s\<lparr>htab := t, hfreelist := e\<rparr>) = nxt s" "prv (s\<lparr>htab := t, hfreelist := e\<rparr>) = prv s"
    by (simp_all add: nxt_def prv_def fun_eq_iff)
  then show ?thesis by (simp add: sched_inv_def queues_def)
qed

lemma wait_inv_htab: "wait_inv (s\<lparr>htab := t, hfreelist := e\<rparr>) W B \<longleftrightarrow> wait_inv (s :: 'z hsys_scheme) W B"
  by (simp add: wait_inv_def waitlists_def sched_inv_htab)

lemma ref_frame [simp]:
  "htab (add_ref p s) = htab s" "hfreelist (add_ref p s) = hfreelist s" "htabsize (add_ref p s) = htabsize s"
  "htab (drop_ref p s) = htab s" "hfreelist (drop_ref p s) = hfreelist s" "htabsize (drop_ref p s) = htabsize s"
  by (simp_all add: add_ref_def drop_ref_def upd_obj_def)

lemma fchain_upd [simp]: "h \<notin> set hs \<Longrightarrow> fchain (t(h := x)) e hs \<longleftrightarrow> fchain t e hs"
  by (rule fchain_cong) auto

lemma take_free_handle:
  assumes I: "hinv s (h # hs)" and p: "HUSED p"
  shows "hinv (s\<lparr>hfreelist := htab s h, htab := (htab s)(h := p)\<rparr>) hs"
    and "hlookup h' (s\<lparr>hfreelist := htab s h, htab := (htab s)(h := p)\<rparr>) = (if h' = of_nat h then Some (HOBJ p) else hlookup h' s)"
proof -
  let ?s = "s\<lparr>hfreelist := htab s h, htab := (htab s)(h := p)\<rparr>"
  have h: "h < htabsize s" "h < 0x400000" "h \<notin> set hs" using hinvD(2,3) [OF I] hinv_head(2) [OF I] by auto
  show I': "hinv ?s hs"
    unfolding hinv_def
  proof (intro conjI allI)
    show "fchain (htab ?s) (hfreelist ?s) hs"
      using hinvD(1) [OF I] h(3) by simp
    show "x \<in> set hs \<longleftrightarrow> x < htabsize ?s \<and> \<not> HUSED (htab ?s x)" for x
      using hinvD(3) [OF I, of x] h p by auto
  qed (use hinvD [OF I] in auto)
  have "unat h' = h \<longleftrightarrow> h' = of_nat h" using unat_index [of h] h(2) by (auto simp: word_eq_unat)
  then show "hlookup h' ?s = (if h' = of_nat h then Some (HOBJ p) else hlookup h' s)"
    unfolding hlookup_nat [OF I'] hlookup_nat [OF I] using h(1) p by auto
qed

lemma return_handle:
  assumes I: "hinv s F" and h: "hlookup h s = Some p"
  shows "hinv (s\<lparr>htab := (htab s)(unat h := hfreelist s), hfreelist := h\<rparr>) (unat h # F)"
    and "hlookup h' (s\<lparr>htab := (htab s)(unat h := hfreelist s), hfreelist := h\<rparr>) = (if h' = h then None else hlookup h' s)"
proof -
  let ?s = "s\<lparr>htab := (htab s)(unat h := hfreelist s), hfreelist := h\<rparr>"
  have u: "unat h < htabsize s" "HUSED (htab s (unat h))" using h unfolding hlookup_nat [OF I] by (auto split: if_splits)
  then have nF: "unat h \<notin> set F" using hinvD(3) [OF I] by blast
  have fl: "\<not> HUSED (hfreelist s)"
  proof (cases F)
    case Nil
    then show ?thesis using hinv_head(1) [OF I] by simp
  next
    case (Cons f fs)
    then show ?thesis using hinv_head(2) [OF I Cons] index_free [of f] by simp
  qed
  show I': "hinv ?s (unat h # F)"
    unfolding hinv_def
  proof (intro conjI allI)
    show "fchain (htab ?s) (hfreelist ?s) (unat h # F)"
      using hinvD(1) [OF I] nF by simp
    show "x \<in> set (unat h # F) \<longleftrightarrow> x < htabsize ?s \<and> \<not> HUSED (htab ?s x)" for x
      using hinvD(3) [OF I, of x] u fl by auto
  qed (use hinvD [OF I] nF in auto)
  show "hlookup h' ?s = (if h' = h then None else hlookup h' s)"
    unfolding hlookup_nat [OF I'] hlookup_nat [OF I] using fl by (auto simp: word_eq_unat)
qed

section \<open>Properties of the handle manager\<close>

text \<open>The map from handles to objects that the table stands for.\<close>

definition handles :: "'z hsys_scheme \<Rightarrow> u32 \<rightharpoonup> u32" where
  "handles s = (\<lambda>h. hlookup h s)"

lemma halloc_lookup:
  assumes I: "hinv s F" and p: "HUSED p" "\<not> HPROT p"
  shows "if F = [] \<and> htabsize s = 0x400000 then halloc p s = (- ENFILE, s)
    else \<exists>h s' F'. halloc p s = (sint h, s') \<and> 0 \<le> sint h \<and> hlookup h s = None \<and> hinv s' F' \<and>
      (\<forall>h'. hlookup h' s' = (if h' = h then Some p else hlookup h' s)) \<and>
      obj s' = (obj s)(unat p := (obj s (unat p))\<lparr>handle_count := handle_count (obj s (unat p)) + 1\<rparr>)"
proof -
  have main: "\<exists>h s' F'. (sint (hfreelist s1), add_ref p (s1\<lparr>hfreelist := htab s1 (unat (hfreelist s1)), htab := (htab s1)(unat (hfreelist s1) := p)\<rparr>)) = (sint h, s') \<and>
      0 \<le> sint h \<and> hlookup h s = None \<and> hinv s' F' \<and> (\<forall>h'. hlookup h' s' = (if h' = h then Some p else hlookup h' s)) \<and>
      obj s' = (obj s)(unat p := (obj s (unat p))\<lparr>handle_count := handle_count (obj s (unat p)) + 1\<rparr>)"
    if I1: "hinv s1 (h # hs)" and same: "\<forall>h. hlookup h s1 = hlookup h s" "obj s1 = obj s" for s1 :: "'a hsys_scheme" and h hs
  proof -
    let ?s = "s1\<lparr>hfreelist := htab s1 h, htab := (htab s1)(h := p)\<rparr>"
    have h: "hfreelist s1 = of_nat h" "h < 0x400000" using hinv_head(2) [OF I1] by auto
    have u: "unat (of_nat h :: u32) = h" using h(2) by (simp add: unat_index)
    have "\<not> HUSED (htab s1 h)" using hinvD(3) [OF I1, of h] by simp
    then have n: "hlookup (of_nat h) s = None" using same(1) unfolding hlookup_nat [OF I1] by (metis u)
    note t = take_free_handle [OF I1 p(1)]
    have "hinv (add_ref p ?s) hs" using hinv_cong [of "add_ref p ?s" ?s hs] t(1) by simp
    moreover have "hlookup h' (add_ref p ?s) = (if h' = of_nat h then Some p else hlookup h' s)" for h'
      using hlookup_cong [of "add_ref p ?s" ?s h'] t(2) same(1) HOBJ_id [OF p(2)] by simp
    moreover have "obj (add_ref p ?s) = (obj s)(unat p := (obj s (unat p))\<lparr>handle_count := handle_count (obj s (unat p)) + 1\<rparr>)"
      by (simp add: add_ref_def upd_obj_def same(2))
    moreover have "0 \<le> sint (of_nat h :: u32)" using sint_index [OF h(2)] by simp
    ultimately show ?thesis using n unfolding h(1) u by blast
  qed
  show ?thesis
  proof (cases F)
    case (Cons h hs)
    then have "hfreelist s \<noteq> HEND" using hinv_head(1) [OF I] by simp
    then have "halloc p s = (sint (hfreelist s), add_ref p (s\<lparr>hfreelist := htab s (unat (hfreelist s)), htab := (htab s)(unat (hfreelist s) := p)\<rparr>))"
      by (simp add: halloc_def Let_def)
    then show ?thesis using main [OF I [unfolded Cons]] Cons by simp
  next
    case Nil
    then have e: "hfreelist s = HEND" "hinv s []" using hinv_head(1) [OF I] I by simp_all
    show ?thesis
    proof (cases "htabsize s = 0x400000")
      case True
      then show ?thesis using expand_htab_hinv [OF e(2)] Nil e(1) by (simp add: halloc_def errno_defs)
    next
      case False
      then obtain s1 where s1: "expand_htab s = (0, s1)" "hinv s1 [htabsize s..<htabsize s + 1024]"
          "ksys.truncate s1 = ksys.truncate s" "\<forall>h. hlookup h s1 = hlookup h s"
        using expand_htab_hinv [OF e(2)] by auto
      have "obj s1 = obj s" using s1(3) by (simp add: ksys.truncate_def)
      moreover have "[htabsize s..<htabsize s + 1024] = htabsize s # [Suc (htabsize s)..<htabsize s + 1024]"
        by (rule upt_conv_Cons) simp
      then have "hinv s1 (htabsize s # [Suc (htabsize s)..<htabsize s + 1024])" using s1(2) by metis
      moreover have "halloc p s = (sint (hfreelist s1), add_ref p (s1\<lparr>hfreelist := htab s1 (unat (hfreelist s1)), htab := (htab s1)(unat (hfreelist s1) := p)\<rparr>))"
        using s1(1) e(1) by (simp add: halloc_def Let_def)
      ultimately show ?thesis using main [OF _ s1(4)] False by simp
    qed
  qed
qed

text \<open>
  C30. \<^verbatim>\<open>halloc\<close> implements the insertion of a new key into a map from handles to objects: it fails with
  \<open>ENFILE\<close> when the table is full and cannot grow, and otherwise returns a handle that was not
  in use, after which the map has the object under that handle and is otherwise what it
  was; the reference count of the object goes up by one.
\<close>

theorem halloc_correct:
  fixes s :: "'a hsys_scheme"
  assumes "hinv s F" "HUSED p" "\<not> HPROT p"
  shows "if F = [] \<and> htabsize s = 0x400000 then halloc p s = (- ENFILE, s)
    else \<exists>h s' F'. halloc p s = (sint h, s') \<and> 0 \<le> sint h \<and> h \<notin> dom (handles s) \<and> hinv s' F' \<and>
      handles s' = (handles s)(h \<mapsto> p) \<and>
      obj s' = (obj s)(unat p := (obj s (unat p))\<lparr>handle_count := handle_count (obj s (unat p)) + 1\<rparr>)"
proof -
  have "handles s' = (handles s)(h \<mapsto> p) \<longleftrightarrow> (\<forall>h'. hlookup h' s' = (if h' = h then Some p else hlookup h' s))" for h and s' :: "'a hsys_scheme"
    by (auto simp: handles_def fun_eq_iff)
  moreover have "h \<notin> dom (handles s) \<longleftrightarrow> hlookup h s = None" for h by (simp add: handles_def domIff)
  ultimately show ?thesis using halloc_lookup [OF assms] by (simp only:)
qed

text \<open>
  What is left of closing an object when its waiting threads have been released: the part that
  depends on the kind of the object.
\<close>

definition close_rest :: "'z objop \<Rightarrow> 'z objop \<Rightarrow> nat \<Rightarrow> 'z hsys_scheme \<Rightarrow> (int \<times> 'z hsys_scheme) option" where
  "close_rest closer destroyer e s =
     (case okind (obj s e) of
        OTimer m \<Rightarrow> do { s4 \<leftarrow> cancel_waitable_timer m s; Some (0, s4) }
      | OThread _ \<Rightarrow>
          if lock_count (obj s e) = 0 then do { (_, s4) \<leftarrow> destroyer e s; Some (0, s4) } else Some (0, s)
      | k \<Rightarrow>
          if k = OFile \<or> k = OSocket \<or> k = OIomux then
            do {
              (rc, s4) \<leftarrow> closer e s;
              if lock_count (obj s4 e) = 0 then do { (_, s5) \<leftarrow> destroy_object destroyer e s4; Some (rc, s5) } else Some (rc, s4)
            }
          else Some (0, s))"

lemma close_and_destroy_rest:
  assumes "close_loop (unat p) s = Some s3"
  shows "close_and_destroy closer destroyer p s = close_rest closer destroyer (unat p) s3"
proof -
  have "okind (obj s4 e) = okind (obj s3 e)" if "cancel_waitable_timer m s3 = Some s4" for m s4 e
    using that by (auto simp: cancel_waitable_timer_def bind_eq_Some_conv split: if_splits)
  then show ?thesis
    using assms
    by (cases "okind (obj s3 (unat p))")
      (auto simp: close_and_destroy_def close_object_def close_rest_def destroy_object_def 
        intro!: Option.bind_cong split: prod.splits)
qed

lemma hfree_unprotected:
  assumes I: "hinv s F" and w: "wait_inv s W B" "\<forall>x. one_each s (W x)"
    and Some: "hlookup h s = Some p" and np: "\<not> HPROT (htab s (unat h))"
  obtains s2 where "hinv s2 (unat h # F)" "\<forall>h'. hlookup h' s2 = (if h' = h then None else hlookup h' s)"
    "obj s2 = (obj s)(unat p := (obj s (unat p))\<lparr>handle_count := handle_count (obj s (unat p)) - 1\<rparr>)"
    "thr s2 = thr s" "wb s2 = wb s" "wheel s2 = wheel s"
    "if handle_count (obj s (unat p)) - 1 \<noteq> 0 then hfree closer destroyer h s = Some (0, s2)
     else \<exists>s3. hinv s3 (unat h # F) \<and> (\<forall>h'. hlookup h' s3 = (if h' = h then None else hlookup h' s)) \<and>
       wait_inv s3 (purge s (threads_of s (W (unat p))) W) (unblock (threads_of s (W (unat p))) B) \<and>
       rframe (threads_of s (W (unat p))) s2 s3 \<and> (\<forall>t. t \<in> threads_of s (W (unat p)) \<longrightarrow> waitkey (thr s3 t) = - EINTR) \<and>
       hfree closer destroyer h s = close_rest closer destroyer (unat p) s3"
proof -
  let ?s1 = "s\<lparr>htab := (htab s)(unat h := hfreelist s), hfreelist := h\<rparr>"
  let ?s2 = "drop_ref p ?s1" and ?T = "threads_of s (W (unat p))"
  note ret = return_handle [OF I Some]
  have I2: "hinv ?s2 (unat h # F)" using hinv_cong [of ?s2 ?s1] ret(1) by simp
  have l2: "\<forall>h'. hlookup h' ?s2 = (if h' = h then None else hlookup h' s)" using hlookup_cong [of ?s2 ?s1] ret(2) by simp
  have c2: "obj ?s2 = (obj s)(unat p := (obj s (unat p))\<lparr>handle_count := handle_count (obj s (unat p)) - 1\<rparr>)"
      "thr ?s2 = thr s" "wb ?s2 = wb s" "wheel ?s2 = wheel s" by (simp_all add: drop_ref_def upd_obj_def)
  have f: "hfree closer destroyer h s =
      (if handle_count (obj s (unat p)) - 1 \<noteq> 0 then Some (0, ?s2) else close_and_destroy closer destroyer p ?s2)"
    using Some np c2(1) by (simp add: hfree_def Let_def word_gt_0)
  have "wait_inv ?s2 W B" unfolding drop_ref_def by (rule wait_inv_upd_obj) (simp_all add: wait_inv_htab w(1))
  moreover have "one_each ?s2 (W (unat p))" using w(2) by (simp add: one_each_def c2)
  ultimately obtain s3 where s3: "close_loop (unat p) ?s2 = Some s3" "wait_inv s3 (purge s ?T W) (unblock ?T B)" "rframe ?T ?s2 s3"
      "\<forall>t. t \<in> ?T \<longrightarrow> waitkey (thr s3 t) = - EINTR"
    using close_loop_spec [of ?s2 W B "unat p"] unfolding threads_purge_cong [OF c2(3)] by blast
  have m: "htab s3 = htab ?s2" "hfreelist s3 = hfreelist ?s2" "htabsize s3 = htabsize ?s2"
    using hsys_more [of s3 ?s2] s3(3) by (auto simp: rframe_def)
  have "close_and_destroy closer destroyer p ?s2 = close_rest closer destroyer (unat p) s3"
    using s3(1) by (simp add: close_and_destroy_rest)
  with s3 f have "handle_count (obj s (unat p)) - 1 = 0 \<Longrightarrow> hinv s3 (unat h # F) \<and>
      (\<forall>h'. hlookup h' s3 = (if h' = h then None else hlookup h' s)) \<and> wait_inv s3 (purge s ?T W) (unblock ?T B) \<and>
      rframe ?T ?s2 s3 \<and> (\<forall>t. t \<in> ?T \<longrightarrow> waitkey (thr s3 t) = - EINTR) \<and>
      hfree closer destroyer h s = close_rest closer destroyer (unat p) s3"
    using I2 l2 hinv_cong [OF m] hlookup_cong [OF m(1,3)] by simp
  with f have "if handle_count (obj s (unat p)) - 1 \<noteq> 0 then hfree closer destroyer h s = Some (0, ?s2)
      else \<exists>s3. hinv s3 (unat h # F) \<and> (\<forall>h'. hlookup h' s3 = (if h' = h then None else hlookup h' s)) \<and>
        wait_inv s3 (purge s ?T W) (unblock ?T B) \<and> rframe ?T ?s2 s3 \<and> (\<forall>t. t \<in> ?T \<longrightarrow> waitkey (thr s3 t) = - EINTR) \<and>
        hfree closer destroyer h s = close_rest closer destroyer (unat p) s3"
    by meson
  then show thesis using that [OF I2 l2 c2] by blast
qed

text \<open>
  C31. \<^verbatim>\<open>hfree\<close> removes exactly one handle: after it a lookup of the handle fails and every other lookup
  gives what it gave before, and the object has one handle less. While the object has other
  handles nothing else happens: it is not closed, its waiting threads go on waiting. When it was
  the last one every thread that waited for the object runs again with the result \<open>-EINTR\<close>, and
  no other thread does; then a timer is cancelled, a file, socket or multiplexer is closed by
  its own routine, whose result is returned, and a thread or file is destroyed unless it is
  locked. A protected handle is refused with \<open>EACCES\<close>, one that is not in use with \<open>EBADF\<close>.
\<close>

theorem hfree_correct:
  assumes I: "hinv s F" and w: "wait_inv s W B" "\<forall>x. one_each s (W x)"
  shows "case hlookup h s of
      None \<Rightarrow> hfree closer destroyer h s = Some (- EBADF, s)
    | Some p \<Rightarrow>
        if HPROT (htab s (unat h)) then hfree closer destroyer h s = Some (- EACCES, s)
        else let e = unat p; n = handle_count (obj s e) - 1; T = threads_of s (W e) in
          \<exists>s2. hinv s2 (unat h # F) \<and> (\<forall>h'. hlookup h' s2 = (if h' = h then None else hlookup h' s)) \<and>
            obj s2 = (obj s)(e := (obj s e)\<lparr>handle_count := n\<rparr>) \<and> thr s2 = thr s \<and> wb s2 = wb s \<and> wheel s2 = wheel s \<and>
            (if n \<noteq> 0 then hfree closer destroyer h s = Some (0, s2)
             else \<exists>s3. hinv s3 (unat h # F) \<and> (\<forall>h'. hlookup h' s3 = (if h' = h then None else hlookup h' s)) \<and>
               wait_inv s3 (purge s T W) (unblock T B) \<and> rframe T s2 s3 \<and> (\<forall>t. t \<in> T \<longrightarrow> waitkey (thr s3 t) = - EINTR) \<and>
               hfree closer destroyer h s = close_rest closer destroyer e s3)"
proof (cases "hlookup h s")
  case None
  then show ?thesis by (simp add: hfree_def)
next
  case (Some p)
  show ?thesis
  proof (cases "HPROT (htab s (unat h))")
    case True
    then show ?thesis using Some by (simp add: hfree_def)
  next
    case False
    show ?thesis
      by (rule hfree_unprotected [OF assms Some False, of closer destroyer])
        (unfold Some option.case if_not_P [OF False] Let_def, intro exI conjI)
  qed
qed

lemma freelist_loop_stuck:
  fixes s :: "'z hsys_scheme"
  assumes "fl \<noteq> HEND" "htab s (unat fl) \<noteq> h"
  shows "freelist_loop h fl s = None"
proof (rule ccontr)
  assume "freelist_loop h fl s \<noteq> None"
  then obtain y where y: "freelist_loop h fl s = Some y" by blast
  have "\<not> (fl \<noteq> HEND \<and> htab s (unat fl) \<noteq> h)"
    by (rule freelist_loop.raw_induct [where P = "\<lambda>h fl s z. \<not> (fl \<noteq> HEND \<and> htab s (unat fl) \<noteq> h)", OF _ y]) (force split: if_splits)
  with assms show False by blast
qed

text \<open>
  \<^verbatim>\<open>hassign\<close> never returns for a free handle that is neither the first nor the second of the free
  list: the loop of \<^verbatim>\<open>remove_from_freelist\<close> tests the same entry again and again.
\<close>

theorem hassign_never_returns:
  assumes I: "hinv s (a # b # F)" and h: "h \<in> set F"
  shows "hassign closer destroyer p (of_nat h) s = None"
proof -
  have lt: "x < htabsize s \<and> \<not> HUSED (htab s x)" if "x \<in> set (a # b # F)" for x using hinvD(3) [OF I, of x] that by simp
  have n: "htabsize s \<le> 0x400000" using hinvD(4) [OF I] .
  have hs: "h < htabsize s" "b < htabsize s" using lt h by auto
  have u: "unat (of_nat h :: u32) = h" "sint (of_nat h :: u32) = int h" "unat (of_nat a :: u32) = a"
    using unat_index sint_index lt [of a] lt [of h] h n by auto
  have c: "hfreelist s = of_nat a" "htab s a = of_nat b" using hinvD(1) [OF I] by auto
  have d: "h \<noteq> a" "h \<noteq> b" using hinvD(2) [OF I] h by auto
  then have ne: "(of_nat h :: u32) \<noteq> of_nat a" "(of_nat b :: u32) \<noteq> of_nat h"
    using u unat_index [of b] hs n by (metis, metis order.trans less_imp_le)
  have "freelist_loop (of_nat h) (hfreelist s) s = None"
    using freelist_loop_stuck [of "hfreelist s" s "of_nat h"] hinv_head(1) [OF I] c u ne by simp
  then have "remove_from_freelist (of_nat h) s = None" using ne c by (simp add: remove_from_freelist_def)
  moreover have "expand_to (of_nat h) s = Some (0, s)" using hs u by (subst expand_to.simps) simp
  moreover have "h \<le> 0x400000" "\<not> HUSED (htab s h)" using hs n lt [of h] h by simp_all
  ultimately show ?thesis using u(1) by (simp add: hassign_def HTABSIZE_def)
qed


section \<open>Witnesses\<close>

text \<open>
  A thread waits for an event at the kernel address \<open>0x80000010\<close>, which has the handle 0; the other
  1023 handles of the first page of the table are free.
\<close>

definition demo_event :: u32 where "demo_event = 0x80000010"

definition demo_htab :: "nat \<Rightarrow> u32" where
  "demo_htab h = (if h = 0 then demo_event else if Suc h = 1024 then HEND else of_nat (Suc h))"

definition demo_hsys :: hsys where
  "demo_hsys =
     (let s = demo_wait (OEvent True) WAIT_ANY 0; e = unat demo_event in
      \<lparr>thr = thr s, current = current s, preempt_flag = preempt_flag s, ready_head = ready_head s, ready_tail = ready_tail s,
       summary = summary s, obj = (obj s)(5 := obj s 7, e := obj s 5),
       wb = (wb s)(9 := (wb s 9)\<lparr>wb_object := Some e\<rparr>), wheel = wheel s, ticks = ticks s,
       htab = demo_htab, hfreelist = 1, htabsize = 1024\<rparr>)"

definition demo_hW :: "nat \<Rightarrow> nat list" where "demo_hW = (\<lambda>_. [])(unat demo_event := [9], 6 := [10])"

lemma demo_event_facts: "HUSED demo_event" "\<not> HPROT demo_event" "HOBJ demo_event = demo_event" "unat demo_event = 2147483664"
  by (simp_all add: demo_event_def HUSED_def HPROT_def HOBJ_def OSBASE_def HPROTECT_def)

lemma demo_hinv: "hinv demo_hsys [1..<1024]"
  unfolding hinv_def
proof (intro conjI allI)
  have "fchain demo_htab (if (1023::nat) = 0 then HEND else of_nat 1) [1..<1 + 1023]"
    by (rule fchain_upt) (auto simp: demo_htab_def)
  then show "fchain (htab demo_hsys) (hfreelist demo_hsys) [1..<1024]" by (simp add: demo_hsys_def Let_def)
  show "h \<in> set [1..<1024] \<longleftrightarrow> h < htabsize demo_hsys \<and> \<not> HUSED (htab demo_hsys h)" for h
    using index_free [of "Suc h"] demo_event_facts(1) by (auto simp: demo_hsys_def demo_htab_def Let_def)
qed (simp_all add: demo_hsys_def HANDLES_PER_PAGE_def Let_def)

lemma demo_hsys_wait: "wait_inv demo_hsys demo_hW demo_B"
  unfolding wait_inv_def
proof (intro conjI)
  show "waitlists demo_hsys demo_hW"
    by (auto simp: waitlists_def demo_hsys_def demo_wait_def demo_hW_def dll_def demo_event_facts Let_def)
  have "sched_inv demo_hsys (\<lambda>_. [])"
    unfolding sched_inv_def queues_def by (auto simp: demo_hsys_def demo_wait_def zero_thread_def Let_def split: if_splits)
  then show "\<exists>q. sched_inv demo_hsys q" by blast
  show "\<forall>t. \<forall>b \<in> set (demo_B t). wb_thread (wb demo_hsys b) = t \<and> (\<exists>o1. b \<in> set (demo_hW o1))"
    by (auto simp: demo_hsys_def demo_wait_def demo_hW_def demo_B_def demo_event_facts Let_def intro: exI [where x = 2147483664])
qed (auto simp: demo_hsys_def demo_wait_def demo_hW_def demo_B_def zero_thread_def can_wake_def demo_event_facts Let_def)

lemma demo_hW_one: "one_each demo_hsys (demo_hW x)"
  by (auto simp: one_each_def demo_hW_def)

lemma halloc_correct_witness:
  "\<exists>h s' F'. halloc 0x80000020 demo_hsys = (sint h, s') \<and> 0 \<le> sint h \<and> h \<notin> dom (handles demo_hsys) \<and>
      hinv s' F' \<and> handles s' = (handles demo_hsys)(h \<mapsto> 0x80000020) \<and>
      obj s' = (obj demo_hsys)(unat (0x80000020 :: u32) :=
        (obj demo_hsys (unat (0x80000020 :: u32)))\<lparr>handle_count := handle_count (obj demo_hsys (unat (0x80000020 :: u32))) + 1\<rparr>)"
proof -
  have "HUSED 0x80000020" "\<not> HPROT 0x80000020" by (simp_all add: HUSED_def HPROT_def OSBASE_def HPROTECT_def)
  note c = halloc_correct [OF demo_hinv this]
  have "\<not> ([1..<1024] = ([] :: nat list) \<and> htabsize demo_hsys = 0x400000)" by (simp add: demo_hsys_def Let_def)
  from c [unfolded if_not_P [OF this]] show ?thesis .
qed

lemma demo_lookup: "hlookup 0 demo_hsys = Some demo_event" "\<not> HPROT (htab demo_hsys (unat (0 :: u32)))"
  "okind (obj demo_hsys (unat demo_event)) = OEvent True"
  by (simp_all add: hlookup_def demo_hsys_def demo_wait_def demo_htab_def demo_event_facts Let_def)

definition demo_shared :: hsys where
  "demo_shared = upd_obj (unat demo_event) (\<lambda>x. x\<lparr>handle_count := 2\<rparr>) demo_hsys"

lemma demo_shared_facts:
  "hinv demo_shared [1..<1024]" "wait_inv demo_shared demo_hW demo_B" "\<forall>x. one_each demo_shared (demo_hW x)"
  "hlookup 0 demo_shared = Some demo_event" "\<not> HPROT (htab demo_shared (unat (0 :: u32)))" "thr demo_shared = thr demo_hsys"
proof -
  have m: "htab demo_shared = htab demo_hsys" "hfreelist demo_shared = hfreelist demo_hsys" "htabsize demo_shared = htabsize demo_hsys"
    "thr demo_shared = thr demo_hsys" "wb demo_shared = wb demo_hsys"
    by (simp_all add: demo_shared_def upd_obj_def)
  show "hinv demo_shared [1..<1024]" using hinv_cong [OF m(1-3)] demo_hinv by blast
  show "wait_inv demo_shared demo_hW demo_B" unfolding demo_shared_def by (rule wait_inv_upd_obj [OF demo_hsys_wait]) simp
  show "\<forall>x. one_each demo_shared (demo_hW x)" using demo_hW_one by (simp add: one_each_def m)
  show "hlookup 0 demo_shared = Some demo_event" using hlookup_cong [OF m(1,3)] demo_lookup(1) by simp
qed (use demo_lookup(2) in \<open>simp_all add: demo_shared_def upd_obj_def\<close>)

lemma hfree_correct_witness:
  "(\<exists>s'. hfree (\<lambda>_ s. Some (0, s)) (\<lambda>_ s. Some (0, s)) 0 demo_hsys = Some (0, s') \<and> hinv s' (0 # [1..<1024]) \<and>
     (\<forall>h'. hlookup h' s' = (if h' = 0 then None else hlookup h' demo_hsys)) \<and> woken (thr s' 1) \<and> waitkey (thr s' 1) = - EINTR) \<and>
   (\<exists>s'. hfree (\<lambda>_ s. Some (0, s)) (\<lambda>_ s. Some (0, s)) 0 demo_shared = Some (0, s') \<and> hinv s' (0 # [1..<1024]) \<and>
     (\<forall>h'. hlookup h' s' = (if h' = 0 then None else hlookup h' demo_shared)) \<and> thr s' = thr demo_shared \<and>
     handle_count (obj s' (unat demo_event)) = 1)"
proof
  let ?c = "\<lambda>_ s. Some (0, s)" and ?e = "unat demo_event"
  have n: "handle_count (obj demo_hsys ?e) - 1 = 0" "1 \<in> threads_of demo_hsys (demo_hW ?e)"
      "okind (obj demo_hsys ?e) = OEvent True" "handle_count (obj demo_shared ?e) = 2"
    by (simp_all add: demo_hsys_def demo_shared_def demo_wait_def threads_of_def demo_hW_def demo_event_facts upd_obj_def Let_def)
  obtain s2 s3 where s2: "obj s2 = (obj demo_hsys)(?e := (obj demo_hsys ?e)\<lparr>handle_count := 0\<rparr>)"
    and s3: "hinv s3 (unat (0 :: u32) # [1..<1024])" "\<forall>h'. hlookup h' s3 = (if h' = 0 then None else hlookup h' demo_hsys)"
      "rframe (threads_of demo_hsys (demo_hW ?e)) s2 s3" "waitkey (thr s3 1) = - EINTR"
      "hfree ?c ?c 0 demo_hsys = close_rest ?c ?c ?e s3"
    using hfree_correct [OF demo_hinv demo_hsys_wait, where h = 0 and closer = ?c and destroyer = ?c] demo_hW_one demo_lookup(2) n(1,2)
    by (auto simp: demo_lookup(1) Let_def simp del: upt_Suc fun_upd_apply)
  have "okind (obj s3 ?e) = OEvent True" using plain_fields(1) [OF rframe_plain [OF s3(3)]] s2 n(3) by simp
  then have "hfree ?c ?c 0 demo_hsys = Some (0, s3)" using s3(5) by (simp add: close_rest_def)
  moreover have "woken (thr s3 1)" using s3(3) n(2) by (simp add: rframe_def)
  ultimately show "\<exists>s'. hfree ?c ?c 0 demo_hsys = Some (0, s') \<and> hinv s' (0 # [1..<1024]) \<and>
     (\<forall>h'. hlookup h' s' = (if h' = 0 then None else hlookup h' demo_hsys)) \<and> woken (thr s' 1) \<and> waitkey (thr s' 1) = - EINTR"
    using s3(1,2,4) by (auto simp del: upt_Suc)
  show "\<exists>s'. hfree ?c ?c 0 demo_shared = Some (0, s') \<and> hinv s' (0 # [1..<1024]) \<and>
     (\<forall>h'. hlookup h' s' = (if h' = 0 then None else hlookup h' demo_shared)) \<and> thr s' = thr demo_shared \<and>
     handle_count (obj s' ?e) = 1"
    using hfree_correct [OF demo_shared_facts(1-3), where h = 0 and closer = ?c and destroyer = ?c] demo_shared_facts(5) n(4)
    by (auto simp: demo_shared_facts(4) Let_def simp del: upt_Suc)
qed

lemma hassign_never_returns_witness: "hassign (\<lambda>_ s. Some (0, s)) (\<lambda>_ s. Some (0, s)) 0x80000020 5 demo_hsys = None"
proof -
  have "[1..<1024] = 1 # [Suc 1..<1024]" "[2..<1024] = 2 # [Suc 2..<1024]" by (rule upt_conv_Cons, simp)+
  then have "[1..<1024] = 1 # 2 # [3..<1024]" by (metis Suc_1 numeral_3_eq_3 numeral_2_eq_2)
  then have "hinv demo_hsys (1 # 2 # [3..<1024])" using demo_hinv by metis
  from hassign_never_returns [OF this, of 5] show ?thesis by (simp del: upt_Suc)
qed

end
