(* ===== verification/Iomux_Laws.thy ===== *)
theory Iomux_Laws
  imports Iomux Hndl_Laws
begin

text \<open>
  The correctness of I/O multiplexing: the invariant \<open>mux_inv\<close> of a multiplexer with its two queues as
  lists, what attaching and detaching do to it, and how ready objects are handed to the
  threads that wait for the multiplexer, on top of the invariant \<open>wait_inv\<close> of the wait lists.
\<close>

section \<open>The queues of a multiplexer\<close>

definition nx :: "'z iosys_scheme \<Rightarrow> nat \<Rightarrow> ptr" where "nx s i = iob_next (iob s i)"
definition pv :: "'z iosys_scheme \<Rightarrow> nat \<Rightarrow> ptr" where "pv s i = iob_prev (iob s i)"

text \<open>
  \<open>mux_inv x s R V\<close>: the objects attached to the multiplexer \<open>x\<close> are exactly those of its two queues, the
  ready queue \<open>R\<close> has the objects with a monitored event that is signaled and the waiting queue \<open>V\<close>
  the others, and \<open>x\<close> is signaled when an object is ready.
\<close>

definition mux_inv :: "nat \<Rightarrow> 'z iosys_scheme \<Rightarrow> nat list \<Rightarrow> nat list \<Rightarrow> bool" where
  "mux_inv x s R V \<longleftrightarrow>
     dll (mux_ready_head (mux s x)) (mux_ready_tail (mux s x)) (nx s) (pv s) R \<and>
     dll (mux_waiting_head (mux s x)) (mux_waiting_tail (mux s x)) (nx s) (pv s) V \<and>
     (\<forall>i. iob_iomux (iob s i) = Some x \<longleftrightarrow> i \<in> set R \<union> set V) \<and>
     (\<forall>i \<in> set R. iob_ready (iob s i)) \<and> (\<forall>i \<in> set V. \<not> iob_ready (iob s i)) \<and>
     (signaled (obj s x) \<longleftrightarrow> R \<noteq> [])"

lemma mux_invD:
  assumes "mux_inv x s R V"
  shows "dll (mux_ready_head (mux s x)) (mux_ready_tail (mux s x)) (nx s) (pv s) R"
    "dll (mux_waiting_head (mux s x)) (mux_waiting_tail (mux s x)) (nx s) (pv s) V"
    "iob_iomux (iob s i) = Some x \<longleftrightarrow> i \<in> set R \<union> set V" "i \<in> set R \<Longrightarrow> iob_ready (iob s i)" "i \<in> set V \<Longrightarrow> \<not> iob_ready (iob s i)"
    "signaled (obj s x) \<longleftrightarrow> R \<noteq> []" "set R \<inter> set V = {}"
  using assms by (auto simp: mux_inv_def)

lemma mux_inv_cong:
  assumes "iob s' = iob s" "mux s' x = mux s x" "signaled (obj s' x) = signaled (obj s x)"
  shows "mux_inv x s' R V \<longleftrightarrow> mux_inv x s R V"
  using assms by (simp add: mux_inv_def nx_def [abs_def] pv_def [abs_def])

lemma set_signaled_same: "set_signaled x (signaled (obj s x)) s = s"
  by (simp add: set_signaled_def upd_obj_def)

section \<open>Linking and unlinking\<close>

lemma ready_append_eq:
  "ready_append x i s =
     s\<lparr>iob := (let f = (iob s)(i := (iob s i)\<lparr>iob_next := None, iob_prev := mux_ready_tail (mux s x)\<rparr>) in
         case mux_ready_tail (mux s x) of None \<Rightarrow> f | Some l \<Rightarrow> f(l := (f l)\<lparr>iob_next := Some i\<rparr>)),
       mux := (mux s)(x := (mux s x)\<lparr>mux_ready_tail := Some i,
         mux_ready_head := (if mux_ready_head (mux s x) = None then Some i else mux_ready_head (mux s x))\<rparr>)\<rparr>"
  by (auto simp: ready_append_def upd_iob_def upd_iob_opt_def upd_mux_def Let_def split: option.splits)

lemma waiting_append_eq:
  "waiting_append x i s =
     s\<lparr>iob := (let f = (iob s)(i := (iob s i)\<lparr>iob_next := None, iob_prev := mux_waiting_tail (mux s x)\<rparr>) in
         case mux_waiting_tail (mux s x) of None \<Rightarrow> f | Some l \<Rightarrow> f(l := (f l)\<lparr>iob_next := Some i\<rparr>)),
       mux := (mux s)(x := (mux s x)\<lparr>mux_waiting_tail := Some i,
         mux_waiting_head := (if mux_waiting_head (mux s x) = None then Some i else mux_waiting_head (mux s x))\<rparr>)\<rparr>"
  by (auto simp: waiting_append_def upd_iob_def upd_iob_opt_def upd_mux_def Let_def split: option.splits)

lemma unlink_eq:
  "iob_next (iob s i) \<noteq> Some i \<Longrightarrow>
   unlink_iob i s =
     s\<lparr>iob := (let f = (case iob_next (iob s i) of None \<Rightarrow> iob s | Some a \<Rightarrow> (iob s)(a := (iob s a)\<lparr>iob_prev := iob_prev (iob s i)\<rparr>)) in
         case iob_prev (iob s i) of None \<Rightarrow> f | Some a \<Rightarrow> f(a := (f a)\<lparr>iob_next := iob_next (iob s i)\<rparr>))\<rparr>"
  by (auto simp: unlink_iob_def upd_iob_def upd_iob_opt_def Let_def split: option.splits)

text \<open>The links a linking step leaves, whichever queue it works on; \<open>same_iob\<close> are the other fields.\<close>

definition bare :: "ioobject \<Rightarrow> ioobject" where
  "bare o1 = o1\<lparr>iob_next := None, iob_prev := None\<rparr>"

lemma bare_fields:
  assumes "bare a = bare b"
  shows "iob_iomux a = iob_iomux b" "iob_context a = iob_context b" "events_signaled a = events_signaled b"
    "events_monitored a = events_monitored b" "iob_ready a = iob_ready b"
  using assms by (cases a, cases b, simp add: bare_def iob_ready_def)+

lemma append_links:
  assumes d: "dll h t (nx s) (pv s) xs" and i: "i \<notin> set xs"
    and f: "iob s' = (let f = (iob s)(i := (iob s i)\<lparr>iob_next := None, iob_prev := t\<rparr>) in
         case t of None \<Rightarrow> f | Some l \<Rightarrow> f(l := (f l)\<lparr>iob_next := Some i\<rparr>))"
  shows "dll (if h = None then Some i else h) (Some i) (nx s') (pv s') (xs @ [i])"
    "j \<noteq> i \<Longrightarrow> j \<notin> set xs \<Longrightarrow> nx s' j = nx s j \<and> pv s' j = pv s j" "bare (iob s' j) = bare (iob s j)"
proof -
  have t: "t = Some l \<Longrightarrow> l \<in> set xs" for l using dll_last [of h t "nx s" "pv s" "butlast xs" "last xs"] d dll_empty_iff [OF d]
    by (cases "xs = []") auto
  have n: "nx s' = (case t of None \<Rightarrow> nx s | Some a \<Rightarrow> (nx s)(a := Some i))(i := None)" "pv s' = (pv s)(i := t)"
    using t i by (auto simp: fun_eq_iff nx_def pv_def f Let_def split: option.splits)
  show "dll (if h = None then Some i else h) (Some i) (nx s') (pv s') (xs @ [i])"
    using dll_insert_tail [OF d i] unfolding n .
  show "j \<noteq> i \<Longrightarrow> j \<notin> set xs \<Longrightarrow> nx s' j = nx s j \<and> pv s' j = pv s j" using t unfolding n by (auto split: option.splits)
  show "bare (iob s' j) = bare (iob s j)" by (auto simp: f Let_def bare_def split: option.splits)
qed

lemma unlink_links:
  assumes d: "dll h t (nx s) (pv s) xs" and i: "i \<in> set xs"
    and f: "iob s' = (let f = (case nx s i of None \<Rightarrow> iob s | Some a \<Rightarrow> (iob s)(a := (iob s a)\<lparr>iob_prev := pv s i\<rparr>)) in
         case pv s i of None \<Rightarrow> f | Some a \<Rightarrow> f(a := (f a)\<lparr>iob_next := nx s i\<rparr>))"
  shows "dll (if h = Some i then nx s i else h) (if t = Some i then pv s i else t) (nx s') (pv s') (remove1 i xs)"
    "j \<notin> set xs \<Longrightarrow> nx s' j = nx s j \<and> pv s' j = pv s j" "bare (iob s' j) = bare (iob s j)"
    "nx s' i = nx s i \<and> pv s' i = pv s i"
proof -
  obtain ys zs where xs: "xs = ys @ i # zs" using i by (meson split_list)
  have m: "nx s i = (if zs = [] then None else Some (hd zs))" "pv s i = (if ys = [] then None else Some (last ys))"
    using dll_mid(1,2) [OF d [unfolded xs]] by blast+
  have dist: "distinct xs" using dll_distinct [OF d] .
  have nb: "nx s i = Some a \<Longrightarrow> a \<in> set xs \<and> a \<noteq> i" "pv s i = Some a \<Longrightarrow> a \<in> set xs \<and> a \<noteq> i" for a
    using m dist xs hd_in_set [of zs] last_in_set [of ys] by (auto split: if_splits)
  have n: "nx s' = (case pv s i of None \<Rightarrow> nx s | Some a \<Rightarrow> (nx s)(a := nx s i))"
      "pv s' = (case nx s i of None \<Rightarrow> pv s | Some a \<Rightarrow> (pv s)(a := pv s i))"
    unfolding nx_def [abs_def] pv_def [abs_def] f by (auto simp: fun_eq_iff nx_def pv_def Let_def split: option.splits)
  show "dll (if h = Some i then nx s i else h) (if t = Some i then pv s i else t) (nx s') (pv s') (remove1 i xs)"
    using dll_remove [OF d i] unfolding n .
  show "j \<notin> set xs \<Longrightarrow> nx s' j = nx s j \<and> pv s' j = pv s j" "nx s' i = nx s i \<and> pv s' i = pv s i"
    using nb unfolding n by (auto split: option.splits)
  show "bare (iob s' j) = bare (iob s j)" by (auto simp: f Let_def bare_def split: option.splits)
qed


definition mux_links :: "nat \<Rightarrow> 'z iosys_scheme \<Rightarrow> nat list \<Rightarrow> nat list \<Rightarrow> bool" where
  "mux_links x s R V \<longleftrightarrow>
     dll (mux_ready_head (mux s x)) (mux_ready_tail (mux s x)) (nx s) (pv s) R \<and>
     dll (mux_waiting_head (mux s x)) (mux_waiting_tail (mux s x)) (nx s) (pv s) V \<and> set R \<inter> set V = {}"

definition mux_fields :: "nat \<Rightarrow> 'z iosys_scheme \<Rightarrow> nat list \<Rightarrow> nat list \<Rightarrow> bool" where
  "mux_fields x s R V \<longleftrightarrow>
     (\<forall>i. iob_iomux (iob s i) = Some x \<longleftrightarrow> i \<in> set R \<union> set V) \<and>
     (\<forall>i \<in> set R. iob_ready (iob s i)) \<and> (\<forall>i \<in> set V. \<not> iob_ready (iob s i))"

lemma mux_inv_split: "mux_inv x s R V \<longleftrightarrow> mux_links x s R V \<and> mux_fields x s R V \<and> (signaled (obj s x) \<longleftrightarrow> R \<noteq> [])"
  by (auto simp: mux_inv_def mux_links_def mux_fields_def)

lemma mux_links_cong:
  assumes "mux s' x = mux s x" "\<And>j. j \<in> set R \<union> set V \<Longrightarrow> nx s' j = nx s j \<and> pv s' j = pv s j"
  shows "mux_links x s' R V \<longleftrightarrow> mux_links x s R V"
  using assms dll_cong [of R "nx s'" "nx s" "pv s'" "pv s"] dll_cong [of V "nx s'" "nx s" "pv s'" "pv s"] by (simp add: mux_links_def)

lemma mux_links_upd_iob:
  assumes "i \<notin> set R \<union> set V \<or> (\<forall>o1. iob_next (f o1) = iob_next o1 \<and> iob_prev (f o1) = iob_prev o1)"
  shows "mux_links x (upd_iob i f s) R V \<longleftrightarrow> mux_links x s R V"
  using assms by (intro mux_links_cong) (auto simp: upd_iob_def nx_def pv_def)

lemma mux_links_signaled [simp]: "mux_links x (set_signaled y v s) R V \<longleftrightarrow> mux_links x s R V"
  by (rule mux_links_cong) (simp_all add: set_signaled_def upd_obj_def nx_def pv_def)

lemma dll_other:
  assumes "dll h t (nx s) (pv s) V" "\<And>j. j \<in> set V \<Longrightarrow> nx s' j = nx s j \<and> pv s' j = pv s j"
  shows "dll h t (nx s') (pv s') V"
  using dll_cong [of V "nx s'" "nx s" "pv s'" "pv s"] assms by simp

lemma ready_append_links:
  assumes L: "mux_links x s R V" and i: "i \<notin> set R \<union> set V"
  shows "mux_links x (ready_append x i s) (R @ [i]) V" "bare (iob (ready_append x i s) j) = bare (iob s j)"
proof -
  let ?s = "ready_append x i s"
  have d: "dll (mux_ready_head (mux s x)) (mux_ready_tail (mux s x)) (nx s) (pv s) R" "dll (mux_waiting_head (mux s x)) (mux_waiting_tail (mux s x)) (nx s) (pv s) V"
    "set R \<inter> set V = {}" using L by (auto simp: mux_links_def)
  note A = append_links [of _ _ s R i ?s, OF d(1)]
  have f: "iob ?s = (let f = (iob s)(i := (iob s i)\<lparr>iob_next := None, iob_prev := mux_ready_tail (mux s x)\<rparr>) in
         case mux_ready_tail (mux s x) of None \<Rightarrow> f | Some l \<Rightarrow> f(l := (f l)\<lparr>iob_next := Some i\<rparr>))"
    by (simp add: ready_append_eq)
  have "dll (mux_waiting_head (mux s x)) (mux_waiting_tail (mux s x)) (nx ?s) (pv ?s) V"
    using d(3) i by (intro dll_other [OF d(2)] A(2) [OF _ f]) auto
  then show "mux_links x ?s (R @ [i]) V"
    using A(1) [OF _ f] i d(3) unfolding mux_links_def by (simp add: ready_append_eq)
  show "bare (iob ?s j) = bare (iob s j)" using A(3) [OF _ f] i by simp
qed

lemma waiting_append_links:
  assumes L: "mux_links x s R V" and i: "i \<notin> set R \<union> set V"
  shows "mux_links x (waiting_append x i s) R (V @ [i])" "bare (iob (waiting_append x i s) j) = bare (iob s j)"
proof -
  let ?s = "waiting_append x i s"
  have d: "dll (mux_waiting_head (mux s x)) (mux_waiting_tail (mux s x)) (nx s) (pv s) V" "dll (mux_ready_head (mux s x)) (mux_ready_tail (mux s x)) (nx s) (pv s) R"
    "set R \<inter> set V = {}" using L by (auto simp: mux_links_def)
  note A = append_links [of _ _ s V i ?s, OF d(1)]
  have f: "iob ?s = (let f = (iob s)(i := (iob s i)\<lparr>iob_next := None, iob_prev := mux_waiting_tail (mux s x)\<rparr>) in
         case mux_waiting_tail (mux s x) of None \<Rightarrow> f | Some l \<Rightarrow> f(l := (f l)\<lparr>iob_next := Some i\<rparr>))"
    by (simp add: waiting_append_eq)
  have "dll (mux_ready_head (mux s x)) (mux_ready_tail (mux s x)) (nx ?s) (pv ?s) R"
    using d(3) i by (intro dll_other [OF d(2)] A(2) [OF _ f]) auto
  then show "mux_links x ?s R (V @ [i])"
    using A(1) [OF _ f] i d(3) unfolding mux_links_def by (simp add: waiting_append_eq)
  show "bare (iob ?s j) = bare (iob s j)" using A(3) [OF _ f] i by simp
qed

lemma dll_next_ne: "dll h t n p xs \<Longrightarrow> i \<in> set xs \<Longrightarrow> n i \<noteq> Some i"
proof
  assume d: "dll h t n p xs" and i: "i \<in> set xs" and e: "n i = Some i"
  obtain ys zs where xs: "xs = ys @ i # zs" using i by (meson split_list)
  show False using dll_mid(1) [OF d [unfolded xs]] dll_distinct [OF d] e xs by (cases zs) auto
qed

lemma unlink_step:
  assumes d: "dll h t (nx s) (pv s) xs" and i: "i \<in> set xs"
  shows "dll (if h = Some i then nx (unlink_iob i s) i else h) (if t = Some i then pv (unlink_iob i s) i else t) (nx (unlink_iob i s)) (pv (unlink_iob i s)) (remove1 i xs)"
    "j \<notin> set xs \<Longrightarrow> nx (unlink_iob i s) j = nx s j \<and> pv (unlink_iob i s) j = pv s j"
    "bare (iob (unlink_iob i s) j) = bare (iob s j)" "mux (unlink_iob i s) = mux s"
proof -
  have e: "unlink_iob i s =
     s\<lparr>iob := (let f = (case nx s i of None \<Rightarrow> iob s | Some a \<Rightarrow> (iob s)(a := (iob s a)\<lparr>iob_prev := pv s i\<rparr>)) in
         case pv s i of None \<Rightarrow> f | Some a \<Rightarrow> f(a := (f a)\<lparr>iob_next := nx s i\<rparr>))\<rparr>"
    using unlink_eq [of s i] dll_next_ne [OF d i] unfolding nx_def pv_def .
  then have f: "iob (unlink_iob i s) = (let f = (case nx s i of None \<Rightarrow> iob s | Some a \<Rightarrow> (iob s)(a := (iob s a)\<lparr>iob_prev := pv s i\<rparr>)) in
         case pv s i of None \<Rightarrow> f | Some a \<Rightarrow> f(a := (f a)\<lparr>iob_next := nx s i\<rparr>))" by simp
  note U = unlink_links [of _ _ s xs i "unlink_iob i s", OF d i f]
  show "dll (if h = Some i then nx (unlink_iob i s) i else h) (if t = Some i then pv (unlink_iob i s) i else t) (nx (unlink_iob i s)) (pv (unlink_iob i s)) (remove1 i xs)"
    using U(1) by (simp only: U(4))
  show "j \<notin> set xs \<Longrightarrow> nx (unlink_iob i s) j = nx s j \<and> pv (unlink_iob i s) j = pv s j" "bare (iob (unlink_iob i s) j) = bare (iob s j)"
    using U(2,3) by blast+
  show "mux (unlink_iob i s) = mux s" by (simp add: e)
qed

lemma ready_remove_links:
  assumes L: "mux_links x s R V" and i: "i \<in> set R"
  shows "mux_links x (ready_remove x i (unlink_iob i s)) (remove1 i R) V" "bare (iob (ready_remove x i (unlink_iob i s)) j) = bare (iob s j)"
proof -
  let ?u = "unlink_iob i s"
  have d: "dll (mux_ready_head (mux s x)) (mux_ready_tail (mux s x)) (nx s) (pv s) R" "dll (mux_waiting_head (mux s x)) (mux_waiting_tail (mux s x)) (nx s) (pv s) V"
    "set R \<inter> set V = {}" using L by (auto simp: mux_links_def)
  note U = unlink_step [OF d(1) i]
  have r: "mux_ready_head (mux (ready_remove x i ?u) x) = (if mux_ready_head (mux s x) = Some i then nx ?u i else mux_ready_head (mux s x))"
    "mux_ready_tail (mux (ready_remove x i ?u) x) = (if mux_ready_tail (mux s x) = Some i then pv ?u i else mux_ready_tail (mux s x))"
    "mux_waiting_head (mux (ready_remove x i ?u) x) = mux_waiting_head (mux s x)" "mux_waiting_tail (mux (ready_remove x i ?u) x) = mux_waiting_tail (mux s x)"
    "iob (ready_remove x i ?u) = iob ?u"
    using U(4) by (simp_all add: ready_remove_def upd_mux_def nx_def pv_def Let_def)
  have n: "nx (ready_remove x i ?u) = nx ?u" "pv (ready_remove x i ?u) = pv ?u" using r(5) by (simp_all add: nx_def pv_def fun_eq_iff)
  have "dll (mux_waiting_head (mux s x)) (mux_waiting_tail (mux s x)) (nx ?u) (pv ?u) V"
    using d(3) by (intro dll_other [OF d(2)] U(2)) auto
  moreover have "set (remove1 i R) \<inter> set V = {}" using d(3) notin_set_remove1 by fastforce
  ultimately show "mux_links x (ready_remove x i ?u) (remove1 i R) V" using U(1) unfolding mux_links_def r n by simp
  show "bare (iob (ready_remove x i ?u) j) = bare (iob s j)" using r(5) U(3) by simp
qed

lemma waiting_remove_links:
  assumes L: "mux_links x s R V" and i: "i \<in> set V"
  shows "mux_links x (waiting_remove x i (unlink_iob i s)) R (remove1 i V)" "bare (iob (waiting_remove x i (unlink_iob i s)) j) = bare (iob s j)"
proof -
  let ?u = "unlink_iob i s"
  have d: "dll (mux_waiting_head (mux s x)) (mux_waiting_tail (mux s x)) (nx s) (pv s) V" "dll (mux_ready_head (mux s x)) (mux_ready_tail (mux s x)) (nx s) (pv s) R"
    "set R \<inter> set V = {}" using L by (auto simp: mux_links_def)
  note U = unlink_step [OF d(1) i]
  have r: "mux_waiting_head (mux (waiting_remove x i ?u) x) = (if mux_waiting_head (mux s x) = Some i then nx ?u i else mux_waiting_head (mux s x))"
    "mux_waiting_tail (mux (waiting_remove x i ?u) x) = (if mux_waiting_tail (mux s x) = Some i then pv ?u i else mux_waiting_tail (mux s x))"
    "mux_ready_head (mux (waiting_remove x i ?u) x) = mux_ready_head (mux s x)" "mux_ready_tail (mux (waiting_remove x i ?u) x) = mux_ready_tail (mux s x)"
    "iob (waiting_remove x i ?u) = iob ?u"
    using U(4) by (simp_all add: waiting_remove_def upd_mux_def nx_def pv_def Let_def)
  have n: "nx (waiting_remove x i ?u) = nx ?u" "pv (waiting_remove x i ?u) = pv ?u" using r(5) by (simp_all add: nx_def pv_def fun_eq_iff)
  have "dll (mux_ready_head (mux s x)) (mux_ready_tail (mux s x)) (nx ?u) (pv ?u) R"
    using d(3) by (intro dll_other [OF d(2)] U(2)) auto
  moreover have "set R \<inter> set (remove1 i V) = {}" using d(3) notin_set_remove1 by fastforce
  ultimately show "mux_links x (waiting_remove x i ?u) R (remove1 i V)" using U(1) unfolding mux_links_def r n by simp
  show "bare (iob (waiting_remove x i ?u) j) = bare (iob s j)" using r(5) U(3) by simp
qed


section \<open>Attaching and detaching\<close>

lemma bare_eq_fields:
  "(\<And>j. bare (iob s' j) = bare (iob s j)) \<Longrightarrow> mux_fields x s' R V \<longleftrightarrow> mux_fields x s R V"
proof -
  assume b: "\<And>j. bare (iob s' j) = bare (iob s j)"
  have "iob_iomux (iob s' j) = iob_iomux (iob s j)" "iob_ready (iob s' j) = iob_ready (iob s j)" for j
    using bare_fields(1,5) [OF b [of j]] .
  then show ?thesis by (simp add: mux_fields_def)
qed

lemma set_signaled_simps [simp]:
  "iob (set_signaled x v s) = iob s" "mux (set_signaled x v s) = mux s" "obj (set_signaled x v s) x = (obj s x)\<lparr>signaled := v\<rparr>"
  "y \<noteq> x \<Longrightarrow> obj (set_signaled x v s) y = obj s y" "thr (set_signaled x v s) = thr s" "wb (set_signaled x v s) = wb s"
  by (simp_all add: set_signaled_def upd_obj_def)

lemma io_frame [simp]:
  "obj (ready_append x i s) = obj s" "obj (waiting_append x i s) = obj s" "obj (upd_iob i f s) = obj s" "mux (upd_iob i f s) = mux s"
  "iob (upd_iob i f s) = (iob s)(i := f (iob s i))"
  "obj (unlink_iob i s) = obj s" "obj (ready_remove x i s) = obj s" "obj (waiting_remove x i s) = obj s"
  by (simp_all add: ready_append_eq waiting_append_eq upd_iob_def unlink_iob_def upd_iob_opt_def ready_remove_def waiting_remove_def
      upd_mux_def Let_def split: option.splits)

lemma links_head: "mux_links x s R V \<Longrightarrow> mux_ready_head (mux s x) = first R"
  using dll_head [of "mux_ready_head (mux s x)"] dll_empty_iff [of "mux_ready_head (mux s x)"]
  by (cases R) (auto simp: mux_links_def)

lemma detach_spec:
  assumes M: "mux_inv x s R V" and i: "i \<in> set R \<union> set V"
  shows "mux_inv x (detach_ioobject i s) (remove1 i R) (remove1 i V)"
    "j \<noteq> i \<Longrightarrow> bare (iob (detach_ioobject i s) j) = bare (iob s j)" "iob_context (iob (detach_ioobject i s) i) = iob_context (iob s i)"
    "iob_iomux (iob (detach_ioobject i s) i) = None"
    "obj (detach_ioobject i s) = (obj s)(x := (obj s x)\<lparr>signaled := remove1 i R \<noteq> []\<rparr>)"
proof -
  have L: "mux_links x s R V" and F: "mux_fields x s R V" and g: "signaled (obj s x) \<longleftrightarrow> R \<noteq> []" using M by (simp_all add: mux_inv_split)
  have disj: "set R \<inter> set V = {}" and dist: "distinct R" "distinct V" using mux_invD(7) [OF M] dll_distinct mux_invD(1,2) [OF M] by blast+
  have xi: "iob_iomux (iob s i) = Some x" using mux_invD(3) [OF M] i by blast
  let ?u = "unlink_iob i s"
  define s2 where "s2 = (if i \<in> set R then ready_remove x i ?u else waiting_remove x i ?u)"
  have L2: "mux_links x s2 (remove1 i R) (remove1 i V)" "\<And>j. bare (iob s2 j) = bare (iob s j)"
  proof -
    have "remove1 i V = V" if "i \<in> set R" using that disj by (intro remove1_idem) blast
    then show "mux_links x s2 (remove1 i R) (remove1 i V)" "\<And>j. bare (iob s2 j) = bare (iob s j)"
      using ready_remove_links [OF L, of i] waiting_remove_links [OF L, of i] i by (auto simp: s2_def remove1_idem)
  qed
  have rdy: "iob_ready (iob ?u i) \<longleftrightarrow> i \<in> set R"
  proof -
    have "bare (iob ?u i) = bare (iob s i)"
      using unlink_step(3) [OF mux_invD(1) [OF M]] unlink_step(3) [OF mux_invD(2) [OF M]] i by blast
    then show ?thesis using bare_fields(5) mux_invD(4,5) [OF M] i by blast
  qed
  define s3 where "s3 = set_signaled x (remove1 i R \<noteq> []) s2"
  have o2: "obj s2 = obj s" by (simp add: s2_def)
  have s3: "(if iob_ready (iob ?u i) then
       let s = ready_remove x i ?u in if mux_ready_head (mux s x) = None then set_signaled x False s else s
     else waiting_remove x i ?u) = s3"
  proof (cases "i \<in> set R")
    case True
    then have "mux_ready_head (mux s2 x) = None \<longleftrightarrow> remove1 i R = []" "s2 = ready_remove x i ?u" "signaled (obj s2 x)"
      using links_head [OF L2(1)] g o2 by (auto simp: s2_def first_def split: list.splits)
    then show ?thesis using True rdy set_signaled_same [of x s2] by (auto simp: s3_def Let_def)
  next
    case False
    then have "s2 = waiting_remove x i ?u" "remove1 i R = R" by (simp_all add: s2_def remove1_idem)
    then show ?thesis using False rdy g o2 set_signaled_same [of x s2] by (simp add: s3_def)
  qed
  define s4 where "s4 = upd_iob i (\<lambda>o1. o1\<lparr>iob_iomux := None, iob_next := None, iob_prev := None\<rparr>) s3"
  have e: "detach_ioobject i s = s4" using xi s3 by (simp add: detach_ioobject_def s4_def Let_def)
  have ni: "i \<notin> set (remove1 i R) \<union> set (remove1 i V)" using dist by simp
  have b4: "j \<noteq> i \<Longrightarrow> bare (iob s4 j) = bare (iob s j)" for j using L2(2) by (simp add: s4_def s3_def)
  have c4: "iob_context (iob s4 i) = iob_context (iob s i)" "iob_iomux (iob s4 i) = None"
    using bare_fields(2) [OF L2(2) [of i]] by (simp_all add: s4_def s3_def)
  have "mux_links x s4 (remove1 i R) (remove1 i V)" unfolding s4_def s3_def using L2(1) ni by (subst mux_links_upd_iob) auto
  moreover have "mux_fields x s4 (remove1 i R) (remove1 i V)"
    unfolding mux_fields_def
  proof (intro conjI allI ballI)
    fix j
    show "iob_iomux (iob s4 j) = Some x \<longleftrightarrow> j \<in> set (remove1 i R) \<union> set (remove1 i V)"
      using F c4(2) ni bare_fields(1) [OF b4 [of j]] dist by (cases "j = i") (auto simp: mux_fields_def)
  next
    fix j assume "j \<in> set (remove1 i R)"
    then have "j \<in> set R" "j \<noteq> i" using dist by auto
    then show "iob_ready (iob s4 j)" using bare_fields(5) [OF b4 [of j]] F by (auto simp: mux_fields_def)
  next
    fix j assume "j \<in> set (remove1 i V)"
    then have "j \<in> set V" "j \<noteq> i" using dist by auto
    then show "\<not> iob_ready (iob s4 j)" using bare_fields(5) [OF b4 [of j]] F by (auto simp: mux_fields_def)
  qed
  moreover have o4: "obj s4 = (obj s)(x := (obj s x)\<lparr>signaled := remove1 i R \<noteq> []\<rparr>)"
    by (simp add: s4_def s3_def o2 set_signaled_def upd_obj_def)
  ultimately show "mux_inv x (detach_ioobject i s) (remove1 i R) (remove1 i V)" unfolding e mux_inv_split by simp
  show "j \<noteq> i \<Longrightarrow> bare (iob (detach_ioobject i s) j) = bare (iob s j)" "iob_context (iob (detach_ioobject i s) i) = iob_context (iob s i)"
    "iob_iomux (iob (detach_ioobject i s) i) = None"
    "obj (detach_ioobject i s) = (obj s)(x := (obj s x)\<lparr>signaled := remove1 i R \<noteq> []\<rparr>)"
    unfolding e using b4 c4 o4 by simp_all
qed

text \<open>An object that belongs to the multiplexer but is in neither queue yet.\<close>

lemma attach_spec:
  assumes L: "mux_links x s R V" and i: "i \<notin> set R \<union> set V" and x: "iob_iomux (iob s i) = Some x"
    and F: "\<And>j. j \<noteq> i \<Longrightarrow> iob_iomux (iob s j) = Some x \<longleftrightarrow> j \<in> set R \<union> set V" "\<forall>j \<in> set R. iob_ready (iob s j)" "\<forall>j \<in> set V. \<not> iob_ready (iob s j)"
    and g: "signaled (obj s x) \<longleftrightarrow> R \<noteq> []"
  shows "iob_ready (iob s i) \<Longrightarrow> mux_inv x (set_signaled x True (ready_append x i s)) (R @ [i]) V"
    "\<not> iob_ready (iob s i) \<Longrightarrow> mux_inv x (waiting_append x i s) R (V @ [i])"
proof -
  have F1: "iob_iomux (iob s j) = Some x \<longleftrightarrow> j = i \<or> j \<in> set R \<union> set V" for j using F(1) x by (cases "j = i") simp_all
  show "mux_inv x (set_signaled x True (ready_append x i s)) (R @ [i]) V" if r: "iob_ready (iob s i)"
  proof -
    have "mux_fields x s (R @ [i]) V" using F(2,3) F1 r by (auto simp: mux_fields_def)
    then have "mux_fields x (set_signaled x True (ready_append x i s)) (R @ [i]) V"
      using bare_eq_fields [of "set_signaled x True (ready_append x i s)" s] ready_append_links(2) [OF L i] by simp
    then show ?thesis using ready_append_links(1) [OF L i] by (simp add: mux_inv_split)
  qed
  show "mux_inv x (waiting_append x i s) R (V @ [i])" if r: "\<not> iob_ready (iob s i)"
  proof -
    have "mux_fields x s R (V @ [i])" using F(2,3) F1 r by (auto simp: mux_fields_def)
    then have "mux_fields x (waiting_append x i s) R (V @ [i])"
      using bare_eq_fields [of "waiting_append x i s" s] waiting_append_links(2) [OF L i] by simp
    then show ?thesis using waiting_append_links(1) [OF L i] g by (simp add: mux_inv_split)
  qed
qed


section \<open>Handing ready objects to waiting threads\<close>

text \<open>What the operations on the queues leave alone.\<close>

lemma io_frame_rest [simp]:
  "sched.truncate (upd_iob i f s) = sched.truncate s" "wb (upd_iob i f s) = wb s"
  "sched.truncate (upd_mux x h s) = sched.truncate s" "wb (upd_mux x h s) = wb s"
  "sched.truncate (set_signaled x v s) = sched.truncate s"
  by (simp_all add: upd_iob_def upd_mux_def set_signaled_def upd_obj_def sched.truncate_def)

lemma queue_frame [simp]:
  "sched.truncate (ready_append x i s) = sched.truncate s" "wb (ready_append x i s) = wb s"
  "sched.truncate (waiting_append x i s) = sched.truncate s" "wb (waiting_append x i s) = wb s"
  "sched.truncate (unlink_iob i s) = sched.truncate s" "wb (unlink_iob i s) = wb s"
  "sched.truncate (ready_remove x i s) = sched.truncate s" "wb (ready_remove x i s) = wb s"
  "sched.truncate (waiting_remove x i s) = sched.truncate s" "wb (waiting_remove x i s) = wb s"
  by (simp_all add: ready_append_def waiting_append_def unlink_iob_def upd_iob_opt_def ready_remove_def waiting_remove_def Let_def
      split: option.splits)

lemma detach_frame [simp]:
  "sched.truncate (detach_ioobject i s) = sched.truncate s" "wb (detach_ioobject i s) = wb s"
  by (simp_all add: detach_ioobject_def Let_def split: option.splits)

lemma truncate_fields:
  assumes "sched.truncate s' = sched.truncate s"
  shows "thr s' = thr s" "current s' = current s" "ready_head s' = ready_head s" "ready_tail s' = ready_tail s" "summary s' = summary s"
  using assms by (simp_all add: sched.truncate_def)

lemma wait_inv_frame:
  assumes I: "wait_inv s W B" and t: "sched.truncate s' = sched.truncate s" and w: "wb s' = wb s"
    and o: "\<And>e. waitlist_head (obj s' e) = waitlist_head (obj s e) \<and> waitlist_tail (obj s' e) = waitlist_tail (obj s e)"
  shows "wait_inv s' W B"
proof -
  note f = truncate_fields [OF t]
  obtain q where "sched_inv s q" using wait_invD(8) [OF I] by blast
  then have "sched_inv s' q" by (rule sched_inv_soft [OF _ _ refl]) (simp_all add: f)
  then show ?thesis using I w o f(1) by (auto simp: wait_inv_def waitlists_def)
qed

lemma ready_blocks_signaled:
  assumes "wb s' = wb s" "\<And>e. signaled (obj s' e) = signaled (obj s e)"
  shows "ready_blocks s' B ys = ready_blocks s B ys"
  using assms by (simp add: ready_blocks_def ready_def sig_def)

lemma iosys_more:
  assumes "ksys.more s' = ksys.more (s :: 'z iosys_scheme)"
  shows "iob s' = iob s" "mux s' = mux s"
  using assms by (cases s, cases s', simp)+

lemma upd_thread_io [simp]: "iob (upd_thread t f s) = iob s" "mux (upd_thread t f s) = mux s" for s :: "'z iosys_scheme"
  using iosys_more [of "upd_thread t f s" s] by simp_all

lemma mux_inv_upd_thread [simp]: "mux_inv x (upd_thread t f s) R V \<longleftrightarrow> mux_inv x s R V"
  by (rule mux_inv_cong) simp_all

text \<open>One ready object goes to the thread of the wait block \<open>b\<close>.\<close>

lemma hand_out:
  assumes I: "wait_inv s W B" and o: "one_each s (W x)" and W: "W x = xs @ b # ys" and M: "mux_inv x s (i # R) V"
  obtains s' where "release_thread (wb_thread (wb s b)) (detach_ioobject i (upd_thread (wb_thread (wb s b)) (\<lambda>t. t\<lparr>waitkey := k\<rparr>) s)) = Some s'"
    "wait_inv s' (purge s {wb_thread (wb s b)} W) (unblock {wb_thread (wb s b)} B)" "purge s {wb_thread (wb s b)} W x = xs @ ys"
    "one_each s' (xs @ ys)" "mux_inv x s' R V" "R \<noteq> [] \<longrightarrow> ready_blocks s' (unblock {wb_thread (wb s b)} B) ys = ready_blocks s B ys"
    "waitkey (thr s' (wb_thread (wb s b))) = k" "\<forall>u. u \<noteq> wb_thread (wb s b) \<longrightarrow> waitkey (thr s' u) = waitkey (thr s u) \<and> tstat (thr s' u) = tstat (thr s u)"
    "woken (thr s' (wb_thread (wb s b)))" "\<forall>c. wb_thread (wb s' c) = wb_thread (wb s c)" "\<forall>j. j \<noteq> i \<longrightarrow> bare (iob s' j) = bare (iob s j)"
proof -
  let ?t = "wb_thread (wb s b)"
  define s0 where "s0 = upd_thread ?t (\<lambda>t. t\<lparr>waitkey := k\<rparr>) s"
  have I0: "wait_inv s0 W B" using wait_inv_upd_key [OF I] by (simp add: s0_def)
  have M0: "mux_inv x s0 (i # R) V" using M by (simp add: s0_def)
  have e0: "wb s0 = wb s" "obj s0 = obj s" "iob s0 = iob s" by (simp_all add: s0_def)
  define s1 where "s1 = detach_ioobject i s0"
  have iV: "i \<notin> set V" using mux_invD(7) [OF M] by auto
  have D: "mux_inv x s1 R V" "\<And>j. j \<noteq> i \<Longrightarrow> bare (iob s1 j) = bare (iob s j)" "obj s1 = (obj s)(x := (obj s x)\<lparr>signaled := R \<noteq> []\<rparr>)"
    using detach_spec [OF M0, of i] iV by (simp_all add: s1_def e0 remove1_idem)
  have f1: "wb s1 = wb s" "thr s1 = thr s0" using truncate_fields(1) [of s1 s0] by (simp_all add: s1_def e0)
  have I1: "wait_inv s1 W B" using wait_inv_frame [OF I0, of s1] D(3) e0 by (simp add: s1_def)
  have o1: "one_each s1 (W x)" using o by (simp add: one_each_def f1)
  obtain s' where s': "release_thread (wb_thread (wb s1 b)) s1 = Some s'"
    "wait_inv s' (purge s1 {wb_thread (wb s1 b)} W) (unblock {wb_thread (wb s1 b)} B)"
    "rframe {wb_thread (wb s1 b)} s1 s'" "purge s1 {wb_thread (wb s1 b)} W x = xs @ ys"
    "one_each s' (xs @ ys)" "ready_blocks s' (unblock {wb_thread (wb s1 b)} B) ys = ready_blocks s1 B ys"
    "\<forall>u. waitkey (thr s' u) = waitkey (thr s1 u)"
    by (rule serve_one [OF I1 o1 W])
  have pg: "purge s1 T W = purge s T W" for T by (simp add: purge_def fun_eq_iff f1)
  note s' = s' [unfolded f1(1) pg]
  have "ksys.more s' = ksys.more s1" using s'(3) by (simp add: rframe_def)
  note m = iosys_more [OF this]
  have "signaled (obj s' x) = signaled (obj s1 x)" using plain_fields(2) [OF rframe_plain [OF s'(3)]] .
  then have M': "mux_inv x s' R V" using mux_inv_cong [of s' s1 x] D(1) m by simp
  have rb: "ready_blocks s1 B ys = ready_blocks s B ys" if "R \<noteq> []"
    using that mux_invD(6) [OF M] by (intro ready_blocks_signaled) (auto simp: f1 D(3))
  have k': "waitkey (thr s' u) = (if u = ?t then k else waitkey (thr s u))" for u using s'(7) f1(2) by (simp add: s0_def)
  have ts: "tstat (thr s' u) = tstat (thr s u)" if "u \<noteq> ?t" for u using s'(3) that f1(2) by (simp add: rframe_def s0_def)
  have "woken (thr s' ?t)" "\<forall>c. wb_thread (wb s' c) = wb_thread (wb s c)"
    using s'(3) rframe_thread [OF s'(3)] f1(1) by (simp_all add: rframe_def)
  then show thesis
    using s'(6) rb k' ts D(2) m(1) by (intro that [OF s'(1) [unfolded s1_def s0_def] s'(2,4,5) M']) simp_all
qed

text \<open>
  The loop of \<^verbatim>\<open>release_waiting_threads\<close> pairs the threads that are ready, in the order of the wait list,
  with the ready objects, in the order of the ready queue.
\<close>

lemma release_loop_spec:
  assumes "wait_inv s W B" "one_each s (W x)" "W x = xs @ ys" "mux_inv x s R V"
  shows "let rs = ready_blocks s B ys; T = threads_of s (map fst (zip rs R)) in
    \<exists>s'. release_loop x (first R) (first ys) s = Some s' \<and> mux_inv x s' (drop (length rs) R) V \<and>
      wait_inv s' (purge s T W) (unblock T B) \<and>
      (\<forall>(b, i) \<in> set (zip rs R). waitkey (thr s' (wb_thread (wb s b))) = iob_context (iob s i)) \<and>
      (\<forall>t \<in> T. woken (thr s' t)) \<and> (\<forall>t. t \<notin> T \<longrightarrow> tstat (thr s' t) = tstat (thr s t)) \<and>
      (\<forall>t. t \<notin> threads_of s ys \<longrightarrow> waitkey (thr s' t) = waitkey (thr s t))"
  using assms
proof (induction ys arbitrary: s W B xs R)
  case Nil
  have "release_loop x (first R) (first []) s = Some s" by (subst release_loop.simps) (simp split: option.split)
  then show ?case using Nil by (simp add: ready_blocks_def)
next
  case (Cons b ys)
  let ?t = "wb_thread (wb s b)" and ?rs = "ready_blocks s B ys"
  show ?case
  proof (cases R)
    case Nil
    have "release_loop x (first R) (first (b # ys)) s = Some s" unfolding Nil by (subst release_loop.simps) simp
    then show ?thesis using Cons.prems Nil by simp
  next
    case R: (Cons i R')
    define s1 where "s1 = upd_thread ?t (\<lambda>x. x\<lparr>waitkey := key_of s (B ?t) (waitkey (thr s ?t))\<rparr>) s"
    have v: "thread_ready_to_run ?t s = Some (ready s B ?t, s1)" using visit [OF Cons.prems(1)] by (simp add: s1_def)
    have I1: "wait_inv s1 W B" using wait_inv_upd_key [OF Cons.prems(1)] by (simp add: s1_def)
    have M1: "mux_inv x s1 R V" using Cons.prems(4) by (simp add: s1_def)
    have e1: "wb s1 = wb s" "obj s1 = obj s" "iob s1 = iob s" "u \<noteq> ?t \<Longrightarrow> thr s1 u = thr s u" "tstat (thr s1 v) = tstat (thr s v)" for u v
      by (simp_all add: s1_def)
    have rb: "ready_blocks s1 B zs = ready_blocks s B zs" for zs using ready_blocks_signaled [of s1 s] e1 by simp
    have th1: "threads_of s1 zs = threads_of s zs" "purge s1 T W = purge s T W" for zs T by (simp_all add: threads_of_def purge_def fun_eq_iff e1)
    have o1: "one_each s1 (W x)" using Cons.prems(2) by (simp add: one_each_def e1)
    have nx: "next_wait (wb s b) = first ys" using next_waiter [OF Cons.prems(1,3)] .
    have dt: "?t \<notin> threads_of s ys" using Cons.prems(2,3) by (auto simp: one_each_def threads_of_def)
    show ?thesis
    proof (cases "ready s B ?t")
      case False
      have W: "W x = (xs @ [b]) @ ys" using Cons.prems(3) by simp
      have lp: "release_loop x (first R) (first (b # ys)) s = release_loop x (first R) (first ys) s1"
        using v False nx R by (subst release_loop.simps) simp
      have rbs: "ready_blocks s B (b # ys) = ?rs" using False by (simp add: ready_blocks_def)
      show ?thesis using Cons.IH [OF I1 o1 W M1] unfolding Let_def rb th1 e1(1,3,5) rbs lp
        using e1(4) by (elim exE) (rule exI, auto)
    next
      case True
      define c where "c = iob_context (iob s i)"
      obtain s2 where s2: "release_thread (wb_thread (wb s1 b)) (detach_ioobject i (upd_thread (wb_thread (wb s1 b)) (\<lambda>t. t\<lparr>waitkey := c\<rparr>) s1)) = Some s2"
        "wait_inv s2 (purge s1 {wb_thread (wb s1 b)} W) (unblock {wb_thread (wb s1 b)} B)" "purge s1 {wb_thread (wb s1 b)} W x = xs @ ys"
        "one_each s2 (xs @ ys)" "mux_inv x s2 R' V" "R' \<noteq> [] \<longrightarrow> ready_blocks s2 (unblock {wb_thread (wb s1 b)} B) ys = ready_blocks s1 B ys"
        "waitkey (thr s2 (wb_thread (wb s1 b))) = c"
        "\<forall>u. u \<noteq> wb_thread (wb s1 b) \<longrightarrow> waitkey (thr s2 u) = waitkey (thr s1 u) \<and> tstat (thr s2 u) = tstat (thr s1 u)"
        "woken (thr s2 (wb_thread (wb s1 b)))" "\<forall>c. wb_thread (wb s2 c) = wb_thread (wb s1 c)" "\<forall>j. j \<noteq> i \<longrightarrow> bare (iob s2 j) = bare (iob s1 j)"
        by (rule hand_out [OF I1 o1 Cons.prems(3) M1 [unfolded R], of c])
      note s2 = s2 [unfolded e1(1,3) th1 rb]
      have rbs: "ready_blocks s B (b # ys) = b # ?rs" using True by (simp add: ready_blocks_def)
      have hd2: "mux_ready_head (mux s2 x) = first R'" using links_head s2(5) by (auto simp: mux_inv_split)
      have lp: "release_loop x (first R) (first (b # ys)) s = release_loop x (first R') (first ys) s2"
        using v True nx R s2(1) hd2 e1(3) by (subst release_loop.simps) (simp add: c_def)
      show ?thesis
      proof (cases "R' = []")
        case True
        have "release_loop x (first R') (first ys) s2 = Some s2" unfolding True by (subst release_loop.simps) simp
        then show ?thesis using lp s2 R True e1(4,5) unfolding Let_def rbs by (auto simp: c_def)
      next
        case False
        have iR: "i \<notin> set R'" using dll_distinct [OF mux_invD(1) [OF Cons.prems(4)]] R by simp
        have ctx: "iob_context (iob s2 j) = iob_context (iob s j)" if "j \<in> set R'" for j
          using s2(11) that iR bare_fields(2) by metis
        have th2: "threads_of s2 zs = threads_of s zs" for zs using s2(10) by (simp add: threads_of_def)
        let ?T = "threads_of s (map fst (zip ?rs R'))"
        have sub: "?T \<subseteq> threads_of s ys" by (auto simp: threads_of_def ready_blocks_def dest: set_zip_leftD)
        have "one_each s2 (purge s {?t} W x)" using s2(3,4) by simp
        from Cons.IH [OF s2(2) this s2(3) s2(5)] obtain s' where s': "release_loop x (first R') (first ys) s2 = Some s'"
            "mux_inv x s' (drop (length ?rs) R') V"
            "wait_inv s' (purge s2 ?T (purge s {?t} W)) (unblock ?T (unblock {?t} B))"
            "\<forall>(b, i) \<in> set (zip ?rs R'). waitkey (thr s' (wb_thread (wb s2 b))) = iob_context (iob s2 i)"
            "\<forall>t \<in> ?T. woken (thr s' t)" "\<forall>t. t \<notin> ?T \<longrightarrow> tstat (thr s' t) = tstat (thr s2 t)"
            "\<forall>t. t \<notin> threads_of s ys \<longrightarrow> waitkey (thr s' t) = waitkey (thr s2 t)"
          unfolding Let_def s2(6) [rule_format, OF False] th2 by blast
        have pp: "purge s2 ?T (purge s {?t} W) = purge s (insert ?t ?T) W" using s2(10) by (auto simp: purge_def fun_eq_iff)
        have ub: "unblock ?T (unblock {?t} B) = unblock (insert ?t ?T) B" by (auto simp: unblock_def fun_eq_iff)
        have k: "\<forall>(b, i) \<in> set (zip ?rs R'). waitkey (thr s' (wb_thread (wb s b))) = iob_context (iob s i)"
        proof (clarify)
          fix c j assume "(c, j) \<in> set (zip ?rs R')"
          then show "waitkey (thr s' (wb_thread (wb s c))) = iob_context (iob s j)"
            using s'(4) s2(10) ctx set_zip_rightD [of c j ?rs R'] by fastforce
        qed
        have tT: "?t \<notin> ?T" using dt sub by blast
        then have wk: "woken (thr s' ?t)" using s2(9) s'(6) tstat_fields(1) [of "thr s' ?t" "thr s2 ?t"] by (simp add: woken_def)
        have kt: "waitkey (thr s' ?t) = c" using s'(7) dt s2(7) by simp
        have "\<forall>t. t \<notin> insert ?t ?T \<longrightarrow> tstat (thr s' t) = tstat (thr s t)" using s'(6) s2(8) e1(5) by simp
        moreover have "\<forall>t. t \<notin> threads_of s (b # ys) \<longrightarrow> waitkey (thr s' t) = waitkey (thr s t)" using s'(7) s2(8) e1(4) by simp
        ultimately show ?thesis
          using s'(1,2,3,5) k wk kt lp unfolding Let_def rbs R pp ub by (intro exI [of _ s']) (simp add: c_def)
      qed
    qed
  qed
qed


section \<open>Properties of the multiplexer\<close>

lemma set_io_event_quiet:
  assumes M: "mux_inv x s R V" and i: "i \<in> set R \<union> set V" and q: "\<not> (i \<in> set V \<and> events_monitored (iob s i) AND events \<noteq> 0)"
  shows "mux_inv x (upd_iob i (\<lambda>o1. o1\<lparr>events_signaled := events_signaled o1 OR events\<rparr>) s) R V"
proof -
  let ?s = "upd_iob i (\<lambda>o1. o1\<lparr>events_signaled := events_signaled o1 OR events\<rparr>) s"
  have d: "(m AND (a OR e) = 0) \<longleftrightarrow> m AND a = 0 \<and> m AND e = 0" for m a e :: u16
    by (auto simp: bit_eq_iff bit_simps)
  have "iob_ready (iob ?s j) = iob_ready (iob s j)" if "j \<in> set R \<union> set V" for j
    using q mux_invD(4,7) [OF M] i that by (cases "j = i") (auto simp: iob_ready_def d)
  moreover have "iob_iomux (iob ?s j) = iob_iomux (iob s j)" for j by simp
  ultimately have "mux_fields x ?s R V" using M unfolding mux_inv_split mux_fields_def by auto
  moreover have "mux_links x ?s R V" using M by (simp add: mux_links_upd_iob mux_inv_split)
  ultimately show ?thesis using M by (simp add: mux_inv_split)
qed

lemma io_frame_set_signaled_obj: "obj (set_signaled x v s) = (obj s)(x := (obj s x)\<lparr>signaled := v\<rparr>)"
  by (simp add: set_signaled_def upd_obj_def)

text \<open>
  C40. \<^verbatim>\<open>set_io_event\<close> on an object that is attached to a multiplexer. When the object waits and the event is
  monitored, it moves to the end of the ready queue, and the threads that wait for the
  multiplexer and are ready get the ready objects, first come first served: each is released
  with the context of its object as the result of its wait, and exactly those objects leave
  the multiplexer. Otherwise the event is only recorded. The invariants of the multiplexer
  and of the wait lists are kept.
\<close>

theorem set_io_event_correct:
  assumes M: "mux_inv x s R V" and i: "i \<in> set R \<union> set V" and I: "wait_inv s W B" and o: "one_each s (W x)"
  shows "let rs = ready_blocks (set_signaled x True s) B (W x); T = threads_of s (map fst (zip rs (R @ [i]))) in
    if i \<in> set V \<and> events_monitored (iob s i) AND events \<noteq> 0 then
      \<exists>s'. set_io_event i events s = Some s' \<and> mux_inv x s' (drop (length rs) (R @ [i])) (remove1 i V) \<and>
        wait_inv s' (purge s T W) (unblock T B) \<and>
        (\<forall>(b, j) \<in> set (zip rs (R @ [i])). waitkey (thr s' (wb_thread (wb s b))) = iob_context (iob s j)) \<and>
        (\<forall>t \<in> T. woken (thr s' t)) \<and> (\<forall>t. t \<notin> T \<longrightarrow> tstat (thr s' t) = tstat (thr s t))
    else
      \<exists>s'. set_io_event i events s = Some s' \<and> s' = s\<lparr>iob := (iob s)(i := (iob s i)\<lparr>events_signaled := events_signaled (iob s i) OR events\<rparr>)\<rparr> \<and>
        mux_inv x s' R V"
proof -
  have L: "mux_links x s R V" and F: "mux_fields x s R V" and g: "signaled (obj s x) \<longleftrightarrow> R \<noteq> []" using M by (simp_all add: mux_inv_split)
  have xi: "iob_iomux (iob s i) = Some x" using mux_invD(3) [OF M] i by blast
  define s1 where "s1 = upd_iob i (\<lambda>o1. o1\<lparr>events_signaled := events_signaled o1 OR events\<rparr>) s"
  have rdy: "\<not> iob_ready (iob s i) \<longleftrightarrow> i \<in> set V" using mux_invD(4,5) [OF M] i by blast
  show ?thesis
  proof (cases "i \<in> set V \<and> events_monitored (iob s i) AND events \<noteq> 0")
    case False
    then have "set_io_event i events s = Some s1" using xi rdy by (auto simp: set_io_event_def s1_def Let_def)
    moreover have "mux_inv x s1 R V" using set_io_event_quiet [OF M i False] by (simp add: s1_def)
    ultimately show ?thesis unfolding Let_def if_not_P [OF False] by (simp add: s1_def upd_iob_def)
  next
    case True
    define s2 where "s2 = waiting_remove x i (unlink_iob i s1)"
    define s3 where "s3 = set_signaled x True (ready_append x i s2)"
    have L1: "mux_links x s1 R V" using L by (simp add: s1_def mux_links_upd_iob)
    note W2 = waiting_remove_links [OF L1 conjunct1 [OF True], folded s2_def]
    have iR: "i \<notin> set R" "distinct V" using mux_invD(7) [OF M] dll_distinct [OF mux_invD(2) [OF M]] True by auto
    then have ni: "i \<notin> set R \<union> set (remove1 i V)" by simp
    have b2: "bare (iob s2 j) = bare (iob s j)" if "j \<noteq> i" for j using W2(2) [of j] that by (simp add: s1_def)
    have r2: "iob_iomux (iob s2 i) = Some x" "iob_ready (iob s2 i)"
    proof -
      show "iob_iomux (iob s2 i) = Some x" using bare_fields(1) [OF W2(2) [of i]] xi by (simp add: s1_def)
      have "iob_ready (iob s1 i)" using True by (auto simp: s1_def iob_ready_def bit_eq_iff bit_simps)
      then show "iob_ready (iob s2 i)" using bare_fields(5) [OF W2(2) [of i]] by simp
    qed
    have F2: "iob_iomux (iob s2 j) = Some x \<longleftrightarrow> j \<in> set R \<union> set (remove1 i V)" if "j \<noteq> i" for j
      using bare_fields(1) [OF b2 [OF that]] F that iR by (simp add: mux_fields_def)
    have F2': "\<forall>j \<in> set R. iob_ready (iob s2 j)"
    proof
      fix j assume "j \<in> set R"
      then show "iob_ready (iob s2 j)" using bare_fields(5) [OF b2 [of j]] F iR by (cases "j = i") (auto simp: mux_fields_def)
    qed
    have F2'': "\<forall>j \<in> set (remove1 i V). \<not> iob_ready (iob s2 j)"
    proof
      fix j assume "j \<in> set (remove1 i V)"
      then show "\<not> iob_ready (iob s2 j)" using bare_fields(5) [OF b2 [of j]] F iR by (cases "j = i") (auto simp: mux_fields_def)
    qed
    have o2: "obj s2 = obj s" by (simp add: s2_def s1_def)
    have M3: "mux_inv x s3 (R @ [i]) (remove1 i V)"
      using attach_spec(1) [OF W2(1) ni r2(1) F2 F2' F2'' _ r2(2)] g o2 by (simp add: s3_def)
    have f3: "wb s3 = wb s" "sched.truncate s3 = sched.truncate s" by (simp_all add: s3_def s2_def s1_def)
    note t3 = truncate_fields(1) [OF f3(2)]
    have o3: "obj s3 = (obj s)(x := (obj s x)\<lparr>signaled := True\<rparr>)" by (simp add: s3_def io_frame_set_signaled_obj o2)
    have I3: "wait_inv s3 W B" using wait_inv_frame [OF I f3(2,1)] by (simp add: o3)
    have c3: "iob_context (iob s3 j) = iob_context (iob s j)" for j
    proof -
      have "iob_context (iob s3 j) = iob_context (iob s2 j)" using bare_fields(2) [OF ready_append_links(2) [OF W2(1) ni]] by (simp add: s3_def)
      also have "\<dots> = iob_context (iob s1 j)" using bare_fields(2) [OF W2(2)] .
      finally show ?thesis by (simp add: s1_def)
    qed
    have rb: "ready_blocks s3 B (W x) = ready_blocks (set_signaled x True s) B (W x)"
      by (rule ready_blocks_signaled) (simp_all add: f3 o3 io_frame_set_signaled_obj)
    have o13: "one_each s3 (W x)" using o by (simp add: one_each_def f3)
    have th: "threads_of s3 zs = threads_of s zs" "purge s3 T W = purge s T W" for zs T by (simp_all add: threads_of_def purge_def fun_eq_iff f3)
    have e: "set_io_event i events s = release_loop x (first (R @ [i])) (first (W x)) s3"
      using True rdy xi links_head [of x s3 "R @ [i]" "remove1 i V"] M3 head_waiter [OF I3, of x]
      by (simp add: set_io_event_def release_waiting_threads_def s3_def s2_def s1_def mux_inv_split Let_def)
    have tr: "(i \<in> set V \<and> events_monitored (iob s i) AND events \<noteq> 0) = True" using True by simp
    show ?thesis
      using release_loop_spec [OF I3 o13 append_Nil [symmetric] M3] unfolding Let_def rb th e f3(1) t3 c3 tr if_True by blast
  qed
qed

text \<open>
  \<^verbatim>\<open>clear_io_event\<close> does not move the object back to the waiting queue: when the last monitored event of the
  first ready object is cleared and the object is then detached (as when it is closed), the
  ready queue of the multiplexer still starts with the object, which no longer knows the
  multiplexer.
\<close>

theorem clear_io_event_leaves_dangling:
  assumes M: "mux_inv x s (i # R) V" and e: "events_monitored (iob s i) AND (events_signaled (iob s i) AND NOT events) = 0"
  shows "let s' = detach_ioobject i (clear_io_event i events s) in
    iob_iomux (iob s' i) = None \<and> mux_ready_head (mux s' x) = Some i"
proof -
  define s1 where "s1 = clear_io_event i events s"
  have s1: "iob s1 = (iob s)(i := (iob s i)\<lparr>events_signaled := events_signaled (iob s i) AND NOT events\<rparr>)" "mux s1 = mux s"
    by (simp_all add: s1_def clear_io_event_def Let_def)
  have xi: "iob_iomux (iob s1 i) = Some x" using mux_invD(3) [OF M] by (simp add: s1)
  have d: "dll (mux_ready_head (mux s x)) (mux_ready_tail (mux s x)) (nx s1) (pv s1) (i # R)"
    using mux_invD(1) [OF M] by (subst dll_cong [of "i # R" _ "nx s" _ "pv s"]) (simp_all add: nx_def pv_def s1)
  note U = unlink_step(3,4) [OF d, of i]
  have nr: "\<not> iob_ready (iob (unlink_iob i s1) i)" using bare_fields(5) [OF U(1)] e by (simp add: s1 iob_ready_def)
  have "mux_ready_head (mux (waiting_remove x i (unlink_iob i s1)) x) = mux_ready_head (mux s x)"
    using U(2) by (simp add: waiting_remove_def upd_mux_def Let_def s1)
  also have "\<dots> = Some i" using dll_head [OF mux_invD(1) [OF M]] by simp
  finally show ?thesis using xi nr unfolding Let_def s1_def [symmetric] by (simp add: detach_ioobject_def)
qed

text \<open>
  \<^verbatim>\<open>poll\<close> does not return for a descriptor that is not open: the result \<open>POLLNVAL\<close> is prepared, but then the
  null pointer that the lookup returned is released.
\<close>

theorem poll_closed_descriptor:
  assumes "nfds \<noteq> 0" "sint (pfd (fds 0)) \<ge> 0" "hlookup (pfd (fds 0)) s = None"
  shows "poll destroyer dpcs x b bt ot m (Some fds) nfds timeout s = None"
proof -
  obtain k where k: "unat nfds = Suc k" using assms(1) by (metis not0_implies_Suc unat_eq_zero)
  have "poll_one destroyer (fds 0) s = None" using assms(2,3) by (simp add: poll_one_def olock_def orel_ptr_def)
  then have "check_poll destroyer fds nfds s = None" by (simp add: check_poll_def k)
  then show ?thesis using assms(1) by (simp add: poll_def)
qed

text \<open>
  \<^verbatim>\<open>queue_ioobject\<close> on every branch for an object that is not itself signaled: it refuses what is not a
  file or socket (\<open>EBADF\<close>), an empty set of events (\<open>EINVAL\<close>) and an object of another multiplexer
  (\<open>EPERM\<close>); a new object goes to the end of the ready or the waiting queue, with its context.
  No thread is released then, even if the multiplexer has become signaled.
\<close>

theorem queue_ioobject_correct:
  assumes M: "mux_inv x s R V" and g: "\<not> signaled (obj s i)" "i \<noteq> x"
  shows "if \<not> ISIOOBJECT i s then queue_ioobject x i events c s = Some (- EBADF, s)
    else if events = 0 then queue_ioobject x i events c s = Some (- EINVAL, s)
    else case iob_iomux (iob s i) of
      Some y \<Rightarrow> y \<noteq> x \<longrightarrow> queue_ioobject x i events c s = Some (- EPERM, s)
    | None \<Rightarrow> \<exists>s'. queue_ioobject x i events c s = Some (0, s') \<and> thr s' = thr s \<and> iob_context (iob s' i) = c \<and>
        (if ucast events AND events_signaled (iob s i) \<noteq> 0 then mux_inv x s' (R @ [i]) V else mux_inv x s' R (V @ [i]))"
proof (cases "ISIOOBJECT i s \<and> events \<noteq> 0 \<and> iob_iomux (iob s i) = None")
  case False
  then show ?thesis by (auto simp: queue_ioobject_def split: option.split)
next
  case True
  define s1 where "s1 = upd_iob i (\<lambda>o1. o1\<lparr>iob_iomux := Some x, events_monitored := ucast events, iob_context := c\<rparr>) s"
  define s2 where "s2 = (if iob_ready (iob s1 i) then set_signaled x True (ready_append x i s1) else waiting_append x i s1)"
  have L: "mux_links x s R V" and F: "mux_fields x s R V" and sg: "signaled (obj s x) \<longleftrightarrow> R \<noteq> []" using M by (simp_all add: mux_inv_split)
  have ni: "i \<notin> set R \<union> set V" using mux_invD(3) [OF M, of i] True by auto
  have L1: "mux_links x s1 R V" using L ni by (simp add: s1_def mux_links_upd_iob)
  have F1: "iob_iomux (iob s1 i) = Some x" "\<And>j. j \<noteq> i \<Longrightarrow> iob_iomux (iob s1 j) = Some x \<longleftrightarrow> j \<in> set R \<union> set V"
    "\<forall>j \<in> set R. iob_ready (iob s1 j)" "\<forall>j \<in> set V. \<not> iob_ready (iob s1 j)" "signaled (obj s1 x) \<longleftrightarrow> R \<noteq> []"
    using F ni sg by (auto simp: s1_def mux_fields_def)
  note A = attach_spec [OF L1 ni F1]
  have "queue_ioobject x i events c s = do { s \<leftarrow> if signaled (obj s2 i) then release_waiting_threads x s2 else Some s2; Some (0, s) }"
    using True unfolding s2_def s1_def queue_ioobject_def Let_def by simp
  moreover have "obj s2 i = obj s i" using g(2) by (simp add: s2_def s1_def)
  ultimately have e: "queue_ioobject x i events c s = Some (0, s2)" using g(1) by simp
  have "sched.truncate s2 = sched.truncate s" by (simp add: s2_def s1_def)
  note t = truncate_fields(1) [OF this]
  have "bare (iob s2 i) = bare (iob s1 i)"
    using ready_append_links(2) [OF L1 ni] waiting_append_links(2) [OF L1 ni] by (simp add: s2_def)
  from bare_fields(2) [OF this] have cx: "iob_context (iob s2 i) = c" by (simp add: s1_def)
  have "iob_ready (iob s1 i) \<longleftrightarrow> ucast events AND events_signaled (iob s i) \<noteq> 0" by (simp add: s1_def iob_ready_def)
  then have "if ucast events AND events_signaled (iob s i) \<noteq> 0 then mux_inv x s2 (R @ [i]) V else mux_inv x s2 R (V @ [i])"
    using A by (simp add: s2_def)
  then show ?thesis using True e t cx by auto
qed


section \<open>Witnesses\<close>

text \<open>
  A thread waits for the multiplexer at address 5, to which the object 20 is attached with the
  context 77; the multiplexer 6 has the object 21 ready.
\<close>

definition demo_iosys :: iosys where
  "demo_iosys =
     (let s = demo_wait OIomux WAIT_ANY 0;
          ob = \<lparr>okind = OSocket, signaled = False, handle_count = 1, lock_count = 0, waitlist_head = None, waitlist_tail = None\<rparr> in
      \<lparr>thr = thr s, current = current s, preempt_flag = preempt_flag s, ready_head = ready_head s, ready_tail = ready_tail s,
       summary = summary s, obj = (obj s)(6 := (obj s 6)\<lparr>signaled := True\<rparr>, 20 := ob, 21 := ob, 22 := ob),
       wb = wb s, wheel = wheel s, ticks = ticks s, htab = (\<lambda>_. 0), hfreelist = HEND, htabsize = 0,
       iob = (\<lambda>_. \<lparr>iob_iomux = None, iob_context = 0, iob_next = None, iob_prev = None, events_signaled = 0, events_monitored = 0\<rparr>)
         (20 := \<lparr>iob_iomux = Some 5, iob_context = 77, iob_next = None, iob_prev = None, events_signaled = 0, events_monitored = 1\<rparr>,
          21 := \<lparr>iob_iomux = Some 6, iob_context = 0, iob_next = None, iob_prev = None, events_signaled = 1, events_monitored = 1\<rparr>),
       mux = (\<lambda>_. \<lparr>mux_flags = 0, mux_ready_head = None, mux_ready_tail = None, mux_waiting_head = None, mux_waiting_tail = None\<rparr>)
         (5 := \<lparr>mux_flags = 0, mux_ready_head = None, mux_ready_tail = None, mux_waiting_head = Some 20, mux_waiting_tail = Some 20\<rparr>,
          6 := \<lparr>mux_flags = 0, mux_ready_head = Some 21, mux_ready_tail = Some 21, mux_waiting_head = None, mux_waiting_tail = None\<rparr>)\<rparr>)"

lemma demo_iosys_fields:
  "thr demo_iosys = thr (demo_wait OIomux WAIT_ANY 0)" "wb demo_iosys = wb (demo_wait OIomux WAIT_ANY 0)"
  "current demo_iosys = current (demo_wait OIomux WAIT_ANY 0)" "ready_head demo_iosys = ready_head (demo_wait OIomux WAIT_ANY 0)"
  "ready_tail demo_iosys = ready_tail (demo_wait OIomux WAIT_ANY 0)" "summary demo_iosys = summary (demo_wait OIomux WAIT_ANY 0)"
  by (simp_all add: demo_iosys_def Let_def)

lemma demo_iosys_wait: "wait_inv demo_iosys demo_W demo_B"
proof -
  let ?s = "demo_wait OIomux WAIT_ANY 0"
  have o: "waitlist_head (obj demo_iosys e) = waitlist_head (obj ?s e) \<and> waitlist_tail (obj demo_iosys e) = waitlist_tail (obj ?s e)" for e
    by (simp add: demo_iosys_def demo_wait_def Let_def)
  have "sched_inv demo_iosys (\<lambda>_. [])" by (rule sched_inv_soft [OF demo_wait_sched _ refl]) (simp_all add: demo_iosys_fields)
  then show ?thesis using demo_wait_inv [of OIomux WAIT_ANY 0] o
    by (auto simp: wait_inv_def waitlists_def demo_iosys_fields)
qed

lemma demo_iosys_mux: "mux_inv 5 demo_iosys [] [20]" "mux_inv 6 demo_iosys [21] []"
  by (auto simp: mux_inv_def demo_iosys_def demo_wait_def dll_def nx_def pv_def iob_ready_def Let_def)

lemma set_io_event_correct_witness:
  "\<exists>s'. set_io_event 20 1 demo_iosys = Some s' \<and> mux_inv 5 s' [] [] \<and> woken (thr s' 1) \<and> waitkey (thr s' 1) = 77"
proof -
  have o: "one_each demo_iosys (demo_W 5)" by (simp add: one_each_def demo_W_def)
  have rs: "ready_blocks (set_signaled 5 True demo_iosys) demo_B (demo_W 5) = [9]"
    by (simp add: ready_blocks_def ready_def sig_def demo_W_def demo_B_def demo_iosys_fields demo_wait_def io_frame_set_signaled_obj)
  have c: "events_monitored (iob demo_iosys 20) AND 1 \<noteq> 0" "iob_context (iob demo_iosys 20) = 77" "wb_thread (wb demo_iosys 9) = 1"
    by (simp_all add: demo_iosys_def demo_wait_def Let_def)
  show ?thesis
    using set_io_event_correct [OF demo_iosys_mux(1) _ demo_iosys_wait o, of 20 1] c unfolding Let_def rs by auto
qed

lemma clear_io_event_leaves_dangling_witness:
  "let s' = detach_ioobject 21 (clear_io_event 21 1 demo_iosys) in
    iob_iomux (iob s' 21) = None \<and> mux_ready_head (mux s' 6) = Some 21"
  by (rule clear_io_event_leaves_dangling [OF demo_iosys_mux(2)]) (simp add: demo_iosys_def Let_def)

lemma poll_closed_descriptor_witness:
  "poll (\<lambda>_ s. Some (0, s)) Ret 30 31 32 33 34 (Some (\<lambda>_. \<lparr>pfd = 3, pfd_events = 1, pfd_revents = 0\<rparr>)) 1 0 demo_iosys = None"
  by (rule poll_closed_descriptor) (simp_all add: hlookup_def demo_iosys_def Let_def)

lemma queue_ioobject_correct_witness:
  "\<exists>s'. queue_ioobject 5 22 2 9 demo_iosys = Some (0, s') \<and> thr s' = thr demo_iosys \<and> iob_context (iob s' 22) = 9 \<and> mux_inv 5 s' [] [20, 22]"
proof -
  have "\<not> signaled (obj demo_iosys 22)" "(22 :: nat) \<noteq> 5" "ISIOOBJECT 22 demo_iosys" "iob_iomux (iob demo_iosys 22) = None" "events_signaled (iob demo_iosys 22) = 0"
    by (simp_all add: demo_iosys_def ISIOOBJECT_def Let_def)
  then show ?thesis using queue_ioobject_correct [OF demo_iosys_mux(1), of 22 2 9] by simp
qed

end
