(* ===== verification/Mqueue.thy ===== *)
theory Mqueue
  imports Signal
begin

text \<open>
  Message queues (\<^verbatim>\<open>src/src/sys/krnl/queue.c\<close>): a ring of message pointers with two semaphores, which count
  the free slots and the messages. The semaphores inside the structure are named by the
  addresses of their objects. \<open>kmalloc\<close> and \<open>kfree\<close> are parameters. A call that blocks is split as in
  the object manager: \<open>Inr\<close> is the state that the other threads see, and the call goes on with
  \<open>enqueue_finish\<close> or \<open>dequeue_finish\<close> when its wait has ended. The theorems show that a queue on
  which no thread waits refines a list of bounded length.
\<close>

section \<open>Operations\<close>

record mqueue =
  mq_notempty :: nat
  mq_notfull :: nat
  mq_size :: int
  mq_in :: int
  mq_out :: int
  mq_elems :: "int \<Rightarrow> ptr"

record qsys = ksys +
  mq :: "nat \<Rightarrow> mqueue"

definition upd_mq :: "nat \<Rightarrow> (mqueue \<Rightarrow> mqueue) \<Rightarrow> 'z qsys_scheme \<Rightarrow> 'z qsys_scheme" where
  "upd_mq q f s = s\<lparr>mq := (mq s)(q := f (mq s q))\<rparr>"

text \<open>
  The structure takes 56 bytes. The address of the block \<^verbatim>\<open>kmalloc\<close> gives for the elements is of no
  further use here: the elements are a function of the index.
\<close>

definition alloc_queue ::
  "(u32 \<Rightarrow> 'z qsys_scheme \<Rightarrow> ptr \<times> 'z qsys_scheme) \<Rightarrow> (nat \<Rightarrow> 'z qsys_scheme \<Rightarrow> 'z qsys_scheme) \<Rightarrow>
   int \<Rightarrow> 'z qsys_scheme \<Rightarrow> ptr \<times> 'z qsys_scheme" where
  "alloc_queue kmalloc kfree n s =
     (case kmalloc 56 s of
        (None, s) \<Rightarrow> (None, s)
      | (Some q, s) \<Rightarrow>
          (case kmalloc (of_int n * 4) s of
            (None, s) \<Rightarrow> (None, kfree q s)
          | (Some e, s) \<Rightarrow>
              let s = init_sem (mq_notfull (mq s q)) (of_int n) s;
                  s = init_sem (mq_notempty (mq s q)) 0 s in
              (Some q, upd_mq q (\<lambda>x. x\<lparr>mq_size := n, mq_in := 0, mq_out := 0\<rparr>) s)))"

definition enqueue_finish :: "nat \<Rightarrow> nat \<Rightarrow> int \<Rightarrow> 'z qsys_scheme \<Rightarrow> (int \<times> 'z qsys_scheme) option" where
  "enqueue_finish q msg rc s =
     (if rc < 0 then Some (- ETIMEOUT, s)
      else
        let i = mq_in (mq s q);
            s = upd_mq q (\<lambda>x. x\<lparr>mq_elems := (mq_elems x)(i := Some msg), mq_in := i + 1\<rparr>) s;
            s = (if mq_in (mq s q) = mq_size (mq s q) then upd_mq q (\<lambda>x. x\<lparr>mq_in := 0\<rparr>) s else s) in
        do { (_, s) \<leftarrow> release_sem (mq_notempty (mq s q)) 1 s; Some (0, s) })"

definition dequeue_finish :: "nat \<Rightarrow> int \<Rightarrow> 'z qsys_scheme \<Rightarrow> (ptr \<times> 'z qsys_scheme) option" where
  "dequeue_finish q rc s =
     (if rc < 0 then Some (None, s)
      else
        let i = mq_out (mq s q);
            msg = mq_elems (mq s q) i;
            s = upd_mq q (\<lambda>x. x\<lparr>mq_out := i + 1\<rparr>) s;
            s = (if mq_out (mq s q) = mq_size (mq s q) then upd_mq q (\<lambda>x. x\<lparr>mq_out := 0\<rparr>) s else s) in
        do { (_, s) \<leftarrow> release_sem (mq_notfull (mq s q)) 1 s; Some (msg, s) })"

text \<open>\<open>b\<close>, \<open>bt\<close>, \<open>ot\<close> and \<open>m\<close> are the local wait blocks, the timer object and the timer of the waiting call.\<close>

definition enqueue ::
  "('z qsys_scheme \<Rightarrow> 'z qsys_scheme kres) \<Rightarrow> (nat \<Rightarrow> 'z qsys_scheme \<Rightarrow> int \<times> 'z qsys_scheme) \<Rightarrow>
   nat \<Rightarrow> nat \<Rightarrow> nat \<Rightarrow> nat \<Rightarrow> nat \<Rightarrow> nat \<Rightarrow> u32 \<Rightarrow> 'z qsys_scheme \<Rightarrow> ((int \<times> 'z qsys_scheme) + 'z qsys_scheme) option" where
  "enqueue dpcs deq b bt ot m q msg timeout s =
     do {
       r \<leftarrow> wait_for_object dpcs deq b bt ot m (mq_notfull (mq s q)) timeout s;
       (case r of
          Returned rc s \<Rightarrow> do { x \<leftarrow> enqueue_finish q msg rc s; Some (Inl x) }
        | Blocked s \<Rightarrow> Some (Inr s))
     }"

definition dequeue ::
  "('z qsys_scheme \<Rightarrow> 'z qsys_scheme kres) \<Rightarrow> (nat \<Rightarrow> 'z qsys_scheme \<Rightarrow> int \<times> 'z qsys_scheme) \<Rightarrow>
   nat \<Rightarrow> nat \<Rightarrow> nat \<Rightarrow> nat \<Rightarrow> nat \<Rightarrow> u32 \<Rightarrow> 'z qsys_scheme \<Rightarrow> ((ptr \<times> 'z qsys_scheme) + 'z qsys_scheme) option" where
  "dequeue dpcs deq b bt ot m q timeout s =
     do {
       r \<leftarrow> wait_for_object dpcs deq b bt ot m (mq_notempty (mq s q)) timeout s;
       (case r of
          Returned rc s \<Rightarrow> do { x \<leftarrow> dequeue_finish q rc s; Some (Inl x) }
        | Blocked s \<Rightarrow> Some (Inr s))
     }"

section \<open>The queue as a list\<close>

definition sem_holds :: "nat \<Rightarrow> nat \<Rightarrow> 'z ksys_scheme \<Rightarrow> bool" where
  "sem_holds o1 n s \<longleftrightarrow>
     okind (obj s o1) = OSem (of_nat n) \<and> n < 2 ^ 32 \<and> (signaled (obj s o1) \<longleftrightarrow> n > 0) \<and> waitlist_head (obj s o1) = None"

definition mq_holds :: "nat \<Rightarrow> nat \<Rightarrow> 'z qsys_scheme \<Rightarrow> nat list \<Rightarrow> bool" where
  "mq_holds q n s xs \<longleftrightarrow>
     (let x = mq s q in
      mq_notempty x \<noteq> mq_notfull x \<and> mq_size x = int n \<and> 0 < n \<and> n < 2 ^ 31 \<and> length xs \<le> n \<and>
      0 \<le> mq_out x \<and> mq_out x < int n \<and> mq_in x = (mq_out x + int (length xs)) mod int n \<and>
      (\<forall>i < length xs. mq_elems x ((mq_out x + int i) mod int n) = Some (xs ! i)) \<and>
      sem_holds (mq_notfull x) (n - length xs) s \<and> sem_holds (mq_notempty x) (length xs) s)"

text \<open>Taking and giving back one unit of a semaphore nobody waits for.\<close>

lemma qsys_more:
  assumes "ksys.more s' = ksys.more (s :: 'z qsys_scheme)"
  shows "mq s' = mq s"
  using assms by (cases s, cases s', simp)

lemma of_nat_zero_iff: "n < 2 ^ 32 \<Longrightarrow> (of_nat n :: u32) = 0 \<longleftrightarrow> n = 0"
  by (simp add: word_eq_unat unsigned_of_nat take_bit_nat_eq_self)

lemma sem_take:
  assumes "sem_holds o1 (Suc n) s"
  shows "\<exists>s'. wait_for_object dpcs deq b bt ot m o1 timeout s = Some (Returned 0 s') \<and> sem_holds o1 n s' \<and>
    (\<forall>e. e \<noteq> o1 \<longrightarrow> obj s' e = obj s e) \<and> ksys.more s' = ksys.more s"
proof -
  have k: "okind (obj s o1) = OSem (of_nat (Suc n))" "Suc n < 2 ^ 32" "signaled (obj s o1)" "waitlist_head (obj s o1) = None"
    using assms by (auto simp: sem_holds_def)
  have p: "(of_nat (Suc n) :: u32) - 1 = of_nat n" by simp
  have z: "(of_nat n :: u32) = 0 \<longleftrightarrow> n = 0" using k(2) by (intro of_nat_zero_iff) simp
  let ?s = "upd_obj o1 (\<lambda>x. x\<lparr>okind := OSem (of_nat n), signaled := n \<noteq> 0\<rparr>) s"
  have "enter_object deq o1 s = (0, ?s)"
    unfolding enter_object_def k(1) okind.case p z using k(3) by (simp add: upd_obj_def)
  then have "wait_for_object dpcs deq b bt ot m o1 timeout s = Some (Returned 0 ?s)"
    using k(3) by (simp add: wait_for_object_def wait_for_one_object_def Let_def)
  moreover have "sem_holds o1 n ?s" using k(2,4) by (simp add: sem_holds_def upd_obj_def)
  ultimately show ?thesis by (intro exI [of _ ?s]) (simp add: upd_obj_def)
qed

lemma sem_give:
  assumes "sem_holds o1 n s" "Suc n < 2 ^ 32"
  shows "\<exists>s'. release_sem o1 1 s = Some (of_nat n, s') \<and> sem_holds o1 (Suc n) s' \<and>
    (\<forall>e. e \<noteq> o1 \<longrightarrow> obj s' e = obj s e) \<and> ksys.more s' = ksys.more s"
proof -
  have k: "okind (obj s o1) = OSem (of_nat n)" "waitlist_head (obj s o1) = None" using assms by (auto simp: sem_holds_def)
  have p: "(of_nat n :: u32) + 1 = of_nat (Suc n)" by simp
  have z: "(of_nat (Suc n) :: u32) \<noteq> 0" using of_nat_zero_iff [OF assms(2)] by simp
  let ?s = "set_signaled o1 True (set_count o1 (of_nat (Suc n)) s)"
  have "sem_loop o1 None t = Some t" for t :: "'a ksys_scheme" by (subst sem_loop.simps) simp
  then have "release_sem o1 1 s = Some (of_nat n, ?s)"
    using z unfolding release_sem_def sem_release_all_def Let_def sem_count_def k(1) okind.case p
    by (simp add: set_count_def set_signaled_def upd_obj_def k word_gt_0 del: of_nat_Suc)
  moreover have "sem_holds o1 (Suc n) ?s" using k(2) assms(2) by (simp add: sem_holds_def set_count_def set_signaled_def upd_obj_def)
  ultimately show ?thesis by (intro exI [of _ ?s]) (simp add: set_count_def set_signaled_def upd_obj_def)
qed

lemma sem_busy:
  assumes "sem_holds o1 0 s"
  shows "wait_for_object dpcs deq b bt ot m o1 0 s = Some (Returned (- ETIMEOUT) s)"
  using assms by (simp add: sem_holds_def wait_for_object_def wait_for_one_object_def owned_by_def Let_def)

lemma step_mod: "0 \<le> i \<Longrightarrow> i < n \<Longrightarrow> (if i + 1 = n then 0 else i + 1) = (i + 1) mod n" for i n :: int
  by simp

lemma ring_distinct_index: "a < n \<Longrightarrow> b < n \<Longrightarrow> (k + int a) mod int n = (k + int b) mod int n \<Longrightarrow> a = b"
proof -
  assume a: "a < n" "b < n" "(k + int a) mod int n = (k + int b) mod int n"
  then have "int n dvd int a - int b" by (simp add: mod_eq_dvd_iff)
  then have "int a - int b = 0 \<or> int n \<le> \<bar>int a - int b\<bar>" using dvd_imp_le_int [of "int a - int b" "int n"] by auto
  then show "a = b" using a(1,2) by auto
qed

lemma upd_mq_simps [simp]:
  "mq (upd_mq q f s) = (mq s)(q := f (mq s q))" "obj (upd_mq q f s) = obj s" "sem_holds o1 n (upd_mq q f s) \<longleftrightarrow> sem_holds o1 n s"
  by (simp_all add: upd_mq_def sem_holds_def)

lemma sem_holds_cong: "obj s' o1 = obj s o1 \<Longrightarrow> sem_holds o1 n s' \<longleftrightarrow> sem_holds o1 n s"
  by (simp add: sem_holds_def)

lemma mq_holdsD:
  assumes "mq_holds q n s xs"
  shows "mq_notempty (mq s q) \<noteq> mq_notfull (mq s q)" "mq_size (mq s q) = int n" "0 < n" "n < 2 ^ 31" "length xs \<le> n"
    "0 \<le> mq_out (mq s q)" "mq_out (mq s q) < int n" "mq_in (mq s q) = (mq_out (mq s q) + int (length xs)) mod int n"
    "i < length xs \<Longrightarrow> mq_elems (mq s q) ((mq_out (mq s q) + int i) mod int n) = Some (xs ! i)"
    "sem_holds (mq_notfull (mq s q)) (n - length xs) s" "sem_holds (mq_notempty (mq s q)) (length xs) s"
  using assms by (simp_all add: mq_holds_def Let_def)

lemma enqueue_room:
  assumes Q: "mq_holds q n s xs" and room: "length xs < n"
  shows "\<exists>s'. enqueue dpcs deq b bt ot m q msg timeout s = Some (Inl (0, s')) \<and> mq_holds q n s' (xs @ [msg])"
proof -
  note D = mq_holdsD [OF Q]
  let ?e = "mq_notempty (mq s q)" and ?f = "mq_notfull (mq s q)" and ?o = "mq_out (mq s q)" and ?i = "mq_in (mq s q)"
  obtain k where k: "n - length xs = Suc k" using room by (metis Suc_diff_Suc)
  obtain s1 where s1: "wait_for_object dpcs deq b bt ot m ?f timeout s = Some (Returned 0 s1)" "sem_holds ?f k s1"
      "\<forall>e. e \<noteq> ?f \<longrightarrow> obj s1 e = obj s e" "ksys.more s1 = ksys.more s"
    using sem_take [of ?f k s] D(10) k by metis
  have m1: "mq s1 = mq s" using qsys_more [OF s1(4)] .
  define x where "x = (mq s q)\<lparr>mq_elems := (mq_elems (mq s q))(?i := Some msg), mq_in := (?i + 1) mod int n\<rparr>"
  define s2 where "s2 = upd_mq q (\<lambda>_. x) s1"
  have i: "0 \<le> ?i" "?i < int n" using D(3,8) by simp_all
  have fin: "enqueue_finish q msg 0 s1 = do { (_, s) \<leftarrow> release_sem ?e 1 s2; Some (0, s) }"
    using step_mod [OF i] D(2) by (simp add: enqueue_finish_def Let_def s2_def x_def m1 upd_mq_def split: if_splits)
  have "sem_holds ?e (length xs) s2" using D(1,11) s1(3) sem_holds_cong [of s1 ?e s] by (simp add: s2_def)
  then obtain s' where s': "release_sem ?e 1 s2 = Some (of_nat (length xs), s')" "sem_holds ?e (Suc (length xs)) s'"
      "\<forall>e. e \<noteq> ?e \<longrightarrow> obj s' e = obj s2 e" "ksys.more s' = ksys.more s2"
    using sem_give [of ?e "length xs" s2] D(4) room by auto
  have mq': "mq s' q = x" using qsys_more [OF s'(4)] by (simp add: s2_def)
  have "n - length (xs @ [msg]) = k" using k by simp
  then have f': "sem_holds ?f (n - length (xs @ [msg])) s'"
    using s1(2) s'(3) D(1) sem_holds_cong [of s' ?f s1] by (simp add: s2_def)
  have el: "mq_elems x ((?o + int j) mod int n) = Some ((xs @ [msg]) ! j)" if "j < length (xs @ [msg])" for j
  proof (cases "j = length xs")
    case True
    then show ?thesis using D(8) by (simp add: x_def)
  next
    case False
    then have "(?o + int j) mod int n \<noteq> ?i" using ring_distinct_index [of j n "length xs" ?o] D(8) that room by auto
    then show ?thesis using D(9) [of j] False that by (simp add: x_def nth_append)
  qed
  have "mq_in x = (mq_out x + int (length (xs @ [msg]))) mod int n"
    using D(8) by (simp add: x_def mod_add_left_eq add.assoc add.commute [of 1])
  then have "mq_holds q n s' (xs @ [msg])"
    using D room el f' s'(2) unfolding mq_holds_def Let_def mq' by (simp add: x_def)
  then show ?thesis using s1(1) fin s'(1) by (simp add: enqueue_def)
qed

lemma dequeue_first:
  assumes Q: "mq_holds q n s (y # ys)"
  shows "\<exists>s'. dequeue dpcs deq b bt ot m q timeout s = Some (Inl (Some y, s')) \<and> mq_holds q n s' ys"
proof -
  note D = mq_holdsD [OF Q]
  let ?e = "mq_notempty (mq s q)" and ?f = "mq_notfull (mq s q)" and ?o = "mq_out (mq s q)"
  obtain s1 where s1: "wait_for_object dpcs deq b bt ot m ?e timeout s = Some (Returned 0 s1)" "sem_holds ?e (length ys) s1"
      "\<forall>e. e \<noteq> ?e \<longrightarrow> obj s1 e = obj s e" "ksys.more s1 = ksys.more s"
    using sem_take [of ?e "length ys" s] D(11) by (metis length_Cons)
  have m1: "mq s1 = mq s" using qsys_more [OF s1(4)] .
  define x where "x = (mq s q)\<lparr>mq_out := (?o + 1) mod int n\<rparr>"
  define s2 where "s2 = upd_mq q (\<lambda>_. x) s1"
  have y: "mq_elems (mq s q) ?o = Some y" using D(9) [of 0] D(6,7) by simp
  have fin: "dequeue_finish q 0 s1 = do { (_, s) \<leftarrow> release_sem ?f 1 s2; Some (Some y, s) }"
    using step_mod [OF D(6,7)] D(2) y by (simp add: dequeue_finish_def Let_def s2_def x_def m1 upd_mq_def split: if_splits)
  have "sem_holds ?f (n - Suc (length ys)) s2" using D(1,10) s1(3) sem_holds_cong [of s1 ?f s] by (simp add: s2_def)
  moreover have "Suc (n - Suc (length ys)) < 2 ^ 32" using D(4) by (simp add: less_imp_diff_less)
  ultimately obtain s' where s': "release_sem ?f 1 s2 = Some (of_nat (n - Suc (length ys)), s')" "sem_holds ?f (Suc (n - Suc (length ys))) s'"
      "\<forall>e. e \<noteq> ?f \<longrightarrow> obj s' e = obj s2 e" "ksys.more s' = ksys.more s2"
    using sem_give [of ?f "n - Suc (length ys)" s2] by blast
  have mq': "mq s' q = x" using qsys_more [OF s'(4)] by (simp add: s2_def)
  have f': "sem_holds ?f (n - length ys) s'" using s'(2) D(5) by (simp add: Suc_diff_Suc)
  have e': "sem_holds ?e (length ys) s'" using s1(2) s'(3) D(1) sem_holds_cong [of s' ?e s1] by (simp add: s2_def)
  have sh: "(mq_out x + k) mod int n = (?o + (1 + k)) mod int n" for k by (simp add: x_def mod_add_left_eq add.assoc)
  have el: "mq_elems x ((mq_out x + int j) mod int n) = Some (ys ! j)" if "j < length ys" for j
    unfolding sh using D(9) [of "Suc j"] that by (simp add: x_def)
  have "mq_in x = (mq_out x + int (length ys)) mod int n" unfolding sh using D(8) by (simp add: x_def)
  then have "mq_holds q n s' ys"
    using D el f' e' unfolding mq_holds_def Let_def mq' by (simp add: x_def)
  then show ?thesis using s1(1) fin s'(1) by (simp add: dequeue_def)
qed

text \<open>
  C32. A message queue on which no thread waits refines a list of at most \<open>n\<close> messages: \<^verbatim>\<open>enqueue\<close> appends a
  message when there is room, and with timeout 0 returns \<open>-ETIMEOUT\<close> and changes nothing when there
  is none; \<^verbatim>\<open>dequeue\<close> takes the first message, and with timeout 0 returns \<open>NULL\<close> when there is none. The
  ring never overflows and messages come out in the order in which they went in.
\<close>

theorem message_queue_refines_list:
  assumes "mq_holds q n s xs"
  shows "(if length xs < n then \<exists>s'. enqueue dpcs deq b bt ot m q msg timeout s = Some (Inl (0, s')) \<and> mq_holds q n s' (xs @ [msg])
      else enqueue dpcs deq b bt ot m q msg 0 s = Some (Inl (- ETIMEOUT, s))) \<and>
    (case xs of
       [] \<Rightarrow> dequeue dpcs deq b bt ot m q 0 s = Some (Inl (None, s))
     | y # ys \<Rightarrow> \<exists>s'. dequeue dpcs deq b bt ot m q timeout s = Some (Inl (Some y, s')) \<and> mq_holds q n s' ys)"
proof
  note D = mq_holdsD [OF assms]
  show "if length xs < n then \<exists>s'. enqueue dpcs deq b bt ot m q msg timeout s = Some (Inl (0, s')) \<and> mq_holds q n s' (xs @ [msg])
      else enqueue dpcs deq b bt ot m q msg 0 s = Some (Inl (- ETIMEOUT, s))"
  proof (cases "length xs < n")
    case True
    then show ?thesis using enqueue_room [OF assms] by simp
  next
    case False
    then have "sem_holds (mq_notfull (mq s q)) 0 s" using D(5,10) by simp
    then show ?thesis using False by (simp add: enqueue_def sem_busy enqueue_finish_def ETIMEOUT_def)
  qed
  show "case xs of
       [] \<Rightarrow> dequeue dpcs deq b bt ot m q 0 s = Some (Inl (None, s))
     | y # ys \<Rightarrow> \<exists>s'. dequeue dpcs deq b bt ot m q timeout s = Some (Inl (Some y, s')) \<and> mq_holds q n s' ys"
  proof (cases xs)
    case Nil
    then have "sem_holds (mq_notempty (mq s q)) 0 s" using D(11) by simp
    then show ?thesis using Nil by (simp add: dequeue_def sem_busy dequeue_finish_def ETIMEOUT_def)
  next
    case (Cons y ys)
    then show ?thesis using dequeue_first assms by simp
  qed
qed

section \<open>Witness\<close>

text \<open>A queue of two slots with one message, at the end of the ring.\<close>

definition demo_mq :: qsys where
  "demo_mq =
     (let s = demo_wait (OEvent True) WAIT_ANY 0;
          sem = \<lambda>n. \<lparr>okind = OSem n, signaled = True, handle_count = 0, lock_count = 0, waitlist_head = None, waitlist_tail = None\<rparr> in
      \<lparr>thr = thr s, current = current s, preempt_flag = preempt_flag s, ready_head = ready_head s, ready_tail = ready_tail s,
       summary = summary s, obj = (obj s)(40 := sem 1, 41 := sem 1), wb = wb s, wheel = wheel s, ticks = ticks s,
       mq = (\<lambda>_. \<lparr>mq_notempty = 40, mq_notfull = 41, mq_size = 2, mq_in = 0, mq_out = 1, mq_elems = (\<lambda>_. None)(1 := Some 100)\<rparr>)\<rparr>)"

lemma demo_mq_holds: "mq_holds 7 2 demo_mq [100]"
  by (simp add: mq_holds_def sem_holds_def demo_mq_def Let_def)

lemma message_queue_refines_list_witness:
  "(\<exists>s'. enqueue Ret (\<lambda>_ s. (0, s)) 30 31 32 33 7 200 0 demo_mq = Some (Inl (0, s')) \<and> mq_holds 7 2 s' [100, 200]) \<and>
   (\<exists>s'. dequeue Ret (\<lambda>_ s. (0, s)) 30 31 32 33 7 0 demo_mq = Some (Inl (Some 100, s')) \<and> mq_holds 7 2 s' [])"
  using message_queue_refines_list [OF demo_mq_holds, of "Ret" "\<lambda>_ s. (0, s)" 30 31 32 33 200 0] by simp

end
