(* ===== verification/Cmem.thy ===== *)
theory Cmem
  imports Prelude
begin

text \<open>
  Memory for the C library: a function from addresses to bytes. Addresses are integers, so
  that pointer arithmetic is exact; \<open>NULL\<close> is 0. \<open>load\<close> and \<open>store\<close> read and write a block, and
  \<open>cstr m p s\<close> says that the NUL-terminated string at \<open>p\<close> is \<open>s\<close>.
\<close>

type_synonym mem = "int \<Rightarrow> u8"

section \<open>Blocks\<close>

definition load :: "int \<Rightarrow> nat \<Rightarrow> mem \<Rightarrow> u8 list" where
  "load p n m = map (\<lambda>i. m (p + int i)) [0..<n]"

definition store :: "int \<Rightarrow> u8 list \<Rightarrow> mem \<Rightarrow> mem" where
  "store p xs m = (\<lambda>a. if p \<le> a \<and> a < p + int (length xs) then xs ! nat (a - p) else m a)"

lemma length_load [simp]: "length (load p n m) = n"
  by (simp add: load_def)

lemma load_nth [simp]: "i < n \<Longrightarrow> load p n m ! i = m (p + int i)"
  by (simp add: load_def)

lemma load_0 [simp]: "load p 0 m = []"
  by (simp add: load_def)

lemma load_Suc: "load p (Suc n) m = m p # load (p + 1) n m"
  by (rule nth_equalityI) (simp_all add: nth_Cons algebra_simps split: nat.splits)

lemma load_snoc: "load p (Suc n) m = load p n m @ [m (p + int n)]"
  by (simp add: load_def)

lemma load_add: "load p (a + b) m = load p a m @ load (p + int a) b m"
  by (rule nth_equalityI) (auto simp: nth_append algebra_simps)

lemma load_cong: "(\<And>a. p \<le> a \<Longrightarrow> a < p + int n \<Longrightarrow> m a = m' a) \<Longrightarrow> load p n m = load p n m'"
  by (simp add: load_def)

lemma load_upd_out: "a < p \<or> p + int n \<le> a \<Longrightarrow> load p n (m(a := x)) = load p n m"
  by (auto intro: load_cong)

lemma store_Nil [simp]: "store p [] m = m"
  by (auto simp: store_def fun_eq_iff)

lemma store_Cons: "store p (x # xs) m = store (p + 1) xs (m(p := x))"
proof (rule ext)
  fix a
  have "nat (a - p) - 1 = nat (a - (p + 1))" by arith
  then show "store p (x # xs) m a = store (p + 1) xs (m(p := x)) a"
    by (auto simp: store_def nth_Cons')
qed

lemma store_append: "store p (xs @ ys) m = store (p + int (length xs)) ys (store p xs m)"
  by (induction xs arbitrary: p m) (simp_all add: store_Cons add.assoc)

lemma store_snoc: "store p (xs @ [x]) m = (store p xs m)(p + int (length xs) := x)"
  by (auto simp: store_def fun_eq_iff nth_append)

lemma store_upd_comm: "a < p \<or> p + int (length xs) \<le> a \<Longrightarrow> store p xs (m(a := x)) = (store p xs m)(a := x)"
  by (auto simp: store_def fun_eq_iff)

lemma store_out [simp]: "a < p \<or> p + int (length xs) \<le> a \<Longrightarrow> store p xs m a = m a"
  by (auto simp: store_def)

lemma store_in: "i < length xs \<Longrightarrow> store p xs m (p + int i) = xs ! i"
  by (simp add: store_def)

lemma load_store: "load p (length xs) (store p xs m) = xs"
  by (rule nth_equalityI) (simp_all add: store_in)

lemma store_load: "store p (load p n m) m = m"
  by (auto simp: store_def fun_eq_iff)

lemma load_store_out:
  "q + int n \<le> p \<or> p + int (length xs) \<le> q \<Longrightarrow> load q n (store p xs m) = load q n m"
  by (auto intro!: load_cong)

section \<open>Strings\<close>

primrec cstr :: "mem \<Rightarrow> int \<Rightarrow> u8 list \<Rightarrow> bool" where
  "cstr m p [] \<longleftrightarrow> m p = 0"
| "cstr m p (c # s) \<longleftrightarrow> c \<noteq> 0 \<and> m p = c \<and> cstr m (p + 1) s"

lemma cstr_iff: "cstr m p s \<longleftrightarrow> 0 \<notin> set s \<and> load p (Suc (length s)) m = s @ [0]"
  by (induction s arbitrary: p) (auto simp: load_Suc)

lemma cstr_nth: "cstr m p s \<Longrightarrow> i < length s \<Longrightarrow> m (p + int i) = s ! i \<and> s ! i \<noteq> 0"
proof -
  assume s: "cstr m p s" and i: "i < length s"
  have "load p (Suc (length s)) m ! i = (s @ [0]) ! i" using s by (simp add: cstr_iff)
  then have "m (p + int i) = s ! i" using i by (simp add: nth_append)
  moreover have "s ! i \<noteq> 0" using s i by (metis cstr_iff nth_mem)
  ultimately show ?thesis by simp
qed

lemma cstr_end: "cstr m p s \<Longrightarrow> m (p + int (length s)) = 0"
  by (simp add: cstr_iff load_snoc)

lemma cstr_unique: "cstr m p s \<Longrightarrow> cstr m p t \<Longrightarrow> s = t"
proof (induction s arbitrary: p t)
  case Nil then show ?case by (cases t) auto
next
  case (Cons c s) then show ?case by (cases t) auto
qed

lemma cstr_nz: "cstr m p s \<Longrightarrow> 0 \<notin> set s"
  by (simp add: cstr_iff)

lemma cstr_append: "cstr m p (s @ t) \<longleftrightarrow> 0 \<notin> set s \<and> load p (length s) m = s \<and> cstr m (p + int (length s)) t"
  by (induction s arbitrary: p) (auto simp: load_Suc algebra_simps)

lemma cstr_cong:
  assumes "\<And>a. p \<le> a \<Longrightarrow> a \<le> p + int (length s) \<Longrightarrow> m a = m' a"
  shows "cstr m p s \<longleftrightarrow> cstr m' p s"
proof -
  have "load p (Suc (length s)) m = load p (Suc (length s)) m'" by (rule load_cong) (simp add: assms)
  then show ?thesis by (simp add: cstr_iff)
qed

lemma cstr_upd_out: "a < p \<or> p + int (length s) < a \<Longrightarrow> cstr (m(a := x)) p s \<longleftrightarrow> cstr m p s"
  by (rule cstr_cong) auto

lemma cstr_store_out:
  "p + int (length s) < q \<or> q + int (length xs) \<le> p \<Longrightarrow> cstr (store q xs m) p s \<longleftrightarrow> cstr m p s"
  by (rule cstr_cong) auto

lemma cstr_store: "0 \<notin> set s \<Longrightarrow> cstr (store p (s @ [0]) m) p s"
  using load_store [of p "s @ [0]" m] by (simp add: cstr_iff)

lemma cstr_load: "cstr m p s \<Longrightarrow> load p (Suc (length s)) m = s @ [0]"
  by (simp add: cstr_iff)

end
