(* ===== verification/Ctype.thy ===== *)
theory Ctype
  imports Prelude
begin

text \<open>
  Character classes (\<^verbatim>\<open>src/lib/ctype.c\<close>, \<^verbatim>\<open>src/include/ctype.h\<close>): the table \<^verbatim>\<open>_ctype\<close>, the
  functions of \<^verbatim>\<open>ctype.c\<close>, which index it with their argument, and the macros of
  \<^verbatim>\<open>ctype.h\<close>, which every other file uses and which index it with the argument cast to
  \<^verbatim>\<open>unsigned char\<close>.

  The initializer of \<^verbatim>\<open>_ctype\<close> has 128 lines for the characters \<open>0x00\<close> to \<open>0x7F\<close>, but the comment
  on the line of \<open>0x5C\<close> ends with a backslash. A backslash at the end of a line splices it with
  the next one, so the entry of \<open>0x5D\<close> is part of the comment, and the entries after it each
  belong to the character before the one their comment names.
\<close>

section \<open>The table\<close>

definition CT_UPPER :: u16 where "CT_UPPER = 0x1"
definition CT_LOWER :: u16 where "CT_LOWER = 0x2"
definition CT_DIGIT :: u16 where "CT_DIGIT = 0x4"
definition CT_SPACE :: u16 where "CT_SPACE = 0x8"
definition CT_PUNCT :: u16 where "CT_PUNCT = 0x10"
definition CT_CONTROL :: u16 where "CT_CONTROL = 0x20"
definition CT_BLANK :: u16 where "CT_BLANK = 0x40"
definition CT_HEX :: u16 where "CT_HEX = 0x80"
definition CT_LEADBYTE :: u16 where "CT_LEADBYTE = 0x8000"

lemmas ct_defs = CT_UPPER_def CT_LOWER_def CT_DIGIT_def CT_SPACE_def CT_PUNCT_def CT_CONTROL_def
  CT_BLANK_def CT_HEX_def CT_LEADBYTE_def

text \<open>The entry for EOF, then those of the characters from 0; the last 130 are not initialized, hence 0.\<close>

definition ctype :: "u16 list" where
  "ctype =
     [0] @ replicate 9 CT_CONTROL @ replicate 5 (CT_SPACE + CT_CONTROL) @ replicate 18 CT_CONTROL @
     [CT_SPACE + CT_BLANK] @ replicate 15 CT_PUNCT @ replicate 10 (CT_DIGIT + CT_HEX) @ replicate 7 CT_PUNCT @
     replicate 6 (CT_UPPER + CT_HEX) @ replicate 20 CT_UPPER @
     [CT_PUNCT, CT_PUNCT] @ replicate 3 CT_PUNCT @
     replicate 6 (CT_LOWER + CT_HEX) @ replicate 20 CT_LOWER @ replicate 4 CT_PUNCT @ [CT_CONTROL] @
     replicate 129 0"

text \<open>\<^verbatim>\<open>_pctype\<close> points to the second entry. Outside of the table the read is undefined.\<close>

definition pctype :: "int \<Rightarrow> u16 option" where
  "pctype c = (if -1 \<le> c \<and> c \<le> 255 then Some (ctype ! nat (c + 1)) else None)"

section \<open>The functions of ctype.c\<close>

definition isctype :: "int \<Rightarrow> u16 \<Rightarrow> u16" where
  "isctype c cls = (if -1 \<le> c \<and> c \<le> 255 then the (pctype c) AND cls else 0)"

definition masked :: "u16 \<Rightarrow> int \<Rightarrow> u16 option" where
  "masked cls c = map_option (\<lambda>x. x AND cls) (pctype c)"

definition isalpha :: "int \<Rightarrow> u16 option" where "isalpha c = masked (CT_UPPER OR CT_LOWER) c"
definition isupper :: "int \<Rightarrow> u16 option" where "isupper c = masked CT_UPPER c"
definition islower :: "int \<Rightarrow> u16 option" where "islower c = masked CT_LOWER c"
definition isdigit :: "int \<Rightarrow> u16 option" where "isdigit c = masked CT_DIGIT c"
definition isxdigit :: "int \<Rightarrow> u16 option" where "isxdigit c = masked CT_HEX c"
definition isspace :: "int \<Rightarrow> u16 option" where "isspace c = masked CT_SPACE c"
definition ispunct :: "int \<Rightarrow> u16 option" where "ispunct c = masked CT_PUNCT c"
definition isalnum :: "int \<Rightarrow> u16 option" where "isalnum c = masked (CT_UPPER OR CT_LOWER OR CT_DIGIT) c"
definition isprint :: "int \<Rightarrow> u16 option" where
  "isprint c = masked (CT_BLANK OR CT_PUNCT OR CT_UPPER OR CT_LOWER OR CT_DIGIT) c"
definition isgraph :: "int \<Rightarrow> u16 option" where
  "isgraph c = masked (CT_PUNCT OR CT_UPPER OR CT_LOWER OR CT_DIGIT) c"
definition iscntrl :: "int \<Rightarrow> u16 option" where "iscntrl c = masked CT_CONTROL c"
definition isleadbyte :: "int \<Rightarrow> u16 option" where "isleadbyte c = masked CT_LEADBYTE c"

definition toupper :: "int \<Rightarrow> int option" where
  "toupper c = map_option (\<lambda>x. if x AND CT_LOWER \<noteq> 0 then c - 32 else c) (pctype c)"

definition tolower :: "int \<Rightarrow> int option" where
  "tolower c = map_option (\<lambda>x. if x AND CT_UPPER \<noteq> 0 then c + 32 else c) (pctype c)"

section \<open>The macros of ctype.h\<close>

definition m_ctype :: "u16 \<Rightarrow> int \<Rightarrow> bool" where
  "m_ctype cls c \<longleftrightarrow> ctype ! (Suc (nat (c mod 256))) AND cls \<noteq> 0"

definition m_isalpha :: "int \<Rightarrow> bool" where "m_isalpha c = m_ctype (CT_UPPER OR CT_LOWER) c"
definition m_isupper :: "int \<Rightarrow> bool" where "m_isupper c = m_ctype CT_UPPER c"
definition m_islower :: "int \<Rightarrow> bool" where "m_islower c = m_ctype CT_LOWER c"
definition m_isdigit :: "int \<Rightarrow> bool" where "m_isdigit c = m_ctype CT_DIGIT c"
definition m_isspace :: "int \<Rightarrow> bool" where "m_isspace c = m_ctype CT_SPACE c"
definition m_tolower :: "int \<Rightarrow> int" where "m_tolower c = (if m_isupper c then c - 65 + 97 else c)"
definition m_toupper :: "int \<Rightarrow> int" where "m_toupper c = (if m_islower c then c - 97 + 65 else c)"

section \<open>What the table says\<close>

lemma length_ctype: "length ctype = 257"
  by (simp add: ctype_def)

text \<open>The table as intervals of characters.\<close>

definition ctype_at :: "nat \<Rightarrow> u16" where
  "ctype_at n =
    (if n < 9 then CT_CONTROL else if n < 14 then CT_SPACE + CT_CONTROL else if n < 32 then CT_CONTROL
     else if n < 33 then CT_SPACE + CT_BLANK else if n < 48 then CT_PUNCT else if n < 58 then CT_DIGIT + CT_HEX
     else if n < 65 then CT_PUNCT else if n < 71 then CT_UPPER + CT_HEX else if n < 91 then CT_UPPER
     else if n < 96 then CT_PUNCT else if n < 102 then CT_LOWER + CT_HEX else if n < 122 then CT_LOWER
     else if n < 126 then CT_PUNCT else if n < 127 then CT_CONTROL else 0)"

lemma ctype_tl: "tl ctype = map ctype_at [0..<256]"
  by code_simp

lemma ctype_nth: "n < 256 \<Longrightarrow> ctype ! Suc n = ctype_at n"
  using nth_tl [of n ctype] by (simp add: length_ctype ctype_tl)

lemma m_ctype_at: "m_ctype cls c \<longleftrightarrow> ctype_at (nat (c mod 256)) AND cls \<noteq> 0"
proof -
  have "nat (c mod 256) < 256" by (simp add: nat_less_iff)
  from ctype_nth [OF this] show ?thesis by (simp add: m_ctype_def)
qed

lemmas m_ctype_simps = m_ctype_at ctype_at_def nat_less_iff ct_defs

lemma m_isupper_iff: "m_isupper c \<longleftrightarrow> 65 \<le> c mod 256 \<and> c mod 256 \<le> 90"
  by (simp add: m_isupper_def m_ctype_simps)

lemma m_islower_iff: "m_islower c \<longleftrightarrow> 96 \<le> c mod 256 \<and> c mod 256 \<le> 121"
  by (simp add: m_islower_def m_ctype_simps)

lemma m_isdigit_iff: "m_isdigit c \<longleftrightarrow> 48 \<le> c mod 256 \<and> c mod 256 \<le> 57"
  by (simp add: m_isdigit_def m_ctype_simps)

lemma m_isspace_iff: "m_isspace c \<longleftrightarrow> 9 \<le> c mod 256 \<and> c mod 256 \<le> 13 \<or> c mod 256 = 32"
  by (simp add: m_isspace_def m_ctype_simps)

lemma m_isalpha_iff: "m_isalpha c \<longleftrightarrow> m_isupper c \<or> m_islower c"
  by (auto simp: m_isalpha_def m_isupper_def m_islower_def m_ctype_def bit.conj_disj_distrib or_eq_0_iff)

text \<open>For a character, the functions agree with the macros.\<close>

lemma masked_byte: "0 \<le> c \<Longrightarrow> c \<le> 255 \<Longrightarrow> masked cls c = Some x \<Longrightarrow> x \<noteq> 0 \<longleftrightarrow> m_ctype cls c"
  by (auto simp: masked_def pctype_def m_ctype_def nat_add_distrib)

lemma masked_total: "-1 \<le> c \<Longrightarrow> c \<le> 255 \<Longrightarrow> \<exists>x. masked cls c = Some x"
  by (simp add: masked_def pctype_def)

lemmas m_class_iff = m_isupper_iff m_islower_iff m_isalpha_iff m_isdigit_iff m_isspace_iff

section \<open>Properties\<close>

text \<open>
  C22. For every character, \<^verbatim>\<open>isupper\<close>, \<^verbatim>\<open>isdigit\<close> and \<^verbatim>\<open>isspace\<close> recognize exactly the ASCII upper
  case letters, digits and white space, and \<^verbatim>\<open>tolower\<close> maps the upper case letters to the lower
  case ones. \<^verbatim>\<open>islower\<close> recognizes the characters from \<open>0x60\<close> (the back quote) to \<open>0x79\<close> (y),
  because of the lost entry: z is not a letter, the back quote is one, and \<^verbatim>\<open>toupper\<close> does not
  undo \<^verbatim>\<open>tolower\<close> on Z.
\<close>

theorem ctype_classes:
  assumes "0 \<le> c" "c \<le> 255"
  shows "\<exists>u l d b. isupper c = Some u \<and> islower c = Some l \<and> isdigit c = Some d \<and> isspace c = Some b \<and>
    (u \<noteq> 0) = (65 \<le> c \<and> c \<le> 90) \<and> (l \<noteq> 0) = (96 \<le> c \<and> c \<le> 121) \<and>
    (d \<noteq> 0) = (48 \<le> c \<and> c \<le> 57) \<and> (b \<noteq> 0) = (9 \<le> c \<and> c \<le> 13 \<or> c = 32) \<and>
    tolower c = Some (if 65 \<le> c \<and> c \<le> 90 then c + 32 else c) \<and>
    toupper c = Some (if 96 \<le> c \<and> c \<le> 121 then c - 32 else c)"
proof -
  have c: "c mod 256 = c" using assms by simp
  obtain u l d b where e: "masked CT_UPPER c = Some u" "masked CT_LOWER c = Some l"
      "masked CT_DIGIT c = Some d" "masked CT_SPACE c = Some b"
    using masked_total [of c] assms by fastforce
  have k: "(u \<noteq> 0) = m_isupper c" "(l \<noteq> 0) = m_islower c" "(d \<noteq> 0) = m_isdigit c" "(b \<noteq> 0) = m_isspace c"
    using assms e by (simp_all add: masked_byte m_isupper_def m_islower_def m_isdigit_def m_isspace_def)
  obtain x where x: "pctype c = Some x" "x AND CT_UPPER = u" "x AND CT_LOWER = l"
    using e(1,2) by (auto simp: masked_def)
  have "tolower c = Some (if u \<noteq> 0 then c + 32 else c)" "toupper c = Some (if l \<noteq> 0 then c - 32 else c)"
    using x by (simp_all add: tolower_def toupper_def)
  with e k show ?thesis
    unfolding isupper_def islower_def isdigit_def isspace_def m_class_iff c by auto
qed

lemma ctype_classes_witness:
  "\<exists>u l d b. isupper 122 = Some u \<and> islower 122 = Some l \<and> isdigit 122 = Some d \<and> isspace 122 = Some b \<and>
    (u \<noteq> 0) = (65 \<le> (122::int) \<and> (122::int) \<le> 90) \<and> (l \<noteq> 0) = (96 \<le> (122::int) \<and> (122::int) \<le> 121) \<and>
    (d \<noteq> 0) = (48 \<le> (122::int) \<and> (122::int) \<le> 57) \<and> (b \<noteq> 0) = (9 \<le> (122::int) \<and> (122::int) \<le> 13 \<or> (122::int) = 32) \<and>
    tolower 122 = Some (if 65 \<le> (122::int) \<and> (122::int) \<le> 90 then 122 + 32 else 122) \<and>
    toupper 122 = Some (if 96 \<le> (122::int) \<and> (122::int) \<le> 121 then 122 - 32 else 122)"
  by (rule ctype_classes) simp_all

end
