(* ===== verification/Cstring.thy ===== *)
theory Cstring
  imports Cmem Ctype
begin

text \<open>
  The string and memory routines of \<^verbatim>\<open>src/lib/string.c\<close> over byte memory. A loop that runs to the
  end of a string is a \<open>partial_function (option)\<close>: \<open>None\<close> means that it never ends. A loop that
  counts a \<^verbatim>\<open>size_t\<close> down is a \<open>function\<close> on \<open>32 word\<close>. \<^verbatim>\<open>char\<close> is signed: a comparison of
  characters with \<open><=\<close> reads them with \<open>sint\<close>, one of \<^verbatim>\<open>unsigned char\<close> with \<open>uint\<close>. A pointer that
  may be \<open>NULL\<close> is an \<open>option\<close>, and a \<^verbatim>\<open>char **\<close> argument is passed and returned by value.
\<close>

section \<open>Shared loops\<close>

text \<open>\<^verbatim>\<open>while (*s++);\<close> leaves \<open>s\<close> behind the terminating NUL.\<close>

partial_function (option) past_end :: "mem \<Rightarrow> int \<Rightarrow> int option" where
  "past_end m s = (if m s \<noteq> 0 then past_end m (s + 1) else Some (s + 1))"

text \<open>\<^verbatim>\<open>while (*cp++ = *src++);\<close>, which returns the addresses behind the two NULs.\<close>

partial_function (option) copy_str :: "int \<Rightarrow> int \<Rightarrow> mem \<Rightarrow> (int \<times> mem) option" where
  "copy_str cp src m =
     (let c = m src; m' = m(cp := c) in
      if c \<noteq> 0 then copy_str (cp + 1) (src + 1) m' else Some (cp + 1, m'))"

section \<open>Copying and comparing up to a length\<close>

function strncpy_copy :: "u32 \<Rightarrow> int \<Rightarrow> int \<Rightarrow> mem \<Rightarrow> u32 \<times> int \<times> mem" where
  "strncpy_copy n dest source m =
     (if n = 0 then (n, dest, m)
      else
        let c = m source; m' = m(dest := c) in
        if c = 0 then (n, dest + 1, m') else strncpy_copy (n - 1) (dest + 1) (source + 1) m')"
  by pat_completeness auto
termination by (relation "measure (\<lambda>(n, _). unat n)") (auto simp: unat_pred_less unat_pred2_less)

function strncpy_pad :: "u32 \<Rightarrow> int \<Rightarrow> mem \<Rightarrow> mem" where
  "strncpy_pad n dest m = (if n - 1 = 0 then m else strncpy_pad (n - 1) (dest + 1) (m(dest := 0)))"
  by pat_completeness auto
termination by (relation "measure (\<lambda>(n, _). unat (n - 1))") (auto simp: unat_pred_less unat_pred2_less)

definition strncpy :: "int \<Rightarrow> int \<Rightarrow> u32 \<Rightarrow> mem \<Rightarrow> int \<times> mem" where
  "strncpy dest source n m =
     (case strncpy_copy n dest source m of (n', dest', m') \<Rightarrow> (dest, if n' \<noteq> 0 then strncpy_pad n' dest' m' else m'))"

function strncmp_loop :: "u32 \<Rightarrow> int \<Rightarrow> int \<Rightarrow> mem \<Rightarrow> int \<times> int" where
  "strncmp_loop n s1 s2 m =
     (if n - 1 \<noteq> 0 \<and> m s1 \<noteq> 0 \<and> m s1 = m s2 then strncmp_loop (n - 1) (s1 + 1) (s2 + 1) m else (s1, s2))"
  by pat_completeness auto
termination by (relation "measure (\<lambda>(n, _). unat (n - 1))") (auto simp: unat_pred_less unat_pred2_less)

definition strncmp :: "int \<Rightarrow> int \<Rightarrow> u32 \<Rightarrow> mem \<Rightarrow> int" where
  "strncmp s1 s2 n m =
     (if n = 0 then 0 else case strncmp_loop n s1 s2 m of (s1, s2) \<Rightarrow> uint (m s1) - uint (m s2))"

definition lower_char :: "u8 \<Rightarrow> u8" where
  "lower_char c = (if sint c \<le> 90 \<and> sint c \<ge> 65 then c + 97 - 65 else c)"

partial_function (option) stricmp :: "int \<Rightarrow> int \<Rightarrow> mem \<Rightarrow> int option" where
  "stricmp s1 s2 m =
     (let f = lower_char (m s1); l = lower_char (m s2) in
      if f \<noteq> 0 \<and> f = l then stricmp (s1 + 1) (s2 + 1) m else Some (sint f - sint l))"

definition lower_uchar :: "u8 \<Rightarrow> int" where
  "lower_uchar c = (let f = uint c in if f \<ge> 65 \<and> f \<le> 90 then f - (65 - 97) else f)"

function strnicmp :: "int \<Rightarrow> int \<Rightarrow> u32 \<Rightarrow> mem \<Rightarrow> int" where
  "strnicmp s1 s2 n m =
     (let f = lower_uchar (m s1); l = lower_uchar (m s2) in
      if n - 1 \<noteq> 0 \<and> f \<noteq> 0 \<and> f = l then strnicmp (s1 + 1) (s2 + 1) (n - 1) m else f - l)"
  by pat_completeness auto
termination by (relation "measure (\<lambda>(_, _, n, _). unat (n - 1))") (auto simp: unat_pred_less unat_pred2_less)

definition strcasecmp :: "int \<Rightarrow> int \<Rightarrow> mem \<Rightarrow> int option" where
  "strcasecmp s1 s2 m = stricmp s1 s2 m"

definition strncasecmp :: "int \<Rightarrow> int \<Rightarrow> u32 \<Rightarrow> mem \<Rightarrow> int" where
  "strncasecmp s1 s2 n m = strnicmp s1 s2 n m"

section \<open>Searching\<close>

text \<open>
  The inner loop of \<^verbatim>\<open>strstr\<close> and \<^verbatim>\<open>strcasestr\<close>, which differ in the comparison only, returns
  where it left \<^verbatim>\<open>s2\<close>.
\<close>

partial_function (option) match_loop :: "(u8 \<Rightarrow> u8 \<Rightarrow> bool) \<Rightarrow> mem \<Rightarrow> int \<Rightarrow> int \<Rightarrow> int option" where
  "match_loop same m s1 s2 =
     (if m s1 \<noteq> 0 \<and> m s2 \<noteq> 0 \<and> same (m s1) (m s2) then match_loop same m (s1 + 1) (s2 + 1) else Some s2)"

partial_function (option) search_loop :: "(u8 \<Rightarrow> u8 \<Rightarrow> bool) \<Rightarrow> mem \<Rightarrow> int \<Rightarrow> int \<Rightarrow> int option option" where
  "search_loop same m cp str2 =
     (if m cp \<noteq> 0 then do {
        s2 \<leftarrow> match_loop same m cp str2;
        if m s2 = 0 then Some (Some cp) else search_loop same m (cp + 1) str2
      } else Some None)"

definition strcasestr :: "int \<Rightarrow> int \<Rightarrow> mem \<Rightarrow> int option option" where
  "strcasestr str1 str2 m =
     (if m str2 = 0 then Some (Some str1)
      else search_loop (\<lambda>a b. m_tolower (sint a) - m_tolower (sint b) = 0) m str1 str2)"

partial_function (option) strchr_loop :: "mem \<Rightarrow> u8 \<Rightarrow> int \<Rightarrow> int option" where
  "strchr_loop m ch s = (if m s \<noteq> 0 \<and> m s \<noteq> ch then strchr_loop m ch (s + 1) else Some s)"

definition strchr :: "int \<Rightarrow> int \<Rightarrow> mem \<Rightarrow> int option option" where
  "strchr s ch m =
     do {
       s' \<leftarrow> strchr_loop m (word_of_int ch) s;
       Some (if m s' = word_of_int ch then Some s' else None)
     }"

partial_function (option) strrchr_loop :: "mem \<Rightarrow> u8 \<Rightarrow> int \<Rightarrow> int \<Rightarrow> int option" where
  "strrchr_loop m ch start s =
     (if s - 1 \<noteq> start \<and> m (s - 1) \<noteq> ch then strrchr_loop m ch start (s - 1) else Some (s - 1))"

definition strrchr :: "int \<Rightarrow> int \<Rightarrow> mem \<Rightarrow> int option option" where
  "strrchr s ch m =
     do {
       e \<leftarrow> past_end m s;
       s' \<leftarrow> strrchr_loop m (word_of_int ch) s e;
       Some (if m s' = word_of_int ch then Some s' else None)
     }"

definition strstr :: "int \<Rightarrow> int \<Rightarrow> mem \<Rightarrow> int option option" where
  "strstr str1 str2 m =
     (if m str2 = 0 then Some (Some str1) else search_loop (\<lambda>a b. sint a - sint b = 0) m str1 str2)"

section \<open>Character sets as bit maps\<close>

definition set_bit_map :: "u8 \<Rightarrow> u8 list \<Rightarrow> u8 list" where
  "set_bit_map c mp =
     (let i = unat (drop_bit 3 c) in mp[i := mp ! i OR push_bit (unat (c AND 7)) 1])"

definition in_map :: "u8 list \<Rightarrow> u8 \<Rightarrow> bool" where
  "in_map mp c \<longleftrightarrow> mp ! unat (drop_bit 3 c) AND push_bit (unat (c AND 7)) 1 \<noteq> 0"

partial_function (option) fill_map :: "mem \<Rightarrow> int \<Rightarrow> u8 list \<Rightarrow> u8 list option" where
  "fill_map m ctrl mp = (if m ctrl \<noteq> 0 then fill_map m (ctrl + 1) (set_bit_map (m ctrl) mp) else Some mp)"

definition ctrl_map :: "int \<Rightarrow> mem \<Rightarrow> u8 list option" where
  "ctrl_map control m = fill_map m control (replicate 32 0)"

partial_function (option) span_loop :: "(u8 \<Rightarrow> bool) \<Rightarrow> mem \<Rightarrow> u32 \<Rightarrow> int \<Rightarrow> u32 option" where
  "span_loop P m n str = (if P (m str) then span_loop P m (n + 1) (str + 1) else Some n)"

definition strspn :: "int \<Rightarrow> int \<Rightarrow> mem \<Rightarrow> u32 option" where
  "strspn str control m =
     do {
       mp \<leftarrow> ctrl_map control m;
       if m str \<noteq> 0 then span_loop (in_map mp) m 0 str else Some 0
     }"

definition strcspn :: "int \<Rightarrow> int \<Rightarrow> mem \<Rightarrow> u32 option" where
  "strcspn str control m =
     do {
       mp \<leftarrow> ctrl_map control m;
       span_loop (\<lambda>c. \<not> in_map (mp[0 := mp ! 0 OR 1]) c) m 0 str
     }"

partial_function (option) strpbrk_loop :: "u8 list \<Rightarrow> mem \<Rightarrow> int \<Rightarrow> int option option" where
  "strpbrk_loop mp m str =
     (if m str \<noteq> 0 then if in_map mp (m str) then Some (Some str) else strpbrk_loop mp m (str + 1)
      else Some None)"

definition strpbrk :: "int \<Rightarrow> int \<Rightarrow> mem \<Rightarrow> int option option" where
  "strpbrk str control m = do { mp \<leftarrow> ctrl_map control m; strpbrk_loop mp m str }"

section \<open>Blocks of memory\<close>

function move_up :: "u32 \<Rightarrow> int \<Rightarrow> int \<Rightarrow> mem \<Rightarrow> mem" where
  "move_up n dst src m = (if n = 0 then m else move_up (n - 1) (dst + 1) (src + 1) (m(dst := m src)))"
  by pat_completeness auto
termination by (relation "measure (\<lambda>(n, _). unat n)") (auto simp: unat_pred_less unat_pred2_less)

function move_down :: "u32 \<Rightarrow> int \<Rightarrow> int \<Rightarrow> mem \<Rightarrow> mem" where
  "move_down n dst src m = (if n = 0 then m else move_down (n - 1) (dst - 1) (src - 1) (m(dst := m src)))"
  by pat_completeness auto
termination by (relation "measure (\<lambda>(n, _). unat n)") (auto simp: unat_pred_less unat_pred2_less)

definition memmove :: "int \<Rightarrow> int \<Rightarrow> u32 \<Rightarrow> mem \<Rightarrow> int \<times> mem" where
  "memmove dst src n m =
     (dst,
      if dst \<le> src \<or> dst \<ge> src + uint n then move_up n dst src m
      else move_down n (dst + uint n - 1) (src + uint n - 1) m)"

function memchr :: "int \<Rightarrow> int \<Rightarrow> u32 \<Rightarrow> mem \<Rightarrow> int option" where
  "memchr buf ch n m =
     (if n \<noteq> 0 \<and> m buf \<noteq> word_of_int ch then memchr (buf + 1) ch (n - 1) m
      else if n \<noteq> 0 then Some buf else None)"
  by pat_completeness auto
termination by (relation "measure (\<lambda>(_, _, n, _). unat n)") (auto simp: unat_pred_less unat_pred2_less)

text \<open>
  \<^verbatim>\<open>memcpy\<close>, the C version. Its word loop is behind a test that holds only when both addresses
  and the length are 0.
\<close>

partial_function (option) copy_bytes :: "int \<Rightarrow> int \<Rightarrow> int \<Rightarrow> mem \<Rightarrow> mem option" where
  "copy_bytes s e d m = (if s \<noteq> e then copy_bytes (s + 1) e (d + 1) (m(d := m s)) else Some m)"

partial_function (option) copy_words :: "int \<Rightarrow> int \<Rightarrow> int \<Rightarrow> mem \<Rightarrow> mem option" where
  "copy_words s e d m = (if s \<noteq> e then copy_words (s + 4) e (d + 4) (store d (load s 4 m) m) else Some m)"

definition memcpy :: "int \<Rightarrow> int \<Rightarrow> u32 \<Rightarrow> mem \<Rightarrow> (int \<times> mem) option" where
  "memcpy dst src n m =
     do {
       m' \<leftarrow> (if src OR dst OR uint n \<noteq> 0 then copy_bytes src (src + uint n) dst m
              else copy_words src (src + uint n) dst m);
       Some (dst, m')
     }"

partial_function (option) memset_loop :: "int \<Rightarrow> int \<Rightarrow> u8 \<Rightarrow> mem \<Rightarrow> mem option" where
  "memset_loop pb pbend c m = (if pb \<noteq> pbend then memset_loop (pb + 1) pbend c (m(pb := c)) else Some m)"

definition memset :: "int \<Rightarrow> int \<Rightarrow> u32 \<Rightarrow> mem \<Rightarrow> (int \<times> mem) option" where
  "memset p c n m = do { m' \<leftarrow> memset_loop p (p + uint n) (word_of_int c) m; Some (p, m') }"

function memcmp_loop :: "u32 \<Rightarrow> int \<Rightarrow> int \<Rightarrow> mem \<Rightarrow> int \<times> int" where
  "memcmp_loop n dst src m =
     (if n - 1 \<noteq> 0 \<and> m dst = m src then memcmp_loop (n - 1) (dst + 1) (src + 1) m else (dst, src))"
  by pat_completeness auto
termination by (relation "measure (\<lambda>(n, _). unat (n - 1))") (auto simp: unat_pred_less unat_pred2_less)

definition memcmp :: "int \<Rightarrow> int \<Rightarrow> u32 \<Rightarrow> mem \<Rightarrow> int" where
  "memcmp dst src n m =
     (if n = 0 then 0 else case memcmp_loop n dst src m of (d, s) \<Rightarrow> uint (m d) - uint (m s))"

function memccpy :: "int \<Rightarrow> int \<Rightarrow> int \<Rightarrow> u32 \<Rightarrow> mem \<Rightarrow> int option \<times> mem" where
  "memccpy dst src c n m =
     (if n = 0 then (None, m)
      else
        let x = m src; m' = m(dst := x) in
        if x \<noteq> word_of_int c then memccpy (dst + 1) (src + 1) c (n - 1) m' else (Some (dst + 1), m'))"
  by pat_completeness auto
termination by (relation "measure (\<lambda>(_, _, _, n, _). unat n)") (auto simp: unat_pred_less unat_pred2_less)

function memicmp_loop :: "u32 \<Rightarrow> int \<Rightarrow> int \<Rightarrow> int \<Rightarrow> int \<Rightarrow> mem \<Rightarrow> int" where
  "memicmp_loop n f l dst src m =
     (if n \<noteq> 0 \<and> f = l then
        memicmp_loop (n - 1) (m_tolower (uint (m dst))) (m_tolower (uint (m src))) (dst + 1) (src + 1) m
      else f - l)"
  by pat_completeness auto
termination by (relation "measure (\<lambda>(n, _). unat n)") (auto simp: unat_pred_less unat_pred2_less)

definition memicmp :: "int \<Rightarrow> int \<Rightarrow> u32 \<Rightarrow> mem \<Rightarrow> int" where
  "memicmp buf1 buf2 n m = memicmp_loop n 0 0 buf1 buf2 m"

section \<open>Whole strings\<close>

definition strlen :: "int \<Rightarrow> mem \<Rightarrow> u32 option" where
  "strlen s m = do { eos \<leftarrow> past_end m s; Some (word_of_int (eos - s - 1)) }"

definition strcpy :: "int \<Rightarrow> int \<Rightarrow> mem \<Rightarrow> (int \<times> mem) option" where
  "strcpy dst src m = do { (_, m') \<leftarrow> copy_str dst src m; Some (dst, m') }"

text \<open>\<^verbatim>\<open>stpcpy\<close> stops at the NUL it has written, one before \<^verbatim>\<open>strcpy\<close>.\<close>

definition stpcpy :: "int \<Rightarrow> int \<Rightarrow> mem \<Rightarrow> (int \<times> mem) option" where
  "stpcpy dst src m = do { (e, m') \<leftarrow> copy_str dst src m; Some (e - 1, m') }"

partial_function (option) strcat_end :: "mem \<Rightarrow> int \<Rightarrow> int option" where
  "strcat_end m cp = (if m cp \<noteq> 0 then strcat_end m (cp + 1) else Some cp)"

definition strcat :: "int \<Rightarrow> int \<Rightarrow> mem \<Rightarrow> (int \<times> mem) option" where
  "strcat dst src m =
     do {
       cp \<leftarrow> strcat_end m dst;
       (_, m') \<leftarrow> copy_str cp src m;
       Some (dst, m')
     }"

function strncat_loop :: "u32 \<Rightarrow> int \<Rightarrow> int \<Rightarrow> mem \<Rightarrow> mem" where
  "strncat_loop n s1 s2 m =
     (if n = 0 then m(s1 := 0)
      else
        let c = m s2; m' = m(s1 := c) in
        if c = 0 then m' else strncat_loop (n - 1) (s1 + 1) (s2 + 1) m')"
  by pat_completeness auto
termination by (relation "measure (\<lambda>(n, _). unat n)") (auto simp: unat_pred_less unat_pred2_less)

definition strncat :: "int \<Rightarrow> int \<Rightarrow> u32 \<Rightarrow> mem \<Rightarrow> (int \<times> mem) option" where
  "strncat s1 s2 n m = do { e \<leftarrow> past_end m s1; Some (s1, strncat_loop n (e - 1) s2 m) }"

partial_function (option) strcmp_loop :: "int \<Rightarrow> int \<Rightarrow> mem \<Rightarrow> int option" where
  "strcmp_loop s1 s2 m =
     (let ret = uint (m s1) - uint (m s2) in
      if ret = 0 \<and> m s2 \<noteq> 0 then strcmp_loop (s1 + 1) (s2 + 1) m else Some ret)"

definition strcmp :: "int \<Rightarrow> int \<Rightarrow> mem \<Rightarrow> int option" where
  "strcmp s1 s2 m =
     do { ret \<leftarrow> strcmp_loop s1 s2 m; Some (if ret < 0 then -1 else if ret > 0 then 1 else ret) }"

definition strdup :: "(u32 \<Rightarrow> mem \<Rightarrow> int \<times> mem) \<Rightarrow> int \<Rightarrow> mem \<Rightarrow> (int \<times> mem) option" where
  "strdup malloc s m =
     (if s = 0 then Some (0, m)
      else do {
        len \<leftarrow> strlen s m;
        (case malloc (len + 1) m of (t, m1) \<Rightarrow> memcpy t s (len + 1) m1)
      })"

partial_function (option) map_str :: "(u8 \<Rightarrow> u8) \<Rightarrow> int \<Rightarrow> mem \<Rightarrow> (int \<times> mem) option" where
  "map_str f p m = (if m p \<noteq> 0 then map_str f (p + 1) (m(p := f (m p))) else Some (p, m))"

definition strlwr :: "int \<Rightarrow> mem \<Rightarrow> (int \<times> mem) option" where
  "strlwr s m = do { (_, m') \<leftarrow> map_str (\<lambda>c. word_of_int (m_tolower (sint c))) s m; Some (s, m') }"

definition strupr :: "int \<Rightarrow> mem \<Rightarrow> (int \<times> mem) option" where
  "strupr s m = do { (_, m') \<leftarrow> map_str (\<lambda>c. word_of_int (m_toupper (sint c))) s m; Some (s, m') }"

definition strset :: "int \<Rightarrow> int \<Rightarrow> mem \<Rightarrow> (int \<times> mem) option" where
  "strset s c m = do { (_, m') \<leftarrow> map_str (\<lambda>_. word_of_int c) s m; Some (s, m') }"

text \<open>\<^verbatim>\<open>strnset\<close> returns the pointer it has advanced, not the start of the string.\<close>

function strnset :: "int \<Rightarrow> int \<Rightarrow> u32 \<Rightarrow> mem \<Rightarrow> int \<times> mem" where
  "strnset s c n m =
     (if n \<noteq> 0 \<and> m s \<noteq> 0 then strnset (s + 1) c (n - 1) (m(s := word_of_int c)) else (s, m))"
  by pat_completeness auto
termination by (relation "measure (\<lambda>(_, _, n, _). unat n)") (auto simp: unat_pred_less unat_pred2_less)

function rev_loop :: "int \<Rightarrow> int \<Rightarrow> mem \<Rightarrow> mem" where
  "rev_loop left s m =
     (if left < s then rev_loop (left + 1) (s - 1) (m(left := m s, s := m left)) else m)"
  by pat_completeness auto
termination by (relation "measure (\<lambda>(left, s, _). nat (s - left))") auto

definition strrev :: "int \<Rightarrow> mem \<Rightarrow> (int \<times> mem) option" where
  "strrev s m = do { e \<leftarrow> past_end m s; Some (s, rev_loop s (e - 2) m) }"

section \<open>Tokens\<close>

text \<open>\<^verbatim>\<open>do ... while (*ctrl++)\<close> also puts the NUL into the map.\<close>

partial_function (option) fill_map_nul :: "mem \<Rightarrow> int \<Rightarrow> u8 list \<Rightarrow> u8 list option" where
  "fill_map_nul m ctrl mp =
     (let mp' = set_bit_map (m ctrl) mp in
      if m ctrl \<noteq> 0 then fill_map_nul m (ctrl + 1) mp' else Some mp')"

partial_function (option) skip_delim :: "u8 list \<Rightarrow> mem \<Rightarrow> int \<Rightarrow> int option" where
  "skip_delim mp m str = (if in_map mp (m str) \<and> m str \<noteq> 0 then skip_delim mp m (str + 1) else Some str)"

partial_function (option) end_token :: "u8 list \<Rightarrow> int \<Rightarrow> mem \<Rightarrow> (int \<times> mem) option" where
  "end_token mp str m =
     (if m str = 0 then Some (str, m)
      else if in_map mp (m str) then Some (str + 1, m(str := 0))
      else end_token mp (str + 1) m)"

definition strtok_r :: "int option \<Rightarrow> int \<Rightarrow> int \<Rightarrow> mem \<Rightarrow> (int option \<times> int \<times> mem) option" where
  "strtok_r string control lasts m =
     do {
       mp \<leftarrow> fill_map_nul m control (replicate 32 0);
       str \<leftarrow> skip_delim mp m (case string of Some s \<Rightarrow> s | None \<Rightarrow> lasts);
       (str', m') \<leftarrow> end_token mp str m;
       Some (if str = str' then None else Some str, str', m')
     }"

definition strtok :: "int option \<Rightarrow> int \<Rightarrow> int \<Rightarrow> mem \<Rightarrow> (int option \<times> int \<times> mem) option" where
  "strtok string control nexttoken m = strtok_r string control nexttoken m"

partial_function (option) is_delim :: "mem \<Rightarrow> u8 \<Rightarrow> int \<Rightarrow> bool option" where
  "is_delim m c d = (if m d \<noteq> 0 then if c = m d then Some True else is_delim m c (d + 1) else Some False)"

partial_function (option) strsep_loop :: "int \<Rightarrow> int \<Rightarrow> mem \<Rightarrow> (int option \<times> mem) option" where
  "strsep_loop s delim m =
     (if m s = 0 then Some (None, m)
      else do {
        found \<leftarrow> is_delim m (m s) delim;
        if found then Some (Some (s + 1), m(s := 0)) else strsep_loop (s + 1) delim m
      })"

text \<open>Returns the token, the new value of \<^verbatim>\<open>*stringp\<close> and the memory.\<close>

definition strsep :: "int option \<Rightarrow> int \<Rightarrow> mem \<Rightarrow> (int option \<times> int option \<times> mem) option" where
  "strsep stringp delim m =
     (case stringp of
        None \<Rightarrow> Some (None, None, m)
      | Some start \<Rightarrow> do { (sp, m') \<leftarrow> strsep_loop start delim m; Some (Some start, sp, m') })"

text \<open>The equations of the counting loops rewrite any call: they are used by substitution.\<close>

declare strncpy_copy.simps [simp del] strncpy_pad.simps [simp del] strncmp_loop.simps [simp del]
  strnicmp.simps [simp del] move_up.simps [simp del] move_down.simps [simp del] memchr.simps [simp del]
  memcmp_loop.simps [simp del] memccpy.simps [simp del] memicmp_loop.simps [simp del]
  strncat_loop.simps [simp del] strnset.simps [simp del] rev_loop.simps [simp del]

end
