(* ===== verification/Cstring_Laws.thy ===== *)
theory Cstring_Laws
  imports Cstring "HOL-Library.Sublist"
begin

text \<open>
  What the string routines compute, in terms of the blocks and strings in memory: copying and
  reversing (also between overlapping blocks), the order of strings, searching, character
  sets, and splitting a string into tokens.
\<close>

section \<open>Copying\<close>

lemma uint_pred: "n \<noteq> 0 \<Longrightarrow> uint (n - 1) = uint n - 1" for n :: u32
  using arg_cong [OF unat_pred [of n], of int] by simp

lemma past_end_cstr: "cstr m p s \<Longrightarrow> past_end m p = Some (p + int (length s) + 1)"
  by (induction s arbitrary: p) (subst past_end.simps, simp)+

lemma copy_str_cstr:
  assumes "cstr m src s" "dst \<le> src \<or> src + int (length s) < dst"
  shows "copy_str dst src m = Some (dst + int (length s) + 1, store dst (s @ [0]) m)"
  using assms
proof (induction s arbitrary: dst src m)
  case Nil
  then show ?case by (subst copy_str.simps) (simp add: store_Cons)
next
  case (Cons c s)
  have "cstr (m(dst := c)) (src + 1) s" using Cons.prems by (auto simp: cstr_upd_out)
  moreover have "dst + 1 \<le> src + 1 \<or> src + 1 + int (length s) < dst + 1" using Cons.prems by auto
  ultimately have "copy_str (dst + 1) (src + 1) (m(dst := c)) =
      Some (dst + 1 + int (length s) + 1, store (dst + 1) (s @ [0]) (m(dst := c)))"
    by (rule Cons.IH)
  with Cons.prems show ?case by (subst copy_str.simps) (simp add: store_Cons del: fun_upd_apply)
qed

lemma move_up_store:
  "dst \<le> src \<or> src + uint n \<le> dst \<Longrightarrow> move_up n dst src m = store dst (load src (unat n) m) m"
proof (induction n dst src m rule: move_up.induct)
  case (1 n dst src m)
  show ?case
  proof (cases "n = 0")
    case False
    then have "load (src + 1) (unat (n - 1)) (m(dst := m src)) = load (src + 1) (unat (n - 1)) m"
      using "1.prems" by (intro load_upd_out) (auto simp: uint_pred)
    moreover have "move_up (n - 1) (dst + 1) (src + 1) (m(dst := m src)) =
        store (dst + 1) (load (src + 1) (unat (n - 1)) (m(dst := m src))) (m(dst := m src))"
      using "1.prems" False by (intro "1.IH") (auto simp: uint_pred)
    ultimately show ?thesis
      using False by (subst move_up.simps) (simp add: unat_pred [OF False] load_Suc store_Cons del: fun_upd_apply)
  qed (simp add: move_up.simps)
qed

lemma move_down_store:
  "src \<le> dst \<Longrightarrow> move_down n (dst + uint n - 1) (src + uint n - 1) m = store dst (load src (unat n) m) m"
proof (induction "unat n" arbitrary: n m)
  case 0
  then have "n = 0" by (simp add: unat_eq_0)
  then show ?case by (simp add: move_down.simps)
next
  case (Suc k)
  then have n: "n \<noteq> 0" by auto
  have k1: "k = unat (n - 1)" using Suc(2) unat_pred [OF n] by simp
  have k2: "uint (n - 1) = int k" "uint n = 1 + int k" using k1 uint_pred [OF n] by simp_all
  let ?m = "m(dst + int k := m (src + int k))"
  have "move_down n (dst + uint n - 1) (src + uint n - 1) m = move_down (n - 1) (dst + uint (n - 1) - 1) (src + uint (n - 1) - 1) ?m"
    using n by (subst move_down.simps) (simp add: k2 del: fun_upd_apply)
  also have "\<dots> = store dst (load src k ?m) ?m" unfolding k1 by (rule Suc.hyps(1) [OF k1 Suc.prems])
  also have "load src k ?m = load src k m" using Suc.prems by (intro load_upd_out) simp
  finally show ?case
    using store_upd_comm [of "dst + int k" dst "load src k m" m] unfolding Suc(2) [symmetric]
    by (simp add: load_snoc store_snoc del: fun_upd_apply)
qed

lemma copy_bytes_store:
  "d \<le> s \<or> s + int n \<le> d \<Longrightarrow> copy_bytes s (s + int n) d m = Some (store d (load s n m) m)"
proof (induction n arbitrary: s d m)
  case 0
  then show ?case by (subst copy_bytes.simps) simp
next
  case (Suc n)
  have "load (s + 1) n (m(d := m s)) = load (s + 1) n m" using Suc.prems by (intro load_upd_out) auto
  moreover have "copy_bytes (s + 1) (s + 1 + int n) (d + 1) (m(d := m s)) =
      Some (store (d + 1) (load (s + 1) n (m(d := m s))) (m(d := m s)))"
    using Suc.prems by (intro Suc.IH) auto
  ultimately show ?case
    by (subst copy_bytes.simps) (simp add: load_Suc store_Cons add.assoc del: fun_upd_apply)
qed

lemma memset_loop_store: "memset_loop p (p + int n) c m = Some (store p (replicate n c) m)"
proof (induction n arbitrary: p m)
  case (Suc n)
  have "memset_loop (p + 1) (p + 1 + int n) c (m(p := c)) = Some (store (p + 1) (replicate n c) (m(p := c)))"
    by (rule Suc.IH)
  then show ?case by (subst memset_loop.simps) (simp add: store_Cons add.assoc del: fun_upd_apply)
qed (simp add: memset_loop.simps)

lemma strncpy_pad_store: "n \<noteq> 0 \<Longrightarrow> strncpy_pad n dest m = store dest (replicate (unat n - 1) 0) m"
proof (induction n dest m rule: strncpy_pad.induct)
  case (1 n dest m)
  show ?case
  proof (cases "n - 1 = 0")
    case True
    then have "n = 1" by simp
    then show ?thesis by (simp add: strncpy_pad.simps)
  next
    case False
    then have "unat n - 1 = Suc (unat (n - 1) - 1)"
      using unat_pred [OF "1.prems"] unat_gt_0 [of "n - 1"] by simp
    with 1 False show ?thesis by (subst strncpy_pad.simps) (simp add: store_Cons del: fun_upd_apply)
  qed
qed

lemma strncpy_copy_store:
  assumes "cstr m source s" "dest \<le> source \<or> source + int (length s) < dest"
  shows "strncpy_copy n dest source m =
    (if unat n \<le> length s then (0, dest + int (unat n), store dest (take (unat n) s) m)
     else (n - of_nat (length s), dest + int (length s) + 1, store dest (s @ [0]) m))"
  using assms
proof (induction s arbitrary: n dest source m)
  case Nil
  then show ?case by (cases "n = 0") (auto simp: store_Cons unat_gt_0 strncpy_copy.simps)
next
  case (Cons c s)
  show ?case
  proof (cases "n = 0")
    case False
    have "cstr (m(dest := c)) (source + 1) s" using Cons.prems by (auto simp: cstr_upd_out)
    moreover have "dest + 1 \<le> source + 1 \<or> source + 1 + int (length s) < dest + 1" using Cons.prems by auto
    ultimately have "strncpy_copy (n - 1) (dest + 1) (source + 1) (m(dest := c)) =
        (if unat (n - 1) \<le> length s then (0, dest + 1 + int (unat (n - 1)), store (dest + 1) (take (unat (n - 1)) s) (m(dest := c)))
         else (n - 1 - of_nat (length s), dest + 1 + int (length s) + 1, store (dest + 1) (s @ [0]) (m(dest := c))))"
      by (rule Cons.IH)
    then show ?thesis
      using Cons.prems(1) False unat_pred [OF False]
      by (subst strncpy_copy.simps)
        (auto simp: store_Cons uint_pred diff_diff_eq simp del: fun_upd_apply)
  qed (simp add: strncpy_copy.simps)
qed

lemma strncpy_store:
  assumes "cstr m source s" "dest \<le> source \<or> source + int (length s) < dest"
  shows "strncpy dest source n m = (dest, store dest (take (unat n) s @ replicate (unat n - length s) 0) m)"
proof (cases "unat n \<le> length s")
  case True
  with strncpy_copy_store [OF assms, of n] show ?thesis by (simp add: strncpy_def)
next
  case False
  let ?k = "n - of_nat (length s)"
  have l: "unat (of_nat (length s) :: u32) = length s"
    using less_trans [OF _ unat_u32_less [of n], of "length s"] False
    by (simp add: unsigned_of_nat take_bit_nat_eq_self)
  then have u: "unat ?k = unat n - length s" using False by (simp add: unat_sub_no_wrap)
  then have k: "?k \<noteq> 0" using False by (metis unat_0 zero_less_diff not_le less_irrefl)
  have "replicate (unat n - length s) (0::u8) = 0 # replicate (unat ?k - 1) 0"
    using False u by (cases "unat n - length s") simp_all
  then show ?thesis
    using False strncpy_copy_store [OF assms, of n] strncpy_pad_store [OF k]
    by (simp add: strncpy_def k store_append store_Cons algebra_simps del: replicate_Suc)
qed

lemma strcat_end_cstr: "cstr m p s \<Longrightarrow> strcat_end m p = Some (p + int (length s))"
  by (induction s arbitrary: p) (subst strcat_end.simps, simp)+

lemma rev_loop_store: "l \<le> r + 1 \<Longrightarrow> rev_loop l r m = store l (rev (load l (nat (r - l + 1)) m)) m"
proof (induction l r m rule: rev_loop.induct)
  case (1 l r m)
  show ?case
  proof (cases "l < r")
    case False
    then have "nat (r - l + 1) = 0 \<or> nat (r - l + 1) = 1" using 1 by arith
    then show ?thesis using False by (subst rev_loop.simps) (auto simp: load_Suc store_Cons)
  next
    case True
    let ?m = "m(l := m r, r := m l)" and ?k = "nat (r - 1 - (l + 1) + 1)"
    have k: "nat (r - l + 1) = Suc (Suc ?k)" "l + 1 + int ?k = r" using True by simp_all
    have "load (l + 1) ?k ?m = load (l + 1) ?k m" using True k by (intro load_cong) auto
    then have "rev_loop l r m = store (l + 1) (rev (load (l + 1) ?k m)) ?m"
      using 1 True by (subst rev_loop.simps) (simp del: fun_upd_apply)
    also have "\<dots> = (store (l + 1) (rev (load (l + 1) ?k m)) (m(l := m r)))(r := m l)"
      using k by (intro store_upd_comm) simp
    also have "\<dots> = store l (m r # rev (load (l + 1) ?k m) @ [m l]) m"
      using k by (simp only: store_snoc store_Cons length_rev length_load)
    also have "m r # rev (load (l + 1) ?k m) @ [m l] = rev (load l (nat (r - l + 1)) m)"
      using k by (simp only: load_Suc [of l] load_snoc [of "l + 1"] rev.simps rev_append append.simps)
    finally show ?thesis .
  qed
qed

lemma map_str_store:
  "cstr m p s \<Longrightarrow> map_str f p m = Some (p + int (length s), store p (map f s) m)"
proof (induction s arbitrary: p m)
  case Nil
  then show ?case by (subst map_str.simps) simp
next
  case (Cons c s)
  have "cstr (m(p := f c)) (p + 1) s" using Cons.prems by (simp add: cstr_upd_out)
  then have "map_str f (p + 1) (m(p := f c)) = Some (p + 1 + int (length s), store (p + 1) (map f s) (m(p := f c)))"
    by (rule Cons.IH)
  with Cons.prems show ?case by (subst map_str.simps) (simp add: store_Cons del: fun_upd_apply)
qed

section \<open>The order of strings\<close>

text \<open>The order of strings: by the first byte in which they differ, read as unsigned; a prefix comes first.\<close>

fun str_order :: "u8 list \<Rightarrow> u8 list \<Rightarrow> int" where
  "str_order [] [] = 0"
| "str_order [] (_ # _) = -1"
| "str_order (_ # _) [] = 1"
| "str_order (a # s) (b # t) = (if a < b then -1 else if b < a then 1 else str_order s t)"

lemma strcmp_loop_sgn:
  "cstr m p s \<Longrightarrow> cstr m q t \<Longrightarrow> \<exists>r. strcmp_loop p q m = Some r \<and> sgn r = str_order s t"
proof (induction s t arbitrary: p q rule: str_order.induct)
  case 1
  then show ?case by (subst strcmp_loop.simps) simp
next
  case (2 b t)
  then have "uint (m q) > 0" using uint_nonnegative [of b] uint_0_iff [of b] by (auto simp: less_le)
  with 2 show ?case by (subst strcmp_loop.simps) (auto simp: Let_def)
next
  case (3 a s)
  then show ?case by (subst strcmp_loop.simps) (auto simp: Let_def)
next
  case (4 a s b t)
  show ?case
  proof (cases "a = b")
    case True
    with 4 show ?thesis by (subst strcmp_loop.simps) (auto simp: Let_def)
  next
    case False
    then have "uint a \<noteq> uint b" "a < b \<longleftrightarrow> uint a < uint b" by (auto simp: word_less_def dest: unsigned_word_eqI)
    with 4 show ?thesis by (subst strcmp_loop.simps) (auto simp: Let_def sgn_if word_less_def)
  qed
qed

lemma strcmp_cstr:
  assumes "cstr m p s" "cstr m q t"
  shows "strcmp p q m = Some (str_order s t)"
proof -
  obtain r where "strcmp_loop p q m = Some r" "sgn r = str_order s t" using strcmp_loop_sgn [OF assms] by blast
  moreover have "(if r < 0 then -1 else if r > 0 then 1 else r) = sgn r" by (simp add: sgn_if)
  ultimately show ?thesis by (simp add: strcmp_def)
qed

lemma str_order_0: "str_order s t = 0 \<longleftrightarrow> s = t"
  by (induction s t rule: str_order.induct) auto

lemma str_order_sym: "str_order t s = - str_order s t"
  by (induction s t rule: str_order.induct) auto

lemma str_order_range: "str_order s t \<in> {-1, 0, 1}"
  by (induction s t rule: str_order.induct) auto

lemma str_order_trans: "str_order s t = -1 \<Longrightarrow> str_order t u = -1 \<Longrightarrow> str_order s u = -1"
proof (induction s t arbitrary: u rule: str_order.induct)
  case (2 b t) then show ?case by (cases u) auto
next
  case (4 a s b t) then show ?case by (cases u) (auto split: if_splits)
qed auto

section \<open>Searching\<close>

text \<open>\<open>occurs same t s\<close>: the string \<open>s\<close> begins with \<open>t\<close>, up to \<open>same\<close>.\<close>

fun occurs :: "(u8 \<Rightarrow> u8 \<Rightarrow> bool) \<Rightarrow> u8 list \<Rightarrow> u8 list \<Rightarrow> bool" where
  "occurs same [] s = True"
| "occurs same (b # t) [] = False"
| "occurs same (b # t) (a # s) = (same a b \<and> occurs same t s)"

lemma occurs_prefix: "occurs (=) t s \<longleftrightarrow> prefix t s"
  by (induction "(=) :: u8 \<Rightarrow> u8 \<Rightarrow> bool" t s rule: occurs.induct) auto

lemma match_loop_cstr:
  "cstr m p s \<Longrightarrow> cstr m q t \<Longrightarrow> \<exists>e. match_loop same m p q = Some e \<and> (m e = 0 \<longleftrightarrow> occurs same t s)"
proof (induction same t s arbitrary: p q rule: occurs.induct)
  case (3 same b t a s)
  then show ?case by (subst match_loop.simps) auto
qed (subst match_loop.simps, auto)+

lemma search_loop_cstr:
  assumes "cstr m q t" "t \<noteq> []"
  shows "cstr m p s \<Longrightarrow> \<exists>r. search_loop same m p q = Some r \<and>
    (case r of
       None \<Rightarrow> \<forall>i. \<not> occurs same t (drop i s)
     | Some x \<Rightarrow> \<exists>i. x = p + int i \<and> occurs same t (drop i s) \<and> (\<forall>j < i. \<not> occurs same t (drop j s)))"
proof (induction s arbitrary: p)
  case Nil
  with assms show ?case by (subst search_loop.simps) (cases t, auto)
next
  case (Cons a s)
  obtain e where e: "match_loop same m p q = Some e" "m e = 0 \<longleftrightarrow> occurs same t (a # s)"
    using match_loop_cstr [OF Cons.prems assms(1)] by blast
  have "m p \<noteq> 0" using Cons.prems by auto
  then have eq: "search_loop same m p q = (if occurs same t (a # s) then Some (Some p) else search_loop same m (p + 1) q)"
    using e by (subst search_loop.simps) simp
  show ?case
  proof (cases "occurs same t (a # s)")
    case True
    then show ?thesis unfolding eq by (auto intro: exI [where x = 0])
  next
    case False
    obtain r where r: "search_loop same m (p + 1) q = Some r"
        "case r of None \<Rightarrow> \<forall>i. \<not> occurs same t (drop i s)
         | Some x \<Rightarrow> \<exists>i. x = p + 1 + int i \<and> occurs same t (drop i s) \<and> (\<forall>j < i. \<not> occurs same t (drop j s))"
      using Cons by fastforce
    have all: "(\<forall>j < Suc i. \<not> occurs same t (drop j (a # s))) \<longleftrightarrow> (\<forall>j < i. \<not> occurs same t (drop j s))" for i
      using False by (simp add: All_less_Suc2)
    have ever: "(\<forall>i. \<not> occurs same t (drop i (a # s))) \<longleftrightarrow> (\<forall>i. \<not> occurs same t (drop i s))"
      using False by (metis drop0 drop_Suc_Cons not0_implies_Suc)
    show ?thesis
    proof (cases r)
      case None
      then show ?thesis using r ever False unfolding eq by auto
    next
      case (Some x)
      then obtain i where i: "x = p + 1 + int i" "occurs same t (drop i s)" "\<forall>j < i. \<not> occurs same t (drop j s)" using r by auto
      then have "x = p + int (Suc i) \<and> occurs same t (drop (Suc i) (a # s)) \<and> (\<forall>j < Suc i. \<not> occurs same t (drop j (a # s)))"
        using all by simp
      then have "\<exists>i. x = p + int i \<and> occurs same t (drop i (a # s)) \<and> (\<forall>j < i. \<not> occurs same t (drop j (a # s)))"
        by (rule exI)
      then show ?thesis using r(1) Some False unfolding eq by simp
    qed
  qed
qed

section \<open>Character sets\<close>

lemma drop3_less: "unat (drop_bit 3 c) < 32" for c :: u8
  using unsigned_less [of c, where 'a = nat] by (simp add: unat_drop_bit)

lemma unat_and_7: "unat (c AND 7) = unat c mod 8" for c :: u8
  using unat_take_bit [of 3 c] by (simp add: take_bit_eq_mask mask_numeral)

lemma and_push_bit_1: "x AND push_bit k 1 \<noteq> 0 \<longleftrightarrow> bit x k" if "k < 8" for x :: u8
proof -
  have "x AND push_bit k 1 = (if bit x k then push_bit k 1 else 0)"
    using that by (intro bit_word_eqI) (auto simp: bit_simps)
  then show ?thesis using that by auto
qed

lemma in_map_bit: "in_map mp c \<longleftrightarrow> bit (mp ! (unat c div 8)) (unat c mod 8)"
  using and_push_bit_1 [of "unat c mod 8"] by (simp add: in_map_def unat_drop_bit unat_and_7)

lemma in_map_set:
  assumes "length mp = 32"
  shows "in_map (set_bit_map c mp) d \<longleftrightarrow> d = c \<or> in_map mp d"
proof -
  let ?i = "unat c div 8" and ?k = "unat c mod 8"
  have i: "?i < 32" using drop3_less [of c] by (simp add: unat_drop_bit)
  have eq: "d = c \<longleftrightarrow> unat d div 8 = ?i \<and> unat d mod 8 = ?k" by (metis div_mod_decomp unsigned_word_eqI)
  have "set_bit_map c mp = mp[?i := mp ! ?i OR push_bit ?k 1]"
    by (simp add: set_bit_map_def Let_def unat_drop_bit unat_and_7)
  then show ?thesis
    using i assms eq by (auto simp: in_map_bit nth_list_update bit_simps)
qed

lemma length_set_bit_map [simp]: "length (set_bit_map c mp) = length mp"
  by (simp add: set_bit_map_def Let_def)

lemma in_map_empty [simp]: "\<not> in_map (replicate 32 0) c"
  using drop3_less [of c] by (simp add: in_map_def)

lemma fill_map_cstr:
  "cstr m p t \<Longrightarrow> length mp = 32 \<Longrightarrow>
   \<exists>mp'. fill_map m p mp = Some mp' \<and> length mp' = 32 \<and> (\<forall>c. in_map mp' c \<longleftrightarrow> c \<in> set t \<or> in_map mp c)"
proof (induction t arbitrary: p mp)
  case Nil
  then show ?case by (subst fill_map.simps) simp
next
  case (Cons a t)
  have "\<exists>mp'. fill_map m (p + 1) (set_bit_map a mp) = Some mp' \<and> length mp' = 32 \<and>
      (\<forall>c. in_map mp' c \<longleftrightarrow> c \<in> set t \<or> in_map (set_bit_map a mp) c)"
    using Cons.prems by (intro Cons.IH) simp_all
  with Cons.prems show ?case by (subst fill_map.simps) (auto simp: in_map_set)
qed

lemma fill_map_nul_cstr:
  "cstr m p t \<Longrightarrow> length mp = 32 \<Longrightarrow>
   \<exists>mp'. fill_map_nul m p mp = Some mp' \<and> (\<forall>c. in_map mp' c \<longleftrightarrow> c = 0 \<or> c \<in> set t \<or> in_map mp c)"
proof (induction t arbitrary: p mp)
  case Nil
  then show ?case by (subst fill_map_nul.simps) (simp add: in_map_set)
next
  case (Cons a t)
  have "\<exists>mp'. fill_map_nul m (p + 1) (set_bit_map a mp) = Some mp' \<and>
      (\<forall>c. in_map mp' c \<longleftrightarrow> c = 0 \<or> c \<in> set t \<or> in_map (set_bit_map a mp) c)"
    using Cons.prems by (intro Cons.IH) simp_all
  with Cons.prems show ?case by (subst fill_map_nul.simps) (auto simp: in_map_set Let_def)
qed

lemma ctrl_map_cstr:
  assumes "cstr m p t"
  obtains mp where "ctrl_map p m = Some mp" "length mp = 32" "in_map mp = (\<lambda>c. c \<in> set t)"
  using fill_map_cstr [OF assms, of "replicate 32 0"] that by (auto simp: ctrl_map_def fun_eq_iff)

lemma span_loop_cstr:
  "cstr m p s \<Longrightarrow> \<not> P 0 \<Longrightarrow> span_loop P m n p = Some (n + of_nat (length (takeWhile P s)))"
proof (induction s arbitrary: p n)
  case Nil
  then show ?case by (subst span_loop.simps) simp
next
  case (Cons a s)
  then show ?case by (subst span_loop.simps) auto
qed

lemma in_map_nul:
  assumes "length mp = 32"
  shows "in_map (mp[0 := mp ! 0 OR 1]) c \<longleftrightarrow> c = 0 \<or> in_map mp c"
  using in_map_set [OF assms, of 0 c] by (simp add: set_bit_map_def)


section \<open>Tokens\<close>

text \<open>The tokens of a string: the longest parts without a delimiter.\<close>

function tokens :: "u8 set \<Rightarrow> u8 list \<Rightarrow> u8 list list" where
  "tokens D s =
     (case dropWhile (\<lambda>c. c \<in> D) s of
        [] \<Rightarrow> []
      | b \<Rightarrow> takeWhile (\<lambda>c. c \<notin> D) b # tokens D (tl (dropWhile (\<lambda>c. c \<notin> D) b)))"
  by pat_completeness auto
termination
proof (relation "measure (\<lambda>(D, s). length s)")
  fix D :: "u8 set" and s x r
  assume "dropWhile (\<lambda>c. c \<in> D) s = x # r"
  then have x: "Suc (length r) \<le> length s" by (metis length_Cons length_dropWhile_le)
  have "length (tl (dropWhile (\<lambda>c. c \<notin> D) (x # r))) \<le> length r"
    using length_dropWhile_le [of "\<lambda>c. c \<notin> D" "x # r"] by simp
  with x show "((D, tl (dropWhile (\<lambda>c. c \<notin> D) (x # r))), D, s) \<in> measure (\<lambda>(D, s). length s)" by simp
qed simp

declare tokens.simps [simp del]

text \<open>The calls of a program that takes a string apart: the first with the string, the others with \<open>NULL\<close>.\<close>

partial_function (option) strtok_all :: "int option \<Rightarrow> int \<Rightarrow> int \<Rightarrow> mem \<Rightarrow> (int list \<times> mem) option" where
  "strtok_all string control lasts m =
     do {
       (r, l, m') \<leftarrow> strtok_r string control lasts m;
       (case r of
          None \<Rightarrow> Some ([], m')
        | Some q \<Rightarrow> do { (qs, m'') \<leftarrow> strtok_all None control l m'; Some (q # qs, m'') })
     }"

lemma skip_delim_cstr:
  assumes "in_map mp = (\<lambda>c. c = 0 \<or> c \<in> D)"
  shows "cstr m p s \<Longrightarrow> skip_delim mp m p = Some (p + int (length (takeWhile (\<lambda>c. c \<in> D) s)))"
proof (induction s arbitrary: p)
  case Nil
  then show ?case by (subst skip_delim.simps) simp
next
  case (Cons a s)
  then show ?case by (subst skip_delim.simps) (auto simp: assms)
qed

lemma end_token_cstr:
  assumes "in_map mp = (\<lambda>c. c = 0 \<or> c \<in> D)"
  shows "cstr m p s \<Longrightarrow> end_token mp p m =
    (let w = takeWhile (\<lambda>c. c \<notin> D) s in
     Some (if w = s then (p + int (length s), m) else (p + int (length w) + 1, m(p + int (length w) := 0))))"
proof (induction s arbitrary: p)
  case Nil
  then show ?case by (subst end_token.simps) simp
next
  case (Cons a s)
  then show ?case by (subst end_token.simps) (auto simp: assms Let_def add.assoc)
qed

lemma strtok_r_step:
  assumes s: "cstr m p s" and t: "cstr m control t"
  defines "b \<equiv> dropWhile (\<lambda>c. c \<in> set t) s"
  defines "q \<equiv> p + int (length s - length b)"
  defines "w \<equiv> takeWhile (\<lambda>c. c \<notin> set t) b"
  shows "strtok_r (Some p) control l m =
    Some (if b = [] then (None, q, m)
          else if w = b then (Some q, q + int (length b), m)
          else (Some q, q + int (length w) + 1, m(q + int (length w) := 0)))"
    and "cstr m q b"
proof -
  obtain mp where mp: "fill_map_nul m control (replicate 32 0) = Some mp" "in_map mp = (\<lambda>c. c = 0 \<or> c \<in> set t)"
    using fill_map_nul_cstr [OF t, of "replicate 32 0"] by (auto simp: fun_eq_iff)
  let ?a = "takeWhile (\<lambda>c. c \<in> set t) s"
  have "length ?a + length b = length s" unfolding b_def by (metis length_append takeWhile_dropWhile_id)
  then have len: "length ?a = length s - length b" by simp
  then have q: "skip_delim mp m p = Some q" using skip_delim_cstr [OF mp(2) s] by (simp add: q_def)
  have "cstr m p (?a @ b)" using s by (simp add: b_def)
  then show c: "cstr m q b" by (simp only: cstr_append len q_def)
  have "end_token mp q m = (if w = b then Some (q + int (length b), m) else Some (q + int (length w) + 1, m(q + int (length w) := 0)))"
    using end_token_cstr [OF mp(2) c] by (simp add: w_def Let_def)
  moreover have "b = [] \<Longrightarrow> w = b" by (simp add: w_def)
  ultimately show "strtok_r (Some p) control l m =
    Some (if b = [] then (None, q, m)
          else if w = b then (Some q, q + int (length b), m)
          else (Some q, q + int (length w) + 1, m(q + int (length w) := 0)))"
    using mp(1) q by (auto simp: strtok_r_def)
qed

lemma strtok_all_None: "strtok_all None control l m = strtok_all (Some l) control x m"
  by (subst (1 2) strtok_all.simps) (simp add: strtok_r_def)

text \<open>A call that finds a token: it is cut off in place, and the rest of the string follows.\<close>

lemma strtok_r_token:
  assumes s: "cstr m p s" and t: "cstr m control t" and ne: "dropWhile (\<lambda>c. c \<in> set t) s \<noteq> []"
  obtains q w l1 r m1 where "strtok_r (Some p) control l m = Some (Some q, l1, m1)"
    "tokens (set t) s = w # tokens (set t) r" "cstr m1 q w" "cstr m1 l1 r" "p \<le> q"
    "q + int (length w) < l1 \<or> q + int (length w) = l1 \<and> r = []" "l1 + int (length r) = p + int (length s)"
    "\<forall>a. a < p \<or> p + int (length s) \<le> a \<longrightarrow> m1 a = m a" "length r < length s"
proof -
  define b where "b = dropWhile (\<lambda>c. c \<in> set t) s"
  define q where "q = p + int (length s - length b)"
  define w where "w = takeWhile (\<lambda>c. c \<notin> set t) b"
  define v where "v = dropWhile (\<lambda>c. c \<notin> set t) b"
  note step = strtok_r_step [OF s t, folded b_def, folded q_def w_def]
  have b: "b \<noteq> []" "b = w @ v" "length b \<le> length s" "p \<le> q"
    using ne by (simp_all add: b_def w_def v_def q_def length_dropWhile_le)
  have tok: "tokens (set t) s = w # tokens (set t) (tl v)"
    using b(1) by (subst tokens.simps) (auto simp: b_def w_def v_def split: list.split)
  have w: "0 \<notin> set w" "load q (length w) m = w" "cstr m (q + int (length w)) v"
    using step(2) b(2) by (simp_all add: cstr_append)
  have wm: "cstr (m(q + int (length w) := 0)) q w"
    using w(1,2) cstr_append [of "m(q + int (length w) := 0)" q w "[]"] by (simp add: load_upd_out)
  have ps: "q + int (length w) + int (length v) = p + int (length s)"
    using b(2,3) by (simp add: q_def)
  show thesis
  proof (cases v)
    case Nil
    then have wb: "w = b" using b(2) by simp
    show thesis
      by (rule that [of q "q + int (length b)" m w "tl v"]) (use step b(1,3,4) wb Nil ps tok cstr_end [OF step(2)] in auto)
  next
    case (Cons c r)
    then have "w \<noteq> b" using b(2) by auto
    then show thesis
      using step(1) b(1,3,4) w(3) wm ps tok Cons
      by (intro that [of q "q + int (length w) + 1" "m(q + int (length w) := 0)" w r]) (simp_all add: cstr_upd_out)
  qed
qed

lemma strtok_all_tokens:
  assumes "cstr m p s" "cstr m control t" "control + int (length t) < p \<or> p + int (length s) < control"
  shows "\<exists>qs m'. strtok_all (Some p) control l m = Some (qs, m') \<and> list_all2 (cstr m') qs (tokens (set t) s) \<and>
    (\<forall>a. a < p \<or> p + int (length s) \<le> a \<longrightarrow> m' a = m a)"
  using assms
proof (induction "length s" arbitrary: s p l m rule: less_induct)
  case less
  show ?case
  proof (cases "dropWhile (\<lambda>c. c \<in> set t) s = []")
    case True
    then have "tokens (set t) s = []" by (subst tokens.simps) (simp del: dropWhile_eq_Nil_conv)
    then show ?thesis using True strtok_r_step(1) [OF less.prems(1,2)] by (subst strtok_all.simps) simp
  next
    case False
    obtain q w l1 r m1 where call: "strtok_r (Some p) control l m = Some (Some q, l1, m1)"
        and tok: "tokens (set t) s = w # tokens (set t) r" and w: "cstr m1 q w" and r: "cstr m1 l1 r"
        and pos: "p \<le> q" "q + int (length w) < l1 \<or> q + int (length w) = l1 \<and> r = []" "l1 + int (length r) = p + int (length s)"
        and out: "\<forall>a. a < p \<or> p + int (length s) \<le> a \<longrightarrow> m1 a = m a" and len: "length r < length s"
      by (rule strtok_r_token [OF less.prems(1,2) False])
    have c1: "cstr m1 control t"
      using less.prems(2,3) out cstr_cong [of control t m1 m] by auto
    have c2: "control + int (length t) < l1 \<or> l1 + int (length r) < control" using less.prems(3) pos by auto
    obtain qs m2 where ih: "strtok_all (Some l1) control 0 m1 = Some (qs, m2)"
        "list_all2 (cstr m2) qs (tokens (set t) r)" "\<forall>a. a < l1 \<or> l1 + int (length r) \<le> a \<longrightarrow> m2 a = m1 a"
      using less.hyps [OF len r c1 c2, of 0] by auto
    have "cstr m2 q w \<longleftrightarrow> cstr m1 q w"
    proof (rule cstr_cong)
      fix a assume a: "q \<le> a" "a \<le> q + int (length w)"
      then have "a < l1 \<or> l1 + int (length r) \<le> a" using pos(2) by auto
      then show "m2 a = m1 a" using ih(3) by blast
    qed
    then have "cstr m2 q w" using w by blast
    moreover have "\<forall>a. a < p \<or> p + int (length s) \<le> a \<longrightarrow> m2 a = m a"
      using ih(3) out pos by auto
    moreover have "strtok_all (Some p) control l m = Some (q # qs, m2)"
      using call ih(1) by (subst strtok_all.simps) (simp add: strtok_all_None [of _ _ _ 0])
    ultimately show ?thesis using ih(2) tok by auto
  qed
qed


section \<open>Properties of the string routines\<close>

text \<open>
  C20. \<^verbatim>\<open>memmove\<close> leaves the block at \<open>dst\<close> with the bytes the block at \<open>src\<close> had before the call and
  changes nothing else, however the two blocks overlap.
\<close>

theorem memmove_correct:
  "memmove dst src n m = (dst, store dst (load src (unat n) m) m)"
proof (cases "dst \<le> src \<or> src + uint n \<le> dst")
  case True
  then show ?thesis by (simp add: memmove_def move_up_store)
next
  case False
  then show ?thesis using move_down_store [of src dst n m] by (simp add: memmove_def)
qed

text \<open>
  Copying strings: when the source does not begin inside the part of the destination that is
  yet to be written, \<^verbatim>\<open>strcpy\<close> copies the string with its NUL, \<^verbatim>\<open>strncpy\<close> writes exactly \<open>n\<close>
  bytes, the string cut off or padded with NULs, and \<^verbatim>\<open>strcat\<close> makes the destination the
  concatenation; no other byte changes.
\<close>

theorem string_copy_correct:
  assumes "cstr m src s" "dst \<le> src \<or> src + int (length s) < dst"
    and "cstr m d t" "d + int (length t) \<le> src \<or> src + int (length s) < d + int (length t)"
  shows "strcpy dst src m = Some (dst, store dst (s @ [0]) m) \<and>
    strncpy dst src n m = (dst, store dst (take (unat n) s @ replicate (unat n - length s) 0) m) \<and>
    (\<exists>m'. strcat d src m = Some (d, m') \<and> m' = store (d + int (length t)) (s @ [0]) m \<and> cstr m' d (t @ s))"
proof (intro conjI)
  show "strcpy dst src m = Some (dst, store dst (s @ [0]) m)"
    using copy_str_cstr [OF assms(1,2)] by (simp add: strcpy_def)
  show "strncpy dst src n m = (dst, store dst (take (unat n) s @ replicate (unat n - length s) 0) m)"
    by (rule strncpy_store [OF assms(1,2)])
  let ?m = "store (d + int (length t)) (s @ [0]) m"
  have "load d (length t) ?m = load d (length t) m" by (intro load_store_out) simp
  moreover have "load d (length t) m = t" using assms(3) cstr_append [of m d t "[]"] by simp
  ultimately have "cstr ?m d (t @ s)"
    using cstr_nz [OF assms(1)] cstr_nz [OF assms(3)] by (simp add: cstr_append cstr_store)
  then show "\<exists>m'. strcat d src m = Some (d, m') \<and> m' = ?m \<and> cstr m' d (t @ s)"
    using strcat_end_cstr [OF assms(3)] copy_str_cstr [OF assms(1,4)] by (simp add: strcat_def)
qed

text \<open>
  \<^verbatim>\<open>strrev\<close> reverses a string in place, and doing it twice gives back the memory as it was.
\<close>

theorem strrev_roundtrip:
  assumes "cstr m p s"
  shows "\<exists>m'. strrev p m = Some (p, m') \<and> cstr m' p (rev s) \<and> strrev p m' = Some (p, m)"
proof -
  have rev1: "strrev p m = Some (p, store p (rev s) m)" if "cstr m p s" for m s
  proof -
    have "load p (length s) m = s" using that cstr_append [of m p s "[]"] by simp
    then show ?thesis
      using rev_loop_store [of p "p + int (length s) - 1" m] past_end_cstr [OF that]
      by (simp add: strrev_def nat_add_distrib)
  qed
  let ?m = "store p (rev s) m"
  have "load p (length s) ?m = rev s" using load_store [of p "rev s" m] by simp
  then have c: "cstr ?m p (rev s)"
    using cstr_append [of ?m p "rev s" "[]"] cstr_nz [OF assms] cstr_end [OF assms] by simp
  have "store p s ?m = store p s m" by (simp add: store_def fun_eq_iff)
  moreover have "store p s m = m" using store_load [of p "length s" m] assms cstr_append [of m p s "[]"] by simp
  ultimately show ?thesis using rev1 [OF assms] rev1 [OF c] c by simp
qed

text \<open>
  \<^verbatim>\<open>strcmp\<close> returns -1, 0 or 1 as the first string comes before, is equal to or comes after the
  second one, where the first byte in which they differ decides, read as unsigned. This is a
  linear order: 0 means equal strings, exchanging the strings negates the result, and it is
  transitive.
\<close>

theorem strcmp_correct:
  assumes "cstr m p s" "cstr m q t" "cstr m r u"
  shows "strcmp p q m = Some (str_order s t) \<and> (strcmp p q m = Some 0 \<longleftrightarrow> s = t) \<and>
    strcmp q p m = Some (- str_order s t) \<and>
    (strcmp p q m = Some (-1) \<longrightarrow> strcmp q r m = Some (-1) \<longrightarrow> strcmp p r m = Some (-1))"
  using assms by (auto simp: strcmp_cstr str_order_0 str_order_trans str_order_sym [of t s])

text \<open>
  \<^verbatim>\<open>strstr\<close> returns the first position of the first string at which the second one occurs, and
  \<open>NULL\<close> if and only if it occurs nowhere.
\<close>

theorem strstr_first:
  assumes "cstr m p s" "cstr m q t"
  shows "\<exists>r. strstr p q m = Some r \<and>
    (case r of
       None \<Rightarrow> \<not> sublist t s
     | Some x \<Rightarrow> \<exists>i. x = p + int i \<and> prefix t (drop i s) \<and> (\<forall>j < i. \<not> prefix t (drop j s)))"
proof (cases "t = []")
  case True
  then show ?thesis using assms(2) by (auto simp: strstr_def intro: exI [where x = 0])
next
  case False
  have e: "(\<lambda>a b :: u8. sint a - sint b = 0) = (=)" by (auto simp: fun_eq_iff dest: signed_word_eqI)
  have "m q \<noteq> 0" using False assms(2) by (cases t) auto
  moreover have "sublist t s \<longleftrightarrow> (\<exists>i. prefix t (drop i s))"
    unfolding sublist_altdef' by (metis suffix_drop suffix_def append_eq_conv_conj)
  ultimately show ?thesis
    using search_loop_cstr [OF assms(2) False assms(1), of "(=)"] unfolding strstr_def e occurs_prefix
    by (auto split: option.splits)
qed

text \<open>
  The bit maps behind \<^verbatim>\<open>strspn\<close>, \<^verbatim>\<open>strcspn\<close> and \<^verbatim>\<open>strpbrk\<close> are equivalent to membership in the
  control string: the three return the length of the longest prefix of characters in it, of
  characters not in it, and the first character in it.
\<close>

theorem string_span_correct:
  assumes "cstr m p s" "cstr m q t"
  shows "strspn p q m = Some (of_nat (length (takeWhile (\<lambda>c. c \<in> set t) s))) \<and>
    strcspn p q m = Some (of_nat (length (takeWhile (\<lambda>c. c \<notin> set t) s))) \<and>
    strpbrk p q m =
      Some (if set s \<inter> set t = {} then None else Some (p + int (length (takeWhile (\<lambda>c. c \<notin> set t) s))))"
proof -
  obtain mp where mp: "ctrl_map q m = Some mp" "length mp = 32" "in_map mp = (\<lambda>c. c \<in> set t)"
    using ctrl_map_cstr [OF assms(2)] .
  have nz: "0 \<notin> set t" "0 \<notin> set s" using cstr_nz assms by auto
  have "strspn p q m = Some (of_nat (length (takeWhile (\<lambda>c. c \<in> set t) s)))"
    using mp nz assms(1) span_loop_cstr [OF assms(1), of "\<lambda>c. c \<in> set t" 0] by (cases s) (auto simp: strspn_def)
  moreover have "takeWhile (\<lambda>c. \<not> in_map (mp[0 := mp ! 0 OR 1]) c) s = takeWhile (\<lambda>c. c \<notin> set t) s"
    using nz(2) by (intro takeWhile_cong) (auto simp: in_map_nul [OF mp(2)] mp(3))
  then have "strcspn p q m = Some (of_nat (length (takeWhile (\<lambda>c. c \<notin> set t) s)))"
    using mp span_loop_cstr [OF assms(1), of "\<lambda>c. \<not> in_map (mp[0 := mp ! 0 OR 1]) c" 0]
    by (simp add: strcspn_def in_map_nul)
  moreover have "strpbrk_loop mp m p = Some (if set s \<inter> set t = {} then None else Some (p + int (length (takeWhile (\<lambda>c. c \<notin> set t) s))))"
    using assms(1)
  proof (induction s arbitrary: p)
    case Nil
    then show ?case by (subst strpbrk_loop.simps) simp
  next
    case (Cons a s)
    then show ?case by (subst strpbrk_loop.simps) (auto simp: mp(3) add.assoc)
  qed
  ultimately show ?thesis using mp by (simp add: strpbrk_def)
qed

text \<open>
  C21. Repeated calls of \<^verbatim>\<open>strtok_r\<close>, the first with the string and the others with \<open>NULL\<close>, end and
  return exactly the tokens of the string, in order, each one as a NUL-terminated string of
  its own within the memory of the original string.
\<close>

theorem strtok_r_tokens:
  assumes "cstr m p s" "cstr m control t" "control + int (length t) < p \<or> p + int (length s) < control"
  shows "\<exists>qs m'. strtok_all (Some p) control l m = Some (qs, m') \<and> list_all2 (cstr m') qs (tokens (set t) s) \<and>
    (\<forall>a. a < p \<or> p + int (length s) \<le> a \<longrightarrow> m' a = m a)"
  by (rule strtok_all_tokens [OF assms])

section \<open>A concrete memory\<close>

text \<open>The string \<^verbatim>\<open>a,bc\<close> at 100 and \<^verbatim>\<open>,;\<close> at 200.\<close>

definition demo_mem :: mem where
  "demo_mem = store 200 [44, 59, 0] (store 100 [97, 44, 98, 99, 0] (\<lambda>_. 7))"

lemma demo_mem_cstr: "cstr demo_mem 100 [97, 44, 98, 99]" "cstr demo_mem 200 [44, 59]"
  by (simp_all add: demo_mem_def store_def nth_Cons')

lemma string_copy_correct_witness:
  "strcpy 300 100 demo_mem = Some (300, store 300 [97, 44, 98, 99, 0] demo_mem) \<and>
   strncpy 300 100 5 demo_mem = (300, store 300 [97, 44, 98, 99, 0] demo_mem) \<and>
   (\<exists>m'. strcat 200 100 demo_mem = Some (200, m') \<and> cstr m' 200 [44, 59, 97, 44, 98, 99])"
  using string_copy_correct [OF demo_mem_cstr(1) _ demo_mem_cstr(2), of 300 5] by auto

lemma strrev_roundtrip_witness:
  "\<exists>m'. strrev 100 demo_mem = Some (100, m') \<and> cstr m' 100 [99, 98, 44, 97] \<and> strrev 100 m' = Some (100, demo_mem)"
  using strrev_roundtrip [OF demo_mem_cstr(1)] by simp

lemma strcmp_correct_witness:
  "strcmp 100 200 demo_mem = Some 1 \<and> strcmp 200 100 demo_mem = Some (-1)"
  using strcmp_correct [OF demo_mem_cstr demo_mem_cstr(1)] by simp

lemma strstr_first_witness:
  "\<exists>r. strstr 100 200 demo_mem = Some r \<and>
    (case r of
       None \<Rightarrow> \<not> sublist [44, 59] [97, 44, 98, 99 :: u8]
     | Some x \<Rightarrow> \<exists>i. x = 100 + int i \<and> prefix [44, 59] (drop i [97, 44, 98, 99 :: u8]) \<and> (\<forall>j < i. \<not> prefix [44, 59] (drop j [97, 44, 98, 99 :: u8])))"
  by (rule strstr_first [OF demo_mem_cstr])

lemma string_span_correct_witness:
  "strspn 100 200 demo_mem = Some 0 \<and> strcspn 100 200 demo_mem = Some 1 \<and> strpbrk 100 200 demo_mem = Some (Some 101)"
  using string_span_correct [OF demo_mem_cstr] by simp

lemma strtok_r_tokens_witness:
  "\<exists>qs m'. strtok_all (Some 100) 200 0 demo_mem = Some (qs, m') \<and>
    list_all2 (cstr m') qs (tokens (set [44, 59]) [97, 44, 98, 99])"
  using strtok_r_tokens [OF demo_mem_cstr, of 0] by auto

end
