(* ===== verification/Iovec.thy ===== *)
theory Iovec imports Cstring_Laws begin

text \<open>
  Scatter/gather lists (\<^verbatim>\<open>src/src/sys/krnl/iovec.c\<close>): a buffer that is given as a list of pieces of memory. An
  array of \<^verbatim>\<open>struct iovec\<close> with its length is the list of its entries, which the transfer functions
  advance in place; the array lies outside the memory that is transferred. \<open>mem_access\<close> (\<^verbatim>\<open>pdir.c\<close>) is a
  parameter. The theorems say which bytes the two transfer functions move where.
\<close>

section \<open>Operations\<close>

record iovec =
  iov_len :: u32
  iov_base :: int

definition EFAULT :: int where "EFAULT = 14"

fun check_loop :: "(int \<Rightarrow> u32 \<Rightarrow> bool \<Rightarrow> bool) \<Rightarrow> bool \<Rightarrow> iovec list \<Rightarrow> int" where
  "check_loop mem_access modify [] = 0"
| "check_loop mem_access modify (v # vs) =
     (if iov_len v < 0 then - EINVAL
      else if iov_base v \<noteq> 0 then
        if \<not> mem_access (iov_base v) (iov_len v) modify then - EFAULT else check_loop mem_access modify vs
      else if iov_len v \<noteq> 0 then - EFAULT
      else check_loop mem_access modify vs)"

text \<open>\<open>mem_access a n w\<close>: the user may read (write, if \<open>w\<close>) \<open>n\<close> bytes at \<open>a\<close>.\<close>

definition check_iovec :: "(int \<Rightarrow> u32 \<Rightarrow> bool \<Rightarrow> bool) \<Rightarrow> int \<Rightarrow> iovec list \<Rightarrow> int \<Rightarrow> bool \<Rightarrow> int" where
  "check_iovec mem_access iov vs iovlen modify =
     (if iov \<noteq> 0 then
        if iovlen < 0 then - EINVAL
        else if \<not> mem_access iov (of_int iovlen * 8) False then - EFAULT
        else check_loop mem_access modify (take (nat iovlen) vs)
      else if iovlen \<noteq> 0 then - EFAULT else 0)"

fun size_loop :: "iovec list \<Rightarrow> u32 \<Rightarrow> u32" where
  "size_loop [] n = n"
| "size_loop (v # vs) n = size_loop vs (n + iov_len v)"

definition get_iovec_size :: "iovec list \<Rightarrow> u32" where
  "get_iovec_size vs = size_loop vs 0"

text \<open>\<open>kmalloc\<close> is a parameter; the copy is the address of the new array with the same entries.\<close>

definition dup_iovec :: "(u32 \<Rightarrow> int option) \<Rightarrow> iovec list \<Rightarrow> (int \<times> iovec list) option" where
  "dup_iovec kmalloc vs = (case kmalloc (of_nat (length vs) * 8) of None \<Rightarrow> None | Some newiov \<Rightarrow> Some (newiov, vs))"

definition advance_iov :: "u32 \<Rightarrow> iovec \<Rightarrow> iovec" where
  "advance_iov len v = v\<lparr>iov_base := iov_base v + uint len, iov_len := iov_len v - len\<rparr>"

fun read_loop :: "iovec list \<Rightarrow> int \<Rightarrow> u32 \<Rightarrow> u32 \<Rightarrow> mem \<Rightarrow> (u32 \<times> iovec list \<times> mem) option" where
  "read_loop [] buf count rd m = Some (rd, [], m)"
| "read_loop (v # vs) buf count rd m =
     (if count > 0 then
        if iov_len v > 0 then
          let len = (if count < iov_len v then count else iov_len v) in
          do {
            (_, m) \<leftarrow> memcpy buf (iov_base v) len m;
            (rd, vs, m) \<leftarrow> read_loop vs (buf + uint len) (count - len) (rd + len) m;
            Some (rd, advance_iov len v # vs, m)
          }
        else do { (rd, vs, m) \<leftarrow> read_loop vs buf count rd m; Some (rd, v # vs, m) }
      else Some (rd, v # vs, m))"

definition read_iovec :: "iovec list \<Rightarrow> int \<Rightarrow> u32 \<Rightarrow> mem \<Rightarrow> (int \<times> iovec list \<times> mem) option" where
  "read_iovec vs buf count m = do { (rd, vs, m) \<leftarrow> read_loop vs buf count 0 m; Some (sint rd, vs, m) }"

fun write_loop :: "iovec list \<Rightarrow> int \<Rightarrow> u32 \<Rightarrow> u32 \<Rightarrow> mem \<Rightarrow> (u32 \<times> iovec list \<times> mem) option" where
  "write_loop [] buf count written m = Some (written, [], m)"
| "write_loop (v # vs) buf count written m =
     (if count > 0 then
        if iov_len v > 0 then
          let len = (if count < iov_len v then count else iov_len v) in
          do {
            (_, m) \<leftarrow> memcpy (iov_base v) buf len m;
            (written, vs, m) \<leftarrow> write_loop vs (buf + uint len) (count - len) (written + len) m;
            Some (written, advance_iov len v # vs, m)
          }
        else do { (written, vs, m) \<leftarrow> write_loop vs buf count written m; Some (written, v # vs, m) }
      else Some (written, v # vs, m))"

definition write_iovec :: "iovec list \<Rightarrow> int \<Rightarrow> u32 \<Rightarrow> mem \<Rightarrow> (int \<times> iovec list \<times> mem) option" where
  "write_iovec vs buf count m = do { (written, vs, m) \<leftarrow> write_loop vs buf count 0 m; Some (sint written, vs, m) }"

section \<open>Gathering and scattering\<close>

definition bytes_of :: "mem \<Rightarrow> iovec \<Rightarrow> u8 list" where
  "bytes_of m v = load (iov_base v) (unat (iov_len v)) m"

definition gather :: "mem \<Rightarrow> iovec list \<Rightarrow> u8 list" where
  "gather m vs = concat (map (bytes_of m) vs)"

definition region :: "iovec \<Rightarrow> int set" where
  "region v = {iov_base v..<iov_base v + uint (iov_len v)}"

fun apart :: "iovec list \<Rightarrow> bool" where
  "apart [] = True"
| "apart (v # vs) \<longleftrightarrow> (\<forall>w \<in> set vs. region v \<inter> region w = {}) \<and> apart vs"

lemma gather_simps [simp]: "gather m [] = []" "gather m (v # vs) = bytes_of m v @ gather m vs"
  by (simp_all add: gather_def)

lemma length_bytes [simp]: "length (bytes_of m v) = unat (iov_len v)"
  by (simp add: bytes_of_def)

lemma bytes_cong: "(\<And>a. a \<in> region v \<Longrightarrow> m a = m' a) \<Longrightarrow> bytes_of m v = bytes_of m' v"
  unfolding bytes_of_def by (rule load_cong) (simp add: region_def)

lemma gather_cong: "(\<And>v a. v \<in> set vs \<Longrightarrow> a \<in> region v \<Longrightarrow> m a = m' a) \<Longrightarrow> gather m vs = gather m' vs"
  by (induction vs) (auto intro: bytes_cong)

lemma memcpy_store:
  assumes "d + uint n \<le> s \<or> s + uint n \<le> d"
  shows "memcpy d s n m = Some (d, store d (load s (unat n) m) m)"
proof -
  have n: "int (unat n) = uint n" "0 \<le> uint n" by simp_all
  then have "d \<le> s \<or> s + int (unat n) \<le> d" using assms by linarith
  then have c: "copy_bytes s (s + uint n) d m = Some (store d (load s (unat n) m) m)" using copy_bytes_store [of d s "unat n" m] n(1) by simp
  have "copy_words s (s + uint n) d m = Some m" if "uint n = 0" using that by (subst copy_words.simps) simp
  moreover have "uint n = 0 \<Longrightarrow> store d (load s (unat n) m) m = m" by (simp add: unat_eq_nat_uint)
  moreover have "s OR d OR uint n = 0 \<Longrightarrow> uint n = 0" by (simp add: or_eq_0_iff)
  ultimately show ?thesis using c by (cases "s OR d OR uint n = 0") (simp_all add: memcpy_def)
qed

lemma bytes_advance:
  assumes "len \<le> iov_len v"
  shows "bytes_of m v = load (iov_base v) (unat len) m @ bytes_of m (advance_iov len v)"
proof -
  have "unat (iov_len v) = unat len + unat (iov_len v - len)" using assms by (simp add: unat_sub word_le_nat_alt)
  then show ?thesis by (simp add: bytes_of_def advance_iov_def load_add)
qed

definition clear_of :: "int \<Rightarrow> nat \<Rightarrow> iovec list \<Rightarrow> bool" where
  "clear_of buf n vs \<longleftrightarrow> (\<forall>v \<in> set vs. iov_base v + uint (iov_len v) \<le> buf \<or> buf + int n \<le> iov_base v)"

lemma clear_store:
  assumes "clear_of buf n vs" "length xs \<le> n"
  shows "gather (store buf xs m) vs = gather m vs"
proof (rule gather_cong)
  fix v a assume v: "v \<in> set vs" "a \<in> region v"
  then have "iov_base v + uint (iov_len v) \<le> buf \<or> buf + int n \<le> iov_base v" using assms(1) by (simp add: clear_of_def)
  then have "a < buf \<or> buf + int (length xs) \<le> a" using v(2) assms(2) by (auto simp: region_def)
  then show "store buf xs m a = m a" by (rule store_out)
qed

lemma clear_shift: "clear_of buf n vs \<Longrightarrow> k \<le> n \<Longrightarrow> clear_of (buf + int k) (n - k) vs"
  by (auto simp: clear_of_def)

lemma unat_min: "unat (if a < b then a else b) = min (unat a) (unat b)" for a b :: u32
  by (simp add: word_less_nat_alt min_def)

text \<open>One entry of the list: how many of its bytes are moved, and what is left of it.\<close>

lemma entry_split:
  assumes "len = (if count < iov_len v then count else iov_len v)"
  shows "bytes_of m v = load (iov_base v) (unat len) m @ bytes_of m (advance_iov len v)" "unat len \<le> unat count" "unat len \<le> unat (iov_len v)"
    "bytes_of m (advance_iov len v) = [] \<or> unat count = unat len" "unat (count - len) = unat count - unat len"
    "region (advance_iov len v) \<subseteq> region v" "uint len \<le> uint (iov_len v)" "uint len \<le> uint count"
proof -
  have le: "len \<le> iov_len v" "len \<le> count" using assms by auto
  show "bytes_of m v = load (iov_base v) (unat len) m @ bytes_of m (advance_iov len v)" using bytes_advance [OF le(1)] .
  show "unat len \<le> unat count" "unat len \<le> unat (iov_len v)" using le by (simp_all add: word_le_nat_alt)
  show "uint len \<le> uint (iov_len v)" "uint len \<le> uint count" using le by (simp_all add: word_le_def)
  show "bytes_of m (advance_iov len v) = [] \<or> unat count = unat len" using assms by (auto simp: bytes_of_def advance_iov_def)
  show "unat (count - len) = unat count - unat len" using le by (simp add: unat_sub)
  have "uint (iov_len v - len) = uint (iov_len v) - uint len" using le(1) by (simp add: uint_minus_simple_alt word_le_def)
  then show "region (advance_iov len v) \<subseteq> region v" by (auto simp: region_def advance_iov_def)
qed

lemma take_drop_split:
  assumes "xs = pre @ rest" "length pre \<le> c" "rest = [] \<or> c = length pre"
  shows "take c (xs @ G) = pre @ take (c - length pre) G" "drop c (xs @ G) = rest @ drop (c - length pre) G"
  using assms by auto

lemma read_loop_gathers:
  assumes "clear_of buf (unat count) vs"
  shows "\<exists>vs'. read_loop vs buf count rd m =
      Some (rd + of_nat (length (take (unat count) (gather m vs))), vs', store buf (take (unat count) (gather m vs)) m) \<and>
    gather (store buf (take (unat count) (gather m vs)) m) vs' = drop (unat count) (gather m vs)"
  using assms
proof (induction vs arbitrary: buf count rd m)
  case (Cons v vs)
  define len where "len = (if count < iov_len v then count else iov_len v)"
  note E = entry_split [OF len_def]
  let ?c = "unat count" and ?G = "gather m vs" and ?rest = "bytes_of m (advance_iov len v)"
  have cv: "clear_of buf ?c vs" "iov_base v + uint (iov_len v) \<le> buf \<or> buf + uint count \<le> iov_base v"
    using Cons.prems by (auto simp: clear_of_def)
  define pre where "pre = load (iov_base v) (unat len) m"
  have td: "take ?c (gather m (v # vs)) = pre @ take (?c - unat len) ?G" "drop ?c (gather m (v # vs)) = ?rest @ drop (?c - unat len) ?G"
    using take_drop_split [of "bytes_of m v" pre ?rest ?c ?G] E(1,2,4) by (simp_all add: pre_def)
  define m1 where "m1 = store buf pre m"
  have G1: "gather m1 vs = ?G" using clear_store [OF cv(1)] E(2) by (simp add: m1_def pre_def)
  have cl: "clear_of (buf + uint len) (unat (count - len)) vs" using clear_shift [OF cv(1) E(2)] E(5) by simp
  obtain vs' where vs': "read_loop vs (buf + uint len) (count - len) (rd + len) m1 =
      Some (rd + len + of_nat (length (take (?c - unat len) ?G)), vs', store (buf + uint len) (take (?c - unat len) ?G) m1)"
      "gather (store (buf + uint len) (take (?c - unat len) ?G) m1) vs' = drop (?c - unat len) ?G"
    using Cons.IH [OF cl, of "rd + len" m1] unfolding G1 E(5) by blast
  have m2: "store (buf + uint len) (take (?c - unat len) ?G) m1 = store buf (pre @ take (?c - unat len) ?G) m"
    by (simp add: m1_def store_append pre_def)
  have mc: "memcpy buf (iov_base v) len m = Some (buf, m1)"
    using memcpy_store [of buf len "iov_base v" m] cv(2) E(7,8) by (auto simp: m1_def pre_def)
  have len0: "iov_len v = 0 \<Longrightarrow> len = 0" "count = 0 \<Longrightarrow> len = 0" by (auto simp: len_def word_gt_0)
  show ?case
  proof (cases "count > 0 \<and> iov_len v > 0")
    case True
    have "bytes_of (store buf (pre @ take (?c - unat len) ?G) m) (advance_iov len v) = ?rest"
    proof (rule bytes_cong)
      fix a assume "a \<in> region (advance_iov len v)"
      then have a: "iov_base v \<le> a" "a < iov_base v + uint (iov_len v)" using E(6) by (auto simp: region_def)
      have "length (pre @ take (?c - unat len) ?G) \<le> ?c" using E(2) by (simp add: pre_def)
      moreover have "int ?c = uint count" by simp
      ultimately have "int (length (pre @ take (?c - unat len) ?G)) \<le> uint count" by linarith
      then show "store buf (pre @ take (?c - unat len) ?G) m a = m a" using cv(2) a by (intro store_out) linarith
    qed
    then have "gather (store buf (take ?c (gather m (v # vs))) m) (advance_iov len v # vs') = drop ?c (gather m (v # vs))"
      using vs'(2) unfolding td m2 by simp
    moreover have "rd + len + of_nat (length (take (?c - unat len) ?G)) = rd + of_nat (length (take ?c (gather m (v # vs))))"
      unfolding td by (simp add: pre_def)
    ultimately show ?thesis
      using True mc vs'(1) unfolding m2 td(1) [symmetric] by (intro exI [of _ "advance_iov len v # vs'"]) (simp add: Let_def len_def [symmetric])
  next
    case False
    then consider (finished) "count = 0" | (empty) "count > 0" "iov_len v = 0" by (auto simp: word_gt_0)
    then show ?thesis
    proof cases
      case finished
      then show ?thesis by simp
    next
      case empty
      then have z: "len = 0" "pre = []" "?rest = []" "m1 = m" using len0 by (simp_all add: pre_def m1_def bytes_of_def advance_iov_def)
      have "bytes_of m' v = []" for m' using empty by (simp add: bytes_of_def)
      then show ?thesis using empty vs' z by (intro exI [of _ "v # vs'"]) simp
    qed
  qed
qed simp


lemma scatter_split:
  assumes "length pre \<le> c" "rest = [] \<or> c = length pre" "length xs = length pre" "length ys = c - length pre"
  shows "xs @ rest @ take (length G) ys @ drop (c - length pre) G = take (length (pre @ rest @ G)) (xs @ ys) @ drop c (pre @ rest @ G)"
  using assms by auto

definition footprint :: "iovec list \<Rightarrow> int set" where
  "footprint vs = \<Union> (region ` set vs)"

lemma footprint_simps [simp]: "footprint [] = {}" "footprint (v # vs) = region v \<union> footprint vs"
  by (simp_all add: footprint_def)

lemma apart_footprint: "apart (v # vs) \<longleftrightarrow> region v \<inter> footprint vs = {} \<and> apart vs"
  by (auto simp: footprint_def)

lemma gather_footprint: "(\<And>a. a \<in> footprint vs \<Longrightarrow> m a = m' a) \<Longrightarrow> gather m vs = gather m' vs"
  by (rule gather_cong) (auto simp: footprint_def)

lemma length_gather: "length (gather m vs) = length (gather m' vs)"
  by (induction vs) simp_all

lemma scatter_entry:
  assumes len: "len = (if count < iov_len v then count else iov_len v)"
    and xs: "xs = load buf (unat len) m" and m1: "m1 = store (iov_base v) xs m"
    and out: "iov_base v + uint (iov_len v) \<le> buf \<or> buf + uint count \<le> iov_base v" and ap: "region v \<inter> footprint vs = {}"
  shows "a \<notin> region v \<Longrightarrow> m1 a = m a" "gather m1 vs = gather m vs" "memcpy (iov_base v) buf len m = Some (iov_base v, m1)"
    "load (buf + uint len) (unat count - unat len) m1 = load (buf + uint len) (unat count - unat len) m"
    "(\<And>a. a \<notin> footprint vs \<Longrightarrow> m' a = m1 a) \<Longrightarrow> bytes_of m' v = xs @ bytes_of m (advance_iov len v)"
proof -
  note E = entry_split [OF len]
  have fr: "m1 a = m a" if "a \<notin> region v" for a
    using that E(7) by (auto simp: m1 xs region_def intro!: store_out)
  show "a \<notin> region v \<Longrightarrow> m1 a = m a" by (rule fr)
  show "gather m1 vs = gather m vs" using fr ap by (intro gather_footprint) auto
  show "memcpy (iov_base v) buf len m = Some (iov_base v, m1)"
    using memcpy_store [of "iov_base v" len buf m] out E(7,8) by (auto simp: m1 xs)
  show "load (buf + uint len) (unat count - unat len) m1 = load (buf + uint len) (unat count - unat len) m"
  proof (rule load_cong)
    fix a assume "buf + uint len \<le> a" "a < buf + uint len + int (unat count - unat len)"
    moreover have "0 \<le> uint len" by simp
    moreover have "uint len + int (unat count - unat len) = uint count" using E(8) by (simp add: E(2))
    ultimately have "buf \<le> a" "a < buf + uint count" by linarith+
    then show "m1 a = m a" using out by (intro fr) (auto simp: region_def)
  qed
  assume f: "\<And>a. a \<notin> footprint vs \<Longrightarrow> m' a = m1 a"
  have "bytes_of m' v = bytes_of m1 v" using f ap by (intro bytes_cong) auto
  also have "\<dots> = load (iov_base v) (unat len) m1 @ bytes_of m1 (advance_iov len v)" by (rule E(1))
  also have "load (iov_base v) (unat len) m1 = xs" using load_store [of "iov_base v" xs m] by (simp add: m1 xs)
  also have "bytes_of m1 (advance_iov len v) = bytes_of m (advance_iov len v)"
    by (intro bytes_cong) (auto simp: m1 xs region_def advance_iov_def)
  finally show "bytes_of m' v = xs @ bytes_of m (advance_iov len v)" .
qed

lemma write_loop_scatters:
  assumes "clear_of buf (unat count) vs" "apart vs"
  shows "\<exists>vs' m'. write_loop vs buf count wr m = Some (wr + of_nat (min (unat count) (length (gather m vs))), vs', m') \<and>
    gather m' vs = take (length (gather m vs)) (load buf (unat count) m) @ drop (unat count) (gather m vs) \<and>
    gather m' vs' = drop (unat count) (gather m vs) \<and> footprint vs' \<subseteq> footprint vs \<and> (\<forall>a. a \<notin> footprint vs \<longrightarrow> m' a = m a)"
  using assms
proof (induction vs arbitrary: buf count wr m)
  case Nil
  show ?case by simp
next
  case (Cons v vs)
  define len where "len = (if count < iov_len v then count else iov_len v)"
  note E = entry_split [OF len_def]
  let ?c = "unat count" and ?G = "gather m vs" and ?rest = "bytes_of m (advance_iov len v)"
  let ?d = "?c - unat len"
  have cv: "clear_of buf ?c vs" "iov_base v + uint (iov_len v) \<le> buf \<or> buf + uint count \<le> iov_base v"
    using Cons.prems(1) by (auto simp: clear_of_def)
  have ap: "region v \<inter> footprint vs = {}" "apart vs" using Cons.prems(2) unfolding apart_footprint by simp_all
  define xs where "xs = load buf (unat len) m"
  define m1 where "m1 = store (iov_base v) xs m"
  note S = scatter_entry [OF len_def xs_def m1_def cv(2) ap(1)]
  have cl: "clear_of (buf + uint len) (unat (count - len)) vs" using clear_shift [OF cv(1) E(2)] E(5) by simp
  obtain vs' m' where vs': "write_loop vs (buf + uint len) (count - len) (wr + len) m1 = Some (wr + len + of_nat (min ?d (length ?G)), vs', m')"
      "gather m' vs = take (length ?G) (load (buf + uint len) ?d m) @ drop ?d ?G" "gather m' vs' = drop ?d ?G"
      "footprint vs' \<subseteq> footprint vs" and fr: "a \<notin> footprint vs \<Longrightarrow> m' a = m1 a" for a
    using Cons.IH [OF cl ap(2), of "wr + len" m1] unfolding S(2) E(5) S(4) by blast
  have b: "bytes_of m' v = xs @ ?rest" by (rule S(5) [OF fr])
  have r: "bytes_of m' (advance_iov len v) = ?rest"
    using b E(1) [of m'] by (simp add: xs_def)
  have g: "gather m' (v # vs) = take (length (gather m (v # vs))) (load buf ?c m) @ drop ?c (gather m (v # vs))"
  proof -
    have "load buf ?c m = xs @ load (buf + uint len) ?d m" using load_add [of buf "unat len" ?d m] E(2) by (simp add: xs_def)
    moreover have "gather m' (v # vs) = xs @ ?rest @ take (length ?G) (load (buf + uint len) ?d m) @ drop ?d ?G" using b vs'(2) by simp
    ultimately show ?thesis
      using scatter_split [of "load (iov_base v) (unat len) m" ?c ?rest xs "load (buf + uint len) ?d m" ?G] E(1,2,4) by (simp add: xs_def)
  qed
  have n: "wr + len + of_nat (min ?d (length ?G)) = wr + of_nat (min ?c (length (gather m (v # vs))))"
  proof -
    have "min ?c (length (gather m (v # vs))) = unat len + min ?d (length ?G)" using E(2,3,4) by (auto simp: len_def min_def word_less_nat_alt)
    then show ?thesis by simp
  qed
  have dr: "gather m' (advance_iov len v # vs') = drop ?c (gather m (v # vs))"
    using take_drop_split(2) [of "bytes_of m v" "load (iov_base v) (unat len) m" ?rest ?c ?G] E(1,2,4) r vs'(3) by simp
  have fp: "footprint (advance_iov len v # vs') \<subseteq> footprint (v # vs)" using E(6) vs'(4) by auto
  have fr': "m' a = m a" if "a \<notin> footprint (v # vs)" for a using that fr S(1) by simp
  show ?case
  proof (cases "count > 0 \<and> iov_len v > 0")
    case True
    then have "write_loop (v # vs) buf count wr m = Some (wr + of_nat (min ?c (length (gather m (v # vs)))), advance_iov len v # vs', m')"
      using S(3) vs'(1) n by (simp add: Let_def len_def [symmetric])
    then show ?thesis using g dr fp fr' by blast
  next
    case False
    then consider (finished) "count = 0" | (empty) "count > 0" "iov_len v = 0" by (auto simp: word_gt_0)
    then show ?thesis
    proof cases
      case finished
      then show ?thesis by simp
    next
      case empty
      then have z: "len = 0" "advance_iov len v = v" "m1 = m" by (simp_all add: len_def m1_def xs_def advance_iov_def)
      then have "write_loop (v # vs) buf count wr m = Some (wr + of_nat (min ?c (length (gather m (v # vs)))), v # vs', m')"
        using empty vs'(1) n by simp
      then show ?thesis using g dr fp fr' unfolding z(2) by blast
    qed
  qed
qed

lemma sint_small_u32: "x < 2 ^ 31 \<Longrightarrow> sint (x :: u32) = uint x"
  using signed_take_bit_int_eq_self [of 31 "uint x"] uint_nonnegative [of x] by (simp add: sint_uint word_less_def)

lemma take_load: "take k (load p n m) = load p (min n k) m"
  by (rule nth_equalityI) simp_all

lemma transfer_count:
  assumes "count < (2 ^ 31 :: u32)" "k \<le> unat count"
  shows "sint (0 + of_nat k :: u32) = int k"
proof -
  have "unat count < 2 ^ 31" using assms(1) by (simp add: word_less_nat_alt)
  then have k: "k < 2 ^ 31" using assms(2) by linarith
  then have u: "unat (of_nat k :: u32) = k" by (simp add: unat_of_nat)
  then have "of_nat k < (2 ^ 31 :: u32)" using k by (simp add: word_less_nat_alt)
  then have "sint (of_nat k :: u32) = uint (of_nat k :: u32)" by (rule sint_small_u32)
  also have "\<dots> = int k" using u by (metis uint_nat)
  finally show ?thesis by simp
qed

lemma read_iovec_eq:
  assumes "clear_of buf (unat count) vs" "count < 2 ^ 31"
  shows "\<exists>vs'. read_iovec vs buf count m =
      Some (int (min (unat count) (length (gather m vs))), vs', store buf (take (unat count) (gather m vs)) m) \<and>
    gather (store buf (take (unat count) (gather m vs)) m) vs' = drop (unat count) (gather m vs)"
proof -
  have "sint (0 + of_nat (length (take (unat count) (gather m vs))) :: u32) = int (min (unat count) (length (gather m vs)))"
    using transfer_count [OF assms(2), of "length (take (unat count) (gather m vs))"] by (simp add: min.commute)
  then show ?thesis using read_loop_gathers [OF assms(1), of 0 m] unfolding read_iovec_def by auto
qed

lemma size_loop_add: "size_loop vs n = n + of_nat (length (gather m vs))"
  by (induction vs arbitrary: n) (simp_all add: ac_simps)

lemma get_iovec_size_gather: "get_iovec_size vs = of_nat (length (gather m vs))"
  using size_loop_add [of vs 0 m] by (simp add: get_iovec_size_def)

lemma check_iovec_accepts:
  "check_iovec acc iov vs iovlen modify = 0 \<longleftrightarrow>
     (if iov = 0 then iovlen = 0
      else 0 \<le> iovlen \<and> acc iov (of_int iovlen * 8) False \<and>
        (\<forall>v \<in> set (take (nat iovlen) vs). if iov_base v = 0 then iov_len v = 0 else acc (iov_base v) (iov_len v) modify))"
proof -
  have "check_loop acc modify ws = 0 \<longleftrightarrow> (\<forall>v \<in> set ws. if iov_base v = 0 then iov_len v = 0 else acc (iov_base v) (iov_len v) modify)" for ws
    by (induction ws) (auto simp: EFAULT_def EINVAL_def)
  then show ?thesis by (auto simp: check_iovec_def EFAULT_def EINVAL_def)
qed

text \<open>
  Reading takes the first \<open>count\<close> bytes of the pieces, as many as there are, in order into
  the buffer, and the list then stands for the bytes that are left.
\<close>

theorem read_iovec_gathers:
  assumes "clear_of buf (unat count) vs" "count < 2 ^ 31"
  shows "\<exists>vs'. read_iovec vs buf count m =
      Some (int (min (unat count) (length (gather m vs))), vs', store buf (take (unat count) (gather m vs)) m) \<and>
    gather (store buf (take (unat count) (gather m vs)) m) vs' = drop (unat count) (gather m vs)"
  by (rule read_iovec_eq [OF assms])

text \<open>
  C33. Writing spreads the buffer over the pieces: the first bytes of the pieces become those of the
  buffer, what lies beyond stays, the list stands for the rest, and no other memory changes. Reading the
  pieces back, into any buffer outside them, stores exactly the bytes that were written there.
\<close>

theorem write_iovec_scatters:
  assumes "clear_of buf (unat count) vs" "clear_of buf2 (unat count) vs" "apart vs" "count < 2 ^ 31"
  shows "\<exists>vs' m'. write_iovec vs buf count m = Some (int (min (unat count) (length (gather m vs))), vs', m') \<and>
    gather m' vs = take (length (gather m vs)) (load buf (unat count) m) @ drop (unat count) (gather m vs) \<and>
    gather m' vs' = drop (unat count) (gather m vs) \<and> (\<forall>a. a \<notin> footprint vs \<longrightarrow> m' a = m a) \<and>
    (\<exists>vs''. read_iovec vs buf2 count m' = Some (int (min (unat count) (length (gather m vs))), vs'',
       store buf2 (load buf (min (unat count) (length (gather m vs))) m) m'))"
proof -
  let ?G = "gather m vs" and ?c = "unat count"
  obtain vs' m' where w: "write_loop vs buf count 0 m = Some (0 + of_nat (min ?c (length ?G)), vs', m')"
      "gather m' vs = take (length ?G) (load buf ?c m) @ drop ?c ?G" "gather m' vs' = drop ?c ?G" "\<forall>a. a \<notin> footprint vs \<longrightarrow> m' a = m a"
    using write_loop_scatters [OF assms(1,3), of 0 m] by blast
  have "write_iovec vs buf count m = Some (int (min ?c (length ?G)), vs', m')"
    using w(1) transfer_count [OF assms(4), of "min ?c (length ?G)"] by (simp add: write_iovec_def)
  moreover have "take ?c (gather m' vs) = load buf (min ?c (length ?G)) m"
    unfolding w(2) by (cases "length ?G \<le> ?c") (auto simp: take_load min_def)
  then have "\<exists>vs''. read_iovec vs buf2 count m' = Some (int (min ?c (length ?G)), vs'', store buf2 (load buf (min ?c (length ?G)) m) m')"
    using read_iovec_eq [OF assms(2,4), of m'] length_gather [of m' vs m] by auto
  ultimately show ?thesis using w by blast
qed

text \<open>Two pieces, of two bytes and of one, and a buffer of three bytes.\<close>

definition iov_ex :: "iovec list" where
  "iov_ex = [\<lparr>iov_len = 2, iov_base = 100\<rparr>, \<lparr>iov_len = 1, iov_base = 200\<rparr>]"

lemma iov_ex_ok: "clear_of 10 (unat (3 :: u32)) iov_ex" "apart iov_ex"
  by (auto simp: iov_ex_def clear_of_def region_def)

theorem read_iovec_gathers_witness:
  "\<exists>vs'. read_iovec iov_ex 10 3 (\<lambda>a. of_int a) = Some (3, vs', store 10 [100, 101, 200] (\<lambda>a. of_int a))"
proof -
  have "gather (\<lambda>a. of_int a) iov_ex = [100, 101, 200]" by (simp add: iov_ex_def bytes_of_def load_def upt_rec)
  then show ?thesis using read_iovec_gathers [OF iov_ex_ok(1), of "\<lambda>a. of_int a"] by auto
qed

theorem write_iovec_scatters_witness:
  "\<exists>vs' m' vs''. write_iovec iov_ex 10 3 (\<lambda>a. of_int a) = Some (3, vs', m') \<and> gather m' iov_ex = [10, 11, 12] \<and> m' 10 = 10 \<and>
     m' 50 = 50 \<and> read_iovec iov_ex 50 3 m' = Some (3, vs'', store 50 [10, 11, 12] m')"
proof -
  let ?m = "\<lambda>a. of_int a :: u8"
  have g: "gather ?m iov_ex = [100, 101, 200]" "load 10 3 ?m = [10, 11, 12]"
    by (simp_all add: iov_ex_def bytes_of_def load_def upt_rec)
  have c: "clear_of 50 (unat (3 :: u32)) iov_ex" by (auto simp: iov_ex_def clear_of_def)
  have "10 \<notin> footprint iov_ex" "50 \<notin> footprint iov_ex" by (simp_all add: iov_ex_def region_def)
  moreover have l: "length (gather ?m iov_ex) = 3" "unat (3 :: u32) = 3" "(3 :: u32) < 2 ^ 31" by (simp_all add: g(1))
  obtain vs' m' vs'' where "write_iovec iov_ex 10 3 ?m = Some (int (min 3 3), vs', m')"
      "gather m' iov_ex = take 3 [10, 11, 12] @ drop 3 [100, 101, 200]" "\<forall>a. a \<notin> footprint iov_ex \<longrightarrow> m' a = ?m a"
      "read_iovec iov_ex 50 3 m' = Some (int (min 3 3), vs'', store 50 (load 10 (min 3 3) ?m) m')"
    using write_iovec_scatters [OF iov_ex_ok(1) c iov_ex_ok(2) l(3), of ?m] unfolding l unfolding g by blast
  ultimately show ?thesis using g(2) by auto
qed

end
