(* ===== verification/Deferred.thy ===== *)
theory Deferred
  imports Object
begin

text \<open>
  Deferred work in \<^verbatim>\<open>src/src/sys/krnl/sched.c\<close>: deferred procedure calls (DPCs), which interrupt
  handlers queue and the dispatcher runs, task queues, each served by a kernel thread, and
  the idle tasks. The procedures belong to the drivers: a procedure and its argument are
  numbers, and \<open>run\<close> says what a call does to the state. Interrupts act on the queues only
  through \<^verbatim>\<open>queue_irq_dpc\<close>. A call that does not return is \<open>None\<close>.
\<close>

section \<open>State\<close>

record dpc =
  dpc_proc :: ptr
  dpc_arg :: ptr
  dpc_next :: ptr
  dpc_flags :: u32

record task =
  task_proc :: ptr
  task_arg :: ptr
  task_next :: ptr
  task_flags :: u32

record task_queue =
  tq_head :: ptr
  tq_tail :: ptr
  tq_thread :: nat
  tq_maxsize :: int
  tq_size :: int
  tq_flags :: u32

record dsys = sched +
  dpc :: "nat \<Rightarrow> dpc"
  dpc_queue_head :: ptr
  dpc_queue_tail :: ptr
  in_dpc :: bool
  dpc_total :: u32
  dpc_lost :: u32
  task :: "nat \<Rightarrow> task"
  tq :: "nat \<Rightarrow> task_queue"
  sys_task_queue :: nat
  idle_tasks_head :: ptr
  idle_tasks_tail :: ptr

definition DPC_QUEUED :: u32 where "DPC_QUEUED = 1"
definition DPC_EXECUTING :: u32 where "DPC_EXECUTING = 2"
definition TASK_QUEUE_ACTIVE :: u32 where "TASK_QUEUE_ACTIVE = 1"
definition TASK_QUEUE_ACTIVE_TASK_INVALID :: u32 where "TASK_QUEUE_ACTIVE_TASK_INVALID = 2"
definition TASK_QUEUED :: u32 where "TASK_QUEUED = 1"
definition TASK_EXECUTING :: u32 where "TASK_EXECUTING = 2"
definition THREAD_WAIT_TASK :: nat where "THREAD_WAIT_TASK = 2"

type_synonym 'z procs = "ptr \<Rightarrow> ptr \<Rightarrow> 'z dsys_scheme \<Rightarrow> 'z dsys_scheme"

definition upd_dpc :: "nat \<Rightarrow> (dpc \<Rightarrow> dpc) \<Rightarrow> 'z dsys_scheme \<Rightarrow> 'z dsys_scheme" where
  "upd_dpc d f s = s\<lparr>dpc := (dpc s)(d := f (dpc s d))\<rparr>"

definition upd_task :: "nat \<Rightarrow> (task \<Rightarrow> task) \<Rightarrow> 'z dsys_scheme \<Rightarrow> 'z dsys_scheme" where
  "upd_task t f s = s\<lparr>task := (task s)(t := f (task s t))\<rparr>"

definition upd_tq :: "nat \<Rightarrow> (task_queue \<Rightarrow> task_queue) \<Rightarrow> 'z dsys_scheme \<Rightarrow> 'z dsys_scheme" where
  "upd_tq q f s = s\<lparr>tq := (tq s)(q := f (tq s q))\<rparr>"

section \<open>Deferred procedure calls\<close>

definition init_dpc :: "nat \<Rightarrow> 'z dsys_scheme \<Rightarrow> 'z dsys_scheme" where
  "init_dpc d s = upd_dpc d (\<lambda>_. \<lparr>dpc_proc = None, dpc_arg = None, dpc_next = None, dpc_flags = 0\<rparr>) s"

definition queue_irq_dpc :: "nat \<Rightarrow> ptr \<Rightarrow> ptr \<Rightarrow> 'z dsys_scheme \<Rightarrow> 'z dsys_scheme" where
  "queue_irq_dpc d proc arg s =
     (if dpc_flags (dpc s d) AND DPC_QUEUED \<noteq> 0 then s\<lparr>dpc_lost := dpc_lost s + 1\<rparr>
      else
        let s = upd_dpc d (\<lambda>x. x\<lparr>dpc_proc := proc, dpc_arg := arg, dpc_next := None\<rparr>) s;
            s = (case dpc_queue_tail s of None \<Rightarrow> s | Some t \<Rightarrow> upd_dpc t (\<lambda>x. x\<lparr>dpc_next := Some d\<rparr>) s);
            s = s\<lparr>dpc_queue_tail := Some d\<rparr>;
            s = (if dpc_queue_head s = None then s\<lparr>dpc_queue_head := Some d\<rparr> else s) in
        upd_dpc d (\<lambda>x. x\<lparr>dpc_flags := dpc_flags x OR DPC_QUEUED\<rparr>) s)"

text \<open>\<^verbatim>\<open>queue_dpc\<close> is \<^verbatim>\<open>queue_irq_dpc\<close> with interrupts disabled.\<close>

definition queue_dpc :: "nat \<Rightarrow> ptr \<Rightarrow> ptr \<Rightarrow> 'z dsys_scheme \<Rightarrow> 'z dsys_scheme" where
  "queue_dpc d proc arg s = queue_irq_dpc d proc arg s"

definition get_next_dpc :: "'z dsys_scheme \<Rightarrow> ptr \<times> 'z dsys_scheme" where
  "get_next_dpc s =
     (case dpc_queue_head s of
        None \<Rightarrow> (None, s)
      | Some d \<Rightarrow>
          let s = s\<lparr>dpc_queue_head := dpc_next (dpc s d)\<rparr> in
          (Some d, if dpc_queue_tail s = Some d then s\<lparr>dpc_queue_tail := None\<rparr> else s))"

text \<open>The work on one DPC that has been taken off the queue.\<close>

definition execute_dpc :: "'z procs \<Rightarrow> nat \<Rightarrow> 'z dsys_scheme \<Rightarrow> 'z dsys_scheme" where
  "execute_dpc run d s =
     (let proc = dpc_proc (dpc s d); arg = dpc_arg (dpc s d);
          s = upd_dpc d (\<lambda>x. x\<lparr>dpc_flags := dpc_flags x AND NOT DPC_QUEUED\<rparr>) s in
      if dpc_flags (dpc s d) AND DPC_EXECUTING = 0 then
        let s = upd_dpc d (\<lambda>x. x\<lparr>dpc_flags := dpc_flags x OR DPC_EXECUTING\<rparr>) s;
            s = run proc arg s;
            s = upd_dpc d (\<lambda>x. x\<lparr>dpc_flags := dpc_flags x AND NOT DPC_EXECUTING\<rparr>) s in
        s\<lparr>dpc_total := dpc_total s + 1\<rparr>
      else s)"

partial_function (option) dpc_loop :: "'z procs \<Rightarrow> 'z dsys_scheme \<Rightarrow> 'z dsys_scheme option" where
  "dpc_loop run s =
     (case get_next_dpc s of
        (None, s1) \<Rightarrow> Some s1
      | (Some d, s1) \<Rightarrow> dpc_loop run (execute_dpc run d s1))"

definition dispatch_dpc_queue :: "'z procs \<Rightarrow> 'z dsys_scheme \<Rightarrow> 'z dsys_scheme kres option" where
  "dispatch_dpc_queue run s =
     (if in_dpc s then Some (Panic ''sched: nested execution of dpc queue'')
      else do { s1 \<leftarrow> dpc_loop run (s\<lparr>in_dpc := True\<rparr>); Some (Ret (s1\<lparr>in_dpc := False\<rparr>)) })"

definition check_dpc_queue :: "'z procs \<Rightarrow> 'z dsys_scheme \<Rightarrow> 'z dsys_scheme kres option" where
  "check_dpc_queue run s = (if dpc_queue_head s \<noteq> None then dispatch_dpc_queue run s else Some (Ret s))"

text \<open>The dispatcher with the DPC queue it looks at before it picks a thread.\<close>

definition dispatch_dpcs :: "'z procs \<Rightarrow> 'z dsys_scheme \<Rightarrow> 'z dsys_scheme kres option" where
  "dispatch_dpcs run s = do {
     r \<leftarrow> check_dpc_queue run (s\<lparr>preempt_flag := False\<rparr>);
     Some (dispatch (\<lambda>_. r) s)
   }"

section \<open>Task queues\<close>

definition init_task :: "nat \<Rightarrow> 'z dsys_scheme \<Rightarrow> 'z dsys_scheme" where
  "init_task t s = upd_task t (\<lambda>_. \<lparr>task_proc = None, task_arg = None, task_next = None, task_flags = 0\<rparr>) s"

text \<open>\<open>thread\<close> is the kernel thread that \<^verbatim>\<open>create_kernel_thread\<close> returns.\<close>

definition init_task_queue :: "nat \<Rightarrow> nat \<Rightarrow> int \<Rightarrow> 'z dsys_scheme \<Rightarrow> int \<times> 'z dsys_scheme" where
  "init_task_queue q thread maxsize s =
     (0, upd_tq q (\<lambda>_. \<lparr>tq_head = None, tq_tail = None, tq_thread = thread, tq_maxsize = maxsize,
        tq_size = 0, tq_flags = 0\<rparr>) s)"

definition queue_task :: "ptr \<Rightarrow> nat \<Rightarrow> ptr \<Rightarrow> ptr \<Rightarrow> 'z dsys_scheme \<Rightarrow> (int \<times> 'z dsys_scheme) kres" where
  "queue_task tqp t proc arg s =
     (let q = (case tqp of None \<Rightarrow> sys_task_queue s | Some q \<Rightarrow> q) in
      if task_flags (task s t) AND TASK_QUEUED \<noteq> 0 then Ret (- EBUSY, s)
      else if (of_int (tq_maxsize (tq s q)) :: u32) \<noteq> INFINITE \<and> tq_size (tq s q) \<ge> tq_maxsize (tq s q) then Ret (- EAGAIN, s)
      else
        let s = upd_task t (\<lambda>x. x\<lparr>task_proc := proc, task_arg := arg, task_next := None,
                  task_flags := task_flags x OR TASK_QUEUED\<rparr>) s;
            s = (case tq_tail (tq s q) of
                   Some l \<Rightarrow> upd_tq q (\<lambda>x. x\<lparr>tq_tail := Some t\<rparr>) (upd_task l (\<lambda>x. x\<lparr>task_next := Some t\<rparr>) s)
                 | None \<Rightarrow> upd_tq q (\<lambda>x. x\<lparr>tq_head := Some t, tq_tail := Some t\<rparr>) s);
            s = upd_tq q (\<lambda>x. x\<lparr>tq_size := tq_size x + 1\<rparr>) s in
        if tq_flags (tq s q) AND TASK_QUEUE_ACTIVE = 0 \<and> t_state (thr s (tq_thread (tq s q))) = WAITING
        then kbind (mark_thread_ready (tq_thread (tq s q)) 0 0 s) (\<lambda>s. Ret (0, s))
        else Ret (0, s))"

definition next_task :: "nat \<Rightarrow> 'z dsys_scheme \<Rightarrow> ptr \<times> 'z dsys_scheme" where
  "next_task q s =
     (case tq_head (tq s q) of
        None \<Rightarrow> (None, s)
      | Some t \<Rightarrow>
          let s = upd_tq q (\<lambda>x. x\<lparr>tq_head := task_next (task s t)\<rparr>) s;
              s = (if tq_tail (tq s q) = Some t then upd_tq q (\<lambda>x. x\<lparr>tq_tail := None\<rparr>) s else s) in
          (Some t, upd_tq q (\<lambda>x. x\<lparr>tq_size := tq_size x - 1\<rparr>) s))"

definition execute_task :: "'z procs \<Rightarrow> nat \<Rightarrow> nat \<Rightarrow> 'z dsys_scheme \<Rightarrow> 'z dsys_scheme" where
  "execute_task run q t s =
     (let s = upd_task t (\<lambda>x. x\<lparr>task_flags := task_flags x AND NOT TASK_QUEUED\<rparr>) s in
      if task_flags (task s t) AND TASK_EXECUTING = 0 then
        let s = upd_task t (\<lambda>x. x\<lparr>task_flags := task_flags x OR TASK_EXECUTING\<rparr>) s;
            s = upd_tq q (\<lambda>x. x\<lparr>tq_flags := tq_flags x OR TASK_QUEUE_ACTIVE\<rparr>) s;
            s = run (task_proc (task s t)) (task_arg (task s t)) s;
            s = (if tq_flags (tq s q) AND TASK_QUEUE_ACTIVE_TASK_INVALID = 0
                 then upd_task t (\<lambda>x. x\<lparr>task_flags := task_flags x AND NOT TASK_EXECUTING\<rparr>) s else s) in
        upd_tq q (\<lambda>x. x\<lparr>tq_flags := tq_flags x AND NOT (TASK_QUEUE_ACTIVE OR TASK_QUEUE_ACTIVE_TASK_INVALID)\<rparr>) s
      else s)"

text \<open>
  One round of \<^verbatim>\<open>task_queue_task\<close>, the endless loop of the thread of a queue: it waits while the queue
  is empty and otherwise takes the first task and executes it.
\<close>

definition task_queue_task :: "('z dsys_scheme \<Rightarrow> 'z dsys_scheme kres) \<Rightarrow> 'z procs \<Rightarrow> nat \<Rightarrow> 'z dsys_scheme \<Rightarrow> 'z dsys_scheme kres" where
  "task_queue_task dpcs run q s =
     (case next_task q s of
        (None, s) \<Rightarrow> enter_wait dpcs THREAD_WAIT_TASK s
      | (Some t, s) \<Rightarrow> Ret (execute_task run q t s))"

section \<open>Idle tasks\<close>

definition system_idle :: "'z dsys_scheme \<Rightarrow> bool" where
  "system_idle s \<longleftrightarrow> summary s = 0 \<and> dpc_queue_head s = None"

definition add_idle_task :: "nat \<Rightarrow> ptr \<Rightarrow> ptr \<Rightarrow> 'z dsys_scheme \<Rightarrow> 'z dsys_scheme" where
  "add_idle_task t proc arg s =
     (let s = upd_task t (\<lambda>x. x\<lparr>task_proc := proc, task_arg := arg, task_next := None,
                task_flags := task_flags x OR TASK_QUEUED\<rparr>) s in
      case idle_tasks_tail s of
        Some l \<Rightarrow> (upd_task l (\<lambda>x. x\<lparr>task_next := Some t\<rparr>) s)\<lparr>idle_tasks_tail := Some t\<rparr>
      | None \<Rightarrow> s\<lparr>idle_tasks_head := Some t, idle_tasks_tail := Some t\<rparr>)"

partial_function (option) idle_loop :: "'z procs \<Rightarrow> ptr \<Rightarrow> 'z dsys_scheme \<Rightarrow> 'z dsys_scheme option" where
  "idle_loop run p s =
     (case p of
        None \<Rightarrow> Some s
      | Some t \<Rightarrow>
          if \<not> system_idle s then Some s
          else
            let s = upd_task t (\<lambda>x. x\<lparr>task_flags := task_flags x OR TASK_EXECUTING\<rparr>) s;
                s = run (task_proc (task s t)) (task_arg (task s t)) s;
                s = upd_task t (\<lambda>x. x\<lparr>task_flags := task_flags x AND NOT TASK_EXECUTING\<rparr>) s in
            idle_loop run (task_next (task s t)) s)"

text \<open>One round of \<^verbatim>\<open>idle_task\<close>; \<open>halt\<close> stands for the processor that stops until an interrupt.\<close>

definition idle_task ::
  "('z dsys_scheme \<Rightarrow> 'z dsys_scheme) \<Rightarrow> ('z dsys_scheme \<Rightarrow> 'z dsys_scheme kres) \<Rightarrow> 'z procs \<Rightarrow> 'z dsys_scheme \<Rightarrow> 'z dsys_scheme kres option" where
  "idle_task halt dpcs run s =
     do {
       s1 \<leftarrow> (if idle_tasks_head s \<noteq> None then idle_loop run (idle_tasks_head s) s
               else Some (if system_idle s then halt s else s));
       Some (kbind (mark_thread_ready (current s) 0 0 s1) (dispatch dpcs))
     }"

end
