(* ===== verification/Deferred_Laws.thy ===== *)
theory Deferred_Laws
  imports Deferred Waiting
begin

text \<open>
  The correctness of deferred work: singly linked queues with a head and a tail pointer, the
  locale \<open>deferred_queue\<close> (the contract of a queue whose entries are served in order), its
  interpretations on the DPC queue and on task queues, and the contract that the dispatcher
  relies on when it runs the DPC queue.
\<close>

section \<open>Singly linked queues\<close>

definition sq :: "ptr \<Rightarrow> ptr \<Rightarrow> (nat \<Rightarrow> ptr) \<Rightarrow> nat list \<Rightarrow> bool" where
  "sq h t n xs \<longleftrightarrow> lseg n h xs None \<and> t = (if xs = [] then None else Some (last xs)) \<and> distinct xs"

lemma sq_empty: "sq h t n [] \<longleftrightarrow> h = None \<and> t = None"
  by (simp add: sq_def)

lemma sq_head: "sq h t n xs \<Longrightarrow> h = (if xs = [] then None else Some (hd xs))"
  by (auto simp: sq_def dest: lseg_head)

lemma sq_tail: "sq h t n xs \<Longrightarrow> t = (if xs = [] then None else Some (last xs))"
  by (simp add: sq_def)

lemma sq_push:
  assumes "sq h t n xs" "x \<notin> set xs"
  shows "sq (if h = None then Some x else h) (Some x) (case t of None \<Rightarrow> n(x := None) | Some l \<Rightarrow> n(x := None, l := Some x)) (xs @ [x])"
proof (cases xs rule: rev_cases)
  case Nil
  with assms show ?thesis by (simp add: sq_def)
next
  case (snoc ys y)
  then have "h \<noteq> None" using sq_head [OF assms(1)] by auto
  with assms snoc show ?thesis by (auto simp: sq_def)
qed

lemma sq_pop: "sq h t n (x # xs) \<Longrightarrow> h = Some x \<and> sq (n x) (if t = Some x then None else t) n xs"
  by (cases xs rule: rev_cases) (auto simp: sq_def)

lemma sq_cong: "(\<And>x. x \<in> set xs \<Longrightarrow> n x = n' x) \<Longrightarrow> sq h t n xs \<longleftrightarrow> sq h t n' xs"
  using lseg_cong [of xs n n'] by (auto simp: sq_def)

section \<open>Queues whose entries are served in order\<close>

text \<open>
  The contract of a queue of deferred work: \<open>holds s xs\<close> says that the entries \<open>xs\<close> are queued, \<open>serve\<close>
  serves the first of them, whose effect on the rest of the state is \<open>act s x\<close>.
\<close>

locale deferred_queue =
  fixes holds :: "'s \<Rightarrow> nat list \<Rightarrow> bool" and serve :: "'s \<Rightarrow> 's option" and others :: "'s \<Rightarrow> 'r"
    and act :: "'s \<Rightarrow> nat \<Rightarrow> 'r \<Rightarrow> 'r"
  assumes serve_empty: "holds s [] \<Longrightarrow> serve s = None"
    and serve_first: "holds s (x # xs) \<Longrightarrow>
      \<exists>s'. serve s = Some s' \<and> holds s' xs \<and> others s' = act s x (others s) \<and> (\<forall>y \<in> set xs. act s' y = act s y)"
begin

lemma served_in_order:
  "holds s xs \<Longrightarrow>
   \<exists>s'. ((\<lambda>a b. serve a = Some b) ^^ length xs) s s' \<and> holds s' [] \<and> others s' = fold (act s) xs (others s)"
proof (induction xs arbitrary: s)
  case Nil
  then show ?case by auto
next
  case (Cons x xs)
  obtain s1 where s1: "serve s = Some s1" "holds s1 xs" "others s1 = act s x (others s)" "\<forall>y \<in> set xs. act s1 y = act s y"
    using serve_first [OF Cons.prems] by blast
  obtain s' where s': "((\<lambda>a b. serve a = Some b) ^^ length xs) s1 s'" "holds s' []" "others s' = fold (act s1) xs (others s1)"
    using Cons.IH [OF s1(2)] by blast
  have "((\<lambda>a b. serve a = Some b) ^^ length (x # xs)) s s'" using relpowp_Suc_I2 [where P = "\<lambda>a b. serve a = Some b", OF s1(1) s'(1)] by simp
  moreover have "fold (act s1) xs r = fold (act s) xs r" for r using s1(4) by (intro fold_cong) auto
  ultimately show ?case using s' s1(3) by auto
qed

end

section \<open>The DPC queue\<close>

text \<open>The part of the state that belongs to the DPC queue, and the rest.\<close>

definition dpart :: "'z dsys_scheme \<Rightarrow> (nat \<Rightarrow> dpc) \<times> ptr \<times> ptr \<times> bool" where
  "dpart s = (dpc s, dpc_queue_head s, dpc_queue_tail s, in_dpc s)"

definition drest :: "'z dsys_scheme \<Rightarrow> 'z dsys_scheme" where
  "drest s = s\<lparr>dpc := (\<lambda>_. \<lparr>dpc_proc = None, dpc_arg = None, dpc_next = None, dpc_flags = 0\<rparr>), dpc_queue_head := None,
     dpc_queue_tail := None, in_dpc := False, dpc_total := 0\<rparr>"

text \<open>The procedures queue no DPC, and \<open>g\<close> is their effect on the rest of the state.\<close>

definition procs_quiet :: "'z procs \<Rightarrow> (ptr \<Rightarrow> ptr \<Rightarrow> 'z dsys_scheme \<Rightarrow> 'z dsys_scheme) \<Rightarrow> bool" where
  "procs_quiet run g \<longleftrightarrow> (\<forall>f a s. dpart (run f a s) = dpart s \<and> drest (run f a s) = g f a (drest s))"

definition dpc_queued :: "'z dsys_scheme \<Rightarrow> nat list \<Rightarrow> bool" where
  "dpc_queued s xs \<longleftrightarrow>
     sq (dpc_queue_head s) (dpc_queue_tail s) (\<lambda>d. dpc_next (dpc s d)) xs \<and>
     (\<forall>d. dpc_flags (dpc s d) AND DPC_QUEUED \<noteq> 0 \<longleftrightarrow> d \<in> set xs) \<and> (\<forall>d. dpc_flags (dpc s d) AND DPC_EXECUTING = 0)"

definition serve_dpc :: "'z procs \<Rightarrow> 'z dsys_scheme \<Rightarrow> 'z dsys_scheme option" where
  "serve_dpc run s = (case get_next_dpc s of (None, s1) \<Rightarrow> None | (Some d, s1) \<Rightarrow> Some (execute_dpc run d s1))"

lemma flag_bits [simp]:
  "(w AND NOT DPC_QUEUED) AND DPC_QUEUED = 0" "(w AND NOT DPC_QUEUED) AND DPC_EXECUTING = w AND DPC_EXECUTING"
  "(w OR DPC_QUEUED) AND DPC_QUEUED = DPC_QUEUED" "(w OR DPC_QUEUED) AND DPC_EXECUTING = w AND DPC_EXECUTING"
  "(w AND NOT DPC_EXECUTING) AND DPC_EXECUTING = 0" "(w AND NOT DPC_EXECUTING) AND DPC_QUEUED = w AND DPC_QUEUED"
  "(w OR DPC_EXECUTING) AND DPC_QUEUED = w AND DPC_QUEUED"
  "DPC_QUEUED \<noteq> 0"
proof -
  have d: "bit DPC_QUEUED n \<longleftrightarrow> n = 0" "bit DPC_EXECUTING n \<longleftrightarrow> n = 1" for n
    using bit_exp_iff [where 'a = u32, of 1 n] by (auto simp: DPC_QUEUED_def DPC_EXECUTING_def bit_1_iff)
  show "(w AND NOT DPC_QUEUED) AND DPC_QUEUED = 0" "(w AND NOT DPC_QUEUED) AND DPC_EXECUTING = w AND DPC_EXECUTING"
    "(w OR DPC_QUEUED) AND DPC_QUEUED = DPC_QUEUED" "(w OR DPC_QUEUED) AND DPC_EXECUTING = w AND DPC_EXECUTING"
    "(w AND NOT DPC_EXECUTING) AND DPC_EXECUTING = 0" "(w AND NOT DPC_EXECUTING) AND DPC_QUEUED = w AND DPC_QUEUED"
    "(w OR DPC_EXECUTING) AND DPC_QUEUED = w AND DPC_QUEUED"
    by (auto intro!: bit_word_eqI simp: bit_simps d)
  show "DPC_QUEUED \<noteq> 0" by (simp add: DPC_QUEUED_def)
qed

lemma execute_dpc_quiet:
  assumes "procs_quiet run g" "dpc_flags (dpc s d) AND DPC_EXECUTING = 0"
  shows "let s' = execute_dpc run d s; f = dpc_flags (dpc s d) in
    dpart s' = ((dpc s)(d := (dpc s d)\<lparr>dpc_flags := (f AND NOT DPC_QUEUED OR DPC_EXECUTING) AND NOT DPC_EXECUTING\<rparr>), snd (dpart s)) \<and>
    drest s' = g (dpc_proc (dpc s d)) (dpc_arg (dpc s d)) (drest s)"
proof -
  let ?s1 = "upd_dpc d (\<lambda>x. x\<lparr>dpc_flags := dpc_flags x OR DPC_EXECUTING\<rparr>) (upd_dpc d (\<lambda>x. x\<lparr>dpc_flags := dpc_flags x AND NOT DPC_QUEUED\<rparr>) s)"
  let ?s2 = "run (dpc_proc (dpc s d)) (dpc_arg (dpc s d)) ?s1"
  have r: "dpart ?s2 = dpart ?s1" "drest ?s2 = g (dpc_proc (dpc s d)) (dpc_arg (dpc s d)) (drest ?s1)"
    using assms(1) by (simp_all add: procs_quiet_def)
  have "drest ?s1 = drest s" by (simp add: drest_def upd_dpc_def)
  moreover have "execute_dpc run d s = (upd_dpc d (\<lambda>x. x\<lparr>dpc_flags := dpc_flags x AND NOT DPC_EXECUTING\<rparr>) ?s2)\<lparr>dpc_total := dpc_total ?s2 + 1\<rparr>"
    using assms(2) by (simp add: execute_dpc_def Let_def upd_dpc_def)
  ultimately show ?thesis using r by (simp add: Let_def dpart_def drest_def upd_dpc_def)
qed

lemma dpart_fields: "dpart s = (a, h, t, b) \<Longrightarrow> dpc s = a \<and> dpc_queue_head s = h \<and> dpc_queue_tail s = t \<and> in_dpc s = b"
  by (simp add: dpart_def)

lemma serve_dpc_first:
  assumes q: "procs_quiet run g" and D: "dpc_queued s (x # xs)"
  shows "\<exists>s'. serve_dpc run s = Some s' \<and> dpc_queued s' xs \<and> in_dpc s' = in_dpc s \<and>
    drest s' = g (dpc_proc (dpc s x)) (dpc_arg (dpc s x)) (drest s) \<and>
    (\<forall>y. dpc_proc (dpc s' y) = dpc_proc (dpc s y) \<and> dpc_arg (dpc s' y) = dpc_arg (dpc s y))"
proof -
  have S: "sq (dpc_queue_head s) (dpc_queue_tail s) (\<lambda>d. dpc_next (dpc s d)) (x # xs)"
    and F: "\<And>d. dpc_flags (dpc s d) AND DPC_QUEUED \<noteq> 0 \<longleftrightarrow> d \<in> set (x # xs)" "\<And>d. dpc_flags (dpc s d) AND DPC_EXECUTING = 0"
    using D by (auto simp: dpc_queued_def)
  have xd: "x \<notin> set xs" using S by (simp add: sq_def)
  define s1 where "s1 = s\<lparr>dpc_queue_head := dpc_next (dpc s x), dpc_queue_tail := (if dpc_queue_tail s = Some x then None else dpc_queue_tail s)\<rparr>"
  have e: "serve_dpc run s = Some (execute_dpc run x s1)"
    using sq_pop [OF S] by (simp add: serve_dpc_def get_next_dpc_def s1_def Let_def)
  have s1: "dpc s1 = dpc s" "in_dpc s1 = in_dpc s" "drest s1 = drest s" by (simp_all add: s1_def drest_def)
  define s' where "s' = execute_dpc run x s1"
  have E: "dpc s' = (dpc s)(x := (dpc s x)\<lparr>dpc_flags := (dpc_flags (dpc s x) AND NOT DPC_QUEUED OR DPC_EXECUTING) AND NOT DPC_EXECUTING\<rparr>)"
      "dpc_queue_head s' = dpc_next (dpc s x)" "dpc_queue_tail s' = (if dpc_queue_tail s = Some x then None else dpc_queue_tail s)"
      "in_dpc s' = in_dpc s" "drest s' = g (dpc_proc (dpc s x)) (dpc_arg (dpc s x)) (drest s)"
    using execute_dpc_quiet [OF q, of s1 x] F(2) [of x] s1 unfolding Let_def s'_def
    by (auto simp: dpart_def s1_def split: if_splits)
  have "dpc_queued s' xs"
    unfolding dpc_queued_def E
  proof (intro conjI allI)
    show "sq (dpc_next (dpc s x)) (if dpc_queue_tail s = Some x then None else dpc_queue_tail s)
        (\<lambda>d. dpc_next (((dpc s)(x := (dpc s x)\<lparr>dpc_flags := (dpc_flags (dpc s x) AND NOT DPC_QUEUED OR DPC_EXECUTING) AND NOT DPC_EXECUTING\<rparr>)) d)) xs"
      using conjunct2 [OF sq_pop [OF S]] by (rule iffD1 [OF sq_cong, rotated]) (use xd in auto)
    fix d
    show "dpc_flags (((dpc s)(x := (dpc s x)\<lparr>dpc_flags := (dpc_flags (dpc s x) AND NOT DPC_QUEUED OR DPC_EXECUTING) AND NOT DPC_EXECUTING\<rparr>)) d)
        AND DPC_QUEUED \<noteq> 0 \<longleftrightarrow> d \<in> set xs"
      using F(1) [of d] xd by (cases "d = x") simp_all
    show "dpc_flags (((dpc s)(x := (dpc s x)\<lparr>dpc_flags := (dpc_flags (dpc s x) AND NOT DPC_QUEUED OR DPC_EXECUTING) AND NOT DPC_EXECUTING\<rparr>)) d)
        AND DPC_EXECUTING = 0"
      using F(2) [of d] by (cases "d = x") simp_all
  qed
  then show ?thesis using e E unfolding s'_def [symmetric] by auto
qed


definition dpc_act :: "(ptr \<Rightarrow> ptr \<Rightarrow> 'z dsys_scheme \<Rightarrow> 'z dsys_scheme) \<Rightarrow> 'z dsys_scheme \<Rightarrow> nat \<Rightarrow> 'z dsys_scheme \<Rightarrow> 'z dsys_scheme" where
  "dpc_act g s d = g (dpc_proc (dpc s d)) (dpc_arg (dpc s d))"

interpretation dpcs: deferred_queue "\<lambda>s xs. procs_quiet run g \<and> dpc_queued s xs" "serve_dpc run" drest "dpc_act g" for run g
proof (unfold_locales, goal_cases)
  case (1 s)
  then show ?case by (simp add: dpc_queued_def sq_empty serve_dpc_def get_next_dpc_def)
next
  case (2 s x xs)
  then show ?case using serve_dpc_first [of run g s x xs] by (fastforce simp: dpc_act_def)
qed

lemma dpc_loop_serve:
  "((\<lambda>a b. serve_dpc run a = Some b) ^^ n) s s' \<Longrightarrow> dpc_loop run s = dpc_loop run s'"
proof (induction n arbitrary: s)
  case (Suc n)
  then obtain s1 where "serve_dpc run s = Some s1" "((\<lambda>a b. serve_dpc run a = Some b) ^^ n) s1 s'"
    using relpowp_Suc_D2 [of n "\<lambda>a b. serve_dpc run a = Some b"] by blast
  moreover from this(1) have "dpc_loop run s = dpc_loop run s1"
    by (subst dpc_loop.simps) (auto simp: serve_dpc_def split: prod.splits option.splits)
  ultimately show ?case using Suc.IH by metis
qed simp

lemma dpc_loop_drains:
  assumes "procs_quiet run g" "dpc_queued s xs"
  shows "\<exists>s'. dpc_loop run s = Some s' \<and> dpc_queued s' [] \<and> drest s' = fold (dpc_act g s) xs (drest s)"
proof -
  obtain s' where s': "((\<lambda>a b. serve_dpc run a = Some b) ^^ length xs) s s'" "dpc_queued s' []"
      "drest s' = fold (dpc_act g s) xs (drest s)"
    using dpcs.served_in_order [of run g s xs] assms by blast
  have "get_next_dpc s' = (None, s')" using s'(2) by (simp add: dpc_queued_def sq_empty get_next_dpc_def)
  then have "dpc_loop run s' = Some s'" by (subst dpc_loop.simps) simp
  then show ?thesis using s' dpc_loop_serve [OF s'(1)] by auto
qed

lemma queue_irq_dpc_queued:
  assumes D: "dpc_queued s xs"
  shows "if d \<in> set xs then queue_irq_dpc d f a s = s\<lparr>dpc_lost := dpc_lost s + 1\<rparr>
    else dpc_queued (queue_irq_dpc d f a s) (xs @ [d]) \<and> dpc_proc (dpc (queue_irq_dpc d f a s) d) = f \<and>
      dpc_arg (dpc (queue_irq_dpc d f a s) d) = a \<and>
      (\<forall>e. e \<noteq> d \<longrightarrow> dpc_proc (dpc (queue_irq_dpc d f a s) e) = dpc_proc (dpc s e) \<and> dpc_arg (dpc (queue_irq_dpc d f a s) e) = dpc_arg (dpc s e))"
proof (cases "d \<in> set xs")
  case True
  then show ?thesis using D by (simp add: dpc_queued_def queue_irq_dpc_def)
next
  case False
  let ?s = "queue_irq_dpc d f a s" let ?n = "\<lambda>d. dpc_next (dpc s d)"
  have S: "sq (dpc_queue_head s) (dpc_queue_tail s) ?n xs"
    and F: "\<And>e. dpc_flags (dpc s e) AND DPC_QUEUED \<noteq> 0 \<longleftrightarrow> e \<in> set xs" "\<And>e. dpc_flags (dpc s e) AND DPC_EXECUTING = 0"
    using D by (auto simp: dpc_queued_def)
  have t: "dpc_queue_tail s \<noteq> Some d" using sq_tail [OF S] False last_in_set [of xs] by (auto split: if_splits)
  have h: "dpc_queue_head ?s = (if dpc_queue_head s = None then Some d else dpc_queue_head s)" "dpc_queue_tail ?s = Some d"
    "dpc_next (dpc ?s e) = (case dpc_queue_tail s of None \<Rightarrow> ?n(d := None) | Some l \<Rightarrow> ?n(d := None, l := Some d)) e"
    "dpc_flags (dpc ?s e) = (if e = d then dpc_flags (dpc s d) OR DPC_QUEUED else dpc_flags (dpc s e))"
    "dpc_proc (dpc ?s e) = (if e = d then f else dpc_proc (dpc s e))" "dpc_arg (dpc ?s e) = (if e = d then a else dpc_arg (dpc s e))" for e
    using False F(1) [of d] t by (auto simp: queue_irq_dpc_def upd_dpc_def Let_def split: option.splits)
  have "dpc_queued ?s (xs @ [d])"
    unfolding dpc_queued_def h using sq_push [OF S False] F by auto
  then show ?thesis using False h by auto
qed

text \<open>
  C8. \<^verbatim>\<open>dispatch_dpc_queue\<close> returns with the queue empty after it has called the procedure of every
  queued DPC once, each with its own argument and in the order in which they were queued,
  when the procedures queue no further ones; called from a procedure it is a panic.
\<close>

theorem dispatch_dpc_queue_in_order:
  assumes "procs_quiet run g" "dpc_queued s xs"
  shows "if in_dpc s then dispatch_dpc_queue run s = Some (Panic ''sched: nested execution of dpc queue'')
    else \<exists>s'. dispatch_dpc_queue run s = Some (Ret s') \<and> dpc_queued s' [] \<and> \<not> in_dpc s' \<and>
      drest s' = fold (\<lambda>d. g (dpc_proc (dpc s d)) (dpc_arg (dpc s d))) xs (drest s)"
proof (cases "in_dpc s")
  case False
  let ?s = "s\<lparr>in_dpc := True\<rparr>"
  have "dpc_queued ?s xs" using assms(2) by (simp add: dpc_queued_def)
  from dpc_loop_drains [OF assms(1) this] obtain s' where s': "dpc_loop run ?s = Some s'" "dpc_queued s' []"
      "drest s' = fold (dpc_act g ?s) xs (drest ?s)" by blast
  have "dpc_act g ?s = (\<lambda>d. g (dpc_proc (dpc s d)) (dpc_arg (dpc s d)))" "drest ?s = drest s" "drest (s'\<lparr>in_dpc := False\<rparr>) = drest s'"
    by (simp_all add: fun_eq_iff dpc_act_def drest_def)
  then show ?thesis using False s' by (simp add: dispatch_dpc_queue_def dpc_queued_def)
qed (simp add: dispatch_dpc_queue_def)

section \<open>The dispatcher and the DPC queue\<close>

definition keeps_sched :: "'z sched_scheme \<Rightarrow> 'z sched_scheme \<Rightarrow> bool" where
  "keeps_sched s s' \<longleftrightarrow> (\<forall>q. sched_inv s q \<longrightarrow> (\<exists>q'. sched_inv s' q') \<and> current s' = current s \<and>
     (\<forall>t. t_state (thr s' t) = RUNNING \<longrightarrow> t_state (thr s t) = RUNNING))"

lemma keeps_sched_trans: "keeps_sched a b \<Longrightarrow> keeps_sched b c \<Longrightarrow> keeps_sched a c"
  unfolding keeps_sched_def by metis

lemma sched_inv_same:
  assumes "sched.truncate s' = sched.truncate s"
  shows "sched_inv s' q \<longleftrightarrow> sched_inv s q" "thr s' = thr s" "current s' = current s"
proof -
  show f: "thr s' = thr s" "current s' = current s" using assms by (simp_all add: sched.truncate_def)
  have g: "ready_head s' = ready_head s" "ready_tail s' = ready_tail s" "summary s' = summary s" using assms by (simp_all add: sched.truncate_def)
  have "nxt s' = nxt s" "prv s' = prv s" using f by (simp_all add: nxt_def prv_def fun_eq_iff)
  then show "sched_inv s' q \<longleftrightarrow> sched_inv s q" unfolding sched_inv_def queues_def f g by simp
qed

lemma keeps_sched_same: "sched.truncate s' = sched.truncate s \<Longrightarrow> keeps_sched s s'"
  using sched_inv_same [of s' s] unfolding keeps_sched_def by auto

lemma keeps_sched_upd:
  "keeps_sched a b \<Longrightarrow> keeps_sched a (upd_dpc d h b)" "keeps_sched a b \<Longrightarrow> keeps_sched a (b\<lparr>dpc_total := n\<rparr>)"
  "keeps_sched a b \<Longrightarrow> keeps_sched a (b\<lparr>in_dpc := c\<rparr>)"
  "keeps_sched a b \<Longrightarrow> keeps_sched a (b\<lparr>dpc_queue_head := p\<rparr>)" "keeps_sched a b \<Longrightarrow> keeps_sched a (b\<lparr>dpc_queue_tail := p\<rparr>)"
  by (erule keeps_sched_trans, rule keeps_sched_same, simp add: upd_dpc_def sched.truncate_def)+

lemma execute_dpc_keeps:
  assumes "\<forall>f a s. keeps_sched s (run f a s)" "keeps_sched a s"
  shows "keeps_sched a (execute_dpc run d s)"
proof -
  have r: "keeps_sched a (run f x s1)" if "keeps_sched a s1" for f x s1
    using keeps_sched_trans [OF that] assms(1) by blast
  show ?thesis unfolding execute_dpc_def Let_def using assms(2) by (auto intro!: keeps_sched_upd r)
qed

lemma get_next_dpc_keeps: "keeps_sched a s \<Longrightarrow> get_next_dpc s = (p, s') \<Longrightarrow> keeps_sched a s'"
  by (auto simp: get_next_dpc_def Let_def intro: keeps_sched_upd split: option.splits if_splits)

lemma dpc_loop_keeps:
  assumes run: "\<forall>f a s. keeps_sched s (run f a s)" and l: "dpc_loop run s = Some s'"
  shows "keeps_sched s s'"
proof -
  have "(\<forall>f a s. keeps_sched s (run f a s)) \<longrightarrow> keeps_sched s s'"
  proof (rule dpc_loop.raw_induct [where P = "\<lambda>run s s'. (\<forall>f a s. keeps_sched s (run f a s)) \<longrightarrow> keeps_sched s s'", OF _ l], intro impI)
    fix loop :: "'a procs \<Rightarrow> 'a dsys_scheme \<Rightarrow> 'a dsys_scheme option" and run s s'
    assume IH: "\<And>run s s'. loop run s = Some s' \<Longrightarrow> (\<forall>f a s. keeps_sched s (run f a s)) \<longrightarrow> keeps_sched s s'"
      and eq: "(case get_next_dpc s of (None, s1) \<Rightarrow> Some s1 | (Some d, s1) \<Rightarrow> loop run (execute_dpc run d s1)) = Some s'"
      and run: "\<forall>f a s. keeps_sched s (run f a s)"
    obtain p s1 where g: "get_next_dpc s = (p, s1)" by fastforce
    have k: "keeps_sched s s1" using get_next_dpc_keeps [OF keeps_sched_same g] by simp
    show "keeps_sched s s'"
    proof (cases p)
      case None
      then show ?thesis using eq g k by simp
    next
      case (Some d)
      then have "loop run (execute_dpc run d s1) = Some s'" using eq g by simp
      then show ?thesis using IH run keeps_sched_trans [OF execute_dpc_keeps [OF run k]] by blast
    qed
  qed
  then show ?thesis using run by blast
qed

lemma check_dpc_queue_drains:
  assumes quiet: "procs_quiet run g" and keep: "\<forall>f a s. keeps_sched s (run f a s)"
    and D: "dpc_queued s xs" "\<not> in_dpc s"
  shows "\<exists>s'. check_dpc_queue run s = Some (Ret s') \<and> dpc_queued s' [] \<and> \<not> in_dpc s' \<and>
    drest s' = fold (dpc_act g s) xs (drest s) \<and> keeps_sched s s'"
proof (cases "dpc_queue_head s")
  case None
  then have "xs = []" using D(1) by (cases xs) (auto simp: dpc_queued_def sq_def)
  then show ?thesis using None D by (simp add: check_dpc_queue_def keeps_sched_same)
next
  case (Some d)
  let ?s = "s\<lparr>in_dpc := True\<rparr>"
  have "dpc_queued ?s xs" using D(1) by (simp add: dpc_queued_def)
  from dpc_loop_drains [OF quiet this] obtain s' where s': "dpc_loop run ?s = Some s'" "dpc_queued s' []"
      "drest s' = fold (dpc_act g ?s) xs (drest ?s)" by blast
  have "keeps_sched s ?s" by (intro keeps_sched_upd keeps_sched_same) simp
  then have k: "keeps_sched s (s'\<lparr>in_dpc := False\<rparr>)"
    by (rule keeps_sched_upd(3) [OF keeps_sched_trans [OF _ dpc_loop_keeps [OF keep s'(1)]]])
  have "dpc_act g ?s = dpc_act g s" "drest ?s = drest s" "drest (s'\<lparr>in_dpc := False\<rparr>) = drest s'"
    by (simp_all add: fun_eq_iff dpc_act_def drest_def)
  then show ?thesis
    using Some D(2) s' k by (simp add: check_dpc_queue_def dispatch_dpc_queue_def dpc_queued_def)
qed

text \<open>
  C9. The dispatcher and the DPC queue together. \<^verbatim>\<open>dispatch\<close> first runs every queued DPC once, in the
  order of the queue, and leaves the queue empty; then it runs the first thread of the highest
  ready queue that is not empty in the state the procedures left. The procedures queue no further DPCs,
  keep the invariant of the ready queues and make no thread running.
\<close>

theorem dispatch_runs_dpcs_first:
  assumes "procs_quiet run g" "\<forall>f a s. keeps_sched s (run f a s)" "dpc_queued s xs" "\<not> in_dpc s"
    and "sched_inv s q" "t_state (thr s (current s)) \<noteq> RUNNING"
  shows "\<exists>s1 q1 r. check_dpc_queue run (s\<lparr>preempt_flag := False\<rparr>) = Some (Ret s1) \<and> dpc_queued s1 [] \<and>
    drest s1 = fold (\<lambda>d. g (dpc_proc (dpc s d)) (dpc_arg (dpc s d))) xs (drest (s\<lparr>preempt_flag := False\<rparr>)) \<and>
    sched_inv s1 q1 \<and> dispatch_dpcs run s = Some r \<and> picks s1 q1 r"
proof -
  let ?s = "s\<lparr>preempt_flag := False\<rparr>"
  have "dpc_queued ?s xs" "\<not> in_dpc ?s" using assms(3,4) by (simp_all add: dpc_queued_def)
  from check_dpc_queue_drains [OF assms(1,2) this] obtain s1 where s1: "check_dpc_queue run ?s = Some (Ret s1)"
      "dpc_queued s1 []" "drest s1 = fold (dpc_act g ?s) xs (drest ?s)" "keeps_sched ?s s1" by blast
  have "sched_inv ?s q" using assms(5) by (rule flag_inv)
  then obtain q1 where q1: "sched_inv s1 q1" "current s1 = current s"
      "\<And>x. t_state (thr s1 x) = RUNNING \<Longrightarrow> t_state (thr s x) = RUNNING"
    using s1(4) unfolding keeps_sched_def by fastforce
  have "\<forall>x. t_state (thr s1 x) \<noteq> RUNNING" using q1 assms(6) sched_invD(5) [OF q1(1)] by metis
  then have "picks s1 q1 (dispatch (\<lambda>_. Ret s1) s)" using q1 by (intro dispatch_picks) auto
  moreover have "dpc_act g ?s = (\<lambda>d. g (dpc_proc (dpc s d)) (dpc_arg (dpc s d)))" by (simp add: fun_eq_iff dpc_act_def)
  ultimately show ?thesis using s1 q1(1) by (auto simp: dispatch_dpcs_def)
qed

section \<open>Task queues\<close>

lemma task_bits [simp]:
  "(w AND NOT TASK_QUEUED) AND TASK_QUEUED = 0" "(w OR TASK_QUEUED) AND TASK_QUEUED = TASK_QUEUED"
  "(w AND NOT TASK_QUEUED) AND TASK_EXECUTING = w AND TASK_EXECUTING" "(w OR TASK_QUEUED) AND TASK_EXECUTING = w AND TASK_EXECUTING"
  "(w AND NOT TASK_EXECUTING) AND TASK_EXECUTING = 0" "(w AND NOT TASK_EXECUTING) AND TASK_QUEUED = w AND TASK_QUEUED"
  "(w OR TASK_EXECUTING) AND TASK_QUEUED = w AND TASK_QUEUED" "TASK_QUEUED \<noteq> 0"
  using flag_bits by (simp_all add: TASK_QUEUED_def TASK_EXECUTING_def DPC_QUEUED_def DPC_EXECUTING_def)

text \<open>
  \<open>task_queued q s xs\<close>: the tasks \<open>xs\<close> wait in the queue \<open>q\<close>; every task that is marked as queued is in
  one of the queues \<open>X\<close>, of which only \<open>q\<close> is looked at.
\<close>

definition task_queued :: "nat \<Rightarrow> nat set \<Rightarrow> 'z dsys_scheme \<Rightarrow> nat list \<Rightarrow> bool" where
  "task_queued q X s xs \<longleftrightarrow>
     sq (tq_head (tq s q)) (tq_tail (tq s q)) (\<lambda>t. task_next (task s t)) xs \<and> tq_size (tq s q) = int (length xs) \<and>
     set xs \<inter> X = {} \<and> (\<forall>t. task_flags (task s t) AND TASK_QUEUED \<noteq> 0 \<longleftrightarrow> t \<in> set xs \<union> X)"









text \<open>The state outside the tasks and the task queues; the procedures change neither.\<close>

definition trest :: "'z dsys_scheme \<Rightarrow> 'z dsys_scheme" where
  "trest s = s\<lparr>task := (\<lambda>_. \<lparr>task_proc = None, task_arg = None, task_next = None, task_flags = 0\<rparr>),
     tq := (\<lambda>_. \<lparr>tq_head = None, tq_tail = None, tq_thread = 0, tq_maxsize = 0, tq_size = 0, tq_flags = 0\<rparr>)\<rparr>"

definition tasks_quiet :: "'z procs \<Rightarrow> (ptr \<Rightarrow> ptr \<Rightarrow> 'z dsys_scheme \<Rightarrow> 'z dsys_scheme) \<Rightarrow> bool" where
  "tasks_quiet run g \<longleftrightarrow> (\<forall>f a s. task (run f a s) = task s \<and> tq (run f a s) = tq s \<and> trest (run f a s) = g f a (trest s))"

definition tasks_pending :: "nat \<Rightarrow> nat set \<Rightarrow> 'z dsys_scheme \<Rightarrow> nat list \<Rightarrow> bool" where
  "tasks_pending q X s xs \<longleftrightarrow>
     task_queued q X s xs \<and> (\<forall>t \<in> set xs. task_flags (task s t) AND TASK_EXECUTING = 0)"







section \<open>Witnesses\<close>

text \<open>
  Two DPCs and two tasks are queued; the procedures count their calls in the number of lost
  DPCs, weighted so that the order matters.
\<close>

definition demo_run :: "unit procs" where
  "demo_run f a s = s\<lparr>dpc_lost := 10 * dpc_lost s + (case f of None \<Rightarrow> 0 | Some n \<Rightarrow> of_nat n)\<rparr>"

definition demo_deferred :: dsys where
  "demo_deferred =
     \<lparr>thr = thr demo_sched, current = 0, preempt_flag = False, ready_head = ready_head demo_sched, ready_tail = ready_tail demo_sched,
      summary = summary demo_sched,
      dpc = (\<lambda>_. \<lparr>dpc_proc = None, dpc_arg = None, dpc_next = None, dpc_flags = 0\<rparr>)
        (3 := \<lparr>dpc_proc = Some 7, dpc_arg = None, dpc_next = Some 4, dpc_flags = 1\<rparr>,
         4 := \<lparr>dpc_proc = Some 8, dpc_arg = None, dpc_next = None, dpc_flags = 1\<rparr>),
      dpc_queue_head = Some 3, dpc_queue_tail = Some 4, in_dpc = False, dpc_total = 0, dpc_lost = 0,
      task = (\<lambda>_. \<lparr>task_proc = None, task_arg = None, task_next = None, task_flags = 0\<rparr>)
        (5 := \<lparr>task_proc = Some 1, task_arg = None, task_next = Some 6, task_flags = 1\<rparr>,
         6 := \<lparr>task_proc = Some 2, task_arg = None, task_next = None, task_flags = 1\<rparr>),
      tq = (\<lambda>_. \<lparr>tq_head = Some 5, tq_tail = Some 6, tq_thread = 2, tq_maxsize = 8, tq_size = 2, tq_flags = 0\<rparr>),
      sys_task_queue = 0, idle_tasks_head = None, idle_tasks_tail = None\<rparr>"

lemma demo_run_quiet: "procs_quiet demo_run demo_run" "tasks_quiet demo_run demo_run"
  by (simp_all add: procs_quiet_def tasks_quiet_def demo_run_def dpart_def drest_def trest_def)

lemma demo_run_keeps: "\<forall>f a s. keeps_sched s (demo_run f a s)"
  by (intro allI keeps_sched_same) (simp add: demo_run_def sched.truncate_def)

lemma demo_deferred_queued: "dpc_queued demo_deferred [3, 4]" "tasks_pending 0 {} demo_deferred [5, 6]"
  by (auto simp: dpc_queued_def tasks_pending_def task_queued_def sq_def demo_deferred_def DPC_QUEUED_def DPC_EXECUTING_def
      TASK_QUEUED_def TASK_EXECUTING_def)

lemma demo_deferred_sched: "sched_inv demo_deferred ((\<lambda>_. [])(10 := [1]))"
  using demo_sched_inv sched_inv_same(1) [of demo_deferred demo_sched]
  by (simp add: demo_deferred_def demo_sched_def sched.truncate_def)

lemma dispatch_dpc_queue_in_order_witness:
  "\<exists>s'. dispatch_dpc_queue demo_run demo_deferred = Some (Ret s') \<and> dpc_queued s' [] \<and> \<not> in_dpc s' \<and> dpc_lost s' = 78"
proof -
  have e: "\<not> in_dpc demo_deferred" by (simp add: demo_deferred_def)
  obtain s' where s': "dispatch_dpc_queue demo_run demo_deferred = Some (Ret s')" "dpc_queued s' []" "\<not> in_dpc s'"
      "drest s' = fold (\<lambda>d. demo_run (dpc_proc (dpc demo_deferred d)) (dpc_arg (dpc demo_deferred d))) [3, 4] (drest demo_deferred)"
    using dispatch_dpc_queue_in_order [OF demo_run_quiet(1) demo_deferred_queued(1), unfolded if_not_P [OF e]] by blast
  have "dpc_lost (drest s') = 78" unfolding s'(4) by (simp add: demo_deferred_def demo_run_def drest_def)
  then show ?thesis using s' by (auto simp: drest_def)
qed

definition demo_waiting :: dsys where
  "demo_waiting = upd_thread 0 (\<lambda>x. x\<lparr>t_state := WAITING\<rparr>) demo_deferred"

lemma demo_waiting_inv: "sched_inv demo_waiting ((\<lambda>_. [])(10 := [1]))"
  unfolding demo_waiting_def
  by (rule upd_out_inv [OF demo_deferred_sched]) (simp_all add: demo_deferred_def demo_sched_def zero_thread_def)

lemma demo_waiting_queued: "dpc_queued demo_waiting [3, 4]"
  using demo_deferred_queued(1) by (simp add: dpc_queued_def demo_waiting_def upd_thread_def)

lemma dispatch_runs_dpcs_first_witness:
  "\<exists>s1 q1 r. check_dpc_queue demo_run (demo_waiting\<lparr>preempt_flag := False\<rparr>) = Some (Ret s1) \<and> dpc_queued s1 [] \<and>
     dpc_lost s1 = 78 \<and> sched_inv s1 q1 \<and> dispatch_dpcs demo_run demo_waiting = Some r \<and> picks s1 q1 r"
proof -
  have e: "\<not> in_dpc demo_waiting" "t_state (thr demo_waiting (current demo_waiting)) \<noteq> RUNNING"
    by (simp_all add: demo_waiting_def demo_deferred_def upd_thread_def)
  obtain s1 q1 r where s1: "check_dpc_queue demo_run (demo_waiting\<lparr>preempt_flag := False\<rparr>) = Some (Ret s1)" "dpc_queued s1 []"
      "drest s1 = fold (\<lambda>d. demo_run (dpc_proc (dpc demo_waiting d)) (dpc_arg (dpc demo_waiting d))) [3, 4]
         (drest (demo_waiting\<lparr>preempt_flag := False\<rparr>))"
      "sched_inv s1 q1" "dispatch_dpcs demo_run demo_waiting = Some r" "picks s1 q1 r"
    using dispatch_runs_dpcs_first [OF demo_run_quiet(1) demo_run_keeps demo_waiting_queued e(1) demo_waiting_inv e(2)] by blast
  have "dpc_lost (drest s1) = 78"
    unfolding s1(3) by (simp add: demo_waiting_def demo_deferred_def upd_thread_def demo_run_def drest_def)
  then show ?thesis using s1 by (auto simp: drest_def)
qed



end
