(* ===== verification/Numconv.thy ===== *)
theory Numconv
  imports Cstring_Laws
begin

text \<open>
  Conversion between numbers and strings (\<^verbatim>\<open>src/lib/strtol.c\<close>, \<^verbatim>\<open>src/lib/xtoa.c\<close>), over the byte
  memory of \<open>Cmem\<close>. \<^verbatim>\<open>long\<close> has 32 bits. A conversion returns the number, the value stored
  through \<^verbatim>\<open>endptr\<close> when there is one, and whether it set \<^verbatim>\<open>errno\<close> to \<^verbatim>\<open>ERANGE\<close>. \<^verbatim>\<open>strtoxl\<close> and
  \<^verbatim>\<open>strtoxll\<close> are the same code at two widths: the parts up to the digits and the loop over the
  digits are shared.
\<close>

section \<open>String to number\<close>

definition FL_UNSIGNED :: u32 where "FL_UNSIGNED = 1"
definition FL_NEG :: u32 where "FL_NEG = 2"
definition FL_OVERFLOW :: u32 where "FL_OVERFLOW = 4"
definition FL_READDIGIT :: u32 where "FL_READDIGIT = 8"

lemmas fl_defs = FL_UNSIGNED_def FL_NEG_def FL_OVERFLOW_def FL_READDIGIT_def

text \<open>\<^verbatim>\<open>while (isspace(c)) c = *p++;\<close> with \<open>p\<close> the address of the next character.\<close>

partial_function (option) skip_space :: "mem \<Rightarrow> u8 \<Rightarrow> int \<Rightarrow> (u8 \<times> int) option" where
  "skip_space m c p = (if m_isspace (sint c) then skip_space m (m p) (p + 1) else Some (c, p))"

definition read_sign :: "mem \<Rightarrow> u8 \<Rightarrow> int \<Rightarrow> u32 \<Rightarrow> u8 \<times> int \<times> u32" where
  "read_sign m c p flags =
     (if c = 45 then (m p, p + 1, flags OR FL_NEG) else if c = 43 then (m p, p + 1, flags) else (c, p, flags))"

text \<open>The base 0 stands for the base the prefix of the number says; the prefix of a base 16 number is skipped.\<close>

definition is_x :: "u8 \<Rightarrow> bool" where "is_x c \<longleftrightarrow> c = 120 \<or> c = 88"

definition choose_base :: "mem \<Rightarrow> u8 \<Rightarrow> int \<Rightarrow> int \<Rightarrow> int" where
  "choose_base m c p ibase =
     (if ibase = 0 then if c \<noteq> 48 then 10 else if is_x (m p) then 16 else 8 else ibase)"

definition skip_prefix :: "mem \<Rightarrow> u8 \<Rightarrow> int \<Rightarrow> int \<Rightarrow> u8 \<times> int" where
  "skip_prefix m c p ibase = (if ibase = 16 \<and> c = 48 \<and> is_x (m p) then (m (p + 1), p + 2) else (c, p))"

definition digval :: "u8 \<Rightarrow> u32 option" where
  "digval c =
     (if m_isdigit (sint c) then Some (word_of_int (sint c - 48))
      else if m_isalpha (sint c) then Some (word_of_int (m_toupper (sint c) - 65 + 10))
      else None)"

partial_function (option) digits_loop ::
  "mem \<Rightarrow> 'a::len word \<Rightarrow> 'a word \<Rightarrow> 'a word \<Rightarrow> u8 \<Rightarrow> int \<Rightarrow> 'a word \<Rightarrow> u32 \<Rightarrow> ('a word \<times> u32 \<times> int) option" where
  "digits_loop m base maxval maxdig c p number flags =
     (case digval c of
        None \<Rightarrow> Some (number, flags, p)
      | Some d \<Rightarrow>
          let d = ucast d in
          if d \<ge> base then Some (number, flags, p)
          else
            let flags = flags OR FL_READDIGIT in
            if number < maxval \<or> number = maxval \<and> d \<le> maxdig then
              digits_loop m base maxval maxdig (m p) (p + 1) (number * base + d) flags
            else digits_loop m base maxval maxdig (m p) (p + 1) number (flags OR FL_OVERFLOW))"

definition UINT32_MAX :: u32 where "UINT32_MAX = 0xffffffff"
definition INT32_MAX :: u32 where "INT32_MAX = 0x7fffffff"
definition INT32_MIN :: u32 where "INT32_MIN = 0x80000000"
definition UINT64_MAX :: "64 word" where "UINT64_MAX = 0xffffffffffffffff"
definition INT64_MAX :: "64 word" where "INT64_MAX = 0x7fffffffffffffff"
definition INT64_MIN :: "64 word" where "INT64_MIN = 0x8000000000000000"

text \<open>
  What follows the digits: nothing read, out of range, and the sign. The comparisons with the
  limits are unsigned, so a negative number is out of range when its magnitude is below that of
  the minimum.
\<close>

definition finish_number ::
  "int \<Rightarrow> int \<Rightarrow> bool \<Rightarrow> u32 \<Rightarrow> 'a::len word \<Rightarrow> 'a word \<Rightarrow> 'a word \<Rightarrow> 'a word \<Rightarrow> 'a word \<times> int option \<times> bool" where
  "finish_number nptr p endptr flags number umax imin imax =
     (let p = p - 1;
          (number, p, erange) =
            (if flags AND FL_READDIGIT = 0 then (0, nptr, False)
             else if flags AND FL_OVERFLOW \<noteq> 0 \<or>
                 flags AND FL_UNSIGNED = 0 \<and>
                   (flags AND FL_NEG \<noteq> 0 \<and> number < imin \<or> flags AND FL_NEG = 0 \<and> number > imax) then
               (if flags AND FL_UNSIGNED \<noteq> 0 then umax else if flags AND FL_NEG \<noteq> 0 then imin else imax, p, True)
             else (number, p, False))
      in (if flags AND FL_NEG \<noteq> 0 then - number else number, if endptr then Some p else None, erange))"

definition strtoxl :: "int \<Rightarrow> bool \<Rightarrow> int \<Rightarrow> u32 \<Rightarrow> mem \<Rightarrow> (u32 \<times> int option \<times> bool) option" where
  "strtoxl nptr endptr ibase flags m =
     do {
       (c, p) \<leftarrow> skip_space m (m nptr) (nptr + 1);
       (let (c, p, flags) = read_sign m c p flags in
        if ibase < 0 \<or> ibase = 1 \<or> ibase > 36 then Some (0, if endptr then Some nptr else None, False)
        else
          let ibase = choose_base m c p ibase;
              (c, p) = skip_prefix m c p ibase;
              base = word_of_int ibase in
          do {
            (number, flags, p) \<leftarrow> digits_loop m base (UINT32_MAX div base) (UINT32_MAX mod base) c p 0 flags;
            Some (finish_number nptr p endptr flags number UINT32_MAX INT32_MIN INT32_MAX)
          })
     }"

definition strtol :: "int \<Rightarrow> bool \<Rightarrow> int \<Rightarrow> mem \<Rightarrow> (int \<times> int option \<times> bool) option" where
  "strtol nptr endptr ibase m = do { (n, e, r) \<leftarrow> strtoxl nptr endptr ibase 0 m; Some (sint n, e, r) }"

definition strtoul :: "int \<Rightarrow> bool \<Rightarrow> int \<Rightarrow> mem \<Rightarrow> (u32 \<times> int option \<times> bool) option" where
  "strtoul nptr endptr ibase m = strtoxl nptr endptr ibase FL_UNSIGNED m"

definition strtoxll :: "int \<Rightarrow> bool \<Rightarrow> int \<Rightarrow> u32 \<Rightarrow> mem \<Rightarrow> (64 word \<times> int option \<times> bool) option" where
  "strtoxll nptr endptr ibase flags m =
     do {
       (c, p) \<leftarrow> skip_space m (m nptr) (nptr + 1);
       (let (c, p, flags) = read_sign m c p flags in
        if ibase < 0 \<or> ibase = 1 \<or> ibase > 36 then Some (0, if endptr then Some nptr else None, False)
        else
          let ibase = choose_base m c p ibase;
              (c, p) = skip_prefix m c p ibase;
              base = word_of_int ibase in
          do {
            (number, flags, p) \<leftarrow> digits_loop m base (INT64_MAX div base) (INT64_MAX mod base) c p 0 flags;
            Some (finish_number nptr p endptr flags number UINT64_MAX INT64_MIN INT64_MAX)
          })
     }"

definition strtoll :: "int \<Rightarrow> bool \<Rightarrow> int \<Rightarrow> mem \<Rightarrow> (int \<times> int option \<times> bool) option" where
  "strtoll nptr endptr ibase m = do { (n, e, r) \<leftarrow> strtoxll nptr endptr ibase 0 m; Some (sint n, e, r) }"

definition strtoull :: "int \<Rightarrow> bool \<Rightarrow> int \<Rightarrow> mem \<Rightarrow> (64 word \<times> int option \<times> bool) option" where
  "strtoull nptr endptr ibase m = strtoxll nptr endptr ibase FL_UNSIGNED m"

definition strtoimax :: "int \<Rightarrow> bool \<Rightarrow> int \<Rightarrow> mem \<Rightarrow> (int \<times> int option \<times> bool) option" where
  "strtoimax nptr endptr ibase m = do { (n, e, r) \<leftarrow> strtoxll nptr endptr ibase 0 m; Some (sint n, e, r) }"

definition strtoumax :: "int \<Rightarrow> bool \<Rightarrow> int \<Rightarrow> mem \<Rightarrow> (64 word \<times> int option \<times> bool) option" where
  "strtoumax nptr endptr ibase m = strtoxll nptr endptr ibase FL_UNSIGNED m"

text \<open>\<^verbatim>\<open>atol\<close>: the total is kept in a 32-bit word.\<close>

partial_function (option) atol_space :: "mem \<Rightarrow> int \<Rightarrow> int option" where
  "atol_space m p = (if m_isspace (uint (m p)) then atol_space m (p + 1) else Some p)"

partial_function (option) atol_loop :: "mem \<Rightarrow> u8 \<Rightarrow> int \<Rightarrow> u32 \<Rightarrow> u32 option" where
  "atol_loop m c p tot =
     (if m_isdigit (uint c) then atol_loop m (m p) (p + 1) (10 * tot + word_of_int (uint c - 48)) else Some tot)"

definition atol :: "int \<Rightarrow> mem \<Rightarrow> int option" where
  "atol nptr m =
     do {
       p \<leftarrow> atol_space m nptr;
       (let sign = m p;
            (c, p) = (if sign = 45 \<or> sign = 43 then (m (p + 1), p + 2) else (sign, p + 1)) in
        do {
          tot \<leftarrow> atol_loop m c p 0;
          Some (sint (if sign = 45 then - tot else tot))
        })
     }"

definition atoi :: "int \<Rightarrow> mem \<Rightarrow> int option" where
  "atoi nptr m = atol nptr m"

section \<open>Number to string\<close>

definition digit_char :: "u32 \<Rightarrow> u8" where
  "digit_char d = (if d > 9 then ucast (d - 10 + 97) else ucast (d + 48))"

text \<open>A division by the radix 0 traps: it has the value \<open>None\<close>, like the loop that does not end.\<close>

partial_function (option) xtoa_digits :: "u32 \<Rightarrow> int \<Rightarrow> u32 \<Rightarrow> mem \<Rightarrow> (int \<times> mem) option" where
  "xtoa_digits val p radix m =
     (if radix = 0 then None
      else
        let m' = m(p := digit_char (val mod radix)) in
        if val div radix > 0 then xtoa_digits (val div radix) (p + 1) radix m' else Some (p + 1, m'))"

function xtoa_swap :: "int \<Rightarrow> int \<Rightarrow> mem \<Rightarrow> mem" where
  "xtoa_swap firstdig p m =
     (let m' = m(p := m firstdig, firstdig := m p) in
      if firstdig + 1 < p - 1 then xtoa_swap (firstdig + 1) (p - 1) m' else m')"
  by pat_completeness auto
termination by (relation "measure (\<lambda>(f, p, _). nat (p - f))") auto

definition xtoa :: "u32 \<Rightarrow> int \<Rightarrow> u32 \<Rightarrow> bool \<Rightarrow> mem \<Rightarrow> mem option" where
  "xtoa val buf radix negative m =
     (let (firstdig, val, m) = (if negative then (buf + 1, - val, m(buf := 45)) else (buf, val, m)) in
      do {
        (p, m) \<leftarrow> xtoa_digits val firstdig radix m;
        Some (xtoa_swap firstdig (p - 1) (m(p := 0)))
      })"

definition itoa :: "u32 \<Rightarrow> int \<Rightarrow> u32 \<Rightarrow> mem \<Rightarrow> (int \<times> mem) option" where
  "itoa val buf radix m =
     do {
       m' \<leftarrow> (if radix = 10 \<and> sint val < 0 then xtoa val buf radix True m else xtoa val buf radix False m);
       Some (buf, m')
     }"

definition ltoa :: "u32 \<Rightarrow> int \<Rightarrow> u32 \<Rightarrow> mem \<Rightarrow> (int \<times> mem) option" where
  "ltoa val buf radix m = do { m' \<leftarrow> xtoa val buf radix (radix = 10 \<and> sint val < 0) m; Some (buf, m') }"

definition ultoa :: "u32 \<Rightarrow> int \<Rightarrow> u32 \<Rightarrow> mem \<Rightarrow> (int \<times> mem) option" where
  "ultoa val buf radix m = do { m' \<leftarrow> xtoa val buf radix False m; Some (buf, m') }"

declare xtoa_swap.simps [simp del]

end
