(* ===== verification/Numconv_Laws.thy ===== *)
theory Numconv_Laws
  imports Numconv
begin

text \<open>
  What the conversions of \<open>Numconv\<close> compute: the loop over the digits with its overflow check
  against a reference value, reading a whole number, writing one, and that the two directions
  undo each other.
\<close>

section \<open>Reading digits\<close>

text \<open>The value of a list of digits, most significant first, appended to the number \<open>v\<close>.\<close>

definition numval :: "nat \<Rightarrow> nat \<Rightarrow> nat list \<Rightarrow> nat" where
  "numval b v ds = foldl (\<lambda>n d. n * b + d) v ds"

lemma numval_simps [simp]:
  "numval b v [] = v" "numval b v (d # ds) = numval b (v * b + d) ds"
  "numval b v (ds @ es) = numval b (numval b v ds) es"
  by (simp_all add: numval_def)

lemma numval_ge: "0 < b \<Longrightarrow> v \<le> numval b v ds"
proof (induction ds arbitrary: v)
  case (Cons d ds)
  have "v \<le> v * b" using Cons.prems by simp
  also have "\<dots> \<le> numval b (v * b + d) ds" using Cons.IH [OF Cons.prems, of "v * b + d"] by linarith
  finally show ?case by simp
qed simp

lemma div_mod_bound:
  assumes "d < b"
  shows "n < M div b \<or> n = M div b \<and> d \<le> M mod b \<longleftrightarrow> n * b + d \<le> (M :: nat)"
proof -
  have M: "M = (M div b) * b + M mod b" "M mod b < b" using assms by simp_all
  consider "n < M div b" | "n = M div b" | "M div b < n" by linarith
  then show ?thesis
  proof cases
    case 1
    then have "Suc n * b \<le> (M div b) * b" by (intro mult_le_mono1) simp
    then have "n * b + d \<le> M" using assms M(1) unfolding mult_Suc by linarith
    with 1 show ?thesis by simp
  next
    case 2
    then show ?thesis using M by (metis add_le_cancel_left less_irrefl)
  next
    case 3
    then have "Suc (M div b) * b \<le> n * b" by (intro mult_le_mono1) simp
    then have "M < n * b + d" using M unfolding mult_Suc by linarith
    with 3 show ?thesis by simp
  qed
qed

text \<open>The accumulator of the loop: the number so far and whether a digit did not fit.\<close>

fun accum :: "nat \<Rightarrow> nat \<Rightarrow> nat \<times> bool \<Rightarrow> nat list \<Rightarrow> nat \<times> bool" where
  "accum M b s [] = s"
| "accum M b (n, ovf) (d # ds) = accum M b (if n * b + d \<le> M then (n * b + d, ovf) else (n, True)) ds"

lemma accum_ovf: "accum M b (n, ovf) ds = (fst (accum M b (n, False) ds), ovf \<or> snd (accum M b (n, False) ds))"
proof (induction ds arbitrary: n ovf)
  case (Cons d ds)
  show ?case
    using Cons.IH [of "n * b + d" ovf] Cons.IH [of n True] Cons.IH [of n ovf]
    by (cases "n * b + d \<le> M") simp_all
qed simp

lemma accum_spec:
  assumes "0 < b"
  shows "n \<le> M \<Longrightarrow> (snd (accum M b (n, False) ds) \<longleftrightarrow> \<not> numval b n ds \<le> M) \<and>
    (numval b n ds \<le> M \<longrightarrow> fst (accum M b (n, False) ds) = numval b n ds)"
proof (induction ds arbitrary: n)
  case (Cons d ds)
  show ?case
  proof (cases "n * b + d \<le> M")
    case True
    then show ?thesis using Cons.IH [OF True] by simp
  next
    case False
    then have "\<not> numval b (n * b + d) ds \<le> M" using numval_ge [OF assms(1), of "n * b + d" ds] by linarith
    then show ?thesis using False accum_ovf [of M b n True ds] by simp
  qed
qed simp

lemma accum_le: "n \<le> M \<Longrightarrow> fst (accum M b (n, ovf) ds) \<le> M"
proof (induction ds arbitrary: n ovf)
  case (Cons d ds)
  then show ?case by (cases "n * b + d \<le> M") simp_all
qed simp

text \<open>The digit a character stands for.\<close>

lemma sint_mod_256: "sint c mod 256 = uint c" for c :: u8
  using uint_sint [of c] by (simp add: take_bit_eq_mod)

lemma sint_small_char: "uint c < 128 \<Longrightarrow> sint c = uint c" for c :: u8
  using signed_take_bit_int_eq_self [of 7 "uint c"] uint_nonnegative [of c] by (simp add: sint_uint)

lemma digval_eq:
  "digval c = (let u = unat c in
     if 48 \<le> u \<and> u \<le> 57 then Some (of_nat (u - 48))
     else if 65 \<le> u \<and> u \<le> 90 then Some (of_nat (u - 55))
     else if 96 \<le> u \<and> u \<le> 121 then Some (of_nat (u - 87))
     else None)"
proof -
  define u where "u = unat c"
  have u: "uint c = int u" by (simp add: u_def)
  have s: "sint c = int u" if "u < 128" using sint_small_char [of c] that u by simp
  have w: "word_of_int (int u - int k) = (of_nat (u - k) :: u32)" if "k \<le> u" for k
    using that by (metis of_nat_diff of_int_of_nat_eq)
  show ?thesis
    using s w [of 48] w [of 55] w [of 87]
    by (auto simp: digval_def m_toupper_def m_class_iff sint_mod_256 Let_def u simp flip: u_def)
qed

lemma digval_bound: "digval c = Some e \<Longrightarrow> unat e \<le> 35"
  by (auto simp: digval_eq Let_def unsigned_of_nat take_bit_nat_eq_self simp del: of_nat_diff split: if_splits)

text \<open>\<open>digits b cs ds\<close>: the characters \<open>cs\<close> are digits of base \<open>b\<close> with the values \<open>ds\<close>.\<close>

definition digits :: "nat \<Rightarrow> u8 list \<Rightarrow> nat list \<Rightarrow> bool" where
  "digits b cs ds \<longleftrightarrow> list_all2 (\<lambda>c d. digval c = Some (of_nat d) \<and> d < b) cs ds"

definition no_digit :: "nat \<Rightarrow> u8 \<Rightarrow> bool" where
  "no_digit b c \<longleftrightarrow> (case digval c of None \<Rightarrow> True | Some e \<Rightarrow> b \<le> unat e)"

lemma no_digit_0: "no_digit b 0"
  by (simp add: no_digit_def digval_def m_class_iff)

text \<open>The flags after the digits: \<open>FL_READDIGIT\<close> when there was one, \<open>FL_OVERFLOW\<close> when one did not fit.\<close>

definition read_flags :: "u32 \<Rightarrow> bool \<Rightarrow> bool \<Rightarrow> u32" where
  "read_flags f some ovf = f OR (if some then FL_READDIGIT else 0) OR (if ovf then FL_OVERFLOW else 0)"

lemma read_flags_step:
  "read_flags (f OR FL_READDIGIT) s v = read_flags f True v"
  "read_flags ((f OR FL_READDIGIT) OR FL_OVERFLOW) s v = read_flags f True True"
  by (auto simp: read_flags_def bit_eq_iff bit_or_iff)

lemma word_digit_step:
  fixes M number :: "'a::len word"
  assumes b: "d < b" "b < 2 ^ LENGTH('a)" and n: "number \<le> M"
  shows "number < M div of_nat b \<or> number = M div of_nat b \<and> of_nat d \<le> M mod of_nat b \<longleftrightarrow>
      unat number * b + d \<le> unat M"
    and "unat number * b + d \<le> unat M \<Longrightarrow> unat (number * of_nat b + of_nat d) = unat number * b + d"
proof -
  have u: "unat (of_nat b :: 'a word) = b" "unat (of_nat d :: 'a word) = d"
    using b by (simp_all add: unsigned_of_nat take_bit_nat_eq_self)
  show "number < M div of_nat b \<or> number = M div of_nat b \<and> of_nat d \<le> M mod of_nat b \<longleftrightarrow>
      unat number * b + d \<le> unat M"
    unfolding div_mod_bound [OF b(1), symmetric] word_less_nat_alt word_le_nat_alt word_unat_eq_iff
    by (simp add: unat_div unat_mod u)
  assume "unat number * b + d \<le> unat M"
  then have "unat number * b + d < 2 ^ LENGTH('a)" using unsigned_less [of M, where 'a = nat] by linarith
  then show "unat (number * of_nat b + of_nat d) = unat number * b + d"
    by (simp add: unat_word_ariths u)
qed

lemma digits_loop_digits:
  fixes M number :: "'a::len word"
  assumes b: "2 \<le> b" "b \<le> 36" and L: "(36::nat) < 2 ^ LENGTH('a)"
  shows "digits b cs ds \<Longrightarrow> load q (length cs) m = cs \<Longrightarrow> no_digit b (m (q + int (length cs))) \<Longrightarrow> number \<le> M \<Longrightarrow>
    digits_loop m (of_nat b) (M div of_nat b) (M mod of_nat b) (m q) (q + 1) number flags =
      (let (n, ovf) = accum (unat M) b (unat number, False) ds in
       Some (of_nat n, read_flags flags (ds \<noteq> []) ovf, q + int (length cs) + 1))"
proof (induction cs arbitrary: ds q number flags)
  case Nil
  have ub: "unat (of_nat b :: 'a word) = b" using b L by (simp add: unsigned_of_nat take_bit_nat_eq_self)
  have uc: "unat (ucast e :: 'a word) = unat e" if "digval c = Some e" for c e
    using digval_bound [OF that] L by (simp add: unsigned_ucast_eq take_bit_nat_eq_self)
  show ?case
    using Nil b
    by (subst digits_loop.simps)
      (auto simp: digits_def no_digit_def word_le_nat_alt ub uc read_flags_def split: option.splits)
next
  case (Cons c cs)
  obtain d es where ds: "ds = d # es" "digval c = Some (of_nat d)" "d < b" "digits b cs es"
    using Cons.prems(1) by (auto simp: digits_def list_all2_Cons1)
  have d: "(ucast (of_nat d :: u32) :: 'a word) = of_nat d" "b < 2 ^ LENGTH('a)"
    using ds(3) b L by (simp_all add: unsigned_of_nat take_bit_nat_eq_self)
  have "of_nat d < (of_nat b :: 'a word)"
    using ds(3) d(2) by (simp add: word_less_nat_alt unsigned_of_nat take_bit_nat_eq_self)
  then have lt: "\<not> of_nat b \<le> (of_nat d :: 'a word)" by simp
  have c: "m q = c" "load (q + 1) (length cs) m = cs" "no_digit b (m (q + 1 + int (length cs)))"
    using Cons.prems(2,3) by (simp_all add: load_Suc add.assoc)
  note step = word_digit_step [OF ds(3) d(2) Cons.prems(4)]
  note IH = Cons.IH [OF ds(4) c(2,3)]
  show ?case
  proof (cases "unat number * b + d \<le> unat M")
    case True
    then have "number * of_nat b + of_nat d \<le> M" using step(2) by (simp add: word_le_nat_alt)
    from IH [OF this, of "flags OR FL_READDIGIT"] True step show ?thesis
      by (subst digits_loop.simps) (simp add: ds c d lt Let_def add.assoc read_flags_step split: prod.splits)
  next
    case False
    have no: "\<not> (number < M div of_nat b \<or> number = M div of_nat b \<and> of_nat d \<le> M mod of_nat b)"
      unfolding step(1) by (rule False)
    from IH [OF Cons.prems(4), of "(flags OR FL_READDIGIT) OR FL_OVERFLOW"] False
      accum_ovf [of "unat M" b "unat number" True es] show ?thesis
      by (subst digits_loop.simps)
        (simp add: ds c d lt Let_def add.assoc read_flags_step if_not_P [OF no] split: prod.splits)
  qed
qed


section \<open>Reading a number\<close>

text \<open>
  \<open>numeral m p b neg ds e\<close>: at \<open>p\<close> there is a number in base \<open>b\<close> with the digits \<open>ds\<close>, after white
  space and a sign, which is a minus if \<open>neg\<close>; \<open>e\<close> is the address behind it. A hexadecimal
  number has no prefix.
\<close>

definition spaces :: "u8 list \<Rightarrow> bool" where
  "spaces ws \<longleftrightarrow> (\<forall>c \<in> set ws. m_isspace (sint c))"

definition numeral_at :: "mem \<Rightarrow> int \<Rightarrow> nat \<Rightarrow> bool \<Rightarrow> nat list \<Rightarrow> int \<Rightarrow> bool" where
  "numeral_at m p b neg ds e \<longleftrightarrow>
     (\<exists>ws sg cs rest. cstr m p (ws @ sg @ cs @ rest) \<and> spaces ws \<and> sg \<in> (if neg then {[45]} else {[], [43]}) \<and>
        digits b cs ds \<and> ds \<noteq> [] \<and> (rest = [] \<or> no_digit b (hd rest)) \<and>
        \<not> (b = 16 \<and> cs = [48] \<and> rest \<noteq> [] \<and> is_x (hd rest)) \<and> e = p + int (length (ws @ sg @ cs)))"

lemma skip_space_cstr:
  "cstr m p (ws @ t) \<Longrightarrow> spaces ws \<Longrightarrow> t = [] \<or> \<not> m_isspace (sint (hd t)) \<Longrightarrow>
   skip_space m (m p) (p + 1) = Some (m (p + int (length ws)), p + int (length ws) + 1)"
proof (induction ws arbitrary: p)
  case Nil
  have "\<not> m_isspace (sint (m p))" using Nil by (cases t) (auto simp: m_class_iff)
  then show ?case by (subst skip_space.simps) simp
next
  case (Cons c ws)
  have "skip_space m (m (p + 1)) (p + 1 + 1) = Some (m (p + 1 + int (length ws)), p + 1 + int (length ws) + 1)"
    using Cons.prems by (intro Cons.IH) (simp_all add: spaces_def)
  with Cons.prems show ?case by (subst skip_space.simps) (simp add: spaces_def add.assoc)
qed

lemma digval_char:
  assumes "digval c = Some d"
  shows "\<not> m_isspace (sint c)" "c \<noteq> 45" "c \<noteq> 43" "c \<noteq> 0"
proof -
  have u: "48 \<le> unat c" "unat c \<le> 57 \<or> 65 \<le> unat c" "unat c \<le> 121"
    using assms by (auto simp: digval_eq Let_def split: if_splits)
  have "uint c = int (unat c)" by simp
  then have "\<not> (9 \<le> uint c \<and> uint c \<le> 13 \<or> uint c = 32)" using u(1) by linarith
  then show "\<not> m_isspace (sint c)" by (simp add: m_isspace_iff sint_mod_256)
  show "c \<noteq> 45" "c \<noteq> 43" "c \<noteq> 0" using u by auto
qed

lemma cstr_head: "cstr m p t \<Longrightarrow> m p = (if t = [] then 0 else hd t)"
  by (cases t) auto

lemma strtoxl_numeral:
  assumes "numeral_at m p b neg ds e" and b: "2 \<le> b" "b \<le> 36"
  shows "strtoxl p ep (int b) f m =
    (let (n, ovf) = accum (unat UINT32_MAX) b (0, False) ds in
     Some (finish_number p (e + 1) ep (read_flags (if neg then f OR FL_NEG else f) True ovf) (of_nat n) UINT32_MAX INT32_MIN INT32_MAX))"
proof -
  obtain ws sg cs rest where s: "cstr m p (ws @ sg @ cs @ rest)" "spaces ws" "sg \<in> (if neg then {[45]} else {[], [43]})"
      "digits b cs ds" "ds \<noteq> []" "rest = [] \<or> no_digit b (hd rest)"
      "\<not> (b = 16 \<and> cs = [48] \<and> rest \<noteq> [] \<and> is_x (hd rest))" "e = p + int (length (ws @ sg @ cs))"
    using assms(1) by (auto simp: numeral_at_def)
  define q where "q = p + int (length ws) + int (length sg)"
  obtain c cs' d where c: "cs = c # cs'" "digval c = Some d" using s(4,5) by (cases cs) (auto simp: digits_def list_all2_Cons1)
  have at: "cstr m (p + int (length ws)) (sg @ cs @ rest)" "cstr m q (cs @ rest)" "cstr m (q + int (length cs)) rest"
      "load q (length cs) m = cs"
    using s(1) by (simp_all add: cstr_append q_def)
  have sgc: "sg = [] \<or> sg = [43] \<or> sg = [45]" using s(3) by (auto split: if_splits)
  have "\<not> m_isspace (sint (hd (sg @ cs @ rest)))" using sgc digval_char [OF c(2)] by (auto simp: c m_class_iff)
  then have sp: "skip_space m (m p) (p + 1) = Some (m (p + int (length ws)), p + int (length ws) + 1)"
    using skip_space_cstr [OF s(1,2)] by blast
  have q: "m q = c" using at(2) c by simp
  have sign: "read_sign m (m (p + int (length ws))) (p + int (length ws) + 1) f = (m q, q + 1, if neg then f OR FL_NEG else f)"
    using sgc s(3) at(1) digval_char [OF c(2)] q unfolding read_sign_def q_def by (auto simp: c add.assoc split: if_splits)
  have pre: "skip_prefix m (m q) (q + 1) (int b) = (m q, q + 1)"
  proof -
    have "\<not> is_x (m (q + 1))" if "b = 16" "c = 48"
    proof (cases cs')
      case Nil
      then show ?thesis using that s(7) c at(3) cstr_head [of m "q + 1" rest] by (auto simp: is_x_def)
    next
      case (Cons c' cs'')
      then have "digval c' \<noteq> None" "\<not> no_digit b c'" "m (q + 1) = c'" using s(4) c at(2) b
        by (auto simp: digits_def no_digit_def list_all2_Cons1 unsigned_of_nat take_bit_nat_eq_self)
      then show ?thesis using that by (auto simp: is_x_def no_digit_def digval_eq)
    qed
    then show ?thesis using q by (auto simp: skip_prefix_def)
  qed
  have nd: "no_digit b (m (q + int (length cs)))"
    using cstr_head [OF at(3)] s(6) no_digit_0 by (auto split: if_splits)
  have e: "e = q + int (length cs)" using s(8) by (simp add: q_def)
  have "choose_base m (m q) (q + 1) (int b) = int b" using b by (simp add: choose_base_def)
  moreover have "(of_int (int b) :: u32) = of_nat b" by simp
  ultimately show ?thesis
    using digits_loop_digits [OF b _ s(4) at(4) nd, of 0 UINT32_MAX "if neg then f OR FL_NEG else f"] b s(5) sp sign pre
    unfolding strtoxl_def by (simp add: e Let_def UINT32_MAX_def split: prod.splits)
qed

lemma accum_u32:
  assumes "2 \<le> b"
  shows "accum (unat UINT32_MAX) b (0, False) ds =
    (fst (accum (unat UINT32_MAX) b (0, False) ds), 2 ^ 32 \<le> numval b 0 ds)"
    and "numval b 0 ds < 2 ^ 32 \<Longrightarrow> fst (accum (unat UINT32_MAX) b (0, False) ds) = numval b 0 ds"
  using accum_spec [of b 0 "unat UINT32_MAX" ds] assms by (auto simp: prod_eq_iff UINT32_MAX_def)

lemma strtoul_numeral:
  assumes "numeral_at m p b False ds e" "2 \<le> b" "b \<le> 36"
  shows "strtoul p True (int b) m =
    Some (if numval b 0 ds < 2 ^ 32 then of_nat (numval b 0 ds) else UINT32_MAX, Some e, 2 ^ 32 \<le> numval b 0 ds)"
  unfolding strtoul_def strtoxl_numeral [OF assms]
  by (subst accum_u32(1) [OF assms(2)])
    (simp add: accum_u32(2) [OF assms(2)] finish_number_def read_flags_def fl_defs)


lemma strtol_numeral:
  assumes "numeral_at m p b neg ds e" "2 \<le> b" "b \<le> 36"
  shows "strtol p True (int b) m =
    (let v = numval b 0 ds in
     Some (if neg then
             if 2 ^ 31 \<le> v \<and> v < 2 ^ 32 then (sint (- of_nat v :: u32), Some e, False) else (- (2 ^ 31), Some e, True)
           else if v < 2 ^ 31 then (int v, Some e, False) else (2 ^ 31 - 1, Some e, True)))"
proof -
  define v where "v = numval b 0 ds"
  have lt: "(of_nat v :: u32) < 0x80000000 \<longleftrightarrow> v < 2 ^ 31" "(of_nat v :: u32) > 0x7fffffff \<longleftrightarrow> 2 ^ 31 \<le> v"
      "v < 2 ^ 31 \<Longrightarrow> sint (of_nat v :: u32) = int v" if "v < 2 ^ 32"
    using that by (auto simp: word_less_nat_alt unsigned_of_nat take_bit_nat_eq_self signed_of_nat
        signed_take_bit_int_eq_self)
  show ?thesis
    unfolding strtol_def strtoxl_numeral [OF assms]
    by (subst accum_u32(1) [OF assms(2)])
      (use lt in \<open>auto simp: accum_u32(2) [OF assms(2)] finish_number_def read_flags_def fl_defs Let_def INT32_MIN_def INT32_MAX_def simp flip: v_def\<close>)
qed

section \<open>Writing a number\<close>

text \<open>The digits of a number, least significant first.\<close>

function lsd :: "nat \<Rightarrow> nat \<Rightarrow> nat list" where
  "lsd r v = v mod r # (if r < 2 \<or> v div r = 0 then [] else lsd r (v div r))"
  by pat_completeness auto
termination by (relation "measure snd") (auto simp: div_greater_zero_iff intro!: div_less_dividend)

declare lsd.simps [simp del]

lemma numval_lsd: "2 \<le> r \<Longrightarrow> numval r 0 (rev (lsd r v)) = v"
proof (induction r v rule: lsd.induct)
  case (1 r v)
  then show ?case by (subst lsd.simps) (auto simp: div_eq_0_iff)
qed

lemma lsd_less: "2 \<le> r \<Longrightarrow> d \<in> set (lsd r v) \<Longrightarrow> d < r"
proof (induction r v rule: lsd.induct)
  case (1 r v)
  from "1.prems"(2) have "d = v mod r \<or> \<not> (r < 2 \<or> v div r = 0) \<and> d \<in> set (lsd r (v div r))"
    by (subst (asm) lsd.simps) (auto split: if_splits)
  then show ?case using 1 by auto
qed

lemma lsd_ne [simp]: "lsd r v \<noteq> []"
  by (subst lsd.simps) simp

definition dchar :: "nat \<Rightarrow> u8" where "dchar d = digit_char (of_nat d)"

lemma unat_dchar: "d < 36 \<Longrightarrow> unat (dchar d) = (if d > 9 then d + 87 else d + 48)"
proof -
  assume d: "d < 36"
  then have u: "unat (of_nat d :: u32) = d" by (simp add: unsigned_of_nat take_bit_nat_eq_self)
  have "(of_nat d :: u32) > 9 \<longleftrightarrow> d > 9" using u by (simp add: word_less_nat_alt)
  moreover have "(ucast (of_nat d - 10 + 97 :: u32) :: u8) = of_nat (d + 87)" "(ucast (of_nat d + 48 :: u32) :: u8) = of_nat (d + 48)"
  proof -
    have "(of_nat d - 10 + 97 :: u32) = of_nat (d + 87)" "(of_nat d + 48 :: u32) = of_nat (d + 48)" by simp_all
    then show "(ucast (of_nat d - 10 + 97 :: u32) :: u8) = of_nat (d + 87)" "(ucast (of_nat d + 48 :: u32) :: u8) = of_nat (d + 48)"
      using d by (simp_all add: unsigned_of_nat take_bit_nat_eq_self del: of_nat_add)
  qed
  ultimately show ?thesis
    using d by (auto simp: dchar_def digit_char_def unsigned_of_nat take_bit_nat_eq_self simp del: of_nat_add)
qed

lemma digval_dchar: "d < 35 \<Longrightarrow> digval (dchar d) = Some (of_nat d)"
  using unat_dchar [of d] by (auto simp: digval_eq Let_def)

lemma dchar_nz: "d < 36 \<Longrightarrow> dchar d \<noteq> 0"
  using unat_dchar [of d] by (auto split: if_splits)

lemma xtoa_digits_store:
  "2 \<le> unat radix \<Longrightarrow> xtoa_digits val p radix m =
     Some (p + int (length (lsd (unat radix) (unat val))), store p (map dchar (lsd (unat radix) (unat val))) m)"
proof (induction "unat val" arbitrary: val p m rule: less_induct)
  case less
  let ?r = "unat radix" and ?v = "unat val"
  have r0: "radix \<noteq> 0" using less.prems by auto
  have dm: "unat (val div radix) = ?v div ?r" "val mod radix = of_nat (?v mod ?r)"
    by (simp_all add: unat_div unat_mod flip: unat_mod)
  have pos: "val div radix > 0 \<longleftrightarrow> ?v div ?r \<noteq> 0" by (metis dm(1) unat_eq_0 word_gt_0)
  show ?case
  proof (cases "?v div ?r = 0")
    case True
    have "lsd ?r ?v = [?v mod ?r]" using True by (subst lsd.simps) simp
    then show ?thesis using r0 pos True dm by (subst xtoa_digits.simps) (simp add: store_Cons dchar_def)
  next
    case False
    have L: "lsd ?r ?v = ?v mod ?r # lsd ?r (?v div ?r)" using False less.prems by (subst lsd.simps) simp
    have "?v div ?r < ?v" using False less.prems by (intro div_less_dividend) (auto intro: Nat.gr0I)
    then have "xtoa_digits (val div radix) (p + 1) radix (m(p := dchar (?v mod ?r))) =
        Some (p + 1 + int (length (lsd ?r (?v div ?r))), store (p + 1) (map dchar (lsd ?r (?v div ?r))) (m(p := dchar (?v mod ?r))))"
      using less.hyps [of "val div radix"] less.prems by (simp only: dm(1))
    then show ?thesis
      using r0 pos False dm L by (subst xtoa_digits.simps) (simp add: store_Cons dchar_def add.assoc Let_def del: fun_upd_apply)
  qed
qed

lemma xtoa_swap_rev: "f \<le> p \<Longrightarrow> xtoa_swap f p m = rev_loop f p m"
proof (induction f p m rule: xtoa_swap.induct)
  case (1 f p m)
  let ?m = "m(p := m f, f := m p)"
  have m: "?m = m(f := m p, p := m f)" by (cases "f = p") (auto simp: fun_upd_twist)
  have stop: "rev_loop a b m' = m'" if "b \<le> a" for a b m' using that by (subst rev_loop.simps) simp
  show ?case
  proof (cases "f + 1 < p - 1")
    case True
    then show ?thesis using 1 m by (subst xtoa_swap.simps, subst rev_loop.simps) (simp add: Let_def del: fun_upd_apply)
  next
    case False
    then have "xtoa_swap f p m = ?m" by (subst xtoa_swap.simps) (simp add: Let_def)
    moreover have "rev_loop f p m = ?m"
    proof (cases "f = p")
      case True then show ?thesis by (simp add: stop)
    next
      case ne: False
      then show ?thesis using False "1.prems" m by (subst rev_loop.simps) (simp add: stop del: fun_upd_apply)
    qed
    ultimately show ?thesis by simp
  qed
qed

lemma xtoa_store:
  assumes "2 \<le> unat radix"
  shows "xtoa val buf radix neg m =
    Some (if neg then store (buf + 1) (map dchar (rev (lsd (unat radix) (unat (- val)))) @ [0]) (m(buf := 45))
          else store buf (map dchar (rev (lsd (unat radix) (unat val))) @ [0]) m)"
proof -
  have main: "xtoa_swap f (p - 1) (m'(p := 0)) = store f (map dchar (rev L) @ [0]) m"
    if "L = lsd (unat radix) v" "p = f + int (length L)" "m' = store f (map dchar L) m" for f p v m m' L
  proof -
    have ne: "L \<noteq> []" using that by simp
    let ?m = "store f (map dchar L @ [0]) m"
    have "m'(p := 0) = ?m" using that by (simp add: store_snoc)
    moreover have "nat (p - 1 - f + 1) = length L" "f \<le> p - 1" "f \<le> p - 1 + 1" using that ne by (cases L; simp)+
    moreover have "load f (length L) ?m = map dchar L"
      using load_store [of f "map dchar L" m] by (simp add: store_snoc load_upd_out)
    ultimately have "xtoa_swap f (p - 1) (m'(p := 0)) = store f (rev (map dchar L)) ?m"
      by (simp add: xtoa_swap_rev rev_loop_store)
    also have "\<dots> = store f (map dchar (rev L) @ [0]) m"
      by (auto simp: store_def fun_eq_iff nth_append rev_map)
    finally show ?thesis .
  qed
  show ?thesis
    using main xtoa_digits_store [OF assms] by (simp add: xtoa_def Let_def del: fun_upd_apply)
qed


lemma uint_dchar: "d < 10 \<Longrightarrow> uint (dchar d) = int (d + 48)"
proof -
  assume "d < 10"
  then have "int (unat (dchar d)) = int (d + 48)" using unat_dchar [of d] by simp
  then show ?thesis by simp
qed

lemma atol_loop_digits:
  "\<forall>d \<in> set ds. d < 10 \<Longrightarrow> cstr m q (map dchar ds) \<Longrightarrow>
   atol_loop m (m q) (q + 1) (of_nat n) = Some (of_nat (numval 10 n ds))"
proof (induction ds arbitrary: q n)
  case Nil
  then show ?case by (subst atol_loop.simps) (simp add: m_class_iff)
next
  case (Cons d ds)
  then have d: "uint (m q) = int (d + 48)" by (simp add: uint_dchar)
  have "(of_int (int (d + 48) - 48) :: u32) = of_nat d" by simp
  moreover have "(10 * of_nat n + of_nat d :: u32) = of_nat (n * 10 + d)" by simp
  moreover have "atol_loop m (m (q + 1)) (q + 1 + 1) (of_nat (n * 10 + d)) = Some (of_nat (numval 10 (n * 10 + d) ds))"
    using Cons.prems by (intro Cons.IH) simp_all
  moreover have "m_isdigit (uint (m q))" using Cons.prems(1) by (simp add: d m_class_iff)
  ultimately show ?case
    unfolding list.map numval_simps by (subst atol_loop.simps) (simp only: d if_True)
qed

lemma atol_decimal:
  assumes "\<forall>d \<in> set ds. d < 10" "ds \<noteq> []" "cstr m p ((if neg then [45] else []) @ map dchar ds)"
  shows "atol p m = Some (sint (if neg then - of_nat (numval 10 0 ds) else of_nat (numval 10 0 ds) :: u32))"
proof -
  obtain d es where ds: "ds = d # es" using assms(2) by (cases ds) auto
  have c: "unat (dchar d) = d + 48" "d < 10" using unat_dchar [of d] assms(1) ds by simp_all
  then have ne: "dchar d \<noteq> 45" "dchar d \<noteq> 43" by auto
  have sp: "\<not> m_isspace (uint (m p))"
    using assms(3) c ds uint_dchar [of d] by (auto simp: m_class_iff split: if_splits)
  show ?thesis
  proof (cases neg)
    case True
    then have "cstr m (p + 1) (map dchar ds)" "m p = 45" using assms(3) by simp_all
    then show ?thesis
      using True sp atol_loop_digits [OF assms(1), of m "p + 1" 0]
      by (subst atol_def, subst atol_space.simps) (simp add: add.assoc)
  next
    case False
    then have "cstr m p (map dchar ds)" "m p = dchar d" using assms(3) ds by simp_all
    then show ?thesis
      using False sp ne atol_loop_digits [OF assms(1), of m p 0]
      by (subst atol_def, subst atol_space.simps) simp
  qed
qed

lemma xtoa_cstr:
  assumes "2 \<le> unat radix" "unat radix \<le> 36"
  obtains m' where "xtoa val buf radix neg m = Some m'"
    "cstr m' buf ((if neg then [45] else []) @ map dchar (rev (lsd (unat radix) (unat (if neg then - val else val)))))"
proof -
  let ?ds = "rev (lsd (unat radix) (unat (if neg then - val else val)))"
  have "0 \<notin> set (map dchar ?ds)" using lsd_less [OF assms(1)] assms(2) dchar_nz by fastforce
  note c = cstr_store [OF this]
  show thesis
  proof (cases neg)
    case True
    let ?m = "store (buf + 1) (map dchar ?ds @ [0]) (m(buf := 45))"
    have "?m buf = 45" by (subst store_out) simp_all
    then show thesis using that [of ?m] xtoa_store [OF assms(1), of val buf neg m] c [of "buf + 1" "m(buf := 45)"] True by simp
  next
    case False
    then show thesis using that xtoa_store [OF assms(1), of val buf neg m] c [of buf m] by simp
  qed
qed

section \<open>Properties of the conversions\<close>

text \<open>
  C24. \<^verbatim>\<open>strtoul\<close> on an unsigned number in a base from 2 to 36, after white space, returns its value,
  or \<open>UINT32_MAX\<close> with \<open>ERANGE\<close> when it does not fit into 32 bits, and in both cases sets
  \<^verbatim>\<open>*endptr\<close> behind the last digit.
\<close>

theorem strtoul_correct:
  assumes "numeral_at m p b False ds e" "2 \<le> b" "b \<le> 36"
  shows "strtoul p True (int b) m =
    (let v = numval b 0 ds in
     Some (if v < 2 ^ 32 then of_nat v else UINT32_MAX, Some e, 2 ^ 32 \<le> v))"
  using strtoul_numeral [OF assms] by (simp add: Let_def)

text \<open>
  C25. \<^verbatim>\<open>strtol\<close> returns a number without a minus sign, or \<open>INT32_MAX\<close> with \<open>ERANGE\<close> when it does not fit. Every
  negative number of magnitude below \<open>2^31\<close>, which does fit, becomes \<open>INT32_MIN\<close> with \<open>ERANGE\<close>:
  the range check compares the magnitude with \<open>INT32_MIN\<close> as unsigned numbers. From \<open>2^31\<close> to
  \<open>2^32\<close> the number is negated modulo \<open>2^32\<close> and no error is reported.
\<close>

theorem strtol_negative_saturates:
  assumes "numeral_at m p b neg ds e" "2 \<le> b" "b \<le> 36"
  shows "strtol p True (int b) m =
    (let v = numval b 0 ds in
     Some (if neg then
             if 2 ^ 31 \<le> v \<and> v < 2 ^ 32 then (sint (- of_nat v :: u32), Some e, False) else (- (2 ^ 31), Some e, True)
           else if v < 2 ^ 31 then (int v, Some e, False) else (2 ^ 31 - 1, Some e, True)))"
  by (rule strtol_numeral [OF assms])

text \<open>
  C23. A number written by \<^verbatim>\<open>ultoa\<close> in a base from 2 to 35 is read back by \<^verbatim>\<open>strtoul\<close>, and one written by
  \<^verbatim>\<open>ltoa\<close> in base 10, negative ones and the minimum included, by \<^verbatim>\<open>atol\<close>. (Base 36 is left out
  because of the digit z, which is not a letter for \<^verbatim>\<open>isalpha\<close>.)
\<close>

theorem number_roundtrip:
  assumes "2 \<le> unat radix" "unat radix \<le> 35"
  shows "\<exists>m1 e m2. ultoa v buf radix m = Some (buf, m1) \<and> strtoul buf True (uint radix) m1 = Some (v, Some e, False) \<and>
    ltoa v buf 10 m = Some (buf, m2) \<and> atol buf m2 = Some (sint v)"
proof -
  let ?r = "unat radix"
  have r: "uint radix = int ?r" "?r \<le> 36" using assms by simp_all
  obtain m1 where m1: "xtoa v buf radix False m = Some m1" "cstr m1 buf (map dchar (rev (lsd ?r (unat v))))"
    using xtoa_cstr [OF assms(1) r(2), of v buf False m] by auto
  let ?ds = "rev (lsd ?r (unat v))"
  have "digits ?r (map dchar ?ds) ?ds"
    unfolding digits_def list_all2_map1
    by (rule list.rel_refl_strong) (use lsd_less [OF assms(1)] assms(2) digval_dchar in fastforce)
  then have "numeral_at m1 buf ?r False ?ds (buf + int (length ?ds))"
    using m1(2) unfolding numeral_at_def
    by (intro exI [where x = "[]"] exI [where x = "map dchar ?ds"]) (auto simp: spaces_def)
  from strtoul_numeral [OF this assms(1) r(2)] have "strtoul buf True (uint radix) m1 = Some (v, Some (buf + int (length ?ds)), False)"
    unfolding r(1) numval_lsd [OF assms(1)] using unat_u32_less [of v] by (simp add: not_le)
  moreover define neg where "neg = (sint v < 0)"
  obtain m2 where m2: "xtoa v buf 10 neg m = Some m2"
      "cstr m2 buf ((if neg then [45] else []) @ map dchar (rev (lsd 10 (unat (if neg then - v else v)))))"
    using xtoa_cstr [of 10 v buf neg m] by auto
  have "atol buf m2 = Some (sint v)"
    using atol_decimal [OF _ _ m2(2)] lsd_less [of 10] numval_lsd [of 10] by (cases neg) simp_all
  ultimately show ?thesis using m1(1) m2(1) by (auto simp: ultoa_def ltoa_def neg_def)
qed

section \<open>A concrete number\<close>

text \<open>The string \<^verbatim>\<open>-42\<close> at 100.\<close>

definition demo_num :: mem where "demo_num = store 100 [45, 52, 50, 0] (\<lambda>_. 0)"

lemma demo_numeral:
  "numeral_at demo_num 100 10 True [4, 2] 103" "numeral_at demo_num 101 10 False [4, 2] 103"
proof -
  have d: "digits 10 [52, 50] [4, 2]" by (simp add: digits_def digval_eq)
  have c: "cstr demo_num 100 [45, 52, 50]" "cstr demo_num 101 [52, 50]"
    by (simp_all add: demo_num_def store_def nth_Cons')
  show "numeral_at demo_num 100 10 True [4, 2] 103"
    unfolding numeral_at_def
    by (rule exI [where x = "[]"], rule exI [where x = "[45]"], rule exI [where x = "[52, 50]"], rule exI [where x = "[]"])
      (use c d in \<open>auto simp: spaces_def\<close>)
  show "numeral_at demo_num 101 10 False [4, 2] 103"
    unfolding numeral_at_def
    by (rule exI [where x = "[]"], rule exI [where x = "[]"], rule exI [where x = "[52, 50]"], rule exI [where x = "[]"])
      (use c d in \<open>auto simp: spaces_def\<close>)
qed

lemma strtoul_correct_witness: "strtoul 101 True 10 demo_num = Some (42, Some 103, False)"
  using strtoul_correct [OF demo_numeral(2)] by simp

lemma strtol_negative_saturates_witness: "strtol 100 True 10 demo_num = Some (- 2147483648, Some 103, True)"
  using strtol_negative_saturates [OF demo_numeral(1)] by simp

lemma number_roundtrip_witness:
  "\<exists>m1 e m2. ultoa 255 100 16 demo_num = Some (100, m1) \<and> strtoul 100 True 16 m1 = Some (255, Some e, False) \<and>
    ltoa 255 100 10 demo_num = Some (100, m2) \<and> atol 100 m2 = Some 255"
  using number_roundtrip [of 16 255 100 demo_num] by simp

end
