(* ===== verification/Sort.thy ===== *)
theory Sort
  imports Cstring_Laws "HOL-Library.Multiset"
begin

text \<open>
  Sorting and searching arrays (\<^verbatim>\<open>src/lib/qsort.c\<close>, \<^verbatim>\<open>src/lib/bsearch.c\<close>) over the byte memory of
  \<open>Cmem\<close>. An array is a base address and the width of an element in bytes; the comparison
  function is a parameter that sees the bytes of two elements. The loops are
  \<open>partial_function (option)\<close>: with width 0 they do not end. The two stacks of \<^verbatim>\<open>qsort\<close>, arrays of
  30 pointers, are one list of pairs, and a push beyond their end is \<open>None\<close>.
\<close>

section \<open>qsort\<close>

definition CUTOFF :: int where "CUTOFF = 8"

function swap_loop :: "u32 \<Rightarrow> int \<Rightarrow> int \<Rightarrow> mem \<Rightarrow> mem" where
  "swap_loop width a b m =
     (if width = 0 then m else swap_loop (width - 1) (a + 1) (b + 1) (m(a := m b, b := m a)))"
  by pat_completeness auto
termination by (relation "measure (\<lambda>(w, _). unat w)") (auto simp: unat_pred_less)

declare swap_loop.simps [simp del]

definition swap :: "int \<Rightarrow> int \<Rightarrow> u32 \<Rightarrow> mem \<Rightarrow> mem" where
  "swap a b width m = (if a \<noteq> b then swap_loop width a b m else m)"

type_synonym comparison = "u8 list \<Rightarrow> u8 list \<Rightarrow> int"

text \<open>The result of comparing the elements at two addresses.\<close>

definition compare_at :: "comparison \<Rightarrow> u32 \<Rightarrow> mem \<Rightarrow> int \<Rightarrow> int \<Rightarrow> int" where
  "compare_at cmpf width m p q = cmpf (load p (unat width) m) (load q (unat width) m)"

partial_function (option) max_loop :: "comparison \<Rightarrow> u32 \<Rightarrow> mem \<Rightarrow> int \<Rightarrow> int \<Rightarrow> int \<Rightarrow> int option" where
  "max_loop cmpf width m hi p mx =
     (if p \<le> hi then
        max_loop cmpf width m hi (p + uint width) (if compare_at cmpf width m p mx > 0 then p else mx)
      else Some mx)"

partial_function (option) shortsort :: "comparison \<Rightarrow> u32 \<Rightarrow> int \<Rightarrow> int \<Rightarrow> mem \<Rightarrow> mem option" where
  "shortsort cmpf width lo hi m =
     (if hi > lo then do {
        mx \<leftarrow> max_loop cmpf width m hi (lo + uint width) lo;
        shortsort cmpf width lo (hi - uint width) (swap mx hi width m)
      } else Some m)"

partial_function (option) next_l :: "comparison \<Rightarrow> u32 \<Rightarrow> mem \<Rightarrow> int \<Rightarrow> int \<Rightarrow> int \<Rightarrow> int option" where
  "next_l cmpf width m lo hi l =
     (let l = l + uint width in
      if l \<le> hi \<and> compare_at cmpf width m l lo \<le> 0 then next_l cmpf width m lo hi l else Some l)"

partial_function (option) next_h :: "comparison \<Rightarrow> u32 \<Rightarrow> mem \<Rightarrow> int \<Rightarrow> int \<Rightarrow> int option" where
  "next_h cmpf width m lo h =
     (let h = h - uint width in
      if h > lo \<and> compare_at cmpf width m h lo \<ge> 0 then next_h cmpf width m lo h else Some h)"

partial_function (option) part_loop ::
  "comparison \<Rightarrow> u32 \<Rightarrow> int \<Rightarrow> int \<Rightarrow> int \<Rightarrow> int \<Rightarrow> mem \<Rightarrow> (int \<times> int \<times> mem) option" where
  "part_loop cmpf width lo hi l h m =
     do {
       l \<leftarrow> next_l cmpf width m lo hi l;
       h \<leftarrow> next_h cmpf width m lo h;
       if h < l then Some (l, h, m) else part_loop cmpf width lo hi l h (swap l h width m)
     }"

definition push :: "int \<times> int \<Rightarrow> (int \<times> int) list \<Rightarrow> (int \<times> int) list option" where
  "push e stk = (if length stk < 30 then Some (e # stk) else None)"

text \<open>
  One pass from the label \<^verbatim>\<open>recurse\<close>: the result is the list of the parts yet to sort, the first of
  which is the one the next pass works on.
\<close>

definition qsort_pass ::
  "comparison \<Rightarrow> u32 \<Rightarrow> int \<Rightarrow> int \<Rightarrow> (int \<times> int) list \<Rightarrow> mem \<Rightarrow> ((int \<times> int) list \<times> mem) option" where
  "qsort_pass cmpf width lo hi stk m =
     (let w = uint width;
          size = (hi - lo) div w + 1 in
      if size \<le> CUTOFF then do { m \<leftarrow> shortsort cmpf width lo hi m; Some (stk, m) }
      else
        let mid = lo + (size div 2) * w in
        do {
          (l, h, m) \<leftarrow> part_loop cmpf width lo hi lo (hi + w) (swap mid lo width m);
          (let m = swap lo h width m in
           if h - 1 - lo \<ge> hi - l then do {
             stk \<leftarrow> (if lo + w < h then push (lo, h - w) stk else Some stk);
             Some (if l < hi then (l, hi) # stk else stk, m)
           } else do {
             stk \<leftarrow> (if l < hi then push (l, hi) stk else Some stk);
             Some (if lo + w < h then (lo, h - w) # stk else stk, m)
           })
        })"

partial_function (option) qsort_run :: "comparison \<Rightarrow> u32 \<Rightarrow> (int \<times> int) list \<Rightarrow> mem \<Rightarrow> mem option" where
  "qsort_run cmpf width parts m =
     (case parts of
        [] \<Rightarrow> Some m
      | (lo, hi) # stk \<Rightarrow> do {
          (parts, m) \<leftarrow> qsort_pass cmpf width lo hi stk m;
          qsort_run cmpf width parts m
        })"

definition qsort :: "int \<Rightarrow> u32 \<Rightarrow> u32 \<Rightarrow> comparison \<Rightarrow> mem \<Rightarrow> mem option" where
  "qsort base num width cmpf m =
     (if num < 2 \<or> width = 0 then Some m
      else qsort_run cmpf width [(base, base + uint width * (uint num - 1))] m)"

section \<open>bsearch\<close>

lemma half_less: "num div 2 \<noteq> 0 \<Longrightarrow> unat (num div 2) < unat num" for num :: u32
proof -
  assume "num div 2 \<noteq> 0"
  then have "0 < unat num" by (cases "num = 0") (auto simp: unat_gt_0)
  then show ?thesis by (simp add: unat_div)
qed

function bsearch_loop :: "(int \<Rightarrow> int) \<Rightarrow> int \<Rightarrow> int \<Rightarrow> int \<Rightarrow> u32 \<Rightarrow> int option" where
  "bsearch_loop cmp w lo hi num =
     (if lo \<le> hi then
        let half = num div 2 in
        if half \<noteq> 0 then
          let mid = lo + uint (if num AND 1 \<noteq> 0 then half else half - 1) * w;
              res = cmp mid in
          if res = 0 then Some mid
          else if res < 0 then bsearch_loop cmp w lo (mid - w) (if num AND 1 \<noteq> 0 then half else half - 1)
          else bsearch_loop cmp w (mid + w) hi half
        else if num \<noteq> 0 then (if cmp lo \<noteq> 0 then None else Some lo)
        else None
      else None)"
  by pat_completeness auto
termination
proof (relation "measure (\<lambda>(_, _, _, _, n). unat n)", goal_cases)
  case (2 cmp w lo hi num half mid res)
  then have "unat half < unat num" "unat (half - 1) < unat half" using half_less [of num] unat_pred_less [of half] by auto
  then show ?case by simp
next
  case (3 cmp w lo hi num half mid res)
  then show ?case using half_less [of num] by simp
qed simp

declare bsearch_loop.simps [simp del]

text \<open>The comparison of the key with the element at an address is a parameter.\<close>

definition bsearch :: "(int \<Rightarrow> int) \<Rightarrow> int \<Rightarrow> u32 \<Rightarrow> u32 \<Rightarrow> int option" where
  "bsearch cmp base num width =
     bsearch_loop cmp (uint width) base (base + (uint num - 1) * uint width) num"

end
