(* ===== verification/Sort_Laws.thy ===== *)
theory Sort_Laws
  imports Sort
begin

text \<open>
  Correctness of \<open>Sort\<close>: binary search; arrays as indexed elements in memory and permutations of
  them; the locale \<open>comparator\<close>, the contract of the comparison function, with the short sort,
  the partition, one pass and all passes of \<^verbatim>\<open>qsort\<close> proved once inside it; its interpretation
  on the order that \<^verbatim>\<open>strcmp\<close> computes.
\<close>

section \<open>bsearch\<close>

text \<open>The comparisons of the key with the elements of a sorted array: first the smaller ones, then the larger ones.\<close>

definition sorted_for :: "(int \<Rightarrow> int) \<Rightarrow> int \<Rightarrow> int \<Rightarrow> int \<Rightarrow> bool" where
  "sorted_for cmp w lo n \<longleftrightarrow>
     (\<forall>i j. 0 \<le> i \<and> i < j \<and> j < n \<longrightarrow>
        (cmp (lo + i * w) < 0 \<longrightarrow> cmp (lo + j * w) < 0) \<and> (cmp (lo + j * w) > 0 \<longrightarrow> cmp (lo + i * w) > 0))"

lemma sorted_forD:
  assumes "sorted_for cmp w lo n" "0 \<le> i" "i \<le> j" "j < n"
  shows "cmp (lo + i * w) < 0 \<Longrightarrow> cmp (lo + j * w) < 0" "cmp (lo + j * w) > 0 \<Longrightarrow> cmp (lo + i * w) > 0"
  using assms(1) [unfolded sorted_for_def, rule_format, of i j] assms(2-4) by (cases "i = j"; simp)+

definition found :: "(int \<Rightarrow> int) \<Rightarrow> int \<Rightarrow> int \<Rightarrow> int \<Rightarrow> int option \<Rightarrow> bool" where
  "found cmp w lo n r \<longleftrightarrow>
     (case r of
        None \<Rightarrow> \<forall>i. 0 \<le> i \<and> i < n \<longrightarrow> cmp (lo + i * w) \<noteq> 0
      | Some a \<Rightarrow> cmp a = 0 \<and> (\<exists>i. 0 \<le> i \<and> i < n \<and> a = lo + i * w))"

lemma found_left:
  assumes "sorted_for cmp w lo n" "0 \<le> k" "k < n" "cmp (lo + k * w) < 0" "found cmp w lo k r"
  shows "found cmp w lo n r"
proof (cases r)
  case None
  have "cmp (lo + i * w) \<noteq> 0" if "0 \<le> i" "i < n" for i
  proof (cases "i < k")
    case True then show ?thesis using assms(5) that None by (auto simp: found_def)
  next
    case False
    then have "cmp (lo + i * w) < 0" using sorted_forD(1) [OF assms(1), of k i] assms(2,4) that by simp
    then show ?thesis by simp
  qed
  then show ?thesis using None by (simp add: found_def)
next
  case (Some a)
  then show ?thesis using assms(3,5) unfolding found_def by (auto intro: order.strict_trans)
qed

lemma found_right:
  assumes "sorted_for cmp w lo n" "0 \<le> k" "k < n" "cmp (lo + k * w) > 0" "found cmp w (lo + (k + 1) * w) (n - k - 1) r"
  shows "found cmp w lo n r"
proof (cases r)
  case None
  have "cmp (lo + i * w) \<noteq> 0" if "0 \<le> i" "i < n" for i
  proof (cases "i \<le> k")
    case True
    then have "cmp (lo + i * w) > 0" using sorted_forD(2) [OF assms(1), of i k] assms(3,4) that by simp
    then show ?thesis by simp
  next
    case False
    then have "cmp (lo + (k + 1) * w + (i - k - 1) * w) \<noteq> 0" using assms(5) that None unfolding found_def by auto
    then show ?thesis by (simp add: algebra_simps)
  qed
  then show ?thesis using None by (simp add: found_def)
next
  case (Some a)
  then obtain i where "0 \<le> i" "i < n - k - 1" "a = lo + (k + 1) * w + i * w" "cmp a = 0" using assms(5) by (auto simp: found_def)
  then show ?thesis using Some assms(2) unfolding found_def by (auto intro!: exI [of _ "k + 1 + i"] simp: algebra_simps)
qed

lemma sorted_for_sub:
  assumes "sorted_for cmp w lo n" "0 \<le> k" "k + n' \<le> n"
  shows "sorted_for cmp w (lo + k * w) n'"
  unfolding sorted_for_def
proof (intro allI impI)
  fix i j assume "0 \<le> i \<and> i < j \<and> j < n'"
  then have k: "0 \<le> k + i" "k + i \<le> k + j" "k + j < n" using assms by auto
  then show "(cmp (lo + k * w + i * w) < 0 \<longrightarrow> cmp (lo + k * w + j * w) < 0) \<and> (cmp (lo + k * w + j * w) > 0 \<longrightarrow> cmp (lo + k * w + i * w) > 0)"
    using sorted_forD [OF assms(1) k] by (auto simp: distrib_right add.assoc)
qed

lemma odd_and_1: "num AND 1 \<noteq> 0 \<longleftrightarrow> odd (unat num)" for num :: u32
  by (simp add: and_one_eq odd_iff_mod_2_eq_one word_eq_unat unat_mod)

lemma bsearch_halves:
  fixes num :: u32
  assumes "num div 2 \<noteq> 0"
  defines "k \<equiv> (if num AND 1 \<noteq> 0 then num div 2 else num div 2 - 1)"
  shows "uint num = uint k + uint (num div 2) + 1" "unat k < unat num" "unat (num div 2) < unat num"
proof -
  have h: "unat (num div 2) = unat num div 2" by (simp add: unat_div)
  have "0 < unat num div 2" using assms(1) h by (metis unat_gt_0)
  then have k: "unat k = (if odd (unat num) then unat num div 2 else unat num div 2 - 1)"
    using assms(1) by (simp add: k_def odd_and_1 unat_div unat_minus_one)
  have "unat num = unat k + unat (num div 2) + 1"
    unfolding k h using \<open>0 < unat num div 2\<close> by (cases "odd (unat num)") (auto elim!: oddE evenE)
  then show "unat k < unat num" "unat (num div 2) < unat num" by simp_all
  from arg_cong [OF \<open>unat num = unat k + unat (num div 2) + 1\<close>, of int]
  show "uint num = uint k + uint (num div 2) + 1" by simp
qed

lemma bsearch_loop_found:
  assumes w: "0 < w"
  shows "sorted_for cmp w lo (uint num) \<Longrightarrow>
    found cmp w lo (uint num) (bsearch_loop cmp w lo (lo + (uint num - 1) * w) num)"
proof (induction "unat num" arbitrary: num lo rule: less_induct)
  case less
  define k where "k = (if num AND 1 \<noteq> 0 then num div 2 else num div 2 - 1)"
  let ?hi = "lo + (uint num - 1) * w" and ?n = "uint num" and ?mid = "lo + uint k * w"
  have hi: "lo \<le> ?hi \<longleftrightarrow> ?n \<noteq> 0"
    using w uint_nonnegative [of num] by (auto simp: zero_le_mult_iff less_le)
  show ?case
  proof (cases "num div 2 = 0")
    case True
    have one: "0 \<le> i \<Longrightarrow> i < 1 \<Longrightarrow> i = 0" for i :: int by auto
    have "unat (num div 2) = unat num div 2" by (simp add: unat_div)
    then have "unat num = 0 \<or> unat num = 1" using True by (simp add: div_eq_0_iff less_2_cases_iff)
    then have "int (unat num) = 0 \<or> int (unat num) = 1" by linarith
    then have "?n = 0 \<or> ?n = 1" by simp
    then show ?thesis
      using True hi by (subst bsearch_loop.simps) (auto simp: found_def dest!: one)
  next
    case False
    note h = bsearch_halves [OF False, folded k_def]
    have r: "bsearch_loop cmp w lo ?hi num =
        (if cmp ?mid = 0 then Some ?mid
         else if cmp ?mid < 0 then bsearch_loop cmp w lo (?mid - w) k
         else bsearch_loop cmp w (?mid + w) ?hi (num div 2))"
    proof -
      have "lo \<le> ?hi" using hi h(1) uint_nonnegative [of k] uint_nonnegative [of "num div 2"] by linarith
      then show ?thesis using False by (subst bsearch_loop.simps) (simp add: Let_def flip: k_def)
    qed
    have kn: "0 \<le> uint k" "uint k < ?n" "?n - uint k - 1 = uint (num div 2)" using h(1) by simp_all
    have L: "found cmp w lo (uint k) (bsearch_loop cmp w lo (?mid - w) k)"
      using less.hyps [OF h(2), of lo] sorted_for_sub [OF less.prems, of 0 "uint k"] kn by (simp add: algebra_simps)
    have R: "found cmp w (lo + (uint k + 1) * w) (uint (num div 2)) (bsearch_loop cmp w (?mid + w) ?hi (num div 2))"
      using less.hyps [OF h(3), of "lo + (uint k + 1) * w"] sorted_for_sub [OF less.prems, of "uint k + 1" "uint (num div 2)"] h(1)
      by (simp add: algebra_simps)
    show ?thesis
      unfolding r using found_left [OF less.prems kn(1,2) _ L] found_right [OF less.prems kn(1,2), unfolded kn(3), OF _ R] kn
      by (auto simp: found_def not_less)
  qed
qed


section \<open>Arrays in memory\<close>

text \<open>The address and the bytes of the element with index \<open>i\<close>.\<close>

definition slot :: "int \<Rightarrow> u32 \<Rightarrow> int \<Rightarrow> int" where
  "slot b w i = b + i * uint w"

definition elt :: "int \<Rightarrow> u32 \<Rightarrow> mem \<Rightarrow> int \<Rightarrow> u8 list" where
  "elt b w m i = load (slot b w i) (unat w) m"

lemma slot_step: "slot b w i + uint w = slot b w (i + 1)" "slot b w i - uint w = slot b w (i - 1)"
    "slot b w i + k * uint w = slot b w (i + k)"
  by (simp_all add: slot_def algebra_simps)

lemma uint_pos: "w \<noteq> 0 \<Longrightarrow> 0 < uint w" for w :: u32
  by (metis uint_nonnegative uint_0_iff less_le)

lemma slot_order:
  assumes "w \<noteq> 0"
  shows "slot b w i \<le> slot b w j \<longleftrightarrow> i \<le> j" "slot b w i < slot b w j \<longleftrightarrow> i < j" "slot b w i = slot b w j \<longleftrightarrow> i = j"
  using uint_pos [OF assms] by (simp_all add: slot_def)

lemma compare_at_slot: "compare_at cmpf w m (slot b w i) (slot b w j) = cmpf (elt b w m i) (elt b w m j)"
  by (simp add: compare_at_def elt_def)

text \<open>Two memories that agree outside of the elements \<open>lo\<close> to \<open>hi\<close>.\<close>

definition same_out :: "int \<Rightarrow> u32 \<Rightarrow> int \<Rightarrow> int \<Rightarrow> mem \<Rightarrow> mem \<Rightarrow> bool" where
  "same_out b w lo hi m m' \<longleftrightarrow> (\<forall>a. a < slot b w lo \<or> slot b w (hi + 1) \<le> a \<longrightarrow> m' a = m a)"

lemma same_out_elt:
  assumes "w \<noteq> 0" "same_out b w lo hi m m'" "i < lo \<or> hi < i"
  shows "elt b w m' i = elt b w m i"
  unfolding elt_def
proof (rule load_cong)
  fix a assume a: "slot b w i \<le> a" "a < slot b w i + int (unat w)"
  then have "a < slot b w (i + 1)" using slot_step(1) [of b w i] by simp
  then have "a < slot b w lo \<or> slot b w (hi + 1) \<le> a"
    using assms(1,3) a(1) slot_order(1) [OF assms(1), of b "i + 1" lo] slot_order(1) [OF assms(1), of b "hi + 1" i] by auto
  then show "m' a = m a" using assms(2) unfolding same_out_def by blast
qed

lemma same_out_mono:
  assumes "w \<noteq> 0" "same_out b w lo hi m m'" "lo' \<le> lo" "hi \<le> hi'"
  shows "same_out b w lo' hi' m m'"
proof -
  have "slot b w lo' \<le> slot b w lo" "slot b w (hi + 1) \<le> slot b w (hi' + 1)" using assms slot_order(1) by simp_all
  then show ?thesis using assms(2) unfolding same_out_def by force
qed

section \<open>Exchanging elements\<close>

lemma swap_loop_store:
  "a + uint n \<le> b \<or> b + uint n \<le> a \<Longrightarrow>
   swap_loop n a b m = store a (load b (unat n) m) (store b (load a (unat n) m) m)"
proof (induction n a b m rule: swap_loop.induct)
  case (1 n a b m)
  show ?case
  proof (cases "n = 0")
    case True
    then show ?thesis by (subst swap_loop.simps) simp
  next
    case False
    let ?m = "m(a := m b, b := m a)" and ?k = "unat (n - 1)"
    have u: "uint (n - 1) = uint n - 1" "int ?k = uint n - 1" "unat n = Suc ?k"
      using False by (simp_all add: uint_pred unat_pred)
    have pos: "0 < uint n" using uint_pos [OF False] .
    then have ab: "a \<noteq> b" using "1.prems" by auto
    have "swap_loop (n - 1) (a + 1) (b + 1) ?m = store (a + 1) (load (b + 1) ?k ?m) (store (b + 1) (load (a + 1) ?k ?m) ?m)"
      using "1.prems" u(1) by (intro "1.IH" [OF False]) linarith
    then have "swap_loop n a b m = store (a + 1) (load (b + 1) ?k ?m) (store (b + 1) (load (a + 1) ?k ?m) ?m)"
      using False by (subst swap_loop.simps) (simp only: if_False)
    also have "load (b + 1) ?k ?m = load (b + 1) ?k m" using "1.prems" u(2) by (intro load_cong) auto
    also have "load (a + 1) ?k ?m = load (a + 1) ?k m" using "1.prems" u(2) by (intro load_cong) auto
    also have "store (b + 1) (load (a + 1) ?k m) ?m = (store (b + 1) (load (a + 1) ?k m) (m(b := m a)))(a := m b)"
      using "1.prems" u(2) ab by (subst fun_upd_twist) (auto intro!: store_upd_comm)
    finally show ?thesis unfolding u(3) load_Suc store_Cons .
  qed
qed

lemma swap_elt:
  assumes "w \<noteq> 0"
  shows "elt b w (swap (slot b w i) (slot b w j) w m) = (elt b w m)(i := elt b w m j, j := elt b w m i)"
proof (cases "i = j")
  case True
  then show ?thesis by (simp add: swap_def)
next
  case False
  have disj: "slot b w i + uint w \<le> slot b w j \<or> slot b w j + uint w \<le> slot b w i"
    unfolding slot_step(1) slot_order(1) [OF assms] using False by linarith
  let ?m = "store (slot b w i) (elt b w m j) (store (slot b w j) (elt b w m i) m)"
  have m: "swap (slot b w i) (slot b w j) w m = ?m"
    using False slot_order(3) [OF assms] swap_loop_store [OF disj] by (simp add: swap_def elt_def)
  have len: "length (elt b w m k) = unat w" for k by (simp add: elt_def)
  have out: "elt b w (store (slot b w k) xs m') l = elt b w m' l" if "k \<noteq> l" "length xs = unat w" for k l xs m'
  proof -
    have "slot b w l + uint w \<le> slot b w k \<or> slot b w k + uint w \<le> slot b w l"
      unfolding slot_step(1) slot_order(1) [OF assms] using that by linarith
    then show ?thesis unfolding elt_def using that(2) by (intro load_store_out) simp
  qed
  have here: "elt b w (store (slot b w k) xs m') k = xs" if "length xs = unat w" for k xs m'
    using that load_store [of "slot b w k" xs m'] by (simp add: elt_def)
  show ?thesis
    unfolding m fun_eq_iff by (simp add: out here len False)
qed

lemma swap_same_out:
  assumes "w \<noteq> 0" "lo \<le> i" "i \<le> hi" "lo \<le> j" "j \<le> hi"
  shows "same_out b w lo hi m (swap (slot b w i) (slot b w j) w m)"
proof (cases "i = j")
  case True
  then show ?thesis by (simp add: swap_def same_out_def)
next
  case False
  have disj: "slot b w i + uint w \<le> slot b w j \<or> slot b w j + uint w \<le> slot b w i"
    unfolding slot_step(1) slot_order(1) [OF assms(1)] using False by linarith
  have "slot b w lo \<le> slot b w i" "slot b w i + uint w \<le> slot b w (hi + 1)"
      "slot b w lo \<le> slot b w j" "slot b w j + uint w \<le> slot b w (hi + 1)"
    unfolding slot_step(1) slot_order(1) [OF assms(1)] using assms by linarith+
  then show ?thesis
    using False slot_order(3) [OF assms(1)] swap_loop_store [OF disj] by (auto simp: swap_def same_out_def)
qed

section \<open>Permutations\<close>

text \<open>The elements \<open>lo\<close> to \<open>hi\<close> are permuted and nothing else changes.\<close>

definition perm_in :: "int \<Rightarrow> u32 \<Rightarrow> int \<Rightarrow> int \<Rightarrow> mem \<Rightarrow> mem \<Rightarrow> bool" where
  "perm_in b w lo hi m m' \<longleftrightarrow>
     image_mset (elt b w m') (mset_set {lo..hi}) = image_mset (elt b w m) (mset_set {lo..hi}) \<and>
     same_out b w lo hi m m'"

lemma perm_in_refl [simp]: "perm_in b w lo hi m m"
  by (simp add: perm_in_def same_out_def)

lemma perm_in_trans [trans]: "perm_in b w lo hi m m' \<Longrightarrow> perm_in b w lo hi m' m'' \<Longrightarrow> perm_in b w lo hi m m''"
  by (simp add: perm_in_def same_out_def)

lemma perm_in_elt:
  assumes "perm_in b w lo hi m m'" "lo \<le> i" "i \<le> hi"
  obtains j where "lo \<le> j" "j \<le> hi" "elt b w m' i = elt b w m j"
proof -
  have "elt b w m' i \<in># image_mset (elt b w m') (mset_set {lo..hi})" using assms(2,3) by simp
  then have "elt b w m' i \<in># image_mset (elt b w m) (mset_set {lo..hi})" using assms(1) unfolding perm_in_def by metis
  then show thesis using that by auto
qed

lemma image_mset_swap:
  assumes "finite A" "i \<in> A" "j \<in> A"
  shows "image_mset (f(i := f j, j := f i)) (mset_set A) = image_mset f (mset_set A)"
proof -
  let ?s = "id(i := j, j := i)"
  have "f(i := f j, j := f i) = f \<circ> ?s" by (auto simp: fun_eq_iff)
  moreover have "inj_on ?s A" "?s ` A = A" using assms by (auto simp: inj_on_def image_iff)
  then have "image_mset ?s (mset_set A) = mset_set A" by (simp add: image_mset_mset_set)
  ultimately show ?thesis by (metis multiset.map_comp)
qed

lemma perm_in_swap:
  assumes "w \<noteq> 0" "lo \<le> i" "i \<le> hi" "lo \<le> j" "j \<le> hi"
  shows "perm_in b w lo hi m (swap (slot b w i) (slot b w j) w m)"
  unfolding perm_in_def swap_elt [OF assms(1)]
  using assms image_mset_swap [of "{lo..hi}" i j] swap_same_out by auto

lemma perm_in_mono:
  assumes "w \<noteq> 0" "perm_in b w lo hi m m'" "lo' \<le> lo" "hi \<le> hi'"
  shows "perm_in b w lo' hi' m m'"
proof (cases "lo \<le> hi")
  case True
  let ?R = "{lo'..hi'} - {lo..hi}"
  have "mset_set {lo'..hi'} = mset_set {lo..hi} + mset_set ?R"
    using assms(3,4) True by (subst mset_set_Union [symmetric]) (auto intro!: arg_cong [where f = mset_set])
  moreover have "image_mset (elt b w m') (mset_set ?R) = image_mset (elt b w m) (mset_set ?R)"
    using assms(2) same_out_elt [OF assms(1)] by (intro image_mset_cong) (auto simp: perm_in_def)
  ultimately show ?thesis using assms(2) same_out_mono [OF assms(1) _ assms(3,4)] by (simp add: perm_in_def)
next
  case False
  then have "slot b w (hi + 1) \<le> slot b w lo" using slot_order(1) [OF assms(1)] by simp
  then have "m' = m" using assms(2) unfolding perm_in_def same_out_def fun_eq_iff by (metis le_less_linear order.trans)
  then show ?thesis by simp
qed


section \<open>The comparison function\<close>

text \<open>What \<^verbatim>\<open>qsort\<close> expects of the comparison function: it compares in a linear preorder.\<close>

locale comparator =
  fixes cmpf :: comparison
  assumes cmp_flip: "cmpf x y < 0 \<longleftrightarrow> cmpf y x > 0"
    and cmp_trans: "cmpf x y \<le> 0 \<Longrightarrow> cmpf y z \<le> 0 \<Longrightarrow> cmpf x z \<le> 0"
begin

definition le :: "u8 list \<Rightarrow> u8 list \<Rightarrow> bool" where
  "le x y \<longleftrightarrow> cmpf x y \<le> 0"

lemma le_trans: "le x y \<Longrightarrow> le y z \<Longrightarrow> le x z"
  using cmp_trans by (simp add: le_def)

lemma le_refl [simp]: "le x x"
  using cmp_flip [of x x] unfolding le_def by linarith

lemma not_le: "cmpf x y > 0 \<Longrightarrow> le y x" "cmpf x y \<ge> 0 \<Longrightarrow> le y x" "cmpf x y < 0 \<Longrightarrow> le x y"
  using cmp_flip [of x y] cmp_flip [of y x] by (simp_all add: le_def)

definition sorted_in :: "int \<Rightarrow> u32 \<Rightarrow> mem \<Rightarrow> int \<Rightarrow> int \<Rightarrow> bool" where
  "sorted_in b w m lo hi \<longleftrightarrow> (\<forall>i j. lo \<le> i \<and> i < j \<and> j \<le> hi \<longrightarrow> le (elt b w m i) (elt b w m j))"

section \<open>The short sort\<close>

lemma max_loop_max:
  assumes w: "w \<noteq> 0"
  shows "lo \<le> mx \<Longrightarrow> mx < p \<Longrightarrow> p \<le> hi + 1 \<Longrightarrow> \<forall>k. lo \<le> k \<and> k < p \<longrightarrow> le (elt b w m k) (elt b w m mx) \<Longrightarrow>
    \<exists>j. max_loop cmpf w m (slot b w hi) (slot b w p) (slot b w mx) = Some (slot b w j) \<and> lo \<le> j \<and> j \<le> hi \<and>
      (\<forall>k. lo \<le> k \<and> k \<le> hi \<longrightarrow> le (elt b w m k) (elt b w m j))"
proof (induction "nat (hi + 1 - p)" arbitrary: p mx)
  case 0
  then have "p = hi + 1" by simp
  then show ?case using 0 by (subst max_loop.simps) (auto simp: slot_order [OF w])
next
  case (Suc n)
  define mx' where "mx' = (if cmpf (elt b w m p) (elt b w m mx) > 0 then p else mx)"
  have "le (elt b w m k) (elt b w m mx')" if "lo \<le> k" "k < p + 1" for k
  proof (cases "cmpf (elt b w m p) (elt b w m mx) > 0")
    case True
    have "le (elt b w m k) (elt b w m mx) \<or> k = p" using Suc.prems that by auto
    then show ?thesis using le_trans [OF _ not_le(1) [OF True]] True by (auto simp: mx'_def)
  next
    case False
    then have "le (elt b w m p) (elt b w m mx)" by (simp add: le_def)
    then show ?thesis using False Suc.prems that by (cases "k = p") (auto simp: mx'_def)
  qed
  moreover have "lo \<le> mx'" "mx' < p + 1" "p + 1 \<le> hi + 1" "n = nat (hi + 1 - (p + 1))" using Suc by (auto simp: mx'_def)
  ultimately have "\<exists>j. max_loop cmpf w m (slot b w hi) (slot b w (p + 1)) (slot b w mx') = Some (slot b w j) \<and> lo \<le> j \<and> j \<le> hi \<and>
      (\<forall>k. lo \<le> k \<and> k \<le> hi \<longrightarrow> le (elt b w m k) (elt b w m j))"
    using Suc.hyps(1) by blast
  moreover have "max_loop cmpf w m (slot b w hi) (slot b w p) (slot b w mx) = max_loop cmpf w m (slot b w hi) (slot b w (p + 1)) (slot b w mx')"
  proof -
    have "slot b w mx' = (if compare_at cmpf w m (slot b w p) (slot b w mx) > 0 then slot b w p else slot b w mx)"
      by (simp add: mx'_def compare_at_slot)
    moreover have "p \<le> hi" using Suc(2) by simp
    ultimately show ?thesis by (subst max_loop.simps) (simp add: slot_order [OF w] slot_step)
  qed
  ultimately show ?case by simp
qed

lemma sorted_in_extend:
  assumes "w \<noteq> 0" "sorted_in b w m' lo (hi - 1)" "perm_in b w lo (hi - 1) m m'"
    and "\<forall>k. lo \<le> k \<and> k \<le> hi \<longrightarrow> le (elt b w m k) (elt b w m hi)"
  shows "sorted_in b w m' lo hi"
  unfolding sorted_in_def
proof (intro allI impI)
  fix i j assume ij: "lo \<le> i \<and> i < j \<and> j \<le> hi"
  show "le (elt b w m' i) (elt b w m' j)"
  proof (cases "j = hi")
    case True
    have "elt b w m' hi = elt b w m hi" using assms(1,3) same_out_elt by (auto simp: perm_in_def)
    moreover obtain k where "lo \<le> k" "k \<le> hi - 1" "elt b w m' i = elt b w m k"
      using perm_in_elt [OF assms(3), of i] ij by auto
    ultimately show ?thesis using assms(4) True by simp
  next
    case False
    then show ?thesis using assms(2) ij by (simp add: sorted_in_def)
  qed
qed

lemma shortsort_sorts:
  assumes w: "w \<noteq> 0"
  shows "\<exists>m'. shortsort cmpf w (slot b w lo) (slot b w hi) m = Some m' \<and> perm_in b w lo hi m m' \<and> sorted_in b w m' lo hi"
proof (induction "nat (hi - lo)" arbitrary: hi m)
  case 0
  then show ?case by (subst shortsort.simps) (auto simp: slot_order [OF w] sorted_in_def)
next
  case (Suc n)
  have le_only: "lo \<le> k \<and> k \<le> lo \<longleftrightarrow> k = lo" "lo \<le> hi" for k using Suc(2) by auto
  obtain j where j: "max_loop cmpf w m (slot b w hi) (slot b w (lo + 1)) (slot b w lo) = Some (slot b w j)" "lo \<le> j" "j \<le> hi"
      "\<forall>k. lo \<le> k \<and> k \<le> hi \<longrightarrow> le (elt b w m k) (elt b w m j)"
    using max_loop_max [OF w, of lo lo "lo + 1" hi b m] Suc(2) by (auto simp: le_only)
  let ?m = "swap (slot b w j) (slot b w hi) w m"
  have p1: "perm_in b w lo hi m ?m" using perm_in_swap [OF w] j(2,3) by simp
  have "n = nat (hi - 1 - lo)" using Suc(2) by simp
  from Suc(1) [OF this, of ?m] obtain m' where m': "shortsort cmpf w (slot b w lo) (slot b w (hi - 1)) ?m = Some m'"
      "perm_in b w lo (hi - 1) ?m m'" "sorted_in b w m' lo (hi - 1)" by blast
  have mx: "\<forall>k. lo \<le> k \<and> k \<le> hi \<longrightarrow> le (elt b w ?m k) (elt b w ?m hi)"
    using j(2-4) by (auto simp: swap_elt [OF w])
  have "sorted_in b w m' lo hi" by (rule sorted_in_extend [OF w m'(3,2) mx])
  moreover have "perm_in b w lo hi m m'" using perm_in_trans [OF p1 perm_in_mono [OF w m'(2)]] by simp
  moreover have "shortsort cmpf w (slot b w lo) (slot b w hi) m = Some m'"
  proof -
    have "lo < hi" using Suc(2) by simp
    then show ?thesis using j(1) m'(1) by (subst shortsort.simps) (simp add: slot_order [OF w] slot_step)
  qed
  ultimately show ?case by blast
qed

end


section \<open>Partitioning\<close>

context comparator
begin

lemma next_l_stops:
  assumes w: "w \<noteq> 0"
  shows "l \<le> hi \<Longrightarrow>
    \<exists>l'. next_l cmpf w m (slot b w lo) (slot b w hi) (slot b w l) = Some (slot b w l') \<and> l < l' \<and> l' \<le> hi + 1 \<and>
      (\<forall>k. l < k \<and> k < l' \<longrightarrow> le (elt b w m k) (elt b w m lo)) \<and> (l' \<le> hi \<longrightarrow> cmpf (elt b w m l') (elt b w m lo) > 0)"
proof (induction "nat (hi - l)" arbitrary: l rule: less_induct)
  case less
  show ?case
  proof (cases "l + 1 \<le> hi \<and> cmpf (elt b w m (l + 1)) (elt b w m lo) \<le> 0")
    case True
    then obtain l' where l': "next_l cmpf w m (slot b w lo) (slot b w hi) (slot b w (l + 1)) = Some (slot b w l')" "l + 1 < l'" "l' \<le> hi + 1"
        "\<forall>k. l + 1 < k \<and> k < l' \<longrightarrow> le (elt b w m k) (elt b w m lo)" "l' \<le> hi \<longrightarrow> cmpf (elt b w m l') (elt b w m lo) > 0"
      using less.hyps [of "l + 1"] by auto
    have "le (elt b w m k) (elt b w m lo)" if "l < k" "k < l'" for k
      using that l'(4) True by (cases "k = l + 1") (auto simp: le_def)
    moreover have "next_l cmpf w m (slot b w lo) (slot b w hi) (slot b w l) = Some (slot b w l')"
      using l'(1) True by (subst next_l.simps) (simp add: Let_def slot_step slot_order [OF w] compare_at_slot)
    ultimately show ?thesis using l'(2,3,5) by auto
  next
    case False
    then have "next_l cmpf w m (slot b w lo) (slot b w hi) (slot b w l) = Some (slot b w (l + 1))"
      by (subst next_l.simps) (auto simp: Let_def slot_step slot_order [OF w] compare_at_slot)
    then show ?thesis using False less.prems by (intro exI [of _ "l + 1"]) auto
  qed
qed

lemma next_h_stops:
  assumes w: "w \<noteq> 0"
  shows "lo < h \<Longrightarrow>
    \<exists>h'. next_h cmpf w m (slot b w lo) (slot b w h) = Some (slot b w h') \<and> lo \<le> h' \<and> h' < h \<and>
      (\<forall>k. h' < k \<and> k < h \<longrightarrow> le (elt b w m lo) (elt b w m k)) \<and> (lo < h' \<longrightarrow> cmpf (elt b w m h') (elt b w m lo) < 0)"
proof (induction "nat (h - lo)" arbitrary: h rule: less_induct)
  case less
  show ?case
  proof (cases "lo < h - 1 \<and> cmpf (elt b w m (h - 1)) (elt b w m lo) \<ge> 0")
    case True
    then obtain h' where h': "next_h cmpf w m (slot b w lo) (slot b w (h - 1)) = Some (slot b w h')" "lo \<le> h'" "h' < h - 1"
        "\<forall>k. h' < k \<and> k < h - 1 \<longrightarrow> le (elt b w m lo) (elt b w m k)" "lo < h' \<longrightarrow> cmpf (elt b w m h') (elt b w m lo) < 0"
      using less.hyps [of "h - 1"] by auto
    have "le (elt b w m lo) (elt b w m k)" if "h' < k" "k < h" for k
      using that h'(4) True not_le(2) by (cases "k = h - 1") auto
    moreover have "next_h cmpf w m (slot b w lo) (slot b w h) = Some (slot b w h')"
      using h'(1) True by (subst next_h.simps) (simp add: Let_def slot_step slot_order [OF w] compare_at_slot)
    ultimately show ?thesis using h'(2,3,5) by auto
  next
    case False
    then have "next_h cmpf w m (slot b w lo) (slot b w h) = Some (slot b w (h - 1))"
      by (subst next_h.simps) (auto simp: Let_def slot_step slot_order [OF w] compare_at_slot)
    then show ?thesis using False less.prems by (intro exI [of _ "h - 1"]) auto
  qed
qed

text \<open>The elements after \<open>lo\<close> up to \<open>l\<close> are not above that at \<open>lo\<close>, those from \<open>h\<close> on not below it.\<close>

definition parted :: "int \<Rightarrow> u32 \<Rightarrow> mem \<Rightarrow> int \<Rightarrow> int \<Rightarrow> int \<Rightarrow> int \<Rightarrow> bool" where
  "parted b w m lo hi l h \<longleftrightarrow>
     (\<forall>k. lo < k \<and> k \<le> l \<longrightarrow> le (elt b w m k) (elt b w m lo)) \<and>
     (\<forall>k. h \<le> k \<and> k \<le> hi \<longrightarrow> le (elt b w m lo) (elt b w m k))"

lemma part_loop_parts:
  assumes w: "w \<noteq> 0"
  shows "lo \<le> l \<Longrightarrow> l < h \<Longrightarrow> h \<le> hi + 1 \<Longrightarrow> parted b w m lo hi l h \<Longrightarrow>
    \<exists>l' h' m'. part_loop cmpf w (slot b w lo) (slot b w hi) (slot b w l) (slot b w h) m = Some (slot b w l', slot b w h', m') \<and>
      perm_in b w (lo + 1) hi m m' \<and> lo \<le> h' \<and> h' < l' \<and> l' \<le> hi + 1 \<and> parted b w m' lo hi (l' - 1) (h' + 1)"
proof (induction "nat (h - l)" arbitrary: l h m rule: less_induct)
  case less
  obtain l' where l': "next_l cmpf w m (slot b w lo) (slot b w hi) (slot b w l) = Some (slot b w l')" "l < l'" "l' \<le> hi + 1"
      "\<forall>k. l < k \<and> k < l' \<longrightarrow> le (elt b w m k) (elt b w m lo)" "l' \<le> hi \<longrightarrow> cmpf (elt b w m l') (elt b w m lo) > 0"
    using next_l_stops [OF w, of l hi m b lo] less.prems by auto
  obtain h' where h': "next_h cmpf w m (slot b w lo) (slot b w h) = Some (slot b w h')" "lo \<le> h'" "h' < h"
      "\<forall>k. h' < k \<and> k < h \<longrightarrow> le (elt b w m lo) (elt b w m k)" "lo < h' \<longrightarrow> cmpf (elt b w m h') (elt b w m lo) < 0"
    using next_h_stops [OF w, of lo h m b] less.prems by auto
  have P: "parted b w m lo hi (l' - 1) (h' + 1)"
    unfolding parted_def
  proof (intro conjI allI impI)
    fix k assume "lo < k \<and> k \<le> l' - 1"
    then show "le (elt b w m k) (elt b w m lo)" using less.prems(4) l'(4) unfolding parted_def by (cases "k \<le> l") auto
  next
    fix k assume "h' + 1 \<le> k \<and> k \<le> hi"
    then show "le (elt b w m lo) (elt b w m k)" using less.prems(4) h'(4) unfolding parted_def by (cases "h \<le> k") auto
  qed
  show ?case
  proof (cases "h' < l'")
    case True
    then have "part_loop cmpf w (slot b w lo) (slot b w hi) (slot b w l) (slot b w h) m = Some (slot b w l', slot b w h', m)"
      using l'(1) h'(1) by (subst part_loop.simps) (simp add: slot_order [OF w])
    then show ?thesis using True P h'(2) l'(3) perm_in_refl by blast
  next
    case False
    then have lt: "l' < h'" "lo < l'" "h' \<le> hi" using l' h' less.prems by (auto simp: less_le)
    let ?m = "swap (slot b w l') (slot b w h') w m"
    have e: "elt b w ?m k = (if k = l' then elt b w m h' else if k = h' then elt b w m l' else elt b w m k)" for k
      using swap_elt [OF w, of b l' h' m] by (auto simp: fun_eq_iff)
    have "parted b w ?m lo hi l' h'"
      using P lt l'(5) h'(5) not_le unfolding parted_def e by auto
    then obtain l2 h2 m2 where r: "part_loop cmpf w (slot b w lo) (slot b w hi) (slot b w l') (slot b w h') ?m = Some (slot b w l2, slot b w h2, m2)"
        "perm_in b w (lo + 1) hi ?m m2" "lo \<le> h2" "h2 < l2" "l2 \<le> hi + 1" "parted b w m2 lo hi (l2 - 1) (h2 + 1)"
      using less.hyps [of h' l' ?m] lt l'(2) h'(3) by auto
    have "perm_in b w (lo + 1) hi m m2" using perm_in_trans [OF perm_in_swap [OF w] r(2)] lt by simp
    moreover have "part_loop cmpf w (slot b w lo) (slot b w hi) (slot b w l) (slot b w h) m = Some (slot b w l2, slot b w h2, m2)"
      using l'(1) h'(1) r(1) False by (subst part_loop.simps) (simp add: slot_order [OF w])
    ultimately show ?thesis using r(3-6) by blast
  qed
qed

end


section \<open>One pass of qsort\<close>

text \<open>A part of the array is a pair of indices.\<close>

definition psize :: "int \<times> int \<Rightarrow> nat" where
  "psize p = nat (snd p - fst p + 1)"

definition pslot :: "int \<Rightarrow> u32 \<Rightarrow> int \<times> int \<Rightarrow> int \<times> int" where
  "pslot b w p = (slot b w (fst p), slot b w (snd p))"

definition covered :: "(int \<times> int) list \<Rightarrow> int \<Rightarrow> int \<Rightarrow> bool" where
  "covered ps i j \<longleftrightarrow> (\<exists>(a, c) \<in> set ps. a \<le> i \<and> j \<le> c)"

definition apart :: "int \<times> int \<Rightarrow> int \<times> int \<Rightarrow> bool" where
  "apart p q \<longleftrightarrow> snd p < fst q \<or> snd q < fst p"

text \<open>What a pass leaves of the part it worked on: at most two parts, the smaller one first.\<close>

definition subparts :: "int \<Rightarrow> int \<Rightarrow> (int \<times> int) list \<Rightarrow> bool" where
  "subparts lo hi segs \<longleftrightarrow>
     (\<forall>(a, c) \<in> set segs. lo \<le> a \<and> a < c \<and> c \<le> hi) \<and> sorted_wrt apart segs \<and>
     sum_list (map psize segs) < psize (lo, hi) \<and>
     (segs = [] \<or> (\<exists>p. segs = [p]) \<or> (\<exists>p q. segs = [p, q] \<and> psize p \<le> psize q))"

text \<open>The parts after the partition, in the order the code leaves them on the stack.\<close>

definition choose_parts :: "int \<Rightarrow> int \<Rightarrow> int \<Rightarrow> int \<Rightarrow> (int \<times> int) list" where
  "choose_parts lo hi l h =
     (let left = (if lo + 1 < h then [(lo, h - 1)] else []); right = (if l < hi then [(l, hi)] else []) in
      if h - lo \<ge> hi + 1 - l then right @ left else left @ right)"

lemma choose_parts_sub:
  assumes "lo \<le> h" "h < l" "l \<le> hi + 1"
  shows "subparts lo hi (choose_parts lo hi l h)"
  using assms by (auto simp: subparts_def choose_parts_def Let_def psize_def apart_def)

lemma bigger_part:
  assumes "w \<noteq> 0"
  shows "slot b w h - 1 - slot b w lo \<ge> slot b w hi - slot b w l \<longleftrightarrow> h - lo \<ge> hi + 1 - l"
proof -
  let ?w = "uint w" and ?d = "(h - lo) - (hi - l)"
  have "slot b w h - 1 - slot b w lo \<ge> slot b w hi - slot b w l \<longleftrightarrow> 1 \<le> ?d * ?w"
    by (simp add: slot_def algebra_simps)
  also have "\<dots> \<longleftrightarrow> 0 < ?d * ?w" by linarith
  also have "\<dots> \<longleftrightarrow> 0 < ?d" using uint_pos [OF assms] by (simp add: zero_less_mult_iff)
  finally show ?thesis by linarith
qed

context comparator
begin

lemma parted_pivot:
  assumes w: "w \<noteq> 0" and h: "lo \<le> h" "h < l" "l \<le> hi + 1" and P: "parted b w m lo hi (l - 1) (h + 1)"
    and ij: "lo \<le> i" "i < j" "j \<le> hi" "\<not> covered (choose_parts lo hi l h) i j"
  shows "le (elt b w (swap (slot b w lo) (slot b w h) w m) i) (elt b w (swap (slot b w lo) (slot b w h) w m) j)"
proof -
  let ?m = "swap (slot b w lo) (slot b w h) w m"
  have e: "elt b w ?m k = (if k = h then elt b w m lo else if k = lo then elt b w m h else elt b w m k)" for k
    using swap_elt [OF w, of b lo h m] by (auto simp: fun_eq_iff)
  have lower: "le (elt b w ?m k) (elt b w ?m h)" if "lo \<le> k" "k < l" for k
    using that P h unfolding e parted_def by (cases "k = lo"; cases "h = lo") auto
  have upper: "le (elt b w ?m h) (elt b w ?m k)" if "h \<le> k" "k \<le> hi" for k
    using that P h unfolding e parted_def by (cases "k = h") auto
  have "\<not> (lo \<le> i \<and> j \<le> h - 1)" "\<not> (l \<le> i \<and> j \<le> hi)"
    using ij h unfolding covered_def choose_parts_def Let_def by (auto split: if_splits)
  then have "h \<le> j" "i < l" using ij by auto
  then show ?thesis using lower [of i] upper [of j] ij le_trans by blast
qed

lemma qsort_pass_parts:
  assumes w: "w \<noteq> 0" and lo: "lo < hi" and stk: "psize (lo, hi) > 8 \<longrightarrow> length stk < 30"
  shows "\<exists>segs m'. qsort_pass cmpf w (slot b w lo) (slot b w hi) stk m = Some (map (pslot b w) segs @ stk, m') \<and>
    perm_in b w lo hi m m' \<and> subparts lo hi segs \<and>
    (\<forall>i j. lo \<le> i \<and> i < j \<and> j \<le> hi \<and> \<not> covered segs i j \<longrightarrow> le (elt b w m' i) (elt b w m' j))"
proof -
  have size: "(slot b w hi - slot b w lo) div uint w + 1 = hi - lo + 1"
    using uint_pos [OF w] by (simp add: slot_def flip: left_diff_distrib)
  show ?thesis
  proof (cases "hi - lo + 1 \<le> CUTOFF")
    case True
    obtain m' where "shortsort cmpf w (slot b w lo) (slot b w hi) m = Some m'" "perm_in b w lo hi m m'" "sorted_in b w m' lo hi"
      using shortsort_sorts [OF w] by blast
    then show ?thesis
      using True lo by (intro exI [of _ "[]"] exI [of _ m']) (auto simp: qsort_pass_def size subparts_def psize_def sorted_in_def Let_def)
  next
    case False
    define mid where "mid = lo + (hi - lo + 1) div 2"
    have mid: "lo \<le> mid" "mid \<le> hi" "slot b w lo + (hi - lo + 1) div 2 * uint w = slot b w mid"
      using lo by (auto simp: mid_def slot_step)
    let ?m = "swap (slot b w mid) (slot b w lo) w m"
    have p0: "perm_in b w lo hi m ?m" using mid lo by (intro perm_in_swap [OF w]) simp_all
    have "parted b w ?m lo hi lo (hi + 1)" by (auto simp: parted_def)
    then obtain l h m1 where r: "part_loop cmpf w (slot b w lo) (slot b w hi) (slot b w lo) (slot b w (hi + 1)) ?m = Some (slot b w l, slot b w h, m1)"
        "perm_in b w (lo + 1) hi ?m m1" "lo \<le> h" "h < l" "l \<le> hi + 1" "parted b w m1 lo hi (l - 1) (h + 1)"
      using part_loop_parts [OF w, of lo lo "hi + 1" hi b ?m] lo by auto
    let ?m2 = "swap (slot b w lo) (slot b w h) w m1"
    have "perm_in b w lo hi m ?m2"
      using perm_in_trans [OF perm_in_trans [OF p0 perm_in_mono [OF w r(2)]] perm_in_swap [OF w]] r(3-5) lo by simp
    moreover have "length stk < 30" using stk False by (simp add: psize_def CUTOFF_def)
    then have "qsort_pass cmpf w (slot b w lo) (slot b w hi) stk m = Some (map (pslot b w) (choose_parts lo hi l h) @ stk, ?m2)"
      using False r(1) unfolding qsort_pass_def Let_def size mid(3) slot_step(1)
      by (simp add: bigger_part [OF w] slot_step slot_order [OF w] push_def choose_parts_def pslot_def Let_def)
    ultimately show ?thesis
      using choose_parts_sub [OF r(3-5)] parted_pivot [OF w r(3-6)] by blast
  qed
qed

end


section \<open>All passes\<close>

text \<open>The smaller part is sorted first, so the stack holds parts of at least doubling size.\<close>

fun depth_ok :: "nat \<Rightarrow> (int \<times> int) list \<Rightarrow> bool" where
  "depth_ok n [] \<longleftrightarrow> True"
| "depth_ok n (p # ps) \<longleftrightarrow> psize p * 2 ^ length ps \<le> n \<and> depth_ok n ps"

lemma depth_ok_subparts:
  assumes "depth_ok n (p # ps)" "p = (lo, hi)" "subparts lo hi segs"
  shows "depth_ok n (segs @ ps)"
proof -
  let ?N = "psize p"
  have mono: "k * 2 ^ length ps \<le> n" if "k \<le> ?N" for k
    using order.trans [OF mult_le_mono1 [OF that, of "2 ^ length ps"]] assms(1) by simp
  show ?thesis
    using assms mono [of "psize (hd segs)"] mono [of "2 * psize (hd segs)"] mono [of "psize (last segs)"]
    by (auto simp: subparts_def mult.assoc)
qed

lemma depth_bound:
  assumes "depth_ok n (p # ps)" "psize p > 8" "n < 2 ^ 32"
  shows "length ps < 30"
proof (rule ccontr)
  assume "\<not> length ps < 30"
  then have "(2::nat) ^ 30 \<le> 2 ^ length ps" by (intro power_increasing) simp_all
  then have "8 * 2 ^ 30 \<le> psize p * 2 ^ length ps" using assms(2) by (intro mult_le_mono) simp_all
  then show False using assms(1,3) by simp
qed

text \<open>The invariant of the passes over an array of \<open>n\<close> elements.\<close>

definition parts_ok :: "nat \<Rightarrow> (int \<times> int) list \<Rightarrow> bool" where
  "parts_ok n ps \<longleftrightarrow> (\<forall>(a, c) \<in> set ps. 0 \<le> a \<and> a < c \<and> c < int n) \<and> sorted_wrt apart ps \<and> depth_ok n ps"

lemma parts_ok_subparts:
  assumes "parts_ok n ((lo, hi) # ps)" "subparts lo hi segs"
  shows "parts_ok n (segs @ ps)"
proof -
  have "apart p q" if "p \<in> set segs" "q \<in> set ps" for p q
  proof -
    have "lo \<le> fst p" "snd p \<le> hi" using assms(2) that by (auto simp: subparts_def)
    moreover have "apart (lo, hi) q" using assms(1) that by (simp add: parts_ok_def)
    ultimately show ?thesis by (auto simp: apart_def)
  qed
  then show ?thesis
    using assms depth_ok_subparts [OF _ refl assms(2), of n ps]
    by (fastforce simp: parts_ok_def subparts_def sorted_wrt_append)
qed

context comparator
begin

definition ordered_but :: "int \<Rightarrow> u32 \<Rightarrow> mem \<Rightarrow> nat \<Rightarrow> (int \<times> int) list \<Rightarrow> bool" where
  "ordered_but b w m n ps \<longleftrightarrow>
     (\<forall>i j. 0 \<le> i \<and> i < j \<and> j < int n \<and> \<not> covered ps i j \<longrightarrow> le (elt b w m i) (elt b w m j))"

text \<open>The element at \<open>i\<close> after a permutation of \<open>lo\<close> to \<open>hi\<close> was at some index on the same side of the others.\<close>

lemma perm_in_where:
  assumes "w \<noteq> 0" "perm_in b w lo hi m m'"
  obtains i' where "elt b w m' i = elt b w m i'" "lo \<le> i \<and> i \<le> hi \<and> lo \<le> i' \<and> i' \<le> hi \<or> (i < lo \<or> hi < i) \<and> i' = i"
proof (cases "lo \<le> i \<and> i \<le> hi")
  case True
  then show thesis using perm_in_elt [OF assms(2), of i] that by metis
next
  case False
  then have "elt b w m' i = elt b w m i" using assms same_out_elt by (auto simp: perm_in_def)
  then show thesis using that [of i] False by auto
qed

lemma ordered_but_pass:
  assumes w: "w \<noteq> 0" and ps: "parts_ok n ((lo, hi) # ps)" and o: "ordered_but b w m n ((lo, hi) # ps)"
    and p: "perm_in b w lo hi m m'"
    and s: "\<forall>i j. lo \<le> i \<and> i < j \<and> j \<le> hi \<and> \<not> covered segs i j \<longrightarrow> le (elt b w m' i) (elt b w m' j)"
  shows "ordered_but b w m' n (segs @ ps)"
  unfolding ordered_but_def
proof (intro allI impI)
  fix i j assume ij: "0 \<le> i \<and> i < j \<and> j < int n \<and> \<not> covered (segs @ ps) i j"
  then have nc: "\<not> covered segs i j" "\<not> covered ps i j" by (auto simp: covered_def)
  show "le (elt b w m' i) (elt b w m' j)"
  proof (cases "lo \<le> i \<and> j \<le> hi")
    case True
    then show ?thesis using s ij nc(1) by blast
  next
    case False
    obtain i' where i': "elt b w m' i = elt b w m i'" "lo \<le> i \<and> i \<le> hi \<and> lo \<le> i' \<and> i' \<le> hi \<or> (i < lo \<or> hi < i) \<and> i' = i"
      using perm_in_where [OF w p] .
    obtain j' where j': "elt b w m' j = elt b w m j'" "lo \<le> j \<and> j \<le> hi \<and> lo \<le> j' \<and> j' \<le> hi \<or> (j < lo \<or> hi < j) \<and> j' = j"
      using perm_in_where [OF w p] .
    have bnd: "0 \<le> lo" "hi < int n" using ps by (auto simp: parts_ok_def)
    have lt: "0 \<le> i'" "i' < j'" "j' < int n" using i'(2) j'(2) ij False bnd by auto
    have "\<not> covered ps i' j'"
    proof
      assume "covered ps i' j'"
      then obtain a c where ac: "(a, c) \<in> set ps" "a \<le> i'" "j' \<le> c" by (auto simp: covered_def)
      then have "c < lo \<or> hi < a" using ps by (auto simp: parts_ok_def apart_def)
      then have "\<not> (lo \<le> i' \<and> i' \<le> hi)" "\<not> (lo \<le> j' \<and> j' \<le> hi)" using ac lt by linarith+
      then have "i' = i" "j' = j" using i'(2) j'(2) by auto
      then show False using nc(2) ac by (auto simp: covered_def)
    qed
    moreover have "\<not> (lo \<le> i' \<and> j' \<le> hi)" using i'(2) j'(2) ij False lt by auto
    ultimately have "\<not> covered ((lo, hi) # ps) i' j'" by (auto simp: covered_def)
    then show ?thesis using o lt i'(1) j'(1) unfolding ordered_but_def by metis
  qed
qed

lemma qsort_run_sorts:
  assumes w: "w \<noteq> 0" and n: "n < 2 ^ 32"
  shows "parts_ok n ps \<Longrightarrow> ordered_but b w m n ps \<Longrightarrow>
    \<exists>m'. qsort_run cmpf w (map (pslot b w) ps) m = Some m' \<and> perm_in b w 0 (int n - 1) m m' \<and> sorted_in b w m' 0 (int n - 1)"
proof (induction "sum_list (map psize ps)" arbitrary: ps m rule: less_induct)
  case less
  show ?case
  proof (cases ps)
    case Nil
    have "sorted_in b w m 0 (int n - 1)" using less.prems(2) Nil by (auto simp: ordered_but_def sorted_in_def covered_def)
    then show ?thesis using Nil by (subst qsort_run.simps) simp
  next
    case (Cons p stk)
    obtain lo hi where p: "p = (lo, hi)" by (cases p)
    have ok: "parts_ok n ((lo, hi) # stk)" using less.prems(1) Cons p by simp
    then have lh: "0 \<le> lo" "lo < hi" "hi \<le> int n - 1" by (auto simp: parts_ok_def)
    have "psize (lo, hi) > 8 \<longrightarrow> length (map (pslot b w) stk) < 30"
      using depth_bound [OF _ _ n, of "(lo, hi)" stk] ok by (simp add: parts_ok_def)
    from qsort_pass_parts [OF w lh(2) this] obtain segs m1 where
      r: "qsort_pass cmpf w (slot b w lo) (slot b w hi) (map (pslot b w) stk) m = Some (map (pslot b w) segs @ map (pslot b w) stk, m1)"
        "perm_in b w lo hi m m1" "subparts lo hi segs"
        "\<forall>i j. lo \<le> i \<and> i < j \<and> j \<le> hi \<and> \<not> covered segs i j \<longrightarrow> le (elt b w m1 i) (elt b w m1 j)"
      by blast
    have "sum_list (map psize (segs @ stk)) < sum_list (map psize ps)"
      using r(3) Cons p by (simp add: subparts_def)
    moreover have "ordered_but b w m1 n (segs @ stk)"
      using ordered_but_pass [OF w ok _ r(2,4)] less.prems(2) Cons p by simp
    ultimately obtain m' where m': "qsort_run cmpf w (map (pslot b w) (segs @ stk)) m1 = Some m'"
        "perm_in b w 0 (int n - 1) m1 m'" "sorted_in b w m' 0 (int n - 1)"
      using less.hyps [of "segs @ stk" m1] parts_ok_subparts [OF ok r(3)] by blast
    have "perm_in b w 0 (int n - 1) m m'"
      using perm_in_trans [OF perm_in_mono [OF w r(2)] m'(2)] lh by simp
    moreover have "qsort_run cmpf w (map (pslot b w) ps) m = Some m'"
      using r(1) m'(1) Cons p by (subst qsort_run.simps) (simp add: pslot_def)
    ultimately show ?thesis using m'(3) by blast
  qed
qed

lemma qsort_sorts:
  assumes "w \<noteq> 0"
  shows "\<exists>m'. qsort b num w cmpf m = Some m' \<and> perm_in b w 0 (uint num - 1) m m' \<and> sorted_in b w m' 0 (uint num - 1)"
proof (cases "num < 2")
  case True
  then have "uint num \<le> 1" by (simp add: word_less_def)
  then show ?thesis using True by (auto simp: qsort_def sorted_in_def)
next
  case False
  let ?n = "unat num"
  have n: "int ?n = uint num" "1 < uint num" "?n < 2 ^ 32"
    using False unat_u32_less [of num] by (simp_all add: word_less_def)
  have "parts_ok ?n [(0, int ?n - 1)]" using n by (auto simp: parts_ok_def psize_def)
  moreover have "ordered_but b w m ?n [(0, int ?n - 1)]" by (auto simp: ordered_but_def covered_def)
  ultimately have "\<exists>m'. qsort_run cmpf w (map (pslot b w) [(0, int ?n - 1)]) m = Some m' \<and>
      perm_in b w 0 (int ?n - 1) m m' \<and> sorted_in b w m' 0 (int ?n - 1)"
    by (rule qsort_run_sorts [OF assms n(3)])
  moreover have "map (pslot b w) [(0, int ?n - 1)] = [(b, b + uint w * (uint num - 1))]"
    by (simp add: pslot_def slot_def algebra_simps)
  ultimately show ?thesis using False assms n(1) unfolding qsort_def by simp
qed

end


section \<open>The order of strcmp as a comparison function\<close>

lemma str_order_le_trans: "str_order x y \<le> 0 \<Longrightarrow> str_order y z \<le> 0 \<Longrightarrow> str_order x z \<le> 0"
  using str_order_range [of x y] str_order_range [of y z] str_order_trans [of x y z]
  by (auto simp: str_order_0)

interpretation byte_order: comparator str_order
proof
  show "str_order x y < 0 \<longleftrightarrow> str_order y x > 0" for x y using str_order_sym [of x y] by simp
qed (rule str_order_le_trans)

section \<open>Properties\<close>

text \<open>
  C26. \<^verbatim>\<open>qsort\<close>, with a comparison function for a linear preorder, returns for every number of elements
  of every width (its stacks of 30 entries are enough), with the elements of the array
  permuted into ascending order and every byte outside of the array unchanged.
\<close>

theorem qsort_correct:
  assumes "comparator cmpf" "width \<noteq> 0"
  shows "\<exists>m'. qsort base num width cmpf m = Some m' \<and>
    image_mset (elt base width m') (mset_set {0..uint num - 1}) = image_mset (elt base width m) (mset_set {0..uint num - 1}) \<and>
    (\<forall>i j. 0 \<le> i \<and> i < j \<and> j < uint num \<longrightarrow> cmpf (elt base width m' i) (elt base width m' j) \<le> 0) \<and>
    (\<forall>a. a < base \<or> base + uint num * uint width \<le> a \<longrightarrow> m' a = m a)"
proof -
  obtain m' where m': "qsort base num width cmpf m = Some m'" "perm_in base width 0 (uint num - 1) m m'"
      "comparator.sorted_in cmpf base width m' 0 (uint num - 1)"
    using comparator.qsort_sorts [OF assms] by blast
  have "comparator.le cmpf x y \<longleftrightarrow> cmpf x y \<le> 0" for x y by (rule comparator.le_def [OF assms(1)])
  with m' show ?thesis
    by (auto simp: perm_in_def same_out_def slot_def comparator.sorted_in_def [OF assms(1)])
qed

text \<open>
  \<^verbatim>\<open>bsearch\<close> in a sorted array returns an element that compares equal to the key, and \<open>NULL\<close> if and
  only if there is none.
\<close>

theorem bsearch_correct:
  assumes "width \<noteq> 0" "sorted_for cmp (uint width) base (uint num)"
  shows "case bsearch cmp base num width of
      None \<Rightarrow> \<forall>i. 0 \<le> i \<and> i < uint num \<longrightarrow> cmp (base + i * uint width) \<noteq> 0
    | Some a \<Rightarrow> cmp a = 0 \<and> (\<exists>i. 0 \<le> i \<and> i < uint num \<and> a = base + i * uint width)"
  using bsearch_loop_found [OF uint_pos [OF assms(1)] assms(2)] unfolding found_def bsearch_def .

text \<open>
  C27. Sorting and searching together: after \<^verbatim>\<open>qsort\<close>, \<^verbatim>\<open>bsearch\<close> with the same comparison function finds a
  key if and only if an element of the array before the sort compares equal to it.
\<close>

theorem qsort_bsearch_finds:
  assumes c: "comparator cmpf" and w: "width \<noteq> 0"
  shows "\<exists>m'. qsort base num width cmpf m = Some m' \<and>
    (bsearch (\<lambda>a. cmpf key (load a (unat width) m')) base num width \<noteq> None \<longleftrightarrow>
     (\<exists>i. 0 \<le> i \<and> i < uint num \<and> cmpf key (elt base width m i) = 0))"
proof -
  obtain m' where m': "qsort base num width cmpf m = Some m'" "perm_in base width 0 (uint num - 1) m m'"
      "comparator.sorted_in cmpf base width m' 0 (uint num - 1)"
    using comparator.qsort_sorts [OF assms] by blast
  let ?cmp = "\<lambda>a. cmpf key (load a (unat width) m')"
  have at: "?cmp (base + i * uint width) = cmpf key (elt base width m' i)" for i by (simp add: elt_def slot_def)
  have leD: "comparator.le cmpf x y \<longleftrightarrow> cmpf x y \<le> 0" for x y by (rule comparator.le_def [OF c])
  have "cmpf k y < 0" if "cmpf k x < 0" "cmpf x y \<le> 0" for k x y
  proof (rule ccontr)
    assume "\<not> cmpf k y < 0"
    then have "cmpf y k \<le> 0" using comparator.cmp_flip [OF c, of k y] comparator.cmp_flip [OF c, of y k] by linarith
    then have "cmpf x k \<le> 0" using comparator.cmp_trans [OF c that(2)] by simp
    then show False using that(1) comparator.cmp_flip [OF c, of k x] by linarith
  qed
  moreover have "cmpf k x > 0" if "cmpf k y > 0" "cmpf x y \<le> 0" for k x y
    using that comparator.cmp_trans [OF c, of k x y] by fastforce
  ultimately have "sorted_for ?cmp (uint width) base (uint num)"
    using m'(3) unfolding sorted_for_def at comparator.sorted_in_def [OF c] leD by fastforce
  from bsearch_loop_found [OF uint_pos [OF w] this]
  have f: "found ?cmp (uint width) base (uint num) (bsearch ?cmp base num width)" by (simp add: bsearch_def)
  have "image_mset (elt base width m') (mset_set {0..uint num - 1}) = image_mset (elt base width m) (mset_set {0..uint num - 1})"
    using m'(2) by (simp add: perm_in_def)
  then have s: "elt base width m' ` {0..uint num - 1} = elt base width m ` {0..uint num - 1}"
    by (metis finite_atLeastAtMost_int finite_set_mset_mset_set set_image_mset)
  have "bsearch ?cmp base num width \<noteq> None \<longleftrightarrow> (\<exists>i. 0 \<le> i \<and> i < uint num \<and> cmpf key (elt base width m' i) = 0)"
    using f unfolding found_def by (cases "bsearch ?cmp base num width") (auto simp: at)
  also have "\<dots> \<longleftrightarrow> (\<exists>x \<in> elt base width m' ` {0..uint num - 1}. cmpf key x = 0)" by auto
  also have "\<dots> \<longleftrightarrow> (\<exists>i. 0 \<le> i \<and> i < uint num \<and> cmpf key (elt base width m i) = 0)" unfolding s by auto
  finally show ?thesis using m'(1) by blast
qed

section \<open>A concrete array\<close>

lemma qsort_correct_witness:
  "\<exists>m'. qsort 100 5 2 str_order demo_mem = Some m' \<and>
    image_mset (elt 100 2 m') (mset_set {0..4}) = image_mset (elt 100 2 demo_mem) (mset_set {0..4}) \<and>
    str_order (elt 100 2 m' 0) (elt 100 2 m' 4) \<le> 0"
  using qsort_correct [OF byte_order.comparator_axioms, of 2 100 5 demo_mem] by auto

lemma bsearch_correct_witness:
  "case bsearch (\<lambda>a. 7 - a) 4 5 1 of
      None \<Rightarrow> \<forall>i. 0 \<le> i \<and> i < uint (5 :: u32) \<longrightarrow> 7 - (4 + i * uint (1 :: u32)) \<noteq> 0
    | Some a \<Rightarrow> 7 - a = 0 \<and> (\<exists>i. 0 \<le> i \<and> i < uint (5 :: u32) \<and> a = 4 + i * uint (1 :: u32))"
  by (rule bsearch_correct) (auto simp: sorted_for_def)

lemma qsort_bsearch_finds_witness:
  "\<exists>m'. qsort 100 4 1 str_order demo_mem = Some m' \<and>
    bsearch (\<lambda>a. str_order [98] (load a (unat (1 :: u32)) m')) 100 4 1 \<noteq> None"
proof -
  have "elt 100 1 demo_mem 2 = [98]" by (simp add: elt_def slot_def load_def demo_mem_def store_def)
  then have "0 \<le> (2::int) \<and> 2 < uint (4 :: u32) \<and> str_order [98] (elt 100 1 demo_mem 2) = 0" by simp
  then show ?thesis
    using qsort_bsearch_finds [OF byte_order.comparator_axioms, of 1 100 4 demo_mem "[98]"] by fastforce
qed

end
