(* ===== verification/Calendar.thy ===== *)
theory Calendar
  imports Prelude "HOL-Library.Signed_Division" "HOL-Library.Monad_Syntax"
begin

text \<open>
  The calendar (\<^verbatim>\<open>src/src/lib/time.c\<close>): seconds since the start of 1970 to broken-down time and back.
  Signed 32-bit arithmetic is written on \<open>int\<close> with its wrap-around (\<open>i32\<close>); division and remainder truncate
  towards zero (\<open>sdiv\<close>, \<open>smod\<close>). A read of the month table outside its bounds is \<open>None\<close>. The global variables
  \<open>_timezone\<close> and \<open>_dstbias\<close> are arguments.
\<close>

section \<open>Operations\<close>

record tm =
  tm_sec :: int
  tm_min :: int
  tm_hour :: int
  tm_mday :: int
  tm_mon :: int
  tm_year :: int
  tm_wday :: int
  tm_yday :: int
  tm_isdst :: int
  tm_gmtoff :: int
  tm_zone :: string

definition YEAR0 :: int where "YEAR0 = 1900"

definition EPOCH_YR :: int where "EPOCH_YR = 1970"

definition SECS_DAY :: int where "SECS_DAY = 86400"

definition TIME_MAX :: int where "TIME_MAX = 2147483647"

definition LEAPYEAR :: "int \<Rightarrow> bool" where
  "LEAPYEAR year \<longleftrightarrow> year smod 4 = 0 \<and> (year smod 100 \<noteq> 0 \<or> year smod 400 = 0)"

definition YEARSIZE :: "int \<Rightarrow> int" where
  "YEARSIZE year = (if LEAPYEAR year then 366 else 365)"

definition ytab :: "bool \<Rightarrow> int \<Rightarrow> int option" where
  "ytab leap mon =
     (if 0 \<le> mon \<and> mon < 12 then
        Some ((if leap then [31, 29, 31, 30, 31, 30, 31, 31, 30, 31, 30, 31]
               else [31, 28, 31, 30, 31, 30, 31, 31, 30, 31, 30, 31]) ! nat mon)
      else None)"

lemma YEARSIZE_bounds: "365 \<le> YEARSIZE y" "YEARSIZE y \<le> 366"
  by (simp_all add: YEARSIZE_def)

lemma unat_of_int: "0 \<le> n \<Longrightarrow> n < 4294967296 \<Longrightarrow> int (unat (of_int n :: u32)) = n"
  by (simp add: word_of_int_inverse unat_eq_nat_uint)

lemma unat_YEARSIZE: "unat (of_int (YEARSIZE y) :: u32) = nat (YEARSIZE y)"
proof -
  have "int (unat (of_int (YEARSIZE y) :: u32)) = YEARSIZE y" using YEARSIZE_bounds [of y] by (intro unat_of_int) linarith+
  then show ?thesis by linarith
qed

function year_loop :: "u32 \<Rightarrow> int \<Rightarrow> u32 \<times> int" where
  "year_loop dayno year =
     (if dayno \<ge> of_int (YEARSIZE year) then year_loop (dayno - of_int (YEARSIZE year)) (i32 (year + 1)) else (dayno, year))"
  by auto
termination
proof (relation "measure (\<lambda>(dayno, year). unat dayno)")
  fix dayno :: u32 and year
  assume le: "of_int (YEARSIZE year) \<le> dayno"
  have "0 < unat (of_int (YEARSIZE year) :: u32)" using YEARSIZE_bounds(1) [of year] by (simp add: unat_YEARSIZE)
  then show "((dayno - of_int (YEARSIZE year), i32 (year + 1)), dayno, year) \<in> measure (\<lambda>(dayno, year). unat dayno)"
    using le by (simp add: unat_sub_no_wrap word_le_nat_alt)
qed simp

declare year_loop.simps [simp del]

function month_loop :: "bool \<Rightarrow> u32 \<Rightarrow> int \<Rightarrow> (u32 \<times> int) option" where
  "month_loop leap dayno mon =
     (case ytab leap mon of
        None \<Rightarrow> None
      | Some n \<Rightarrow> if dayno \<ge> of_int n then month_loop leap (dayno - of_int n) (mon + 1) else Some (dayno, mon))"
  by auto
termination
  by (relation "measure (\<lambda>(leap, dayno, mon). nat (12 - mon))") (auto simp: ytab_def split: if_splits)

declare month_loop.simps [simp del]

definition gmtime_r :: "int \<Rightarrow> tm option" where
  "gmtime_r time =
     (let dayclock = of_int time mod of_int SECS_DAY :: u32;
          dayno = of_int time div of_int SECS_DAY :: u32;
          wday = uint ((dayno + 4) mod 7);
          (dayno, year) = year_loop dayno EPOCH_YR;
          yday = uint dayno in
      case month_loop (LEAPYEAR year) dayno 0 of
        None \<Rightarrow> None
      | Some (dayno, mon) \<Rightarrow>
          Some \<lparr>tm_sec = uint (dayclock mod 60), tm_min = uint (dayclock mod 3600 div 60), tm_hour = uint (dayclock div 3600),
            tm_mday = uint (dayno + 1), tm_mon = mon, tm_year = i32 (year - YEAR0), tm_wday = wday, tm_yday = yday,
            tm_isdst = 0, tm_gmtoff = 0, tm_zone = ''UTC''\<rparr>)"

definition localtime_r :: "int \<Rightarrow> int \<Rightarrow> tm option" where
  "localtime_r timezone time = gmtime_r (i32 (time - timezone))"

text \<open>The low part of a pair of units brought into \<open>0..n-1\<close>, the rest carried into the high part.\<close>

definition carry :: "int \<Rightarrow> int \<Rightarrow> int \<Rightarrow> int \<times> int" where
  "carry n lo hi =
     (let hi = i32 (hi + lo sdiv n);
          lo = lo smod n in
      if lo < 0 then (lo + n, i32 (hi - 1)) else (lo, hi))"

text \<open>A negative day plus the length of a month, and a day less the length of a month it exceeds, are in range.\<close>

function day_down :: "int \<Rightarrow> int \<Rightarrow> int \<Rightarrow> (int \<times> int \<times> int) option" where
  "day_down day mon year =
     (if day < 0 then
        let (mon, year) = (if mon - 1 < 0 then (11, i32 (year - 1)) else (mon - 1, year)) in
        case ytab (LEAPYEAR (i32 (YEAR0 + year))) mon of
          None \<Rightarrow> None
        | Some n \<Rightarrow> day_down (day + n) mon year
      else Some (day, mon, year))"
  by auto

lemma ytab_bounds: "ytab leap mon = Some n \<Longrightarrow> 28 \<le> n \<and> n \<le> 31"
proof -
  assume a: "ytab leap mon = Some n"
  then have "nat mon < 12" "n = (if leap then [31, 29, 31, 30, 31, 30, 31, 31, 30, 31, 30, 31]
               else [31, 28, 31, 30, 31, 30, 31, 31, 30, 31, 30, 31]) ! nat mon"
    by (auto simp: ytab_def split: if_splits)
  then show ?thesis by (cases leap) (auto simp: less_Suc_eq numeral_eq_Suc)
qed

termination day_down
  by (relation "measure (\<lambda>(day, mon, year). nat (- day))") (auto dest!: ytab_bounds)

declare day_down.simps [simp del]

function day_up :: "int \<Rightarrow> int \<Rightarrow> int \<Rightarrow> (int \<times> int \<times> int) option" where
  "day_up day mon year =
     (case ytab (LEAPYEAR (i32 (YEAR0 + year))) mon of
        None \<Rightarrow> None
      | Some n \<Rightarrow>
          if day \<ge> n then
            let (mon, year) = (if mon + 1 = 12 then (0, i32 (year + 1)) else (mon + 1, year)) in
            day_up (day - n) mon year
          else Some (day, mon, year))"
  by auto
termination
  by (relation "measure (\<lambda>(day, mon, year). nat day)") (auto dest!: ytab_bounds)

declare day_up.simps [simp del]

function yday_loop :: "bool \<Rightarrow> int \<Rightarrow> int \<Rightarrow> int \<Rightarrow> int option" where
  "yday_loop leap mon month yday =
     (if month < mon then
        case ytab leap month of None \<Rightarrow> None | Some n \<Rightarrow> yday_loop leap mon (month + 1) (i32 (yday + n))
      else Some yday)"
  by auto
termination
  by (relation "measure (\<lambda>(leap, mon, month, yday). nat (mon - month))") auto

declare yday_loop.simps [simp del]

text \<open>Days from the start of 1970 to the start of a year, and the number of overflows found on the way.\<close>

definition year_day :: "int \<Rightarrow> int \<times> int" where
  "year_day y =
     (let n = i32 (y - EPOCH_YR);
          overflow = of_bool (TIME_MAX sdiv 365 < n);
          day = i32 (n * 365);
          overflow = overflow + of_bool (i32 (TIME_MAX - day) < i32 (n sdiv 4 + 1));
          day = i32 (day + i32 (n sdiv 4 + of_bool (y smod 4 \<noteq> 0 \<and> y smod 4 < EPOCH_YR smod 4)));
          day = i32 (day - i32 (n sdiv 100 + of_bool (y smod 100 \<noteq> 0 \<and> y smod 100 < EPOCH_YR smod 100)));
          day = i32 (day + i32 (n sdiv 400 + of_bool (y smod 400 \<noteq> 0 \<and> y smod 400 < EPOCH_YR smod 400))) in
      (day, overflow))"

text \<open>What follows once the fields are in their ranges: day of the year, day of the week, seconds.\<close>

definition mktime_seconds :: "int \<Rightarrow> int \<Rightarrow> tm \<Rightarrow> (int \<times> tm) option" where
  "mktime_seconds timezone dstbias tmbuf =
     (let y = i32 (tm_year tmbuf + YEAR0);
          (day, overflow) = year_day y in
      case yday_loop (LEAPYEAR y) (tm_mon tmbuf) 0 0 of
        None \<Rightarrow> None
      | Some yday \<Rightarrow>
          let yday = i32 (yday + i32 (tm_mday tmbuf - 1));
              overflow = overflow + of_bool (i32 (day + yday) < 0);
              day = i32 (day + yday);
              tmbuf = tmbuf\<lparr>tm_yday := yday, tm_wday := i32 (day + 4) smod 7\<rparr>;
              seconds = i32 (i32 (i32 (i32 (tm_hour tmbuf * 60) + tm_min tmbuf) * 60) + tm_sec tmbuf);
              overflow = overflow + of_bool (i32 (TIME_MAX - seconds) sdiv SECS_DAY < day);
              seconds = i32 (seconds + i32 (day * SECS_DAY));
              overflow = overflow + of_bool (timezone > 0 \<and> i32 (TIME_MAX - timezone) < seconds \<or>
                                             timezone < 0 \<and> seconds < i32 (- timezone));
              seconds = i32 (seconds + timezone);
              dst = (if tm_isdst tmbuf \<noteq> 0 then dstbias else 0);
              overflow = overflow + of_bool (dst > seconds);
              seconds = i32 (seconds - dst) in
          Some (if overflow \<noteq> 0 then - 1 else seconds, tmbuf))"

definition mktime :: "int \<Rightarrow> int \<Rightarrow> tm \<Rightarrow> (int \<times> tm) option" where
  "mktime timezone dstbias tmbuf =
     (let (sec, min1) = carry 60 (tm_sec tmbuf) (tm_min tmbuf);
          (min, hour1) = carry 60 min1 (tm_hour tmbuf);
          (hour, day) = carry 24 hour1 0;
          (mon, year) = carry 12 (tm_mon tmbuf) (tm_year tmbuf);
          day = i32 (day + i32 (tm_mday tmbuf - 1)) in
      do {
        (day, mon, year) \<leftarrow> day_down day mon year;
        (day, mon, year) \<leftarrow> day_up day mon year;
        let tmbuf = tmbuf\<lparr>tm_sec := sec, tm_min := min, tm_hour := hour, tm_mday := i32 (day + 1), tm_mon := mon, tm_year := year\<rparr>;
        if year < EPOCH_YR - YEAR0 then Some (- 1, tmbuf) else mktime_seconds timezone dstbias tmbuf
      })"

end
