(* ===== verification/Calendar_Laws.thy ===== *)
theory Calendar_Laws
  imports Calendar
begin

text \<open>
  The calendar is correct. Days are counted from the start of 1970 (\<open>year_start\<close>, \<open>month_start\<close>, \<open>day_number\<close>);
  a broken-down time, in range or not, stands for a number of seconds (\<open>instant\<close>). \<open>gmtime_r\<close> gives the time in range for a number,
  \<open>mktime\<close> the number and the time in range for any time, and the two are inverse to each other.
\<close>

section \<open>Truncating arithmetic\<close>

lemma div_le_self: "0 \<le> a \<Longrightarrow> 0 < n \<Longrightarrow> a div n \<le> a" for a n :: int
  using zdiv_mono2 [of a 1 n] by simp

lemma sdiv_smod_nonneg: "0 \<le> a \<Longrightarrow> 0 < n \<Longrightarrow> a sdiv n = a div n" "0 \<le> a \<Longrightarrow> 0 < n \<Longrightarrow> a smod n = a mod n" for a n :: int
  by (cases "a = 0"; simp add: signed_divide_int_def signed_modulo_int_def)+

lemma sdiv_smod_neg:
  fixes a n :: int
  assumes "a < 0" "0 < n"
  shows "a sdiv n = - (- a div n)" "a smod n = - (- a mod n)"
  using assms by (simp_all add: signed_divide_int_def signed_modulo_int_def)

lemma smod_eq_0: "0 < n \<Longrightarrow> a smod n = 0 \<longleftrightarrow> a mod n = 0" for a n :: int
  by (cases "a < 0") (simp_all add: sdiv_smod_neg sdiv_smod_nonneg mod_eq_0_iff_dvd)

lemma LEAPYEAR_iff: "LEAPYEAR y \<longleftrightarrow> y mod 4 = 0 \<and> (y mod 100 \<noteq> 0 \<or> y mod 400 = 0)"
  by (simp add: LEAPYEAR_def smod_eq_0)

lemma carry_eq:
  assumes "0 < n" "\<bar>lo\<bar> \<le> 1000000000" "\<bar>hi\<bar> \<le> 1000000000"
  shows "carry n lo hi = (lo mod n, hi + lo div n)"
proof (cases "lo < 0")
  case True
  have q: "0 \<le> - lo div n" "- lo div n \<le> - lo" using assms True by (auto simp: pos_imp_zdiv_nonneg_iff intro: div_le_self)
  have "- lo mod n \<noteq> 0 \<longrightarrow> 0 < - lo mod n" using pos_mod_sign [of n "- lo"] assms(1) by linarith
  moreover have "lo div n = (if - lo mod n = 0 then - (- lo div n) else - (- lo div n) - 1)"
    using zdiv_zminus1_eq_if [of n "- lo"] assms(1) by simp
  moreover have "lo mod n = (if - lo mod n = 0 then 0 else n - (- lo mod n))"
    using zmod_zminus1_eq_if [of "- lo" n] assms(1) by simp
  ultimately show ?thesis
    using assms q True by (simp add: carry_def sdiv_smod_neg i32_id Let_def)
next
  case False
  then have "0 \<le> lo div n" "lo div n \<le> lo" using assms by (auto simp: pos_imp_zdiv_nonneg_iff intro: div_le_self)
  moreover have "\<not> lo mod n < 0" using pos_mod_sign [of n lo] assms(1) by linarith
  ultimately show ?thesis using assms False by (simp add: carry_def sdiv_smod_nonneg i32_id Let_def)
qed

section \<open>Days\<close>

text \<open>
  Days from the start of 1970 to the start of a year, for every year of the Gregorian calendar; to the start of a
  month within its year; and the number of a day.
\<close>

definition year_start :: "int \<Rightarrow> int" where
  "year_start y = 365 * (y - 1970) + (y - 1969) div 4 - (y - 1901) div 100 + (y - 1601) div 400"

definition month_start :: "bool \<Rightarrow> int \<Rightarrow> int" where
  "month_start leap mon = (\<Sum>i < nat mon. the (ytab leap (int i)))"

definition day_number :: "int \<Rightarrow> int \<Rightarrow> int \<Rightarrow> int" where
  "day_number y mon day = year_start y + month_start (LEAPYEAR y) mon + day"

lemma div_succ: "0 < n \<Longrightarrow> (a + 1) div n = a div n + (if (a + 1) mod n = 0 then 1 else 0)" for a n :: int
proof -
  assume n: "0 < n"
  have a: "a + 1 = n * (a div n) + (a mod n + 1)" by simp
  show ?thesis
  proof (cases "a mod n + 1 = n")
    case True
    then have "a + 1 = n * (a div n + 1)" using a by (simp add: distrib_left)
    then show ?thesis using n by simp
  next
    case False
    then have r: "0 \<le> a mod n + 1" "a mod n + 1 < n" using n pos_mod_bound [of n a] pos_mod_sign [of n a] by linarith+
    then have "(a + 1) div n = a div n" "(a + 1) mod n = a mod n + 1"
      using int_div_pos_eq [OF a r] int_mod_pos_eq [OF a r] by simp_all
    moreover have "a mod n + 1 \<noteq> 0" using pos_mod_sign [of n a] n by linarith
    ultimately show ?thesis by simp
  qed
qed

lemma mod_shift: "n dvd c \<Longrightarrow> (y - c) mod n = y mod n" for n :: int
  by (metis diff_zero dvd_eq_mod_eq_0 mod_diff_right_eq)

lemma year_start_epoch: "year_start 1970 = 0"
  by (simp add: year_start_def)

lemma leap_days: "365 + (if y mod 4 = 0 then 1 else 0) - (if y mod 100 = 0 then 1 else 0) + (if y mod 400 = 0 then 1 else 0) = YEARSIZE y"
proof -
  have "y mod 100 = 0 \<Longrightarrow> y mod 4 = 0" "y mod 400 = 0 \<Longrightarrow> y mod 100 = 0"
    using dvd_trans [of 4 100 y] dvd_trans [of 100 400 y] by (simp_all add: mod_eq_0_iff_dvd)
  then show ?thesis unfolding YEARSIZE_def LEAPYEAR_iff by (cases "y mod 100 = 0"; cases "y mod 400 = 0") simp_all
qed

lemma div_step:
  fixes n :: int
  assumes "0 < n" "n dvd k - 1"
  shows "(y + 1 - k) div n = (y - k) div n + (if y mod n = 0 then 1 else 0)"
proof -
  have e: "y - k + 1 = y + 1 - k" "y - (k - 1) = y + 1 - k" by simp_all
  show ?thesis using div_succ [OF assms(1), of "y - k"] mod_shift [OF assms(2), of y] unfolding e by simp
qed

lemma year_start_Suc: "year_start (y + 1) = year_start y + YEARSIZE y"
proof -
  have alg: "365 * (y + 1 - 1970) + (A + p) - (B + q) + (C + r) = 365 * (y - 1970) + A - B + C + (365 + p - q + r)" for A B C p q r :: int
    by simp
  have s: "(y + 1 - 1969) div 4 = (y - 1969) div 4 + (if y mod 4 = 0 then 1 else 0)"
    "(y + 1 - 1901) div 100 = (y - 1901) div 100 + (if y mod 100 = 0 then 1 else 0)"
    "(y + 1 - 1601) div 400 = (y - 1601) div 400 + (if y mod 400 = 0 then 1 else 0)"
    by (rule div_step; simp)+
  show ?thesis unfolding year_start_def s alg leap_days ..
qed


lemma ytab_Some: "ytab leap mon = Some n \<Longrightarrow> 0 \<le> mon \<and> mon < 12"
  by (auto simp: ytab_def split: if_splits)

lemma ytab_in: "0 \<le> mon \<Longrightarrow> mon < 12 \<Longrightarrow> \<exists>n. ytab leap mon = Some n \<and> 28 \<le> n \<and> n \<le> 31"
  using ytab_bounds [of leap mon] by (auto simp: ytab_def)

lemma month_start_0 [simp]: "month_start leap 0 = 0"
  by (simp add: month_start_def)

lemma month_start_Suc: "ytab leap mon = Some n \<Longrightarrow> month_start leap (mon + 1) = month_start leap mon + n"
  using ytab_Some [of leap mon n] by (simp add: month_start_def nat_add_distrib)

lemma month_start_year: "month_start leap 12 = (if leap then 366 else 365)"
  by (simp add: month_start_def ytab_def eval_nat_numeral lessThan_Suc)

lemma month_start_nonneg: "0 \<le> mon \<Longrightarrow> mon \<le> 12 \<Longrightarrow> 0 \<le> month_start leap mon"
  unfolding month_start_def
proof (intro sum_nonneg)
  fix i assume "0 \<le> mon" "mon \<le> 12" "i \<in> {..<nat mon}"
  then have "0 \<le> int i" "int i < 12" by auto
  then show "0 \<le> the (ytab leap (int i))" using ytab_in [of "int i" leap] by fastforce
qed

text \<open>The month after a month and the day before the first of a month.\<close>

lemma day_number_next:
  assumes "ytab (LEAPYEAR y) mon = Some n"
  shows "day_number y mon day = (if mon + 1 = 12 then day_number (y + 1) 0 (day - n) else day_number y (mon + 1) (day - n))"
proof -
  have "month_start (LEAPYEAR y) (mon + 1) = month_start (LEAPYEAR y) mon + n" by (rule month_start_Suc [OF assms])
  moreover have "month_start (LEAPYEAR y) 12 = YEARSIZE y" by (simp add: month_start_year YEARSIZE_def)
  ultimately show ?thesis by (cases "mon = 11") (simp_all add: day_number_def year_start_Suc)
qed

lemma day_up_correct:
  assumes "0 \<le> mon" "mon < 12" "0 \<le> day" "- 1000000000 \<le> year" "year + day \<le> 1000000000"
  shows "\<exists>d m y n. day_up day mon year = Some (d, m, y) \<and> ytab (LEAPYEAR (1900 + y)) m = Some n \<and> 0 \<le> d \<and> d < n \<and>
    day_number (1900 + y) m d = day_number (1900 + year) mon day \<and> year \<le> y \<and> y \<le> year + day"
  using assms
proof (induction day mon year rule: day_up.induct)
  case (1 day mon year)
  have iy: "i32 (YEAR0 + year) = 1900 + year" "i32 (year + 1) = year + 1" using 1(4-6) by (simp_all add: YEAR0_def i32_id)
  obtain n where n: "ytab (LEAPYEAR (1900 + year)) mon = Some n" "28 \<le> n" "n \<le> 31" using ytab_in [OF 1(2,3)] by blast
  show ?case
  proof (cases "day \<ge> n")
    case True
    define mon' year' where "mon' = (if mon + 1 = 12 then 0 else mon + 1)" and "year' = (if mon + 1 = 12 then year + 1 else year)"
    have step: "day_up day mon year = day_up (day - n) mon' year'"
      using n True by (subst day_up.simps) (simp add: iy mon'_def year'_def)
    have pre: "0 \<le> mon'" "mon' < 12" "0 \<le> day - n" "- 1000000000 \<le> year'" "year' + (day - n) \<le> 1000000000"
      using 1(2-6) n True by (auto simp: mon'_def year'_def)
    have eq: "(mon', year') = (if mon + 1 = 12 then (0, i32 (year + 1)) else (mon + 1, year))" by (simp add: mon'_def year'_def iy)
    have "day_number (1900 + year') mon' (day - n) = day_number (1900 + year) mon day"
      using day_number_next [OF n(1), of day] by (auto simp: mon'_def year'_def add.assoc)
    moreover have "year \<le> year'" "year' + (day - n) \<le> year + day" using n(2) by (auto simp: year'_def)
    ultimately show ?thesis using 1(1) [OF n(1) [folded iy(1)] True eq refl pre] unfolding step by fastforce
  next
    case False
    then show ?thesis using n 1(4) by (subst day_up.simps) (simp add: iy)
  qed
qed

lemma day_down_correct:
  assumes "0 \<le> mon" "mon < 12" "- 1000000000 \<le> year + day" "- 1000000000 \<le> year" "year \<le> 1000000000"
  shows "\<exists>d m y. day_down day mon year = Some (d, m, y) \<and> 0 \<le> m \<and> m < 12 \<and> 0 \<le> d \<and> d \<le> max 31 day \<and>
    day_number (1900 + y) m d = day_number (1900 + year) mon day \<and> year + min 0 day \<le> y \<and> y \<le> year"
  using assms
proof (induction day mon year rule: day_down.induct)
  case (1 day mon year)
  show ?case
  proof (cases "day < 0")
    case True
    define mon' year' where "mon' = (if mon - 1 < 0 then 11 else mon - 1)" and "year' = (if mon - 1 < 0 then year - 1 else year)"
    have yb: "- 1000000001 \<le> year'" "year' \<le> year" "year - 1 \<le> year'" using 1(5) by (auto simp: year'_def)
    have iy: "i32 (YEAR0 + year') = 1900 + year'" "i32 (year - 1) = year - 1" using 1(4-6) yb by (simp_all add: YEAR0_def i32_id)
    have m: "0 \<le> mon'" "mon' < 12" using 1(2,3) by (auto simp: mon'_def)
    obtain n where n: "ytab (LEAPYEAR (1900 + year')) mon' = Some n" "28 \<le> n" "n \<le> 31" using ytab_in [OF m] by blast
    have eq: "(mon', year') = (if mon - 1 < 0 then (11, i32 (year - 1)) else (mon - 1, year))" by (simp add: mon'_def year'_def iy)
    have step: "day_down day mon year = day_down (day + n) mon' year'"
      using n(1) [folded iy(1)] True unfolding mon'_def year'_def by (subst day_down.simps) (simp add: iy(2) split: if_splits)
    have pre: "0 \<le> mon'" "mon' < 12" "- 1000000000 \<le> year' + (day + n)" "- 1000000000 \<le> year'" "year' \<le> 1000000000"
      using m 1(4-6) n True yb by auto
    have "day_number (1900 + year') mon' (day + n) = day_number (1900 + year) mon day"
      using day_number_next [OF n(1), of "day + n"] 1(2,3) by (cases "mon = 0") (auto simp: mon'_def year'_def split: if_splits)
    then show ?thesis using 1(1) [OF True eq refl n(1) [folded iy(1)] pre] yb n(2,3) True unfolding step by fastforce
  next
    case False
    then show ?thesis using 1 by (subst day_down.simps) simp
  qed
qed


lemma year_loop_correct:
  assumes "1970 \<le> year" "year + int (unat dayno) \<le> 2000000000"
  shows "\<exists>d y. year_loop dayno year = (d, y) \<and> int (unat d) < YEARSIZE y \<and> year_start y + int (unat d) = year_start year + int (unat dayno) \<and>
    year \<le> y \<and> y \<le> year + int (unat dayno)"
  using assms
proof (induction dayno year rule: year_loop.induct)
  case (1 dayno year)
  let ?Y = "of_int (YEARSIZE year) :: u32"
  have Y: "int (unat ?Y) = YEARSIZE year" using unat_YEARSIZE [of year] YEARSIZE_bounds(1) [of year] by simp
  show ?case
  proof (cases "?Y \<le> dayno")
    case True
    have "unat ?Y \<le> unat dayno" using True by (simp only: word_le_nat_alt)
    then have u: "int (unat (dayno - ?Y)) = int (unat dayno) - YEARSIZE year" using unat_sub_no_wrap [of ?Y dayno] Y by linarith
    have i: "i32 (year + 1) = year + 1" using 1(2,3) by (intro i32_id) linarith+
    have step: "year_loop dayno year = year_loop (dayno - ?Y) (year + 1)" using True i by (subst year_loop.simps) simp
    have pre: "1970 \<le> i32 (year + 1)" "i32 (year + 1) + int (unat (dayno - ?Y)) \<le> 2000000000"
      unfolding i using 1(2,3) u YEARSIZE_bounds(1) [of year] by linarith+
    obtain d y where r: "year_loop (dayno - ?Y) (year + 1) = (d, y)" "int (unat d) < YEARSIZE y"
        "year_start y + int (unat d) = year_start (year + 1) + (int (unat dayno) - YEARSIZE year)" "year + 1 \<le> y"
        "y \<le> year + 1 + (int (unat dayno) - YEARSIZE year)"
      using 1(1) [OF True pre] unfolding i u by blast
    then show ?thesis unfolding step using year_start_Suc [of year] YEARSIZE_bounds(1) [of year]
      by (intro exI [of _ d] exI [of _ y] conjI) (assumption | linarith)+
  next
    case False
    then have "unat dayno < unat ?Y" by (simp add: word_le_nat_alt)
    then have "int (unat dayno) < YEARSIZE year" using Y by linarith
    then show ?thesis using False by (subst year_loop.simps) simp
  qed
qed

lemma month_loop_correct:
  assumes "0 \<le> mon" "mon \<le> 12" "month_start leap mon + int (unat dayno) < month_start leap 12"
  shows "\<exists>d m n. month_loop leap dayno mon = Some (d, m) \<and> ytab leap m = Some n \<and> int (unat d) < n \<and>
    month_start leap m + int (unat d) = month_start leap mon + int (unat dayno)"
  using assms
proof (induction leap dayno mon rule: month_loop.induct)
  case (1 leap dayno mon)
  have "mon \<noteq> 12" using 1(4) by auto
  then obtain n where n: "ytab leap mon = Some n" "28 \<le> n" "n \<le> 31" using ytab_in [of mon leap] 1(2,3) by auto
  have N: "int (unat (of_int n :: u32)) = n" using n by (intro unat_of_int) linarith+
  show ?case
  proof (cases "of_int n \<le> dayno")
    case True
    then have "unat (of_int n :: u32) \<le> unat dayno" by (simp only: word_le_nat_alt)
    then have u: "int (unat (dayno - of_int n)) = int (unat dayno) - n" using unat_sub_no_wrap [of "of_int n" dayno] N by linarith
    have step: "month_loop leap dayno mon = month_loop leap (dayno - of_int n) (mon + 1)"
      using True n by (subst month_loop.simps) simp
    have pre: "0 \<le> mon + 1" "mon + 1 \<le> 12" "month_start leap (mon + 1) + int (unat (dayno - of_int n)) < month_start leap 12"
      using 1(2-4) \<open>mon \<noteq> 12\<close> unfolding u month_start_Suc [OF n(1)] by linarith+
    show ?thesis using 1(1) [OF n(1) True pre] unfolding step u month_start_Suc [OF n(1)] by simp
  next
    case False
    then have "unat dayno < unat (of_int n :: u32)" by (simp add: word_le_nat_alt)
    then have "int (unat dayno) < n" using N by linarith
    then show ?thesis using False n by (subst month_loop.simps) simp
  qed
qed

section \<open>Broken-down time\<close>

text \<open>A broken-down time with every field in its range, and the number of seconds that any broken-down time stands for.\<close>

definition civil :: "tm \<Rightarrow> bool" where
  "civil tb \<longleftrightarrow> 0 \<le> tm_sec tb \<and> tm_sec tb < 60 \<and> 0 \<le> tm_min tb \<and> tm_min tb < 60 \<and> 0 \<le> tm_hour tb \<and> tm_hour tb < 24 \<and>
     (case ytab (LEAPYEAR (1900 + tm_year tb)) (tm_mon tb) of None \<Rightarrow> False | Some n \<Rightarrow> 1 \<le> tm_mday tb \<and> tm_mday tb \<le> n)"

definition instant :: "tm \<Rightarrow> int" where
  "instant tb = 86400 * day_number (1900 + tm_year tb + tm_mon tb div 12) (tm_mon tb mod 12) (tm_mday tb - 1) +
     3600 * tm_hour tb + 60 * tm_min tb + tm_sec tb"

lemma clock_split: "3600 * (c div 3600) + 60 * (c mod 3600 div 60) + c mod 60 = c" for c :: int
proof -
  have "c mod 3600 = 60 * (c mod 3600 div 60) + c mod 3600 mod 60" by simp
  moreover have "c mod 3600 mod 60 = c mod 60" by (rule mod_mod_cancel) simp
  moreover have "c = 3600 * (c div 3600) + c mod 3600" by simp
  ultimately show ?thesis by linarith
qed

lemma gmtime_r_eq:
  assumes "w = of_int t" and "T = uint (w :: u32)"
  shows "\<exists>tb. gmtime_r t = Some tb \<and> civil tb \<and> instant tb = T \<and> 70 \<le> tm_year tb \<and> tm_year tb \<le> 50000 \<and>
    tm_wday tb = (T div 86400 + 4) mod 7 \<and> tm_yday tb = T div 86400 - year_start (1900 + tm_year tb) \<and> tm_isdst tb = 0"
proof -
  have T: "0 \<le> T" "T < 4294967296" using assms(2) uint_bounded [of w] by simp_all
  have sd: "(of_int SECS_DAY :: u32) = 86400" by (simp add: SECS_DAY_def)
  define c d0 where "c = w mod 86400" and "d0 = w div 86400"
  have c: "uint c = T mod 86400" and d0: "int (unat d0) = T div 86400"
    by (simp_all add: c_def d0_def assms(2) uint_mod uint_div_distrib)
  have d0b: "0 \<le> T div 86400" "T div 86400 \<le> 49710" using T by auto
  obtain d y where y: "year_loop d0 1970 = (d, y)" "int (unat d) < YEARSIZE y" "year_start y + int (unat d) = T div 86400" "1970 \<le> y" "y \<le> 1970 + T div 86400"
    using year_loop_correct [of 1970 d0] d0 d0b by (auto simp: year_start_epoch)
  have "month_start (LEAPYEAR y) 0 + int (unat d) < month_start (LEAPYEAR y) 12" using y(2) by (simp add: month_start_year YEARSIZE_def)
  then obtain e m n where m: "month_loop (LEAPYEAR y) d 0 = Some (e, m)" "ytab (LEAPYEAR y) m = Some n" "int (unat e) < n" "month_start (LEAPYEAR y) m + int (unat e) = int (unat d)"
    using month_loop_correct [of 0 "LEAPYEAR y" d] by auto
  let ?c = "T mod 86400"
  define tb where "tb = \<lparr>tm_sec = ?c mod 60, tm_min = ?c mod 3600 div 60, tm_hour = ?c div 3600, tm_mday = uint e + 1, tm_mon = m,
    tm_year = y - 1900, tm_wday = (T div 86400 + 4) mod 7, tm_yday = uint d, tm_isdst = 0, tm_gmtoff = 0, tm_zone = ''UTC''\<rparr>"
  have nb: "0 \<le> m" "m < 12" "n \<le> 31" using ytab_Some [OF m(2)] ytab_bounds [OF m(2)] by auto
  have "gmtime_r t = Some tb"
  proof -
    have "uint (e + 1) = uint e + 1" using m(3) nb(3) by (simp add: uint_plus_simple_iff word_le_def uint_word_ariths)
    moreover have "uint ((d0 + 4) mod 7) = (T div 86400 + 4) mod 7"
      using d0 d0b by (simp add: uint_mod uint_word_ariths)
    moreover have "i32 (y - 1900) = y - 1900" using y(4,5) d0b by (intro i32_id) linarith+
    ultimately show ?thesis
      using y(1) m(1) c by (simp add: gmtime_r_def Let_def sd assms(1) [symmetric] c_def [symmetric] d0_def [symmetric] EPOCH_YR_def YEAR0_def tb_def uint_mod uint_div_distrib)
  qed
  moreover have "civil tb"
  proof -
    have "0 \<le> ?c" "?c < 86400" by simp_all
    then have "?c div 3600 < 24" "0 \<le> ?c div 3600" by auto
    moreover have "0 \<le> ?c mod 3600 div 60" "?c mod 3600 div 60 < 60" by auto
    ultimately show ?thesis using m(2,3) by (simp add: civil_def tb_def)
  qed
  moreover have "instant tb = T"
  proof -
    have "day_number y m (uint e) = T div 86400" using m(4) y(3) by (simp add: day_number_def)
    then have "instant tb = 86400 * (T div 86400) + 3600 * (?c div 3600) + 60 * (?c mod 3600 div 60) + ?c mod 60"
      using nb by (simp add: instant_def tb_def)
    also have "\<dots> = 86400 * (T div 86400) + (3600 * (?c div 3600) + 60 * (?c mod 3600 div 60) + ?c mod 60)" by (simp only: add.assoc)
    also have "\<dots> = T" unfolding clock_split by (rule mult_div_mod_eq)
    finally show ?thesis .
  qed
  moreover have "70 \<le> tm_year tb" "tm_year tb \<le> 50000" unfolding tb_def tm.simps using y(4,5) d0b by linarith+
  moreover have "tm_yday tb = T div 86400 - year_start (1900 + tm_year tb)" unfolding tb_def tm.simps y(3) [symmetric] by simp
  moreover have "tm_wday tb = (T div 86400 + 4) mod 7" "tm_isdst tb = 0" unfolding tb_def tm.simps by (rule refl)+
  ultimately show ?thesis by blast
qed


lemma leap_count:
  fixes n :: int
  assumes "0 < r" "r < n"
  shows "(z - r) div n + of_bool (z mod n \<noteq> 0 \<and> z mod n < r) = (z - 1) div n"
proof -
  define q s where "q = z div n" and "s = z mod n"
  have s: "0 \<le> s" "s < n" and z: "z = n * q + s" using assms by (simp_all add: q_def s_def)
  have *: "(z - k) div n = (if s < k then q - 1 else q)" if "0 < k" "k \<le> r" for k
  proof (cases "s < k")
    case True
    have "z - k = n * (q - 1) + (n + s - k)" using z by (simp add: algebra_simps)
    then show ?thesis using True that s assms int_div_pos_eq [of "z - k" n "q - 1" "n + s - k"] by simp
  next
    case False
    have "z - k = n * q + (s - k)" using z by simp
    then show ?thesis using False that s int_div_pos_eq [of "z - k" n q "s - k"] by simp
  qed
  show ?thesis using *[of r] *[of 1] assms s by (auto simp: s_def [symmetric])
qed

lemma leap_years:
  fixes n :: int
  assumes "0 < r" "r < n" "n dvd 1970 - r"
  shows "(y - 1970) div n + of_bool (y mod n \<noteq> 0 \<and> y mod n < r) = (y - (1971 - r)) div n"
proof -
  have e: "y - (1970 - r) - r = y - 1970" "y - (1970 - r) - 1 = y - (1971 - r)" by simp_all
  show ?thesis using leap_count [OF assms(1,2), of "y - (1970 - r)"] unfolding e mod_shift [OF assms(3)] .
qed

lemma year_day_correct:
  assumes "1970 \<le> y" "y \<le> 4002000"
  shows "year_day y = (year_start y, 0)"
proof -
  have c: "(y - 1970) div 4 + of_bool (y mod 4 \<noteq> 0 \<and> y mod 4 < 2) = (y - 1969) div 4"
    "(y - 1970) div 100 + of_bool (y mod 100 \<noteq> 0 \<and> y mod 100 < 70) = (y - 1901) div 100"
    "(y - 1970) div 400 + of_bool (y mod 400 \<noteq> 0 \<and> y mod 400 < 370) = (y - 1601) div 400"
    using leap_years [of 2 4 y] leap_years [of 70 100 y] leap_years [of 370 400 y] by simp_all
  define q A B C where "q = (y - 1970) div 4" and "A = (y - 1969) div 4" and "B = (y - 1901) div 100" and "C = (y - 1601) div 400"
  have q: "0 \<le> q" "q \<le> y - 1970" "0 \<le> A" "A \<le> y" "0 \<le> B" "B \<le> y" "0 \<le> C" "C \<le> y"
    using assms(1) div_le_self [of "y - 1970" 4] div_le_self [of "y - 1969" 4] div_le_self [of "y - 1901" 100] div_le_self [of "y - 1601" 400]
    by (simp_all only: q_def A_def B_def C_def pos_imp_zdiv_nonneg_iff zero_less_numeral)
  have n: "i32 (y - 1970) = y - 1970" using assms by (simp add: i32_id)
  have m: "y smod 4 = y mod 4" "y smod 100 = y mod 100" "y smod 400 = y mod 400" "(y - 1970) sdiv 4 = q"
    "(y - 1970) sdiv 100 = (y - 1970) div 100" "(y - 1970) sdiv 400 = (y - 1970) div 400"
    using assms(1) by (simp_all only: sdiv_smod_nonneg q_def zero_less_numeral)
  have e: "year_day y = (let day = i32 ((y - 1970) * 365) in
      (i32 (i32 (i32 (day + i32 A) - i32 B) + i32 C), of_bool (2147483647 sdiv 365 < y - 1970) + of_bool (i32 (2147483647 - day) < i32 (q + 1))))"
    unfolding year_day_def EPOCH_YR_def TIME_MAX_def Let_def n m A_def B_def C_def c [symmetric] q_def by simp
  show ?thesis unfolding e year_start_def A_def [symmetric] B_def [symmetric] C_def [symmetric] Let_def using q assms by (simp add: i32_id)
qed

lemma month_start_le: "0 \<le> mon \<Longrightarrow> mon \<le> 12 \<Longrightarrow> month_start leap mon \<le> 31 * mon"
proof -
  assume m: "0 \<le> mon" "mon \<le> 12"
  have "the (ytab leap (int i)) \<le> 31" if "i \<in> {..<nat mon}" for i
    using that m ytab_in [of "int i" leap] by fastforce
  then have "(\<Sum>i < nat mon. the (ytab leap (int i))) \<le> of_nat (card {..<nat mon}) * 31" by (rule sum_bounded_above)
  then show ?thesis using m by (simp add: month_start_def mult.commute)
qed

lemma yday_loop_correct:
  assumes "0 \<le> month" "month \<le> mon" "mon < 12"
  shows "yday_loop leap mon month (month_start leap month) = Some (month_start leap mon)"
  using assms
proof (induction "nat (mon - month)" arbitrary: month)
  case 0
  then have "month = mon" by simp
  then show ?case by (subst yday_loop.simps) simp
next
  case (Suc k)
  then obtain n where n: "ytab leap month = Some n" "28 \<le> n" "n \<le> 31" using ytab_in [of month leap] by auto
  have "0 \<le> month_start leap month" "month_start leap month \<le> 372"
    using month_start_nonneg [of month leap] month_start_le [of month leap] Suc.prems by auto
  then have "i32 (month_start leap month + n) = month_start leap (month + 1)" using n by (simp add: month_start_Suc i32_id)
  then have "yday_loop leap mon month (month_start leap month) = yday_loop leap mon (month + 1) (month_start leap (month + 1))"
    using n Suc.hyps(2) by (subst yday_loop.simps) auto
  also have "\<dots> = Some (month_start leap mon)" using Suc.hyps(2) Suc.prems by (intro Suc.hyps(1)) auto
  finally show ?case .
qed

lemma year_start_bounds: "1970 \<le> y \<Longrightarrow> 0 \<le> year_start y \<and> year_start y \<le> 366 * (y - 1970)"
proof -
  have "0 \<le> year_start (1970 + int k) \<and> year_start (1970 + int k) \<le> 366 * int k" for k
  proof (induction k)
    case (Suc k)
    then show ?case using year_start_Suc [of "1970 + int k"] YEARSIZE_bounds [of "1970 + int k"] by (simp add: add.commute add.left_commute)
  qed (simp add: year_start_epoch)
  from this [of "nat (y - 1970)"] show "1970 \<le> y \<Longrightarrow> ?thesis" by simp
qed

text \<open>The result for a broken-down time in range whose number of seconds is \<open>I\<close>; \<open>- 1\<close> stands for every number that does not fit.\<close>

definition time_result :: "int \<Rightarrow> int \<Rightarrow> int \<Rightarrow> int" where
  "time_result timezone dst I =
     (if I \<le> TIME_MAX \<and> 0 \<le> I + timezone \<and> I + timezone \<le> TIME_MAX \<and> dst \<le> I + timezone then I + timezone - dst else - 1)"

lemma le_div_iff: "D \<le> a div n \<longleftrightarrow> D * n \<le> a" if "0 < n" for D a n :: int
proof
  assume "D \<le> a div n"
  then have "D * n \<le> a div n * n" using that by (intro mult_right_mono) simp_all
  also have "\<dots> \<le> a" using that by (simp add: minus_mod_eq_div_mult [symmetric])
  finally show "D * n \<le> a" .
next
  assume "D * n \<le> a"
  then have "D * n div n \<le> a div n" using that by (rule zdiv_mono1)
  then show "D \<le> a div n" using that by simp
qed


lemma seconds_result:
  fixes D S :: int
  assumes "0 \<le> D" "0 \<le> S" "S < 86400" "\<bar>tz\<bar> \<le> 1000000" "0 \<le> dst" "dst \<le> 1000000"
  shows "(let overflow = of_bool (i32 (TIME_MAX - S) sdiv SECS_DAY < D);
              seconds = i32 (S + i32 (D * SECS_DAY));
              overflow = overflow + of_bool (tz > 0 \<and> i32 (TIME_MAX - tz) < seconds \<or> tz < 0 \<and> seconds < i32 (- tz));
              seconds = i32 (seconds + tz);
              overflow = overflow + of_bool (dst > seconds);
              seconds = i32 (seconds - dst) in
          (if overflow \<noteq> (0 :: int) then - 1 else seconds)) = time_result tz dst (86400 * D + S)"
proof -
  have i: "i32 (TIME_MAX - S) = TIME_MAX - S" "i32 (TIME_MAX - tz) = TIME_MAX - tz \<or> tz \<le> 0" "i32 (- tz) = - tz"
    using assms by (auto simp: TIME_MAX_def i32_id)
  have "(TIME_MAX - S) sdiv SECS_DAY = (TIME_MAX - S) div 86400" using assms by (simp add: sdiv_smod_nonneg TIME_MAX_def SECS_DAY_def)
  then have o: "i32 (TIME_MAX - S) sdiv SECS_DAY < D \<longleftrightarrow> \<not> 86400 * D + S \<le> TIME_MAX"
    using le_div_iff [of 86400 D "TIME_MAX - S"] unfolding i(1) by auto
  show ?thesis
  proof (cases "86400 * D + S \<le> TIME_MAX")
    case True
    then have j: "i32 (D * SECS_DAY) = D * SECS_DAY" "i32 (S + D * SECS_DAY) = 86400 * D + S" using assms by (simp_all add: TIME_MAX_def SECS_DAY_def i32_id)
    define I where "I = 86400 * D + S"
    have I: "0 \<le> I" "I \<le> 2147483647" using True assms by (simp_all add: I_def TIME_MAX_def)
    have "i32 (I + tz) = I + tz" if "0 \<le> I + tz" "I + tz \<le> 2147483647" using that by (intro i32_id) linarith+
    moreover have "i32 (I + tz - dst) = I + tz - dst" if "0 \<le> I + tz" "I + tz \<le> 2147483647" using that assms by (intro i32_id) linarith+
    ultimately show ?thesis
      using True o i(2,3) I assms unfolding j I_def [symmetric] Let_def time_result_def TIME_MAX_def by auto
  next
    case False
    then show ?thesis using o by (simp add: Let_def time_result_def)
  qed
qed

lemma mktime_seconds_correct:
  assumes civ: "civil tb" and y: "70 \<le> tm_year tb" "tm_year tb \<le> 4000000" and z: "\<bar>tz\<bar> \<le> 1000000" "0 \<le> dst" "dst \<le> 1000000"
    and D: "D = day_number (1900 + tm_year tb) (tm_mon tb) (tm_mday tb - 1)"
  shows "mktime_seconds tz dst tb = Some (time_result tz (if tm_isdst tb \<noteq> 0 then dst else 0) (instant tb),
    tb\<lparr>tm_yday := D - year_start (1900 + tm_year tb), tm_wday := (D + 4) mod 7\<rparr>)"
proof -
  let ?y = "1900 + tm_year tb" and ?S = "(tm_hour tb * 60 + tm_min tb) * 60 + tm_sec tb"
  let ?M = "month_start (LEAPYEAR (1900 + tm_year tb)) (tm_mon tb)"
  obtain n where n: "ytab (LEAPYEAR ?y) (tm_mon tb) = Some n" "1 \<le> tm_mday tb" "tm_mday tb \<le> n" using civ by (auto simp: civil_def split: option.splits)
  note nb = ytab_Some [OF n(1)] ytab_bounds [OF n(1)]
  have S: "0 \<le> ?S" "?S < 86400" "0 \<le> tm_hour tb * 60" "tm_hour tb * 60 < 1440" "0 \<le> tm_min tb" "tm_min tb < 60" "0 \<le> tm_sec tb" "tm_sec tb < 60" using civ by (simp_all add: civil_def)
  have M: "0 \<le> ?M" "?M \<le> 372"
    using month_start_nonneg [of "tm_mon tb" "LEAPYEAR ?y"] month_start_le [of "tm_mon tb" "LEAPYEAR ?y"] nb by auto
  have ys: "0 \<le> year_start ?y" "year_start ?y \<le> 1500000000" using year_start_bounds [of ?y] y by simp_all
  have D': "D = year_start ?y + (?M + (tm_mday tb - 1))" by (simp add: D day_number_def)
  have Db: "0 \<le> D" "D \<le> 1500000500" using D' M ys n nb by linarith+
  have i: "i32 (tm_year tb + YEAR0) = ?y" using y by (simp add: YEAR0_def i32_id)
  have yd: "yday_loop (LEAPYEAR ?y) (tm_mon tb) 0 0 = Some ?M" using yday_loop_correct [of 0 "tm_mon tb" "LEAPYEAR ?y"] nb by simp
  have j: "i32 (tm_mday tb - 1) = tm_mday tb - 1" "i32 (?M + (tm_mday tb - 1)) = ?M + (tm_mday tb - 1)" "i32 (year_start ?y + (?M + (tm_mday tb - 1))) = D" "i32 (D + 4) = D + 4"
    unfolding D' using n nb M ys by (simp_all add: i32_id)
  have k: "i32 (i32 (i32 (i32 (tm_hour tb * 60) + tm_min tb) * 60) + tm_sec tb) = ?S" using S by (simp add: i32_id)
  have I: "instant tb = 86400 * D + ?S" using nb by (simp add: instant_def D)
  have w: "(D + 4) smod 7 = (D + 4) mod 7" using Db by (simp add: sdiv_smod_nonneg)
  have yd': "D - year_start ?y = ?M + (tm_mday tb - 1)" by (simp add: D')
  let ?dst = "if tm_isdst tb \<noteq> 0 then dst else 0"
  have z': "0 \<le> ?dst" "?dst \<le> 1000000" using z by auto
  have nn: "\<not> D < 0" using Db by simp
  show ?thesis
    unfolding I seconds_result [OF Db(1) S(1,2) z(1) z', symmetric] yd'
    unfolding mktime_seconds_def Let_def i year_day_correct [OF _ _] yd
    using year_day_correct [of ?y] y by (simp add: yd j k w nn)
qed


lemma month_start_mono: "mon \<le> 12 \<Longrightarrow> month_start leap mon \<le> month_start leap 12"
  unfolding month_start_def
proof (intro sum_mono2)
  fix i assume "i \<in> {..<nat 12} - {..<nat mon}"
  then show "0 \<le> the (ytab leap (int i))" using ytab_in [of "int i" leap] by fastforce
qed auto

lemma year_start_neg: "y \<le> 1970 \<Longrightarrow> year_start y \<le> 0"
proof -
  have "year_start (1970 - int k) \<le> 0" for k
  proof (induction k)
    case (Suc k)
    then show ?case using year_start_Suc [of "1970 - int (Suc k)"] YEARSIZE_bounds(1) [of "1970 - int (Suc k)"] by simp
  qed (simp add: year_start_epoch)
  from this [of "nat (1970 - y)"] show "y \<le> 1970 \<Longrightarrow> ?thesis" by simp
qed

lemma civil_day:
  assumes "civil tb" and D: "D = day_number (1900 + tm_year tb) (tm_mon tb) (tm_mday tb - 1)"
  shows "instant tb div 86400 = D" "0 \<le> instant tb \<longleftrightarrow> 70 \<le> tm_year tb"
proof -
  let ?y = "1900 + tm_year tb" and ?S = "3600 * tm_hour tb + 60 * tm_min tb + tm_sec tb"
  obtain n where n: "ytab (LEAPYEAR ?y) (tm_mon tb) = Some n" "1 \<le> tm_mday tb" "tm_mday tb \<le> n"
    using assms(1) by (auto simp: civil_def split: option.splits)
  have S: "0 \<le> ?S" "?S < 86400" using assms(1) by (simp_all add: civil_def)
  have I: "instant tb = 86400 * D + ?S" using ytab_Some [OF n(1)] by (simp add: instant_def D)
  show "instant tb div 86400 = D" by (rule int_div_pos_eq [OF I S])
  have "0 \<le> month_start (LEAPYEAR ?y) (tm_mon tb)" using month_start_nonneg ytab_Some [OF n(1)] by simp
  then have lo: "year_start ?y \<le> D" using n(2) by (simp add: D day_number_def)
  have "month_start (LEAPYEAR ?y) (tm_mon tb + 1) \<le> YEARSIZE ?y"
    using month_start_mono [of "tm_mon tb + 1" "LEAPYEAR ?y"] ytab_Some [OF n(1)] by (simp add: month_start_year YEARSIZE_def)
  then have hi: "D < year_start (?y + 1)" using n(3) month_start_Suc [OF n(1)] year_start_Suc [of ?y] unfolding D day_number_def by linarith
  show "0 \<le> instant tb \<longleftrightarrow> 70 \<le> tm_year tb"
  proof (cases "70 \<le> tm_year tb")
    case True
    then have "0 \<le> year_start ?y" using year_start_bounds by simp
    then show ?thesis using lo S I True by linarith
  next
    case False
    then have "year_start (?y + 1) \<le> 0" by (intro year_start_neg) simp
    then show ?thesis using hi S I False by linarith
  qed
qed

lemma abs_div_le: "0 < n \<Longrightarrow> \<bar>a div n\<bar> \<le> \<bar>a\<bar>" for a n :: int
proof (cases "0 \<le> a")
  case False
  assume n: "0 < n"
  have "a * n \<le> a * 1" using False n by (intro mult_left_mono_neg) simp_all
  then have "a \<le> a div n" using n by (simp add: le_div_iff)
  moreover have "a div n < 0" using n False by (simp add: neg_imp_zdiv_neg_iff pos_imp_zdiv_neg_iff)
  ultimately show ?thesis by simp
qed (auto simp: pos_imp_zdiv_nonneg_iff intro: div_le_self)

text \<open>Bounds on the fields within which no intermediate value overflows.\<close>

definition small :: "tm \<Rightarrow> bool" where
  "small tb \<longleftrightarrow> \<bar>tm_sec tb\<bar> \<le> 500000 \<and> \<bar>tm_min tb\<bar> \<le> 500000 \<and> \<bar>tm_hour tb\<bar> \<le> 500000 \<and> \<bar>tm_mday tb\<bar> \<le> 500000 \<and>
     \<bar>tm_mon tb\<bar> \<le> 500000 \<and> \<bar>tm_year tb\<bar> \<le> 500000"

lemma abs_add_div: "\<bar>a\<bar> \<le> A \<Longrightarrow> \<bar>b\<bar> \<le> B \<Longrightarrow> 0 < n \<Longrightarrow> \<bar>a + b div n\<bar> \<le> A + B" for a b n :: int
  by (rule order.trans [OF abs_triangle_ineq add_mono [OF _ order.trans [OF abs_div_le]]])

lemma carries:
  assumes "small tb"
  shows "\<exists>sec min1 min hour1 hour D. carry 60 (tm_sec tb) (tm_min tb) = (sec, min1) \<and> carry 60 min1 (tm_hour tb) = (min, hour1) \<and>
    carry 24 hour1 0 = (hour, D) \<and> 0 \<le> sec \<and> sec < 60 \<and> 0 \<le> min \<and> min < 60 \<and> 0 \<le> hour \<and> hour < 24 \<and> \<bar>D\<bar> \<le> 1500000 \<and>
    86400 * D + 3600 * hour + 60 * min + sec = 3600 * tm_hour tb + 60 * tm_min tb + tm_sec tb"
proof -
  have b: "\<bar>tm_sec tb\<bar> \<le> 500000" "\<bar>tm_min tb\<bar> \<le> 500000" "\<bar>tm_hour tb\<bar> \<le> 500000" using assms by (simp_all add: small_def)
  define sec min1 where "sec = tm_sec tb mod 60" and "min1 = tm_min tb + tm_sec tb div 60"
  define min hour1 where "min = min1 mod 60" and "hour1 = tm_hour tb + min1 div 60"
  define hour D where "hour = hour1 mod 24" and "D = hour1 div 24"
  have m: "\<bar>min1\<bar> \<le> 1000000" using abs_add_div [OF b(2,1), of 60] by (simp add: min1_def)
  have h: "\<bar>hour1\<bar> \<le> 1500000" using abs_add_div [OF b(3) m, of 60] by (simp add: hour1_def)
  have d: "\<bar>D\<bar> \<le> 1500000" using abs_div_le [of 24 hour1] h by (simp add: D_def)
  have r: "0 \<le> sec" "sec < 60" "0 \<le> min" "min < 60" "0 \<le> hour" "hour < 24" by (simp_all add: sec_def min_def hour_def)
  have "sec = tm_sec tb - 60 * (min1 - tm_min tb)" "min = min1 - 60 * (hour1 - tm_hour tb)" "hour = hour1 - 24 * D"
    by (simp_all add: sec_def min1_def min_def hour1_def hour_def D_def minus_mult_div_eq_mod)
  then have e: "86400 * D + 3600 * hour + 60 * min + sec = 3600 * tm_hour tb + 60 * tm_min tb + tm_sec tb" by simp
  have "carry 60 (tm_sec tb) (tm_min tb) = (sec, min1)" using b by (simp add: carry_eq sec_def min1_def)
  moreover have "carry 60 min1 (tm_hour tb) = (min, hour1)" using b m by (simp add: carry_eq min_def hour1_def)
  moreover have "carry 24 hour1 0 = (hour, D)" using h by (simp add: carry_eq hour_def D_def)
  ultimately show ?thesis using r d e by blast
qed


text \<open>The fields after normalisation: in range, and for the same number of seconds.\<close>

lemma normalised:
  assumes s: "small tb"
    and r: "0 \<le> sec" "sec < 60" "0 \<le> mn" "mn < 60" "0 \<le> hour" "hour < 24" "\<bar>D\<bar> \<le> 1500000"
    and e: "86400 * D + 3600 * hour + 60 * mn + sec = 3600 * tm_hour tb + 60 * tm_min tb + tm_sec tb"
  shows "\<exists>d m y d' m' y'. carry 12 (tm_mon tb) (tm_year tb) = (tm_mon tb mod 12, tm_year tb + tm_mon tb div 12) \<and>
    day_down (i32 (D + i32 (tm_mday tb - 1))) (tm_mon tb mod 12) (tm_year tb + tm_mon tb div 12) = Some (d, m, y) \<and>
    day_up d m y = Some (d', m', y') \<and> \<bar>y'\<bar> \<le> 4000000 \<and>
    (let tb' = tb\<lparr>tm_sec := sec, tm_min := mn, tm_hour := hour, tm_mday := i32 (d' + 1), tm_mon := m', tm_year := y'\<rparr> in
     civil tb' \<and> instant tb' = instant tb)"
proof -
  define day mon year where "day = D + (tm_mday tb - 1)" and "mon = tm_mon tb mod 12" and "year = tm_year tb + tm_mon tb div 12"
  have b: "\<bar>tm_mday tb\<bar> \<le> 500000" "\<bar>tm_mon tb\<bar> \<le> 500000" "\<bar>tm_year tb\<bar> \<le> 500000" using s by (simp_all add: small_def)
  have y: "\<bar>year\<bar> \<le> 1000000" using abs_add_div [OF b(3,2), of 12] by (simp add: year_def)
  have dm: "0 \<le> mon" "mon < 12" "i32 (D + i32 (tm_mday tb - 1)) = day" "\<bar>day\<bar> \<le> 2000001"
    using b r(7) by (simp_all add: mon_def day_def i32_id)
  obtain d m y1 where dn: "day_down day mon year = Some (d, m, y1)" "0 \<le> m" "m < 12" "0 \<le> d" "d \<le> max 31 day"
      "day_number (1900 + y1) m d = day_number (1900 + year) mon day" "year + min 0 day \<le> y1" "y1 \<le> year"
    using day_down_correct [of mon year day] dm y by fastforce
  have y1: "- 3000001 \<le> y1" "y1 \<le> 1000000" "d \<le> 2000001" using dn(5,7,8) y dm(4) by auto
  obtain d' m' y' n where up: "day_up d m y1 = Some (d', m', y')" "ytab (LEAPYEAR (1900 + y')) m' = Some n" "0 \<le> d'" "d' < n"
      "day_number (1900 + y') m' d' = day_number (1900 + y1) m d" "y1 \<le> y'" "y' \<le> y1 + d"
    using day_up_correct [of m d y1] dn y1 by fastforce
  have i: "i32 (d' + 1) = d' + 1" using up(3,4) ytab_bounds [OF up(2)] by (intro i32_id) linarith+
  have I: "instant tb = 86400 * day_number (1900 + year) mon (tm_mday tb - 1) + 3600 * tm_hour tb + 60 * tm_min tb + tm_sec tb"
    by (simp add: instant_def year_def mon_def add.assoc)
  have "day_number (1900 + year) mon day = day_number (1900 + year) mon (tm_mday tb - 1) + D" by (simp add: day_number_def day_def)
  moreover have "day_number (1900 + y') m' d' = day_number (1900 + year) mon day" using up(5) dn(6) by simp
  moreover note e I
  ultimately have "86400 * day_number (1900 + y') m' d' + 3600 * hour + 60 * mn + sec = instant tb" by (simp add: algebra_simps)
  then have "civil (tb\<lparr>tm_sec := sec, tm_min := mn, tm_hour := hour, tm_mday := i32 (d' + 1), tm_mon := m', tm_year := y'\<rparr>) \<and>
      instant (tb\<lparr>tm_sec := sec, tm_min := mn, tm_hour := hour, tm_mday := i32 (d' + 1), tm_mon := m', tm_year := y'\<rparr>) = instant tb"
    using r up(2-4) ytab_Some [OF up(2)] unfolding i by (simp add: civil_def instant_def)
  moreover have "\<bar>y'\<bar> \<le> 4000000" using up(6,7) y1 by linarith
  moreover have "carry 12 (tm_mon tb) (tm_year tb) = (mon, year)" using b by (simp add: carry_eq mon_def year_def)
  ultimately show ?thesis using dn(1) up(1) unfolding dm(3) mon_def [symmetric] year_def [symmetric] Let_def by blast
qed

lemma mktime_eq:
  assumes "small tb" "\<bar>tz\<bar> \<le> 1000000" "0 \<le> dst" "dst \<le> 1000000"
  shows "\<exists>tb'. mktime tz dst tb = Some (if 0 \<le> instant tb then time_result tz (if tm_isdst tb \<noteq> 0 then dst else 0) (instant tb) else - 1, tb') \<and>
    civil tb' \<and> instant tb' = instant tb \<and> (0 \<le> instant tb \<longrightarrow> tm_wday tb' = (instant tb div 86400 + 4) mod 7 \<and>
      tm_yday tb' = instant tb div 86400 - year_start (1900 + tm_year tb'))"
proof -
  obtain sec min1 mn hour1 hour D where c: "carry 60 (tm_sec tb) (tm_min tb) = (sec, min1)" "carry 60 min1 (tm_hour tb) = (mn, hour1)"
      "carry 24 hour1 0 = (hour, D)" and r: "0 \<le> sec" "sec < 60" "0 \<le> mn" "mn < 60" "0 \<le> hour" "hour < 24" "\<bar>D\<bar> \<le> 1500000"
      "86400 * D + 3600 * hour + 60 * mn + sec = 3600 * tm_hour tb + 60 * tm_min tb + tm_sec tb"
    using carries [OF assms(1)] by blast
  obtain d m y d' m' y' where n: "carry 12 (tm_mon tb) (tm_year tb) = (tm_mon tb mod 12, tm_year tb + tm_mon tb div 12)"
      "day_down (i32 (D + i32 (tm_mday tb - 1))) (tm_mon tb mod 12) (tm_year tb + tm_mon tb div 12) = Some (d, m, y)"
      "day_up d m y = Some (d', m', y')" "\<bar>y'\<bar> \<le> 4000000"
      "let tb' = tb\<lparr>tm_sec := sec, tm_min := mn, tm_hour := hour, tm_mday := i32 (d' + 1), tm_mon := m', tm_year := y'\<rparr> in
        civil tb' \<and> instant tb' = instant tb"
    using normalised [OF assms(1) r] by blast
  define tb1 where "tb1 = tb\<lparr>tm_sec := sec, tm_min := mn, tm_hour := hour, tm_mday := i32 (d' + 1), tm_mon := m', tm_year := y'\<rparr>"
  have t: "civil tb1" "instant tb1 = instant tb" using n(5) by (simp_all add: tb1_def Let_def)
  have f: "tm_year tb1 = y'" "tm_isdst tb1 = tm_isdst tb" by (simp_all add: tb1_def)
  have mk: "mktime tz dst tb = (if y' < 70 then Some (- 1, tb1) else mktime_seconds tz dst tb1)"
    using c n(1-3) by (simp add: mktime_def EPOCH_YR_def YEAR0_def tb1_def)
  note cd = civil_day [OF t(1) refl]
  show ?thesis
  proof (cases "y' < 70")
    case True
    then show ?thesis using mk t cd(2) f by auto
  next
    case False
    then have "mktime_seconds tz dst tb1 = Some (time_result tz (if tm_isdst tb1 \<noteq> 0 then dst else 0) (instant tb1),
        tb1\<lparr>tm_yday := instant tb1 div 86400 - year_start (1900 + tm_year tb1), tm_wday := (instant tb1 div 86400 + 4) mod 7\<rparr>)"
      using mktime_seconds_correct [OF t(1) _ _ assms(2-4) cd(1)] f n(4) by simp
    moreover have "civil (tb1\<lparr>tm_yday := k, tm_wday := l\<rparr>) = civil tb1" "instant (tb1\<lparr>tm_yday := k, tm_wday := l\<rparr>) = instant tb1" for k l
      by (simp_all add: civil_def instant_def split: option.split)
    ultimately show ?thesis using mk t cd(2) f False by simp
  qed
qed

lemma gmtime_small: "civil tb \<Longrightarrow> 70 \<le> tm_year tb \<Longrightarrow> tm_year tb \<le> 50000 \<Longrightarrow> small tb"
  using ytab_Some [of "LEAPYEAR (1900 + tm_year tb)" "tm_mon tb"] ytab_bounds [of "LEAPYEAR (1900 + tm_year tb)" "tm_mon tb"]
  by (fastforce simp: civil_def small_def split: option.splits)

lemma uint_time: "uint (of_int t :: u32) = t mod 4294967296"
  by (simp add: uint_word_of_int)

section \<open>Correctness\<close>

text \<open>
  \<open>gmtime_r\<close> always returns, with every field in its range: the broken-down time stands for the number of seconds it
  was given (a negative number counts as the unsigned number with the same bits), with the day of the week and the day of the year.
\<close>

theorem gmtime_r_correct:
  "\<exists>tb. gmtime_r t = Some tb \<and> civil tb \<and> instant tb = t mod 4294967296 \<and>
     tm_wday tb = (t mod 4294967296 div 86400 + 4) mod 7 \<and> tm_yday tb = t mod 4294967296 div 86400 - year_start (1900 + tm_year tb) \<and>
     year_start (1900 + tm_year tb) = (\<Sum>y = 1970..<1900 + tm_year tb. YEARSIZE y)"
proof -
  have "year_start (1970 + int k) = (\<Sum>y = 1970..<1970 + int k. YEARSIZE y)" for k
  proof (induction k)
    case (Suc k)
    have "{1970..<1970 + int (Suc k)} = insert (1970 + int k) {1970..<1970 + int k}" by auto
    then show ?case using Suc year_start_Suc [of "1970 + int k"] by (simp add: algebra_simps)
  qed (simp add: year_start_epoch)
  then have ys: "year_start y = (\<Sum>y = 1970..<y. YEARSIZE y)" if "1970 \<le> y" for y using that by (metis zle_iff_zadd)
  obtain tb where t: "gmtime_r t = Some tb" "civil tb" "instant tb = t mod 4294967296" "70 \<le> tm_year tb"
      "tm_wday tb = (t mod 4294967296 div 86400 + 4) mod 7" "tm_yday tb = t mod 4294967296 div 86400 - year_start (1900 + tm_year tb)"
    using gmtime_r_eq [OF refl refl, of t] unfolding uint_time by blast
  have "year_start (1900 + tm_year tb) = (\<Sum>y = 1970..<1900 + tm_year tb. YEARSIZE y)" using t(4) by (intro ys) simp
  then show ?thesis using t by blast
qed

text \<open>
  C29. For fields of at most 500000 in size \<open>mktime\<close> returns. It brings the fields into their ranges without changing the number of seconds they stand for,
  sets the day of the week and of the year, and returns that number, moved by the time zone and daylight saving time, or \<open>-1\<close> when the
  number or a partial result does not fit between 0 and \<open>TIME_MAX\<close>.
\<close>

theorem mktime_correct:
  assumes "small tb" "\<bar>timezone\<bar> \<le> 1000000" "0 \<le> dstbias" "dstbias \<le> 1000000"
  shows "\<exists>tb'. mktime timezone dstbias tb =
      Some (if 0 \<le> instant tb then time_result timezone (if tm_isdst tb \<noteq> 0 then dstbias else 0) (instant tb) else - 1, tb') \<and>
    civil tb' \<and> instant tb' = instant tb \<and> (0 \<le> instant tb \<longrightarrow> tm_wday tb' = (instant tb div 86400 + 4) mod 7 \<and>
      tm_yday tb' = instant tb div 86400 - year_start (1900 + tm_year tb'))"
  by (rule mktime_eq [OF assms])

text \<open>C28. \<open>mktime\<close> undoes \<open>localtime_r\<close> for every time that is not negative in either zone.\<close>

theorem localtime_mktime_roundtrip:
  assumes "0 \<le> t" "t \<le> TIME_MAX" "0 \<le> t - timezone" "t - timezone \<le> TIME_MAX" "\<bar>timezone\<bar> \<le> 1000000" "0 \<le> dstbias" "dstbias \<le> 1000000"
  shows "\<exists>tb tb'. localtime_r timezone t = Some tb \<and> mktime timezone dstbias tb = Some (t, tb') \<and> instant tb' = t - timezone"
proof -
  have i: "i32 (t - timezone) = t - timezone" using assms by (simp add: TIME_MAX_def i32_id)
  have m: "(t - timezone) mod 4294967296 = t - timezone" using assms by (simp add: TIME_MAX_def)
  obtain tb where t: "gmtime_r (t - timezone) = Some tb" "civil tb" "instant tb = t - timezone" "70 \<le> tm_year tb" "tm_year tb \<le> 50000" "tm_isdst tb = 0"
    using gmtime_r_eq [OF refl refl, of "t - timezone"] unfolding uint_time m by blast
  have "time_result timezone 0 (t - timezone) = t" using assms by (simp add: time_result_def)
  then show ?thesis
    using mktime_eq [OF gmtime_small [OF t(2,4,5)] assms(5-7)] t(1,3,6) assms(3) i by (auto simp: localtime_r_def)
qed

text \<open>The 31st of February 2024, and noon of 14 November 2023 one hour west of Greenwich.\<close>

definition tm_ex :: tm where
  "tm_ex = \<lparr>tm_sec = 0, tm_min = 0, tm_hour = 0, tm_mday = 31, tm_mon = 1, tm_year = 124, tm_wday = 0, tm_yday = 0,
     tm_isdst = 0, tm_gmtoff = 0, tm_zone = ''UTC''\<rparr>"

theorem mktime_correct_witness: "\<exists>tb'. mktime 0 0 tm_ex = Some (1709337600, tb') \<and> civil tb' \<and> tm_wday tb' = 6"
proof -
  have "instant tm_ex = 1709337600"
    by (simp add: tm_ex_def instant_def day_number_def year_start_def month_start_def ytab_def LEAPYEAR_iff)
  moreover have "small tm_ex" by (simp add: small_def tm_ex_def)
  moreover have "tm_isdst tm_ex = 0" by (simp add: tm_ex_def)
  ultimately show ?thesis using mktime_correct [of tm_ex 0 0] by (auto simp: time_result_def TIME_MAX_def)
qed

theorem localtime_mktime_roundtrip_witness:
  "\<exists>tb tb'. localtime_r 3600 1699963200 = Some tb \<and> mktime 3600 0 tb = Some (1699963200, tb') \<and> instant tb' = 1699959600"
  using localtime_mktime_roundtrip [of 1699963200 3600 0] by (simp add: TIME_MAX_def)

end
