(* ===== verification/Pbuf.thy ===== *)
theory Pbuf
  imports Dll Iovec
begin

text \<open>
  Packet buffers (\<^verbatim>\<open>src/src/sys/net/pbuf.c\<close>): chains of buffers, from the kernel heap or from a pool of buffers of
  fixed size that is threaded through three lists. A buffer is named by the address of its header; its data starts right
  behind the header, 24 bytes further. \<open>kmalloc\<close> and \<open>kfree\<close> are parameters. \<open>None\<close> is a call that does not return: a
  panic, a null pointer followed, or a walk along a list that is not terminated.
\<close>

section \<open>Operations\<close>

definition PBUF_TRANSPORT_HLEN :: int where "PBUF_TRANSPORT_HLEN = 20"
definition PBUF_IP_HLEN :: int where "PBUF_IP_HLEN = 20"
definition PBUF_LINK_HLEN :: int where "PBUF_LINK_HLEN = 14"
definition PBUF_POOL_SIZE :: nat where "PBUF_POOL_SIZE = 128"
definition PBUF_POOL_BUFSIZE :: int where "PBUF_POOL_BUFSIZE = 128"
definition PBUF_FLAG_RW :: u16 where "PBUF_FLAG_RW = 0"
definition PBUF_FLAG_RO :: u16 where "PBUF_FLAG_RO = 1"
definition PBUF_FLAG_POOL :: u16 where "PBUF_FLAG_POOL = 2"
definition EBUF :: int where "EBUF = 65"

text \<open>The layers and the kinds of buffers that a caller of \<open>pbuf_alloc\<close> names.\<close>

definition PBUF_TRANSPORT :: int where "PBUF_TRANSPORT = 0"
definition PBUF_IP :: int where "PBUF_IP = 1"
definition PBUF_LINK :: int where "PBUF_LINK = 2"
definition PBUF_RAW :: int where "PBUF_RAW = 3"
definition PBUF_RW :: int where "PBUF_RW = 0"
definition PBUF_RO :: int where "PBUF_RO = 1"
definition PBUF_POOL :: int where "PBUF_POOL = 2"

record pbuf =
  pb_next :: ptr
  pb_flags :: u16
  pb_ref :: u16
  pb_payload :: int
  pb_tot_len :: int
  pb_len :: int
  pb_size :: int

record stats_pbuf =
  sp_avail :: u32
  sp_used :: u32
  sp_max :: u32
  sp_err :: u32
  sp_alloc_locked :: u32
  sp_refresh_locked :: u32
  sp_rwbufs :: u32

record pstate =
  pb :: "nat \<Rightarrow> pbuf"
  pmem :: mem
  pbuf_pool :: ptr
  pbuf_pool_alloc_cache :: ptr
  pbuf_pool_free_cache :: ptr
  pbuf_pool_free_lock :: int
  pbuf_pool_alloc_lock :: int
  stats :: stats_pbuf

definition data_start :: "nat \<Rightarrow> int" where
  "data_start p = int p + 24"

definition upd_pb :: "nat \<Rightarrow> (pbuf \<Rightarrow> pbuf) \<Rightarrow> 'z pstate_scheme \<Rightarrow> 'z pstate_scheme" where
  "upd_pb p f s = s\<lparr>pb := (pb s)(p := f (pb s p))\<rparr>"

definition upd_stats :: "(stats_pbuf \<Rightarrow> stats_pbuf) \<Rightarrow> 'z pstate_scheme \<Rightarrow> 'z pstate_scheme" where
  "upd_stats f s = s\<lparr>stats := f (stats s)\<rparr>"

fun init_loop :: "nat \<Rightarrow> nat \<Rightarrow> nat \<Rightarrow> 'z pstate_scheme \<Rightarrow> nat \<times> 'z pstate_scheme" where
  "init_loop 0 p q s = (q, s)"
| "init_loop (Suc i) p q s =
     init_loop i (p + nat PBUF_POOL_BUFSIZE + 24) p
       (upd_pb p (\<lambda>x. x\<lparr>pb_next := Some (p + nat PBUF_POOL_BUFSIZE + 24), pb_len := PBUF_POOL_BUFSIZE, pb_tot_len := PBUF_POOL_BUFSIZE,
          pb_size := PBUF_POOL_BUFSIZE, pb_payload := data_start p\<rparr>) s)"

definition pbuf_init :: "(u32 \<Rightarrow> 'z pstate_scheme \<Rightarrow> ptr \<times> 'z pstate_scheme) \<Rightarrow> 'z pstate_scheme \<Rightarrow> 'z pstate_scheme option" where
  "pbuf_init kmalloc s =
     (case kmalloc (of_nat PBUF_POOL_SIZE * (of_int PBUF_POOL_BUFSIZE + 24)) s of
        (None, s) \<Rightarrow> None
      | (Some p, s) \<Rightarrow>
          let s = s\<lparr>pbuf_pool := Some p\<rparr>;
              s = upd_stats (\<lambda>x. x\<lparr>sp_avail := of_nat PBUF_POOL_SIZE\<rparr>) s;
              (q, s) = init_loop PBUF_POOL_SIZE p p s;
              s = upd_pb q (\<lambda>x. x\<lparr>pb_next := None\<rparr>) s in
          Some (s\<lparr>pbuf_pool_alloc_lock := 0, pbuf_pool_free_lock := 0\<rparr>))"

definition pbuf_pool_alloc :: "'z pstate_scheme \<Rightarrow> ptr \<times> 'z pstate_scheme" where
  "pbuf_pool_alloc s =
     (case (case pbuf_pool_alloc_cache s of
              Some p \<Rightarrow> (True, Some p, s\<lparr>pbuf_pool_alloc_cache := pb_next (pb s p)\<rparr>)
            | None \<Rightarrow>
                if pbuf_pool_free_lock s \<noteq> 0 then
                  (False, None, upd_stats (\<lambda>x. x\<lparr>sp_alloc_locked := sp_alloc_locked x + 1\<rparr>) s)
                else
                  let s = s\<lparr>pbuf_pool_alloc_lock := pbuf_pool_alloc_lock s + 1\<rparr>;
                      (p, s) = (if pbuf_pool_free_lock s = 0 then
                                  case pbuf_pool s of
                                    None \<Rightarrow> (None, s)
                                  | Some p \<Rightarrow> (Some p, s\<lparr>pbuf_pool := pb_next (pb s p)\<rparr>)
                                else (None, upd_stats (\<lambda>x. x\<lparr>sp_alloc_locked := sp_alloc_locked x + 1\<rparr>) s)) in
                  (True, p, s\<lparr>pbuf_pool_alloc_lock := pbuf_pool_alloc_lock s - 1\<rparr>)) of
        (False, p, s) \<Rightarrow> (None, s)
      | (True, None, s) \<Rightarrow> (None, s)
      | (True, Some p, s) \<Rightarrow>
          let s = upd_stats (\<lambda>x. x\<lparr>sp_used := sp_used x + 1\<rparr>) s in
          (Some p, if sp_used (stats s) > sp_max (stats s) then upd_stats (\<lambda>x. x\<lparr>sp_max := sp_used x\<rparr>) s else s))"

partial_function (option) last_pbuf :: "nat \<Rightarrow> 'z pstate_scheme \<Rightarrow> nat option" where
  "last_pbuf p s = (case pb_next (pb s p) of None \<Rightarrow> Some p | Some q \<Rightarrow> last_pbuf q s)"

partial_function (option) unuse_loop :: "ptr \<Rightarrow> 'z pstate_scheme \<Rightarrow> 'z pstate_scheme option" where
  "unuse_loop q s =
     (case q of
        None \<Rightarrow> Some s
      | Some p \<Rightarrow> unuse_loop (pb_next (pb s p)) (upd_stats (\<lambda>x. x\<lparr>sp_used := sp_used x - 1\<rparr>) s))"

definition pbuf_pool_free :: "nat \<Rightarrow> 'z pstate_scheme \<Rightarrow> 'z pstate_scheme option" where
  "pbuf_pool_free p s =
     do {
       s \<leftarrow> unuse_loop (Some p) s;
       case pbuf_pool_alloc_cache s of
         None \<Rightarrow> Some (s\<lparr>pbuf_pool_alloc_cache := Some p\<rparr>)
       | Some a \<Rightarrow> do { q \<leftarrow> last_pbuf a s; Some (upd_pb q (\<lambda>x. x\<lparr>pb_next := Some p\<rparr>) s) }
     }"

text \<open>The tail of a chain from the pool: whether there were enough buffers, and the last buffer of the chain.\<close>

function pool_tail :: "nat \<Rightarrow> int \<Rightarrow> 'z pstate_scheme \<Rightarrow> bool \<times> nat \<times> 'z pstate_scheme" where
  "pool_tail r rsize s =
     (if rsize > 0 then
        case pbuf_pool_alloc s of
          (None, s) \<Rightarrow> (False, r, s)
        | (Some q, s) \<Rightarrow>
            let s = upd_pb q (\<lambda>x. x\<lparr>pb_next := None\<rparr>) s;
                s = upd_pb r (\<lambda>x. x\<lparr>pb_next := Some q\<rparr>) s;
                s = upd_pb q (\<lambda>x. x\<lparr>pb_len := (if rsize > PBUF_POOL_BUFSIZE then PBUF_POOL_BUFSIZE else rsize),
                      pb_flags := PBUF_FLAG_POOL, pb_payload := data_start q, pb_ref := 1\<rparr>) s in
            pool_tail q (rsize - PBUF_POOL_BUFSIZE) s
      else (True, r, s))"
  by auto
termination
  by (relation "measure (\<lambda>(r, rsize, s). nat rsize)") (auto simp: PBUF_POOL_BUFSIZE_def)

declare pool_tail.simps [simp del]

definition alloc_pool :: "int \<Rightarrow> int \<Rightarrow> 'z pstate_scheme \<Rightarrow> (ptr \<times> 'z pstate_scheme) option" where
  "alloc_pool offset sz s =
     (case pbuf_pool_alloc s of
        (None, s) \<Rightarrow> Some (None, upd_stats (\<lambda>x. x\<lparr>sp_err := sp_err x + 1\<rparr>) s)
      | (Some p, s) \<Rightarrow>
          let s = upd_pb p (\<lambda>x. x\<lparr>pb_next := None, pb_payload := data_start p + offset, pb_tot_len := sz,
                    pb_len := (if sz > PBUF_POOL_BUFSIZE - offset then PBUF_POOL_BUFSIZE - offset else sz),
                    pb_flags := PBUF_FLAG_POOL\<rparr>) s in
          (case pool_tail p (sz - pb_len (pb s p)) s of
            (False, r, s) \<Rightarrow>
              do { s \<leftarrow> pbuf_pool_free p (upd_stats (\<lambda>x. x\<lparr>sp_err := sp_err x + 1\<rparr>) s); Some (None, s) }
          | (True, r, s) \<Rightarrow>
              let s = upd_pb r (\<lambda>x. x\<lparr>pb_next := None\<rparr>) s in
              Some (Some p, upd_pb p (\<lambda>x. x\<lparr>pb_ref := 1\<rparr>) s)))"

definition layer_offset :: "int \<Rightarrow> int option" where
  "layer_offset layer =
     (if layer = PBUF_TRANSPORT then Some (PBUF_TRANSPORT_HLEN + PBUF_IP_HLEN + PBUF_LINK_HLEN)
      else if layer = PBUF_IP then Some (PBUF_IP_HLEN + PBUF_LINK_HLEN)
      else if layer = PBUF_LINK then Some PBUF_LINK_HLEN
      else if layer = PBUF_RAW then Some 0
      else None)"

definition pbuf_alloc ::
  "(u32 \<Rightarrow> 'z pstate_scheme \<Rightarrow> ptr \<times> 'z pstate_scheme) \<Rightarrow> int \<Rightarrow> int \<Rightarrow> int \<Rightarrow> 'z pstate_scheme \<Rightarrow> (ptr \<times> 'z pstate_scheme) option" where
  "pbuf_alloc kmalloc layer sz flag s =
     (case layer_offset layer of
        None \<Rightarrow> None
      | Some offset \<Rightarrow>
          if flag = PBUF_POOL then alloc_pool offset sz s
          else if flag = PBUF_RW then
            case kmalloc (of_int (24 + sz + offset)) s of
              (None, s) \<Rightarrow> Some (None, s)
            | (Some p, s) \<Rightarrow>
                let s = upd_pb p (\<lambda>x. x\<lparr>pb_payload := data_start p + offset, pb_len := sz, pb_tot_len := sz, pb_size := sz,
                          pb_next := None, pb_flags := PBUF_FLAG_RW\<rparr>) s;
                    s = upd_stats (\<lambda>x. x\<lparr>sp_rwbufs := sp_rwbufs x + 1\<rparr>) s in
                Some (Some p, upd_pb p (\<lambda>x. x\<lparr>pb_ref := 1\<rparr>) s)
          else if flag = PBUF_RO then
            case kmalloc 24 s of
              (None, s) \<Rightarrow> Some (None, s)
            | (Some p, s) \<Rightarrow>
                let s = upd_pb p (\<lambda>x. x\<lparr>pb_payload := 0, pb_len := sz, pb_tot_len := sz, pb_size := sz,
                          pb_next := None, pb_flags := PBUF_FLAG_RO\<rparr>) s in
                Some (Some p, upd_pb p (\<lambda>x. x\<lparr>pb_ref := 1\<rparr>) s)
          else None)"

definition pbuf_refresh :: "'z pstate_scheme \<Rightarrow> 'z pstate_scheme option" where
  "pbuf_refresh s =
     (if pbuf_pool_free_cache s \<noteq> None then
        let s = s\<lparr>pbuf_pool_free_lock := pbuf_pool_free_lock s + 1\<rparr> in
        do {
          s \<leftarrow> (if pbuf_pool_alloc_lock s = 0 then
                 do {
                   s \<leftarrow> (case pbuf_pool s of
                          None \<Rightarrow> Some (s\<lparr>pbuf_pool := pbuf_pool_free_cache s\<rparr>)
                        | Some p \<Rightarrow> do { q \<leftarrow> last_pbuf p s; Some (upd_pb q (\<lambda>x. x\<lparr>pb_next := pbuf_pool_free_cache s\<rparr>) s) });
                   Some (s\<lparr>pbuf_pool_free_cache := None\<rparr>)
                 }
               else Some (upd_stats (\<lambda>x. x\<lparr>sp_refresh_locked := sp_refresh_locked x + 1\<rparr>) s));
          Some (s\<lparr>pbuf_pool_free_lock := pbuf_pool_free_lock s - 1\<rparr>)
        }
      else Some s)"

text \<open>The buffers of a chain given back one by one, and how many there were.\<close>

partial_function (option) free_loop ::
  "(nat \<Rightarrow> 'z pstate_scheme \<Rightarrow> 'z pstate_scheme) \<Rightarrow> ptr \<Rightarrow> int \<Rightarrow> 'z pstate_scheme \<Rightarrow> (int \<times> 'z pstate_scheme) option" where
  "free_loop kfree p count s =
     (case p of
        None \<Rightarrow> Some (count, s)
      | Some p \<Rightarrow>
          if pb_flags (pb s p) = PBUF_FLAG_POOL then
            let s = upd_pb p (\<lambda>x. x\<lparr>pb_len := PBUF_POOL_BUFSIZE, pb_tot_len := PBUF_POOL_BUFSIZE, pb_payload := data_start p\<rparr>) s;
                q = pb_next (pb s p);
                s = upd_pb p (\<lambda>x. x\<lparr>pb_next := pbuf_pool_free_cache s\<rparr>) s;
                s = s\<lparr>pbuf_pool_free_cache := Some p\<rparr>;
                s = upd_stats (\<lambda>x. x\<lparr>sp_used := sp_used x - 1\<rparr>) s in
            free_loop kfree q (count + 1) s
          else if pb_flags (pb s p) = PBUF_FLAG_RO then
            free_loop kfree (pb_next (pb s p)) (count + 1) (kfree p s)
          else
            free_loop kfree (pb_next (pb s p)) (count + 1) (kfree p (upd_stats (\<lambda>x. x\<lparr>sp_rwbufs := sp_rwbufs x - 1\<rparr>) s)))"

definition pbuf_free ::
  "(nat \<Rightarrow> 'z pstate_scheme \<Rightarrow> 'z pstate_scheme) \<Rightarrow> ptr \<Rightarrow> 'z pstate_scheme \<Rightarrow> (int \<times> 'z pstate_scheme) option" where
  "pbuf_free kfree p s =
     (case p of
        None \<Rightarrow> Some (0, s)
      | Some p \<Rightarrow>
          let s = upd_pb p (\<lambda>x. x\<lparr>pb_ref := pb_ref x - 1\<rparr>) s in
          do {
            (count, s) \<leftarrow> (if pb_ref (pb s p) = 0 then free_loop kfree (Some p) 0 s else Some (0, s));
            s \<leftarrow> pbuf_refresh s;
            Some (count, s)
          })"

text \<open>The buffer of a chain in which byte \<open>rsize\<close> lies, and how much of it is kept.\<close>

partial_function (option) find_end :: "ptr \<Rightarrow> int \<Rightarrow> 'z pstate_scheme \<Rightarrow> (nat \<times> int) option" where
  "find_end q rsize s =
     (case q of
        None \<Rightarrow> None
      | Some p \<Rightarrow> if rsize > pb_len (pb s p) then find_end (pb_next (pb s p)) (rsize - pb_len (pb s p)) s else Some (p, rsize))"

partial_function (option) drop_rest :: "ptr \<Rightarrow> 'z pstate_scheme \<Rightarrow> 'z pstate_scheme option" where
  "drop_rest q s =
     (case q of
        None \<Rightarrow> Some s
      | Some p \<Rightarrow>
          let r = pb_next (pb s p);
              s = upd_pb p (\<lambda>x. x\<lparr>pb_next := pbuf_pool_free_cache s\<rparr>) s;
              s = s\<lparr>pbuf_pool_free_cache := Some p\<rparr>;
              s = upd_stats (\<lambda>x. x\<lparr>sp_used := sp_used x - 1\<rparr>) s in
          drop_rest r s)"

definition pbuf_realloc ::
  "(nat \<Rightarrow> 'z pstate_scheme \<Rightarrow> 'z pstate_scheme) \<Rightarrow> nat \<Rightarrow> int \<Rightarrow> 'z pstate_scheme \<Rightarrow> 'z pstate_scheme option" where
  "pbuf_realloc kfree p sz s =
     (if pb_tot_len (pb s p) \<le> sz then Some s
      else
        do {
          s \<leftarrow> (if pb_flags (pb s p) = PBUF_FLAG_POOL then
                 do {
                   (q, rsize) \<leftarrow> find_end (Some p) sz s;
                   let s = upd_pb q (\<lambda>x. x\<lparr>pb_len := rsize\<rparr>) s;
                   let r = pb_next (pb s q);
                   drop_rest r (upd_pb q (\<lambda>x. x\<lparr>pb_next := None\<rparr>) s)
                 }
               else if pb_flags (pb s p) = PBUF_FLAG_RO then Some (upd_pb p (\<lambda>x. x\<lparr>pb_len := sz\<rparr>) s)
               else if pb_flags (pb s p) = PBUF_FLAG_RW then
                 do {
                   (q, rsize) \<leftarrow> find_end (Some p) sz s;
                   let s = upd_pb q (\<lambda>x. x\<lparr>pb_len := rsize\<rparr>) s;
                   let r = pb_next (pb s q);
                   (_, s) \<leftarrow> pbuf_free kfree r (upd_pb q (\<lambda>x. x\<lparr>pb_next := None\<rparr>) s);
                   Some s
                 }
               else Some s);
          pbuf_refresh (upd_pb p (\<lambda>x. x\<lparr>pb_tot_len := sz\<rparr>) s)
        })"

definition pbuf_header :: "nat \<Rightarrow> int \<Rightarrow> 'z pstate_scheme \<Rightarrow> int \<times> 'z pstate_scheme" where
  "pbuf_header p header_size s =
     (let payload = pb_payload (pb s p);
          s = upd_pb p (\<lambda>x. x\<lparr>pb_payload := pb_payload x - header_size\<rparr>) s in
      if pb_payload (pb s p) < data_start p then (- EBUF, upd_pb p (\<lambda>x. x\<lparr>pb_payload := payload\<rparr>) s)
      else (0, upd_pb p (\<lambda>x. x\<lparr>pb_len := i32 (pb_len x + header_size), pb_tot_len := i32 (pb_tot_len x + header_size)\<rparr>) s))"

partial_function (option) clen_loop :: "ptr \<Rightarrow> int \<Rightarrow> 'z pstate_scheme \<Rightarrow> int option" where
  "clen_loop p n s = (case p of None \<Rightarrow> Some n | Some p \<Rightarrow> clen_loop (pb_next (pb s p)) (n + 1) s)"

definition pbuf_clen :: "ptr \<Rightarrow> 'z pstate_scheme \<Rightarrow> int option" where
  "pbuf_clen p s = (if p = None then Some 0 else clen_loop p 0 s)"

definition pbuf_spare :: "nat \<Rightarrow> 'z pstate_scheme \<Rightarrow> int" where
  "pbuf_spare p s = (data_start p + pb_size (pb s p)) - (pb_payload (pb s p) + pb_len (pb s p))"

definition pbuf_ref :: "ptr \<Rightarrow> 'z pstate_scheme \<Rightarrow> 'z pstate_scheme" where
  "pbuf_ref p s = (case p of None \<Rightarrow> s | Some p \<Rightarrow> upd_pb p (\<lambda>x. x\<lparr>pb_ref := pb_ref x + 1\<rparr>) s)"

definition pbuf_chain :: "nat \<Rightarrow> ptr \<Rightarrow> 'z pstate_scheme \<Rightarrow> 'z pstate_scheme option" where
  "pbuf_chain h t s =
     (case t of
        None \<Rightarrow> Some s
      | Some t \<Rightarrow>
          do {
            p \<leftarrow> last_pbuf h s;
            let s = upd_pb p (\<lambda>x. x\<lparr>pb_next := Some t\<rparr>) s;
            Some (upd_pb h (\<lambda>x. x\<lparr>pb_tot_len := i32 (pb_tot_len x + pb_tot_len (pb s t))\<rparr>) s)
          })"

definition pbuf_dechain :: "nat \<Rightarrow> 'z pstate_scheme \<Rightarrow> ptr \<times> 'z pstate_scheme" where
  "pbuf_dechain p s =
     (let q = pb_next (pb s p);
          s = (case q of None \<Rightarrow> s | Some q \<Rightarrow> upd_pb q (\<lambda>x. x\<lparr>pb_tot_len := i32 (pb_tot_len (pb s p) - pb_len (pb s p))\<rparr>) s);
          s = upd_pb p (\<lambda>x. x\<lparr>pb_tot_len := pb_len x, pb_next := None\<rparr>) s in
      (q, s))"

partial_function (option) dup_loop :: "ptr \<Rightarrow> int \<Rightarrow> 'z pstate_scheme \<Rightarrow> 'z pstate_scheme option" where
  "dup_loop p dst s =
     (case p of
        None \<Rightarrow> Some s
      | Some p \<Rightarrow>
          do {
            (_, m) \<leftarrow> memcpy dst (pb_payload (pb s p)) (of_int (pb_len (pb s p))) (pmem s);
            dup_loop (pb_next (pb s p)) (dst + pb_len (pb s p)) (s\<lparr>pmem := m\<rparr>)
          })"

definition pbuf_dup ::
  "(u32 \<Rightarrow> 'z pstate_scheme \<Rightarrow> ptr \<times> 'z pstate_scheme) \<Rightarrow> int \<Rightarrow> nat \<Rightarrow> 'z pstate_scheme \<Rightarrow> (ptr \<times> 'z pstate_scheme) option" where
  "pbuf_dup kmalloc layer p s =
     do {
       (q, s) \<leftarrow> pbuf_alloc kmalloc layer (pb_tot_len (pb s p)) PBUF_RW s;
       case q of
         None \<Rightarrow> Some (None, s)
       | Some q \<Rightarrow> do { s \<leftarrow> dup_loop (Some p) (pb_payload (pb s q)) s; Some (Some q, s) }
     }"

definition pbuf_linearize ::
  "(u32 \<Rightarrow> 'z pstate_scheme \<Rightarrow> ptr \<times> 'z pstate_scheme) \<Rightarrow> (nat \<Rightarrow> 'z pstate_scheme \<Rightarrow> 'z pstate_scheme) \<Rightarrow>
   int \<Rightarrow> nat \<Rightarrow> 'z pstate_scheme \<Rightarrow> (ptr \<times> 'z pstate_scheme) option" where
  "pbuf_linearize kmalloc kfree layer p s =
     (if pb_next (pb s p) = None then Some (Some p, s)
      else
        do {
          (q, s) \<leftarrow> pbuf_dup kmalloc layer p s;
          case q of
            None \<Rightarrow> Some (None, s)
          | Some q \<Rightarrow> do { (_, s) \<leftarrow> pbuf_free kfree (Some p) s; Some (Some q, s) }
        })"

definition pbuf_cow ::
  "(u32 \<Rightarrow> 'z pstate_scheme \<Rightarrow> ptr \<times> 'z pstate_scheme) \<Rightarrow> (nat \<Rightarrow> 'z pstate_scheme \<Rightarrow> 'z pstate_scheme) \<Rightarrow>
   int \<Rightarrow> nat \<Rightarrow> 'z pstate_scheme \<Rightarrow> (ptr \<times> 'z pstate_scheme) option" where
  "pbuf_cow kmalloc kfree layer p s =
     (if pb_ref (pb s p) = 1 then Some (Some p, s)
      else
        do {
          (q, s) \<leftarrow> pbuf_dup kmalloc layer p s;
          case q of
            None \<Rightarrow> Some (None, s)
          | Some q \<Rightarrow> do { (_, s) \<leftarrow> pbuf_free kfree (Some p) s; Some (Some q, s) }
        })"

end
