(* ===== verification/Pbuf_Laws.thy ===== *)
theory Pbuf_Laws
  imports Pbuf "HOL-Library.Sublist"
begin

text \<open>
  Packet buffers are correct. A chain is abstracted by the list of its buffers (\<open>pchain\<close>) and by its bytes (\<open>content\<close>); the pool
  by the set of its buffers and of those in use (\<open>pool_ok\<close>), so that allocation and freeing move buffers between the two
  and none is lost or given out twice.
\<close>

section \<open>Chains and the pool\<close>

definition nxt :: "'z pstate_scheme \<Rightarrow> nat \<Rightarrow> ptr" where
  "nxt s p = pb_next (pb s p)"

definition pchain :: "'z pstate_scheme \<Rightarrow> ptr \<Rightarrow> nat list \<Rightarrow> bool" where
  "pchain s p ps \<longleftrightarrow> lseg (nxt s) p ps None"

text \<open>
  The pool buffers \<open>B\<close>: those in use are \<open>U\<close>, the others are linked in the pool (\<open>P\<close>), in the cache for
  allocation (\<open>A\<close>) or in the cache for freed buffers (\<open>F\<close>), each once.
\<close>

definition pools :: "nat set \<Rightarrow> nat set \<Rightarrow> nat list \<Rightarrow> nat list \<Rightarrow> nat list \<Rightarrow> 'z pstate_scheme \<Rightarrow> bool" where
  "pools B U P A F s \<longleftrightarrow> pchain s (pbuf_pool s) P \<and> pchain s (pbuf_pool_alloc_cache s) A \<and> pchain s (pbuf_pool_free_cache s) F \<and>
     distinct (P @ A @ F) \<and> set (P @ A @ F) = B - U \<and> U \<subseteq> B \<and> finite B \<and>
     pbuf_pool_free_lock s = 0 \<and> pbuf_pool_alloc_lock s = 0 \<and> sp_used (stats s) = of_nat (card U)"

lemma upd_pb_simps [simp]:
  "pb (upd_pb p f s) = (pb s)(p := f (pb s p))" "pmem (upd_pb p f s) = pmem s" "pbuf_pool (upd_pb p f s) = pbuf_pool s"
  "pbuf_pool_alloc_cache (upd_pb p f s) = pbuf_pool_alloc_cache s" "pbuf_pool_free_cache (upd_pb p f s) = pbuf_pool_free_cache s"
  "pbuf_pool_free_lock (upd_pb p f s) = pbuf_pool_free_lock s" "pbuf_pool_alloc_lock (upd_pb p f s) = pbuf_pool_alloc_lock s"
  "stats (upd_pb p f s) = stats s"
  by (simp_all add: upd_pb_def)

lemma upd_stats_simps [simp]:
  "pb (upd_stats f s) = pb s" "pmem (upd_stats f s) = pmem s" "pbuf_pool (upd_stats f s) = pbuf_pool s"
  "pbuf_pool_alloc_cache (upd_stats f s) = pbuf_pool_alloc_cache s" "pbuf_pool_free_cache (upd_stats f s) = pbuf_pool_free_cache s"
  "pbuf_pool_free_lock (upd_stats f s) = pbuf_pool_free_lock s" "pbuf_pool_alloc_lock (upd_stats f s) = pbuf_pool_alloc_lock s"
  "stats (upd_stats f s) = f (stats s)"
  by (simp_all add: upd_stats_def)

lemma pchain_Nil [simp]: "pchain s p [] \<longleftrightarrow> p = None"
  by (simp add: pchain_def)

lemma pchain_Cons [simp]: "pchain s p (x # xs) \<longleftrightarrow> p = Some x \<and> pchain s (pb_next (pb s x)) xs"
  by (simp add: pchain_def nxt_def)

lemma pchain_None [simp]: "pchain s None ps \<longleftrightarrow> ps = []"
  by (cases ps) auto

lemma pchain_cong:
  fixes s :: "'a pstate_scheme" and s' :: "'b pstate_scheme"
  shows "(\<And>x. x \<in> set ps \<Longrightarrow> pb_next (pb s x) = pb_next (pb s' x)) \<Longrightarrow> pchain s p ps \<longleftrightarrow> pchain s' p ps"
  unfolding pchain_def by (rule lseg_cong) (simp add: nxt_def)

lemma pchain_unique: "pchain s p ps \<Longrightarrow> pchain s p qs \<Longrightarrow> ps = qs"
  unfolding pchain_def by (rule lseg_unique)

lemma pchain_distinct: "pchain s p ps \<Longrightarrow> distinct ps"
proof (induction ps arbitrary: p)
  case (Cons x ps)
  have "x \<notin> set ps"
  proof
    assume "x \<in> set ps"
    then obtain as bs where ps: "ps = as @ x # bs" by (meson split_list)
    then have "pchain s (Some x) (x # bs)" using Cons.prems by (auto simp: pchain_def)
    then have "x # bs = x # ps" using Cons.prems by (intro pchain_unique [of s "Some x"]) auto
    then show False using ps by simp
  qed
  then show ?case using Cons by auto
qed simp

lemma pchain_last: "pchain s p ps \<Longrightarrow> ps \<noteq> [] \<Longrightarrow> pb_next (pb s (last ps)) = None"
  by (induction ps arbitrary: p) (auto split: if_splits)

lemma upd_pb_id: "f (pb s p) = pb s p \<Longrightarrow> upd_pb p f s = s"
  by (simp add: upd_pb_def)

text \<open>Appending: the link of the last buffer is set to the head of another chain.\<close>

lemma pchain_link:
  assumes "pchain s p ps" "ps \<noteq> []" "pchain s q qs" "set ps \<inter> set qs = {}"
    and "\<And>x. x \<in> set ps \<union> set qs \<Longrightarrow> pb_next (pb s' x) = (if x = last ps then q else pb_next (pb s x))"
  shows "pchain s' p (ps @ qs)"
  using assms
proof (induction ps arbitrary: p)
  case (Cons x ps)
  have "distinct (x # ps)" using pchain_distinct [OF Cons.prems(1)] .
  have "last (x # ps) \<notin> set qs" using Cons.prems(4) last_in_set [of "x # ps"] by blast
  then have "pb_next (pb s' y) = pb_next (pb s y)" if "y \<in> set qs" for y using Cons.prems(5) [of y] that by (cases "y = last (x # ps)") auto
  then have qs: "pchain s' q qs" using Cons.prems(3) pchain_cong [of qs s' s] by simp
  show ?case
  proof (cases "ps = []")
    case True
    then show ?thesis using Cons.prems(1,5) qs by simp
  next
    case False
    then have "x \<noteq> last ps" using \<open>distinct (x # ps)\<close> by auto
    then show ?thesis using Cons.IH [of "pb_next (pb s x)"] Cons.prems False by auto
  qed
qed simp

lemma last_pbuf_chain: "pchain s (Some p) ps \<Longrightarrow> last_pbuf p s = Some (last ps)"
proof (induction ps arbitrary: p)
  case (Cons x ps)
  then show ?case by (cases ps) (simp_all add: last_pbuf.simps)
qed simp

lemma unuse_loop_chain: "pchain s q ps \<Longrightarrow> unuse_loop q s = Some (upd_stats (\<lambda>x. x\<lparr>sp_used := sp_used x - of_nat (length ps)\<rparr>) s)"
proof (induction ps arbitrary: q s)
  case Nil
  then show ?case by (simp add: unuse_loop.simps upd_stats_def)
next
  case (Cons x ps)
  define s1 where "s1 = upd_stats (\<lambda>x. x\<lparr>sp_used := sp_used x - 1\<rparr>) s"
  have "pchain s1 (pb_next (pb s x)) ps" using Cons.prems by (subst pchain_cong [of ps s1 s]) (simp_all add: s1_def)
  then have "unuse_loop (pb_next (pb s x)) s1 = Some (upd_stats (\<lambda>x. x\<lparr>sp_used := sp_used x - of_nat (length ps)\<rparr>) s1)" by (rule Cons.IH)
  moreover have "unuse_loop q s = unuse_loop (pb_next (pb s x)) s1" using Cons.prems by (subst unuse_loop.simps) (simp add: s1_def)
  ultimately show ?case by (simp add: s1_def upd_stats_def algebra_simps)
qed

lemma pools_cong:
  fixes s :: "'a pstate_scheme" and s' :: "'b pstate_scheme"
  assumes "pools B U P A F s" "\<And>x. x \<in> B - U \<Longrightarrow> pb_next (pb s' x) = pb_next (pb s x)"
    "pbuf_pool s' = pbuf_pool s" "pbuf_pool_alloc_cache s' = pbuf_pool_alloc_cache s" "pbuf_pool_free_cache s' = pbuf_pool_free_cache s"
    "pbuf_pool_free_lock s' = pbuf_pool_free_lock s" "pbuf_pool_alloc_lock s' = pbuf_pool_alloc_lock s" "sp_used (stats s') = sp_used (stats s)"
  shows "pools B U P A F s'"
proof -
  have "pchain s' p ps = pchain s p ps" if "set ps \<subseteq> B - U" for p ps
    by (rule pchain_cong) (use that assms(2) in auto)
  moreover have "set P \<subseteq> B - U" "set A \<subseteq> B - U" "set F \<subseteq> B - U" using assms(1) by (auto simp: pools_def)
  ultimately show ?thesis using assms by (simp add: pools_def)
qed


section \<open>Allocation from the pool\<close>

lemma pools_sets: "pools B U P A F s \<Longrightarrow> set P \<subseteq> B - U \<and> set A \<subseteq> B - U \<and> set F \<subseteq> B - U"
  by (auto simp: pools_def)

lemma card_insert_used: "finite B \<Longrightarrow> U \<subseteq> B \<Longrightarrow> q \<in> B - U \<Longrightarrow> card (insert q U) = Suc (card U)"
  using finite_subset [of U B] by simp

lemma pool_alloc_None: "pools B U [] [] F s \<Longrightarrow> pbuf_pool_alloc s = (None, s)"
  by (simp add: pools_def pbuf_pool_alloc_def)

lemma pool_alloc_Some:
  fixes s :: "'z pstate_scheme"
  assumes "pools B U P A F s" "P @ A \<noteq> []"
  shows "\<exists>q P' A' s'. pbuf_pool_alloc s = (Some q, s') \<and> pools B (insert q U) P' A' F s' \<and> q \<in> B - U \<and> pb s' = pb s \<and> pmem s' = pmem s"
proof (cases A)
  case (Cons q A')
  let ?s1 = "upd_stats (\<lambda>x. x\<lparr>sp_used := sp_used x + 1\<rparr>) (s\<lparr>pbuf_pool_alloc_cache := pb_next (pb s q)\<rparr>)"
  let ?s2 = "if sp_used (stats ?s1) > sp_max (stats ?s1) then upd_stats (\<lambda>x. x\<lparr>sp_max := sp_used x\<rparr>) ?s1 else ?s1"
  have "pbuf_pool_alloc s = (Some q, ?s2)" using assms(1) Cons by (simp add: pools_def pbuf_pool_alloc_def Let_def)
  moreover have q: "q \<in> B - U" using pools_sets [OF assms(1)] Cons by auto
  moreover have "pb ?s2 = pb s" "pmem ?s2 = pmem s" by simp_all
  moreover have "pools B (insert q U) P A' F ?s2"
  proof -
    have c: "pchain ?s2 p ps = pchain s p ps" for p ps by (rule pchain_cong) simp
    show ?thesis using assms(1) Cons q card_insert_used [of B U q] unfolding pools_def c by (auto simp: insert_Diff_if)
  qed
  ultimately show ?thesis by blast
next
  case Nil
  then obtain q P' where P: "P = q # P'" using assms(2) by (cases P) auto
  let ?s1 = "upd_stats (\<lambda>x. x\<lparr>sp_used := sp_used x + 1\<rparr>) (s\<lparr>pbuf_pool := pb_next (pb s q), pbuf_pool_alloc_lock := 0\<rparr>)"
  let ?s2 = "if sp_used (stats ?s1) > sp_max (stats ?s1) then upd_stats (\<lambda>x. x\<lparr>sp_max := sp_used x\<rparr>) ?s1 else ?s1"
  have "pbuf_pool_alloc s = (Some q, ?s2)" using assms(1) Nil P by (simp add: pools_def pbuf_pool_alloc_def Let_def)
  moreover have q: "q \<in> B - U" using pools_sets [OF assms(1)] P by auto
  moreover have "pb ?s2 = pb s" "pmem ?s2 = pmem s" by simp_all
  moreover have "pools B (insert q U) P' A F ?s2"
  proof -
    have c: "pchain ?s2 p ps = pchain s p ps" for p ps by (rule pchain_cong) simp
    show ?thesis using assms(1) Nil P q card_insert_used [of B U q] unfolding pools_def c by (auto simp: insert_Diff_if)
  qed
  ultimately show ?thesis by blast
qed

lemma pools_empty: "pools B U P A [] s \<Longrightarrow> P @ A = [] \<longleftrightarrow> B = U"
  by (auto simp: pools_def)

text \<open>A buffer of the pool that has been taken for a chain and holds its part of the data.\<close>

definition fresh_tail :: "'z pstate_scheme \<Rightarrow> nat \<Rightarrow> bool" where
  "fresh_tail s q \<longleftrightarrow> pb_flags (pb s q) = PBUF_FLAG_POOL \<and> pb_ref (pb s q) = 1 \<and> pb_payload (pb s q) = data_start q \<and>
     0 < pb_len (pb s q) \<and> pb_len (pb s q) \<le> PBUF_POOL_BUFSIZE"

definition chain_len :: "'z pstate_scheme \<Rightarrow> nat list \<Rightarrow> int" where
  "chain_len s ps = sum_list (map (\<lambda>p. pb_len (pb s p)) ps)"

lemma chain_len_Cons: "chain_len s (p # ps) = pb_len (pb s p) + chain_len s ps"
  by (simp add: chain_len_def)

text \<open>The chain that ends in \<open>r\<close> has been extended by the buffers \<open>qs\<close> from the pool.\<close>

definition extended :: "nat set \<Rightarrow> nat set \<Rightarrow> nat \<Rightarrow> 'z pstate_scheme \<Rightarrow> nat list \<Rightarrow> 'z pstate_scheme \<Rightarrow> bool" where
  "extended B U r s qs s' \<longleftrightarrow> (\<exists>P A. pools B (U \<union> set qs) P A [] s') \<and> set qs \<inter> U = {} \<and> pchain s' (Some r) (r # qs) \<and>
     (\<forall>b \<in> U - {r}. pb s' b = pb s b) \<and> (\<exists>v. pb s' r = (pb s r)\<lparr>pb_next := v\<rparr>) \<and> pmem s' = pmem s"

lemma extended_refl: "pools B U P A [] s \<Longrightarrow> pb_next (pb s r) = None \<Longrightarrow> extended B U r s [] s"
  by (auto simp: extended_def intro!: exI [of _ None])

lemma extended_step:
  assumes "extended B (insert q U) q c qs s'" "r \<in> U" "q \<notin> U" "pmem c = pmem s"
    and c: "\<And>b. b \<in> U \<Longrightarrow> pb c b = (if b = r then (pb s r)\<lparr>pb_next := Some q\<rparr> else pb s b)"
  shows "extended B U r s (q # qs) s'"
proof -
  have e: "\<exists>P A. pools B (insert q U \<union> set qs) P A [] s'" "set qs \<inter> insert q U = {}" "pchain s' (Some q) (q # qs)"
    and f: "\<And>b. b \<in> U \<Longrightarrow> pb s' b = pb c b" and m: "pmem s' = pmem s"
    using assms(1,3,4) by (auto simp: extended_def)
  have "pb s' r = (pb s r)\<lparr>pb_next := Some q\<rparr>" using f [OF assms(2)] c [OF assms(2)] by simp
  moreover have "\<forall>b \<in> U - {r}. pb s' b = pb s b" using f c by auto
  moreover have "pb_next (pb s' r) = Some q" by (simp add: calculation(1))
  ultimately show ?thesis using e assms(2,3) m unfolding extended_def by auto
qed

lemma pool_tail_correct:
  fixes s :: "'z pstate_scheme"
  assumes "pools B U P A [] s" "r \<in> U" "pb_next (pb s r) = None"
  shows "\<exists>ok qs s'. pool_tail r rsize s = (ok, last (r # qs), s') \<and> extended B U r s qs s' \<and>
    (if ok then chain_len s' qs = max 0 rsize \<and> (\<forall>q \<in> set qs. fresh_tail s' q) else B = U \<union> set qs \<and> 128 * int (length qs) < rsize)"
  using assms
proof (induction r rsize s arbitrary: U P A rule: pool_tail.induct)
  case (1 r rsize s)
  show ?case
  proof (cases "rsize > 0")
    case False
    then have "pool_tail r rsize s = (True, r, s)" by (subst pool_tail.simps) simp
    then show ?thesis using extended_refl [OF 1(2,4)] False by (intro exI [of _ True] exI [of _ "[]"] exI [of _ s]) (simp add: chain_len_def)
  next
    case pos: True
    show ?thesis
    proof (cases "P @ A = []")
      case True
      then have "pbuf_pool_alloc s = (None, s)" "B = U" using pool_alloc_None [of B U "[]" s] 1(2) pools_empty [OF 1(2)] by simp_all
      then have "pool_tail r rsize s = (False, r, s)" using pos by (subst pool_tail.simps) simp
      then show ?thesis using extended_refl [OF 1(2,4)] pos \<open>B = U\<close> by (intro exI [of _ False] exI [of _ "[]"] exI [of _ s]) simp
    next
      case False
      obtain q P1 A1 s1 where q: "pbuf_pool_alloc s = (Some q, s1)" "pools B (insert q U) P1 A1 [] s1" "q \<in> B - U" "pb s1 = pb s" "pmem s1 = pmem s"
        using pool_alloc_Some [OF 1(2) False] by blast
      have rq: "r \<noteq> q" "q \<notin> U" using q(3) 1(3) by auto
      define a where "a = upd_pb q (\<lambda>x. x\<lparr>pb_next := None\<rparr>) s1"
      define b where "b = upd_pb r (\<lambda>x. x\<lparr>pb_next := Some q\<rparr>) a"
      define c where "c = upd_pb q (\<lambda>x. x\<lparr>pb_len := (if rsize > PBUF_POOL_BUFSIZE then PBUF_POOL_BUFSIZE else rsize),
                      pb_flags := PBUF_FLAG_POOL, pb_payload := data_start q, pb_ref := 1\<rparr>) b"
      have step: "pool_tail r rsize s = pool_tail q (rsize - PBUF_POOL_BUFSIZE) c"
        using pos q(1) by (subst pool_tail.simps) (simp add: a_def b_def c_def)
      have pc: "pools B (insert q U) P1 A1 [] c"
        by (rule pools_cong [OF q(2)]) (use 1(3) in \<open>auto simp: a_def b_def c_def\<close>)
      have cq: "pb_next (pb c q) = None" using rq by (simp add: a_def b_def c_def)
      obtain ok qs s' where r: "pool_tail q (rsize - PBUF_POOL_BUFSIZE) c = (ok, last (q # qs), s')" "extended B (insert q U) q c qs s'"
          "if ok then chain_len s' qs = max 0 (rsize - PBUF_POOL_BUFSIZE) \<and> (\<forall>q \<in> set qs. fresh_tail s' q)
           else B = insert q U \<union> set qs \<and> 128 * int (length qs) < rsize - PBUF_POOL_BUFSIZE"
        using 1(1) [OF pos q(1) [symmetric] refl a_def b_def c_def pc _ cq] by blast
      have "extended B U r s (q # qs) s'"
        by (rule extended_step [OF r(2) 1(3) rq(2)]) (use rq q in \<open>auto simp: a_def b_def c_def\<close>)
      moreover obtain v where "pb s' q = (pb c q)\<lparr>pb_next := v\<rparr>" using r(2) by (auto simp: extended_def)
      then have q': "pb_len (pb s' q) = min rsize 128" "fresh_tail s' q"
        using pos by (simp_all add: c_def fresh_tail_def PBUF_POOL_BUFSIZE_def)
      have "if ok then chain_len s' (q # qs) = max 0 rsize \<and> (\<forall>q \<in> set (q # qs). fresh_tail s' q)
          else B = U \<union> set (q # qs) \<and> 128 * int (length (q # qs)) < rsize"
        using r(3) q'(2) pos unfolding chain_len_Cons q'(1) by (cases ok) (auto simp: PBUF_POOL_BUFSIZE_def min_def max_def)
      moreover have "pool_tail r rsize s = (ok, last (r # q # qs), s')" using step r(1) by simp
      ultimately show ?thesis by blast
    qed
  qed
qed


lemma card_minus_used: "finite U \<Longrightarrow> set ps \<subseteq> U \<Longrightarrow> distinct ps \<Longrightarrow> (of_nat (card (U - set ps)) :: u32) = of_nat (card U) - of_nat (length ps)"
proof -
  assume a: "finite U" "set ps \<subseteq> U" "distinct ps"
  then have "length ps \<le> card U" using card_mono [of U "set ps"] by (simp add: distinct_card)
  then show ?thesis using a by (simp add: card_Diff_subset distinct_card)
qed

lemma pools_finite: "pools B U P A F s \<Longrightarrow> finite U"
  by (auto simp: pools_def intro: finite_subset)

lemma pools_disjoint:
  assumes "pools B U P A F s" "set ps \<subseteq> U"
  shows "set P \<inter> set ps = {}" "set A \<inter> set ps = {}" "set F \<inter> set ps = {}"
  using assms by (auto simp: pools_def)

lemma pool_free_correct:
  fixes s :: "'z pstate_scheme"
  assumes po: "pools B U P A F s" and ps: "pchain s (Some p) ps" "set ps \<subseteq> U"
  shows "\<exists>s'. pbuf_pool_free p s = Some s' \<and> pools B (U - set ps) P (A @ ps) F s' \<and> (\<forall>b \<in> U. pb s' b = pb s b) \<and> pmem s' = pmem s"
proof -
  note dj = pools_disjoint [OF po ps(2)]
  have d: "distinct ps" by (rule pchain_distinct [OF ps(1)])
  define s1 where "s1 = upd_stats (\<lambda>x. x\<lparr>sp_used := sp_used x - of_nat (length ps)\<rparr>) s"
  have u: "unuse_loop (Some p) s = Some s1" unfolding s1_def by (rule unuse_loop_chain [OF ps(1)])
  have c1: "pchain s1 q qs = pchain s q qs" for q qs by (rule pchain_cong) (simp add: s1_def)
  have sets: "set (P @ (A @ ps) @ F) = B - (U - set ps)" "distinct (P @ (A @ ps) @ F)" using po ps(2) dj d by (auto simp: pools_def)
  have pools_s': "pools B (U - set ps) P (A @ ps) F s'"
    if "pchain s' (pbuf_pool s') P" "pchain s' (pbuf_pool_alloc_cache s') (A @ ps)" "pchain s' (pbuf_pool_free_cache s') F"
      "stats s' = stats s1" "pbuf_pool_free_lock s' = 0" "pbuf_pool_alloc_lock s' = 0" for s' :: "'z pstate_scheme"
    using that sets po card_minus_used [OF pools_finite [OF po] ps(2) d] by (auto simp: pools_def s1_def)
  show ?thesis
  proof (cases "pbuf_pool_alloc_cache s")
    case None
    then have A: "A = []" using po by (simp add: pools_def)
    define s2 where "s2 = s1\<lparr>pbuf_pool_alloc_cache := Some p\<rparr>"
    have "pbuf_pool_free p s = Some s2" using None by (simp add: pbuf_pool_free_def u s2_def) (simp add: s1_def)
    moreover have c2: "pchain s2 q qs = pchain s q qs" for q qs by (rule pchain_cong) (simp add: s1_def s2_def)
    have "pools B (U - set ps) P (A @ ps) F s2" using po ps(1) A by (intro pools_s') (simp_all add: c2, simp_all add: pools_def s2_def s1_def)
    ultimately show ?thesis by (auto simp: s2_def s1_def)
  next
    case (Some a)
    then have A: "pchain s (Some a) A" "A \<noteq> []" using po by (auto simp: pools_def)
    define s2 where "s2 = upd_pb (last A) (\<lambda>x. x\<lparr>pb_next := Some p\<rparr>) s1"
    have "pbuf_pool_free p s = Some s2"
      using Some last_pbuf_chain [of s1 a A] A c1 by (simp add: pbuf_pool_free_def u s2_def) (simp add: s1_def)
    moreover have la: "last A \<in> B - U" using A pools_sets [OF po] last_in_set by blast
    have "pools B (U - set ps) P (A @ ps) F s2"
    proof (rule pools_s')
      show "pchain s2 (pbuf_pool_alloc_cache s2) (A @ ps)"
        using pchain_link [OF A ps(1) dj(2), of s2] Some by (simp add: s2_def s1_def)
      have "set P \<inter> set A = {}" "set F \<inter> set A = {}" using po by (auto simp: pools_def)
      then have "last A \<notin> set P" "last A \<notin> set F" using last_in_set [OF A(2)] by blast+
      then have "pchain s2 q P = pchain s q P" "pchain s2 q F = pchain s q F" for q by (auto intro!: pchain_cong simp: s2_def s1_def)
      then show "pchain s2 (pbuf_pool s2) P" "pchain s2 (pbuf_pool_free_cache s2) F" using po by (simp_all add: pools_def s2_def s1_def)
    qed (use po in \<open>simp_all add: pools_def s2_def s1_def\<close>)
    ultimately show ?thesis using la by (auto simp: s2_def s1_def)
  qed
qed

lemma pools_stats:
  fixes s :: "'a pstate_scheme"
  shows "pools B U P A F s \<Longrightarrow> sp_used (f (stats s)) = sp_used (stats s) \<Longrightarrow> pools B U P A F (upd_stats f s)"
  by (erule pools_cong) simp_all

text \<open>A new chain for \<open>sz\<close> bytes whose first buffer leaves \<open>offset\<close> bytes for headers.\<close>

definition new_chain :: "nat set \<Rightarrow> nat set \<Rightarrow> int \<Rightarrow> int \<Rightarrow> nat \<Rightarrow> nat list \<Rightarrow> 'z pstate_scheme \<Rightarrow> bool" where
  "new_chain B U offset sz p ps s \<longleftrightarrow> (\<exists>P A. pools B (U \<union> set (p # ps)) P A [] s) \<and> set (p # ps) \<inter> U = {} \<and> pchain s (Some p) (p # ps) \<and>
     chain_len s (p # ps) = sz \<and> pb_tot_len (pb s p) = sz \<and> pb_flags (pb s p) = PBUF_FLAG_POOL \<and> pb_ref (pb s p) = 1 \<and>
     pb_payload (pb s p) = data_start p + offset \<and> pb_len (pb s p) \<le> PBUF_POOL_BUFSIZE - offset \<and> (\<forall>q \<in> set ps. fresh_tail s q)"


lemma new_chainI:
  assumes "extended B (insert p U) p s2 qs s3" "p \<in> B - U"
    and s2: "pb_payload (pb s2 p) = data_start p + offset" "pb_tot_len (pb s2 p) = sz" "pb_flags (pb s2 p) = PBUF_FLAG_POOL"
      "pb_len (pb s2 p) \<le> PBUF_POOL_BUFSIZE - offset" "pb_len (pb s2 p) + chain_len s3 qs = sz" "\<forall>q \<in> set qs. fresh_tail s3 q"
  shows "new_chain B U offset sz p qs (upd_pb p (\<lambda>x. x\<lparr>pb_ref := 1\<rparr>) s3)"
proof -
  define s4 where "s4 = upd_pb p (\<lambda>x. x\<lparr>pb_ref := 1\<rparr>) s3"
  obtain v P A where e: "pools B (insert p U \<union> set qs) P A [] s3" "set qs \<inter> insert p U = {}" "pchain s3 (Some p) (p # qs)" "pb s3 p = (pb s2 p)\<lparr>pb_next := v\<rparr>"
    using assms(1) unfolding extended_def by blast
  have q: "pb s4 x = pb s3 x" if "x \<in> set qs" for x
  proof -
    have "x \<noteq> p" using that e(2) by auto
    then show ?thesis by (simp add: s4_def)
  qed
  have "pchain s4 (Some p) (p # qs)" using e(3) pchain_cong [of "p # qs" s4 s3 "Some p"] by (simp add: s4_def)
  moreover have "pools B (insert p U \<union> set qs) P A [] s4" by (rule pools_cong [OF e(1)]) (auto simp: s4_def)
  moreover have "chain_len s4 qs = chain_len s3 qs" by (simp add: chain_len_def q cong: map_cong)
  then have "chain_len s4 (p # qs) = sz" using s2(5) unfolding chain_len_Cons by (simp add: s4_def e(4))
  moreover have "\<forall>q \<in> set qs. fresh_tail s4 q" using s2(6) by (simp add: fresh_tail_def q)
  ultimately have "new_chain B U offset sz p qs s4"
    using e(2) assms(2) s2(1-4) by (auto simp: new_chain_def s4_def e(4))
  then show ?thesis by (simp add: s4_def)
qed

lemma alloc_pool_correct:
  fixes s :: "'z pstate_scheme"
  assumes po: "pools B U P A [] s" and o: "0 \<le> offset" "offset < 128" "0 \<le> sz"
  shows "\<exists>p s'. alloc_pool offset sz s = Some (p, s') \<and> (\<forall>b \<in> U. pb s' b = pb s b) \<and> pmem s' = pmem s \<and>
    (case p of
       None \<Rightarrow> (\<exists>P A. pools B U P A [] s') \<and> (B = U \<or> 128 * int (card (B - U)) - offset < sz)
     | Some p \<Rightarrow> \<exists>ps. new_chain B U offset sz p ps s')"
proof (cases "P @ A = []")
  case True
  define s1 where "s1 = upd_stats (\<lambda>x. x\<lparr>sp_err := sp_err x + 1\<rparr>) s"
  have "pbuf_pool_alloc s = (None, s)" "B = U" using pool_alloc_None [of B U "[]" s] True po pools_empty [OF po] by simp_all
  then have "alloc_pool offset sz s = Some (None, s1)" by (simp add: alloc_pool_def s1_def)
  moreover have "pools B U P A [] s1" unfolding s1_def by (rule pools_stats [OF po]) simp
  ultimately show ?thesis using \<open>B = U\<close> by (intro exI [of _ None] exI [of _ s1]) (auto simp: s1_def)
next
  case False
  obtain p P1 A1 s1 where p: "pbuf_pool_alloc s = (Some p, s1)" "pools B (insert p U) P1 A1 [] s1" "p \<in> B - U" "pb s1 = pb s" "pmem s1 = pmem s"
    using pool_alloc_Some [OF po False] by blast
  let ?n = "if sz > PBUF_POOL_BUFSIZE - offset then PBUF_POOL_BUFSIZE - offset else sz"
  define s2 where "s2 = upd_pb p (\<lambda>x. x\<lparr>pb_next := None, pb_payload := data_start p + offset, pb_tot_len := sz, pb_len := ?n, pb_flags := PBUF_FLAG_POOL\<rparr>) s1"
  have po2: "pools B (insert p U) P1 A1 [] s2" by (rule pools_cong [OF p(2)]) (auto simp: s2_def)
  obtain ok qs s3 where t: "pool_tail p (sz - ?n) s2 = (ok, last (p # qs), s3)" "extended B (insert p U) p s2 qs s3"
      "if ok then chain_len s3 qs = max 0 (sz - ?n) \<and> (\<forall>q \<in> set qs. fresh_tail s3 q) else B = insert p U \<union> set qs \<and> 128 * int (length qs) < sz - ?n"
    using pool_tail_correct [OF po2 insertI1, of "sz - ?n"] by (auto simp: s2_def)
  obtain v P3 A3 where e: "pools B (insert p U \<union> set qs) P3 A3 [] s3" "set qs \<inter> insert p U = {}" "pchain s3 (Some p) (p # qs)"
      "\<forall>b \<in> insert p U - {p}. pb s3 b = pb s2 b" "pb s3 p = (pb s2 p)\<lparr>pb_next := v\<rparr>" "pmem s3 = pmem s2"
    using t(2) unfolding extended_def by blast
  have fr: "pb s3 b = pb s b" if "b \<in> U" for b using e(4) p(3,4) that by (auto simp: s2_def)
  have len: "pb_len (pb s2 p) = ?n" by (simp add: s2_def)
  show ?thesis
  proof (cases ok)
    case False
    define s4 where "s4 = upd_stats (\<lambda>x. x\<lparr>sp_err := sp_err x + 1\<rparr>) s3"
    have "pools B (insert p U \<union> set qs) P3 A3 [] s4" unfolding s4_def by (rule pools_stats [OF e(1)]) simp
    moreover have "pchain s4 (Some p) (p # qs)" using e(3) pchain_cong [of "p # qs" s4 s3 "Some p"] by (simp add: s4_def)
    ultimately obtain s5 where s5: "pbuf_pool_free p s4 = Some s5" "pools B (insert p U \<union> set qs - set (p # qs)) P3 (A3 @ p # qs) [] s5"
        "\<forall>b \<in> insert p U \<union> set qs. pb s5 b = pb s4 b" "pmem s5 = pmem s4"
      using pool_free_correct [of B "insert p U \<union> set qs" P3 A3 "[]" s4 p "p # qs"] by auto
    have "insert p U \<union> set qs - set (p # qs) = U" using e(2) p(3) by auto
    then have "pools B U P3 (A3 @ p # qs) [] s5" using s5(2) by simp
    moreover have "alloc_pool offset sz s = Some (None, s5)"
      using p(1) t(1) False s5(1) len unfolding alloc_pool_def s4_def by (simp add: s2_def [symmetric])
    moreover have "128 * int (card (B - U)) - offset < sz"
    proof -
      have B: "B = insert p U \<union> set qs" "128 * int (length qs) < sz - ?n" using t(3) False by auto
      then have "B - U = insert p (set qs)" "p \<notin> set qs" "distinct qs" using e(2,3) p(3) pchain_distinct [OF e(3)] by auto
      then have "card (B - U) = Suc (length qs)" by (simp add: distinct_card)
      then show ?thesis using B(2) o by (simp add: PBUF_POOL_BUFSIZE_def split: if_splits)
    qed
    ultimately show ?thesis using s5(3,4) fr e(6) p(5) by (intro exI [of _ None] exI [of _ s5]) (auto simp: s4_def s2_def)
  next
    case True
    define s4 where "s4 = upd_pb p (\<lambda>x. x\<lparr>pb_ref := 1\<rparr>) s3"
    have l: "upd_pb (last (p # qs)) (\<lambda>x. x\<lparr>pb_next := None\<rparr>) s3 = s3" using pchain_last [OF e(3)] by (intro upd_pb_id) simp
    have al: "alloc_pool offset sz s = Some (Some p, s4)"
      using p(1) t(1) True len l unfolding alloc_pool_def by (simp add: s2_def [symmetric] s4_def)
    have "new_chain B U offset sz p qs s4"
      unfolding s4_def by (rule new_chainI [OF t(2) p(3)]) (use t(3) True o in \<open>auto simp: s2_def PBUF_POOL_BUFSIZE_def\<close>)
    moreover have "pb s4 x = pb s x" if "x \<in> U" for x
    proof -
      have "x \<noteq> p" using that p(3) by auto
      then show ?thesis using fr [OF that] by (simp add: s4_def)
    qed
    ultimately show ?thesis using al p(5) e(6) by (intro exI [of _ "Some p"] exI [of _ s4]) (auto simp: s4_def s2_def)
  qed
qed


section \<open>Giving buffers back\<close>

lemma refresh_correct:
  fixes s :: "'z pstate_scheme"
  assumes po: "pools B U P A F s"
  shows "\<exists>s'. pbuf_refresh s = Some s' \<and> pools B U (P @ F) A [] s' \<and> (\<forall>b. b \<notin> B - U \<longrightarrow> pb s' b = pb s b) \<and> pmem s' = pmem s"
proof (cases "pbuf_pool_free_cache s")
  case None
  then have "pbuf_refresh s = Some s" "F = []" using po by (simp_all add: pbuf_refresh_def pools_def)
  then show ?thesis using po by simp
next
  case (Some f)
  have lk: "pbuf_pool_free_lock s = 0" "pbuf_pool_alloc_lock s = 0" using po by (simp_all add: pools_def)
  have F: "pchain s (Some f) F" "set P \<inter> set F = {}" "set A \<inter> set F = {}" "set P \<inter> set A = {}" using po Some by (auto simp: pools_def)
  have sets: "distinct ((P @ F) @ A)" "set ((P @ F) @ A) = B - U" using po by (auto simp: pools_def)
  show ?thesis
  proof (cases "pbuf_pool s")
    case None
    then have P: "P = []" using po by (simp add: pools_def)
    define s' where "s' = s\<lparr>pbuf_pool := Some f, pbuf_pool_free_cache := None, pbuf_pool_free_lock := 0\<rparr>"
    have c: "pchain s' p ps = pchain s p ps" for p ps by (rule pchain_cong) (simp add: s'_def)
    have "pbuf_refresh s = Some s'" using Some None lk by (simp add: pbuf_refresh_def s'_def)
    moreover have "pools B U (P @ F) A [] s'" using po P F unfolding pools_def c by (auto simp: s'_def)
    ultimately show ?thesis by (auto simp: s'_def)
  next
    case (Some p)
    then have P: "pchain s (Some p) P" "P \<noteq> []" using po by (auto simp: pools_def)
    define s1 where "s1 = s\<lparr>pbuf_pool_free_lock := 1\<rparr>"
    define s' where "s' = upd_pb (last P) (\<lambda>x. x\<lparr>pb_next := Some f\<rparr>) (s\<lparr>pbuf_pool_free_cache := None, pbuf_pool_free_lock := 0\<rparr>)"
    have "last_pbuf p s1 = Some (last P)" using P pchain_cong [of P s1 s "Some p"] by (intro last_pbuf_chain) (simp add: s1_def)
    then have "pbuf_refresh s = Some s'"
      using Some \<open>pbuf_pool_free_cache s = Some f\<close> lk by (simp add: pbuf_refresh_def s'_def s1_def upd_pb_def)
    moreover have lp: "last P \<in> B - U" "last P \<notin> set A" using last_in_set [OF P(2)] pools_sets [OF po] F(4) by blast+
    have "pchain s' (Some p) (P @ F)" by (rule pchain_link [OF P F(1,2)]) (simp add: s'_def)
    moreover have "pchain s' q A = pchain s q A" for q by (rule pchain_cong) (use lp(2) in \<open>auto simp: s'_def\<close>)
    ultimately show ?thesis using po Some sets lp(1) by (auto simp: pools_def s'_def intro!: exI [of _ s'])
  qed
qed

text \<open>
  What is assumed of \<^verbatim>\<open>kfree\<close>: it changes neither the other buffers nor the state of the pool.
\<close>

definition kfree_ok :: "(nat \<Rightarrow> 'z pstate_scheme \<Rightarrow> 'z pstate_scheme) \<Rightarrow> bool" where
  "kfree_ok kfree \<longleftrightarrow> (\<forall>p s. (\<forall>b. b \<noteq> p \<longrightarrow> pb (kfree p s) b = pb s b) \<and> pbuf_pool (kfree p s) = pbuf_pool s \<and>
     pbuf_pool_alloc_cache (kfree p s) = pbuf_pool_alloc_cache s \<and> pbuf_pool_free_cache (kfree p s) = pbuf_pool_free_cache s \<and>
     pbuf_pool_free_lock (kfree p s) = pbuf_pool_free_lock s \<and> pbuf_pool_alloc_lock (kfree p s) = pbuf_pool_alloc_lock s \<and>
     stats (kfree p s) = stats s)"

text \<open>The buffers of a chain: those from the pool are in use, the others are not of the pool.\<close>

definition owned :: "nat set \<Rightarrow> nat set \<Rightarrow> 'z pstate_scheme \<Rightarrow> nat list \<Rightarrow> bool" where
  "owned B U s ps \<longleftrightarrow> (\<forall>p \<in> set ps. if pb_flags (pb s p) = PBUF_FLAG_POOL then p \<in> U else p \<notin> B)"

lemma free_one_pool:
  assumes po: "pools B U P A F s" and p: "p \<in> U" and s': "pb s' = (pb s)(p := x)" "pb_next x = pbuf_pool_free_cache s"
    "pbuf_pool s' = pbuf_pool s" "pbuf_pool_alloc_cache s' = pbuf_pool_alloc_cache s" "pbuf_pool_free_cache s' = Some p"
    "pbuf_pool_free_lock s' = pbuf_pool_free_lock s" "pbuf_pool_alloc_lock s' = pbuf_pool_alloc_lock s" "sp_used (stats s') = sp_used (stats s) - 1"
  shows "pools B (U - {p}) P A (p # F) s'"
proof -
  have n: "p \<notin> set P" "p \<notin> set A" "p \<notin> set F" using pools_sets [OF po] p by blast+
  then have c: "pchain s' q P = pchain s q P" "pchain s' q A = pchain s q A" "pchain s' q F = pchain s q F" for q
    by (auto intro!: pchain_cong simp: s'(1))
  have u: "(of_nat (card (U - {p})) :: u32) = of_nat (card U) - 1" using card_minus_used [OF pools_finite [OF po], of "[p]"] p by simp
  have "set (P @ A @ p # F) = B - (U - {p})" "U - {p} \<subseteq> B" using po p by (auto simp: pools_def)
  moreover have "pchain s' (Some p) (p # F)" using po c(3) s'(1,2) by (simp add: pools_def)
  ultimately show ?thesis using po n c s' u by (simp add: pools_def)
qed


lemma owned_Cons: "owned B U s (p # ps) \<longleftrightarrow> (if pb_flags (pb s p) = PBUF_FLAG_POOL then p \<in> U else p \<notin> B) \<and> owned B U s ps"
  by (auto simp: owned_def)

lemma owned_cong:
  assumes "owned B U s ps" "\<And>x. x \<in> set ps \<Longrightarrow> pb_flags (pb s' x) = pb_flags (pb s x)" "\<And>x. x \<in> set ps \<Longrightarrow> x \<in> U \<Longrightarrow> x \<in> U'"
  shows "owned B U' s' ps"
  using assms by (simp add: owned_def)

text \<open>The buffers of the pool in a chain.\<close>

definition pool_part :: "'z pstate_scheme \<Rightarrow> nat list \<Rightarrow> nat list" where
  "pool_part s ps = filter (\<lambda>p. pb_flags (pb s p) = PBUF_FLAG_POOL) ps"

lemma pool_part_cong: "(\<And>x. x \<in> set ps \<Longrightarrow> pb_flags (pb s' x) = pb_flags (pb s x)) \<Longrightarrow> pool_part s' ps = pool_part s ps"
  by (simp add: pool_part_def cong: filter_cong)

lemma free_loop_correct:
  fixes s :: "'z pstate_scheme"
  assumes "kfree_ok kfree" "pools B U P A F s" "pchain s p ps" "owned B U s ps"
  shows "\<exists>s'. free_loop kfree p n s = Some (n + int (length ps), s') \<and> pools B (U - set ps) P A (rev (pool_part s ps) @ F) s' \<and>
    (\<forall>b. b \<notin> set ps \<longrightarrow> pb s' b = pb s b)"
  using assms(2-4)
proof (induction ps arbitrary: p n s U F)
  case Nil
  then show ?case by (simp add: free_loop.simps pool_part_def)
next
  case (Cons x ps)
  have x: "p = Some x" "x \<notin> set ps" "pchain s (pb_next (pb s x)) ps" using pchain_distinct [OF Cons.prems(2)] Cons.prems(2) by auto
  have go: ?case
    if st: "free_loop kfree p n s = free_loop kfree (pb_next (pb s x)) (n + 1) t" and fr: "\<And>b. b \<noteq> x \<Longrightarrow> pb t b = pb s b"
      and po: "pools B (U - {x}) P A F' t" and F': "F' = rev (pool_part s [x]) @ F" for t F'
  proof -
    have fl: "pb t y = pb s y" if "y \<in> set ps" for y using that x(2) by (intro fr) auto
    have "pchain t (pb_next (pb s x)) ps" using x(3) fl pchain_cong [of ps t s] by simp
    moreover have "owned B (U - {x}) t ps" using Cons.prems(3) fl x(2) by (auto simp: owned_Cons intro: owned_cong)
    ultimately obtain s' where s': "free_loop kfree (pb_next (pb s x)) (n + 1) t = Some (n + 1 + int (length ps), s')"
        "pools B (U - {x} - set ps) P A (rev (pool_part t ps) @ F') s'" "\<And>b. b \<notin> set ps \<Longrightarrow> pb s' b = pb t b"
      using Cons.IH [OF po] by blast
    have "pool_part t ps = pool_part s ps" using fl by (intro pool_part_cong) simp
    then have "rev (pool_part t ps) @ F' = rev (pool_part s (x # ps)) @ F" by (simp add: F' pool_part_def)
    moreover have "U - {x} - set ps = U - set (x # ps)" by auto
    ultimately show ?thesis using s' st fr by auto
  qed
  show ?case
  proof (cases "pb_flags (pb s x) = PBUF_FLAG_POOL")
    case True
    define v where "v = (pb s x)\<lparr>pb_len := PBUF_POOL_BUFSIZE, pb_tot_len := PBUF_POOL_BUFSIZE, pb_payload := data_start x, pb_next := pbuf_pool_free_cache s\<rparr>"
    define t where "t = upd_stats (\<lambda>x. x\<lparr>sp_used := sp_used x - 1\<rparr>) (s\<lparr>pb := (pb s)(x := v), pbuf_pool_free_cache := Some x\<rparr>)"
    have xU: "x \<in> U" using Cons.prems(3) True by (simp add: owned_Cons)
    show ?thesis
    proof (rule go)
      show "free_loop kfree p n s = free_loop kfree (pb_next (pb s x)) (n + 1) t"
        using True x(1) by (subst free_loop.simps) (simp add: t_def v_def upd_pb_def)
      show "pools B (U - {x}) P A (x # F) t"
        by (rule free_one_pool [OF Cons.prems(1) xU, where x = v]) (simp_all add: t_def v_def)
    qed (simp_all add: t_def pool_part_def True)
  next
    case False
    define t where "t = kfree x (if pb_flags (pb s x) = PBUF_FLAG_RO then s else upd_stats (\<lambda>x. x\<lparr>sp_rwbufs := sp_rwbufs x - 1\<rparr>) s)"
    have xB: "x \<notin> B" using Cons.prems(3) False by (simp add: owned_Cons)
    note k = assms(1) [unfolded kfree_ok_def, rule_format]
    show ?thesis
    proof (rule go)
      show "free_loop kfree p n s = free_loop kfree (pb_next (pb s x)) (n + 1) t"
        using False x(1) by (subst free_loop.simps) (simp add: t_def)
      show fr: "pb t b = pb s b" if "b \<noteq> x" for b using that k by (simp add: t_def)
      have "U - {x} = U" using xB Cons.prems(1) by (auto simp: pools_def)
      moreover have "pools B U P A F t" 
      proof (rule pools_cong [OF Cons.prems(1)])
        fix y assume "y \<in> B - U"
        then have "y \<noteq> x" using xB by auto
        then show "pb_next (pb t y) = pb_next (pb s y)" by (simp add: fr)
      qed (simp_all add: t_def k)
      ultimately show "pools B (U - {x}) P A F t" by simp
    qed (simp add: pool_part_def False)
  qed
qed


definition pool_ok :: "nat set \<Rightarrow> nat set \<Rightarrow> 'z pstate_scheme \<Rightarrow> bool" where
  "pool_ok B U s \<longleftrightarrow> (\<exists>P A. pools B U P A [] s)"

lemma pbuf_free_eq:
  fixes s :: "'z pstate_scheme"
  assumes k: "kfree_ok kfree" and po: "pool_ok B U s" and ps: "pchain s (Some p) ps" "owned B U s ps"
  shows "\<exists>s'. pbuf_free kfree (Some p) s = Some (if pb_ref (pb s p) = 1 then int (length ps) else 0, s') \<and>
    (if pb_ref (pb s p) = 1 then pool_ok B (U - set ps) s' \<and> (\<forall>b. b \<notin> B - U \<longrightarrow> b \<notin> set ps \<longrightarrow> pb s' b = pb s b)
     else pool_ok B U s' \<and> s' = upd_pb p (\<lambda>x. x\<lparr>pb_ref := pb_ref x - 1\<rparr>) s)"
proof -
  obtain P A where po: "pools B U P A [] s" using po by (auto simp: pool_ok_def)
  define s1 where "s1 = upd_pb p (\<lambda>x. x\<lparr>pb_ref := pb_ref x - 1\<rparr>) s"
  have po1: "pools B U P A [] s1" by (rule pools_cong [OF po]) (simp_all add: s1_def)
  have z: "pb_ref (pb s1 p) = 0 \<longleftrightarrow> pb_ref (pb s p) = 1" by (simp add: s1_def)
  show ?thesis
  proof (cases "pb_ref (pb s p) = 1")
    case False
    have "pbuf_refresh s1 = Some s1" using po1 by (simp add: pbuf_refresh_def pools_def)
    then have "pbuf_free kfree (Some p) s = Some (0, s1)" using False z by (simp add: pbuf_free_def s1_def [symmetric])
    then show ?thesis using False po1 by (auto simp: pool_ok_def s1_def)
  next
    case True
    have "pchain s1 (Some p) ps" using ps(1) pchain_cong [of ps s1 s "Some p"] by (simp add: s1_def)
    moreover have "owned B U s1 ps" using ps(2) by (rule owned_cong) (simp_all add: s1_def)
    ultimately obtain s2 where s2: "free_loop kfree (Some p) 0 s1 = Some (0 + int (length ps), s2)"
        "pools B (U - set ps) P A (rev (pool_part s1 ps) @ []) s2" "\<And>b. b \<notin> set ps \<Longrightarrow> pb s2 b = pb s1 b"
      using free_loop_correct [OF k po1] by blast
    obtain s3 where s3: "pbuf_refresh s2 = Some s3" "pools B (U - set ps) (P @ rev (pool_part s1 ps) @ []) A [] s3"
        "\<And>b. b \<notin> B - (U - set ps) \<Longrightarrow> pb s3 b = pb s2 b"
      using refresh_correct [OF s2(2)] by blast
    have "pbuf_free kfree (Some p) s = Some (int (length ps), s3)"
      using True z s2(1) s3(1) by (simp add: pbuf_free_def s1_def [symmetric])
    moreover have "pb s3 b = pb s b" if "b \<notin> B - U" "b \<notin> set ps" for b
    proof -
      have "b \<noteq> p" using that(2) ps(1) by (cases ps) auto
      then show ?thesis using s3(3) [of b] s2(3) [of b] that by (auto simp: s1_def)
    qed
    ultimately show ?thesis using True s3(2) by (auto simp: pool_ok_def)
  qed
qed

section \<open>Contents\<close>

definition content :: "'z pstate_scheme \<Rightarrow> nat list \<Rightarrow> u8 list" where
  "content s ps = concat (map (\<lambda>p. load (pb_payload (pb s p)) (nat (pb_len (pb s p))) (pmem s)) ps)"

lemma content_simps [simp]:
  "content s [] = []" "content s (p # ps) = load (pb_payload (pb s p)) (nat (pb_len (pb s p))) (pmem s) @ content s ps"
  "content s (ps @ qs) = content s ps @ content s qs"
  by (simp_all add: content_def)

definition len_ok :: "'z pstate_scheme \<Rightarrow> nat list \<Rightarrow> bool" where
  "len_ok s ps \<longleftrightarrow> (\<forall>p \<in> set ps. 0 \<le> pb_len (pb s p) \<and> pb_len (pb s p) < 2147483648)"

lemma len_ok_Cons [simp]: "len_ok s (p # ps) \<longleftrightarrow> 0 \<le> pb_len (pb s p) \<and> pb_len (pb s p) < 2147483648 \<and> len_ok s ps"
  by (auto simp: len_ok_def)

lemma length_content: "len_ok s ps \<Longrightarrow> int (length (content s ps)) = chain_len s ps"
  by (induction ps) (simp_all add: chain_len_def)

lemma chain_len_nonneg: "len_ok s ps \<Longrightarrow> 0 \<le> chain_len s ps"
  using length_content [of s ps] by linarith

lemma chain_len_append: "chain_len s (ps @ qs) = chain_len s ps + chain_len s qs"
  by (simp add: chain_len_def)

lemma content_cong:
  fixes s :: "'a pstate_scheme" and s' :: "'b pstate_scheme"
  assumes "\<And>x. x \<in> set ps \<Longrightarrow> pb_payload (pb s x) = pb_payload (pb s' x) \<and> pb_len (pb s x) = pb_len (pb s' x)" "pmem s = pmem s'"
  shows "content s ps = content s' ps"
  using assms by (simp add: content_def cong: map_cong)

lemma find_end_chain:
  assumes "pchain s p ps" "len_ok s ps" "0 \<le> sz" "sz \<le> chain_len s ps" "ps \<noteq> []"
  shows "\<exists>as q bs. ps = as @ q # bs \<and> find_end p sz s = Some (q, sz - chain_len s as) \<and> 0 \<le> sz - chain_len s as \<and> sz - chain_len s as \<le> pb_len (pb s q)"
  using assms
proof (induction ps arbitrary: p sz)
  case (Cons x ps)
  show ?case
  proof (cases "sz > pb_len (pb s x)")
    case False
    then show ?thesis using Cons.prems by (intro exI [of _ "[]"] exI [of _ x] exI [of _ ps]) (simp add: find_end.simps chain_len_def)
  next
    case True
    have "ps \<noteq> []" using True Cons.prems(4) by (auto simp: chain_len_def)
    then obtain as q bs where r: "ps = as @ q # bs" "find_end (pb_next (pb s x)) (sz - pb_len (pb s x)) s = Some (q, sz - pb_len (pb s x) - chain_len s as)"
        "0 \<le> sz - pb_len (pb s x) - chain_len s as" "sz - pb_len (pb s x) - chain_len s as \<le> pb_len (pb s q)"
      using Cons.IH [of "pb_next (pb s x)" "sz - pb_len (pb s x)"] Cons.prems True by (auto simp: chain_len_Cons)
    have "find_end p sz s = find_end (pb_next (pb s x)) (sz - pb_len (pb s x)) s" using Cons.prems(1) True by (subst find_end.simps) simp
    then show ?thesis using r by (intro exI [of _ "x # as"] exI [of _ q] exI [of _ bs]) (simp add: chain_len_Cons algebra_simps)
  qed
qed simp

lemma drop_rest_correct:
  fixes s :: "'z pstate_scheme"
  assumes "pools B U P A F s" "pchain s p ps" "set ps \<subseteq> U"
  shows "\<exists>s'. drop_rest p s = Some s' \<and> pools B (U - set ps) P A (rev ps @ F) s' \<and> (\<forall>b. b \<notin> set ps \<longrightarrow> pb s' b = pb s b) \<and> pmem s' = pmem s"
  using assms
proof (induction ps arbitrary: p s U F)
  case Nil
  then show ?case by (simp add: drop_rest.simps)
next
  case (Cons x ps)
  have x: "p = Some x" "x \<notin> set ps" "pchain s (pb_next (pb s x)) ps" using pchain_distinct [OF Cons.prems(2)] Cons.prems(2) by auto
  define v where "v = (pb s x)\<lparr>pb_next := pbuf_pool_free_cache s\<rparr>"
  define t where "t = upd_stats (\<lambda>x. x\<lparr>sp_used := sp_used x - 1\<rparr>) (s\<lparr>pb := (pb s)(x := v), pbuf_pool_free_cache := Some x\<rparr>)"
  have st: "drop_rest p s = drop_rest (pb_next (pb s x)) t"
    using x(1) by (subst drop_rest.simps) (simp add: t_def v_def upd_pb_def)
  have po: "pools B (U - {x}) P A (x # F) t"
    by (rule free_one_pool [OF Cons.prems(1), where x = v]) (use Cons.prems(3) in \<open>simp_all add: t_def v_def\<close>)
  have fl: "pb t b = pb s b" if "b \<noteq> x" for b using that by (simp add: t_def)
  have "pchain t (pb_next (pb s x)) ps"
  proof -
    have "pb_next (pb t y) = pb_next (pb s y)" if "y \<in> set ps" for y using fl [of y] that x(2) by (cases "y = x") auto
    then show ?thesis using x(3) pchain_cong [of ps t s] by simp
  qed
  moreover have "set ps \<subseteq> U - {x}" using Cons.prems(3) x(2) by auto
  ultimately obtain s' where "drop_rest (pb_next (pb s x)) t = Some s'" "pools B (U - {x} - set ps) P A (rev ps @ x # F) s'"
      "\<And>b. b \<notin> set ps \<Longrightarrow> pb s' b = pb t b" "pmem s' = pmem t"
    using Cons.IH [OF po] by blast
  moreover have "U - {x} - set ps = U - set (x # ps)" by auto
  ultimately show ?case using st fl by (auto simp: t_def)
qed


section \<open>The pool after start-up\<close>

definition pool_addrs :: "nat \<Rightarrow> nat \<Rightarrow> nat list" where
  "pool_addrs p n = map (\<lambda>i. p + 152 * i) [0..<n]"

lemma pool_addrs_Suc: "pool_addrs p (Suc n) = p # pool_addrs (p + 152) n"
  by (rule nth_equalityI) (auto simp: pool_addrs_def nth_Cons nth_append less_Suc_eq split: nat.splits)

lemma pool_addrs_distinct: "distinct (pool_addrs p n)"
  by (simp add: pool_addrs_def distinct_map inj_on_def)

lemma pool_addrs_ge: "x \<in> set (pool_addrs p n) \<Longrightarrow> p \<le> x"
  by (auto simp: pool_addrs_def)

lemma init_loop_correct:
  fixes s :: "'z pstate_scheme"
  assumes "init_loop (Suc n) p q s = (q', s')"
  shows "q' = last (pool_addrs p (Suc n)) \<and> pchain (upd_pb q' (\<lambda>x. x\<lparr>pb_next := None\<rparr>) s') (Some p) (pool_addrs p (Suc n)) \<and>
    (\<forall>b. b < p \<longrightarrow> pb s' b = pb s b) \<and> (\<exists>f. s' = s\<lparr>pb := f\<rparr>)"
  using assms
proof (induction n arbitrary: p q s)
  case 0
  then show ?case by (auto simp: pool_addrs_def upd_pb_def)
next
  case (Suc n)
  define v where "v = (pb s p)\<lparr>pb_next := Some (p + 152), pb_len := PBUF_POOL_BUFSIZE, pb_tot_len := PBUF_POOL_BUFSIZE, pb_size := PBUF_POOL_BUFSIZE, pb_payload := data_start p\<rparr>"
  have e: "p + nat PBUF_POOL_BUFSIZE + 24 = p + 152" by (simp add: PBUF_POOL_BUFSIZE_def)
  have st: "init_loop (Suc n) (p + 152) p (s\<lparr>pb := (pb s)(p := v)\<rparr>) = (q', s')"
    using Suc.prems unfolding init_loop.simps(2) [of "Suc n" p q s] e upd_pb_def v_def .
  note IH = Suc.IH [OF st]
  have "pb s' p = v" using IH by simp
  moreover have "q' \<noteq> p"
  proof -
    have "pool_addrs (p + 152) (Suc n) \<noteq> []" by (simp add: pool_addrs_def)
    then have "p + 152 \<le> q'" using IH last_in_set pool_addrs_ge by metis
    then show ?thesis by simp
  qed
  moreover have "pool_addrs (p + 152) (Suc n) \<noteq> []" by (simp add: pool_addrs_def)
  ultimately show ?case using IH by (auto simp: pool_addrs_Suc [of p] v_def)
qed

text \<open>After start-up the whole pool is free.\<close>

lemma pbuf_init_ok:
  fixes s :: "'z pstate_scheme"
  assumes "kmalloc 19456 s = (Some p, s1)" "pbuf_pool_alloc_cache s1 = None" "pbuf_pool_free_cache s1 = None" "sp_used (stats s1) = 0"
  shows "\<exists>s'. pbuf_init kmalloc s = Some s' \<and> pool_ok (set (pool_addrs p PBUF_POOL_SIZE)) {} s'"
proof -
  define t where "t = upd_stats (\<lambda>x. x\<lparr>sp_avail := of_nat PBUF_POOL_SIZE\<rparr>) (s1\<lparr>pbuf_pool := Some p\<rparr>)"
  obtain q s2 where l: "init_loop PBUF_POOL_SIZE p p t = (q, s2)" by (cases "init_loop PBUF_POOL_SIZE p p t")
  define s' where "s' = (upd_pb q (\<lambda>x. x\<lparr>pb_next := None\<rparr>) s2)\<lparr>pbuf_pool_alloc_lock := 0, pbuf_pool_free_lock := 0\<rparr>"
  have n: "PBUF_POOL_SIZE = Suc 127" by (simp add: PBUF_POOL_SIZE_def)
  obtain f where c: "pchain (upd_pb q (\<lambda>x. x\<lparr>pb_next := None\<rparr>) s2) (Some p) (pool_addrs p PBUF_POOL_SIZE)" "s2 = t\<lparr>pb := f\<rparr>"
    using init_loop_correct [of 127 p p t q s2] l unfolding n by blast
  have "pchain s' (Some p) (pool_addrs p PBUF_POOL_SIZE)"
    using c(1) pchain_cong [of "pool_addrs p PBUF_POOL_SIZE" s' "upd_pb q (\<lambda>x. x\<lparr>pb_next := None\<rparr>) s2" "Some p"] by (simp add: s'_def)
  then have "pools (set (pool_addrs p PBUF_POOL_SIZE)) {} (pool_addrs p PBUF_POOL_SIZE) [] [] s'"
    using assms c(2) by (simp add: pools_def s'_def pool_addrs_distinct t_def)
  moreover have "pbuf_init kmalloc s = Some s'"
    using assms(1) l by (simp add: pbuf_init_def PBUF_POOL_BUFSIZE_def s'_def t_def) (simp add: PBUF_POOL_SIZE_def)
  ultimately show ?thesis by (auto simp: pool_ok_def)
qed


lemma pchain_cut:
  assumes "pchain s p (as @ q # bs)"
  shows "pchain s (pb_next (pb s q)) bs"
    and "(\<And>x. x \<in> set as \<Longrightarrow> pb_next (pb s' x) = pb_next (pb s x)) \<Longrightarrow> pb_next (pb s' q) = None \<Longrightarrow> pchain s' p (as @ [q])"
  using assms by (induction as arbitrary: p) auto

lemma content_take:
  assumes "len_ok s (as @ q # bs)" "r = sz - chain_len s as" "0 \<le> r" "r \<le> pb_len (pb s q)"
  shows "take (nat sz) (content s (as @ q # bs)) = content s as @ load (pb_payload (pb s q)) (nat r) (pmem s)"
proof -
  have a: "len_ok s as" using assms(1) by (simp add: len_ok_def)
  have "nat sz = length (content s as) + nat r" using length_content [OF a] assms(2,3) by linarith
  moreover have "min (nat (pb_len (pb s q))) (nat r) = nat r" using assms(4) by simp
  moreover have "nat r - nat (pb_len (pb s q)) = 0" using assms(4) by simp
  ultimately show ?thesis by (simp add: take_load)
qed

text \<open>Cutting a chain of the pool behind byte \<open>sz\<close>, which lies in the buffer \<open>q\<close>.\<close>

lemma realloc_cut:
  fixes s :: "'z pstate_scheme"
  assumes po: "pools B U P A [] s" and ps: "pchain s (Some p) (as @ q # bs)" "set (as @ q # bs) \<subseteq> U"
    and s2: "s2 = upd_pb q (\<lambda>x. x\<lparr>pb_next := None\<rparr>) (upd_pb q (\<lambda>x. x\<lparr>pb_len := r\<rparr>) s)"
  shows "\<exists>s3 s5. drop_rest (pb_next (pb s q)) s2 = Some s3 \<and> pbuf_refresh (upd_pb p (\<lambda>x. x\<lparr>pb_tot_len := sz\<rparr>) s3) = Some s5 \<and>
    pool_ok B (U - set bs) s5 \<and> pmem s5 = pmem s \<and>
    (\<forall>b \<in> U - set bs. pb s5 b = (if b = q then (if b = p then (pb s q)\<lparr>pb_len := r, pb_next := None, pb_tot_len := sz\<rparr> else (pb s q)\<lparr>pb_len := r, pb_next := None\<rparr>)
       else if b = p then (pb s p)\<lparr>pb_tot_len := sz\<rparr> else pb s b))"
proof -
  have d: "distinct (as @ q # bs)" by (rule pchain_distinct [OF ps(1)])
  have f2: "pb s2 b = (if b = q then (pb s q)\<lparr>pb_len := r, pb_next := None\<rparr> else pb s b)" for b by (simp add: s2)
  have po2: "pools B U P A [] s2" by (rule pools_cong [OF po]) (use ps(2) in \<open>auto simp: s2\<close>)
  have c2: "pchain s2 (pb_next (pb s q)) bs"
  proof -
    have "pb_next (pb s2 x) = pb_next (pb s x)" if "x \<in> set bs" for x using that d by (auto simp: f2)
    then show ?thesis using pchain_cut(1) [OF ps(1)] pchain_cong [of bs s2 s] by simp
  qed
  have bsU: "set bs \<subseteq> U" using ps(2) by auto
  obtain s3 where s3: "drop_rest (pb_next (pb s q)) s2 = Some s3" "pools B (U - set bs) P A (rev bs @ []) s3" "\<And>b. b \<notin> set bs \<Longrightarrow> pb s3 b = pb s2 b" "pmem s3 = pmem s2"
    using drop_rest_correct [OF po2 c2 bsU] by blast
  define s4 where "s4 = upd_pb p (\<lambda>x. x\<lparr>pb_tot_len := sz\<rparr>) s3"
  have "pools B (U - set bs) P A (rev bs @ []) s4" by (rule pools_cong [OF s3(2)]) (simp_all add: s4_def)
  then obtain s5 where s5: "pbuf_refresh s4 = Some s5" "pools B (U - set bs) (P @ rev bs @ []) A [] s5" "\<And>b. b \<notin> B - (U - set bs) \<Longrightarrow> pb s5 b = pb s4 b" "pmem s5 = pmem s4"
    using refresh_correct by blast
  have "pb s5 b = (if b = q then (if b = p then (pb s q)\<lparr>pb_len := r, pb_next := None, pb_tot_len := sz\<rparr> else (pb s q)\<lparr>pb_len := r, pb_next := None\<rparr>)
       else if b = p then (pb s p)\<lparr>pb_tot_len := sz\<rparr> else pb s b)" if "b \<in> U - set bs" for b
    using s5(3) [of b] s3(3) [of b] that f2 [of b] by (auto simp: s4_def)
  moreover have "pool_ok B (U - set bs) s5" using s5(2) by (auto simp: pool_ok_def)
  ultimately show ?thesis using s3(1,4) s5(1,4) by (auto simp: s4_def s2)
qed

lemma realloc_pool:
  fixes s :: "'z pstate_scheme"
  assumes po: "pool_ok B U s" and ps: "pchain s (Some p) ps" "set ps \<subseteq> U" "len_ok s ps"
    and p: "pb_tot_len (pb s p) = chain_len s ps" "pb_flags (pb s p) = PBUF_FLAG_POOL" "0 \<le> sz"
  shows "\<exists>s' qs. pbuf_realloc kfree p sz s = Some s' \<and> prefix qs ps \<and> pchain s' (Some p) qs \<and> pool_ok B (U - (set ps - set qs)) s' \<and>
    content s' qs = take (nat sz) (content s ps) \<and> pb_tot_len (pb s' p) = min sz (chain_len s ps) \<and> chain_len s' qs = min sz (chain_len s ps) \<and>
    (\<forall>b \<in> U - set ps. pb s' b = pb s b)"
proof (cases "pb_tot_len (pb s p) \<le> sz")
  case True
  then have "length (content s ps) \<le> nat sz" using length_content [OF ps(3)] p(1) by linarith
  then show ?thesis using True po ps p by (intro exI [of _ s] exI [of _ ps]) (simp add: pbuf_realloc_def)
next
  case False
  obtain P A where po: "pools B U P A [] s" using po by (auto simp: pool_ok_def)
  have ne: "ps \<noteq> []" using ps(1) by auto
  obtain as q bs where e: "ps = as @ q # bs" "find_end (Some p) sz s = Some (q, sz - chain_len s as)" "0 \<le> sz - chain_len s as" "sz - chain_len s as \<le> pb_len (pb s q)"
    using find_end_chain [OF ps(1,3) p(3) _ ne] False p(1) by auto
  define r where "r = sz - chain_len s as"
  define s2 where "s2 = upd_pb q (\<lambda>x. x\<lparr>pb_next := None\<rparr>) (upd_pb q (\<lambda>x. x\<lparr>pb_len := r\<rparr>) s)"
  have d: "distinct (as @ q # bs)" using pchain_distinct [OF ps(1)] e(1) by simp
  obtain s3 s5 where c: "drop_rest (pb_next (pb s q)) s2 = Some s3" "pbuf_refresh (upd_pb p (\<lambda>x. x\<lparr>pb_tot_len := sz\<rparr>) s3) = Some s5" "pool_ok B (U - set bs) s5" "pmem s5 = pmem s"
    and f: "\<And>b. b \<in> U - set bs \<Longrightarrow> pb s5 b = (if b = q then (if b = p then (pb s q)\<lparr>pb_len := r, pb_next := None, pb_tot_len := sz\<rparr> else (pb s q)\<lparr>pb_len := r, pb_next := None\<rparr>)
       else if b = p then (pb s p)\<lparr>pb_tot_len := sz\<rparr> else pb s b)"
    using realloc_cut [OF po _ _ s2_def, of p as bs sz] ps(1,2) unfolding e(1) by blast
  have "pbuf_realloc kfree p sz s = Some s5"
    using False p(2) e(2) c(1,2) by (simp add: pbuf_realloc_def r_def [symmetric]) (simp add: s2_def)
  moreover have inU: "x \<in> U - set bs" if "x \<in> set (as @ [q])" for x using that d ps(2) e(1) by auto
  have asf: "pb_next (pb s5 x) = pb_next (pb s x)" "pb_len (pb s5 x) = pb_len (pb s x)" "pb_payload (pb s5 x) = pb_payload (pb s x)" if "x \<in> set as" for x
    using f [of x] inU [of x] that d by (auto split: if_splits)
  have qf: "pb_next (pb s5 q) = None" "pb_len (pb s5 q) = r" "pb_payload (pb s5 q) = pb_payload (pb s q)" using f [of q] inU [of q] by auto
  have "pchain s5 (Some p) (as @ [q])" using pchain_cut(2) [of s "Some p" as q bs s5] ps(1) e(1) asf(1) qf(1) by simp
  moreover have "content s5 (as @ [q]) = take (nat sz) (content s ps)"
    using content_take [of s as q bs r sz] ps(3) e(1,3,4) content_cong [of as s5 s] asf qf c(4) by (simp add: r_def)
  moreover have "chain_len s5 (as @ [q]) = sz"
    using asf(2) qf(2) by (simp add: chain_len_def r_def cong: map_cong)
  moreover have "pb_tot_len (pb s5 p) = sz"
  proof -
    have "p = hd (as @ [q])" using ps(1) e(1) by (cases as) auto
    then have "p \<in> set (as @ [q])" by (cases as) auto
    then show ?thesis using f [of p] inU [of p] by (auto split: if_splits)
  qed
  moreover have "U - (set ps - set (as @ [q])) = U - set bs" using d e(1) by auto
  moreover have "pb s5 b = pb s b" if "b \<in> U - set ps" for b
  proof -
    have "b \<noteq> p" using that ps(1) by (cases ps) auto
    then show ?thesis using f [of b] that e(1) by auto
  qed
  moreover have "min sz (chain_len s ps) = sz" using False p(1) by simp
  moreover have "prefix (as @ [q]) ps" by (simp add: e(1))
  ultimately show ?thesis using c(3) by (intro exI [of _ s5] exI [of _ "as @ [q]"]) simp
qed


section \<open>Joining and splitting chains\<close>

lemma clen_chain: "pchain s p ps \<Longrightarrow> clen_loop p n s = Some (n + int (length ps))"
  by (induction ps arbitrary: p n) (simp_all add: clen_loop.simps)

lemma pbuf_clen_length: "pchain s p ps \<Longrightarrow> pbuf_clen p s = Some (int (length ps))"
  using clen_chain [of s p ps 0] by (auto simp: pbuf_clen_def)

lemma pbuf_chain_joins:
  assumes "pchain s (Some h) hs" "pchain s (Some t) ts" "set hs \<inter> set ts = {}"
    "pb_tot_len (pb s h) = chain_len s hs" "pb_tot_len (pb s t) = chain_len s ts" "0 \<le> chain_len s hs" "0 \<le> chain_len s ts" "chain_len s hs + chain_len s ts < 2147483648"
  shows "\<exists>s'. pbuf_chain h (Some t) s = Some s' \<and> pchain s' (Some h) (hs @ ts) \<and> content s' (hs @ ts) = content s hs @ content s ts \<and>
    pb_tot_len (pb s' h) = chain_len s' (hs @ ts)"
proof -
  have ne: "hs \<noteq> []" "t \<noteq> h" "t \<noteq> last hs"
  proof -
    show "hs \<noteq> []" using assms(1) by auto
    have "h \<in> set hs" "t \<in> set ts" using assms(1,2) by (cases hs; cases ts; auto)+
    then show "t \<noteq> h" "t \<noteq> last hs" using assms(3) last_in_set [OF \<open>hs \<noteq> []\<close>] by auto
  qed
  let ?s1 = "upd_pb (last hs) (\<lambda>x. x\<lparr>pb_next := Some t\<rparr>) s"
  define s' where "s' = upd_pb h (\<lambda>x. x\<lparr>pb_tot_len := i32 (pb_tot_len x + pb_tot_len (pb ?s1 t))\<rparr>) ?s1"
  have "pbuf_chain h (Some t) s = Some s'" using last_pbuf_chain [OF assms(1)] by (simp add: pbuf_chain_def s'_def)
  moreover have "pchain s' (Some h) (hs @ ts)"
    by (rule pchain_link [OF assms(1) ne(1) assms(2,3)]) (auto simp: s'_def)
  moreover have "pb_payload (pb s' x) = pb_payload (pb s x) \<and> pb_len (pb s' x) = pb_len (pb s x)" for x by (simp add: s'_def)
  then have "content s' (hs @ ts) = content s (hs @ ts)" "chain_len s' (hs @ ts) = chain_len s (hs @ ts)"
    using content_cong [of "hs @ ts" s' s] by (simp_all add: s'_def chain_len_def)
  moreover have "pb_tot_len (pb s' h) = chain_len s hs + chain_len s ts"
    using ne assms(4-8) by (cases "h = last hs") (simp_all add: s'_def i32_id)
  ultimately show ?thesis by (auto simp: chain_len_append)
qed

lemma pbuf_dechain_splits:
  assumes "pchain s (Some p) (p # ps)" "pb_tot_len (pb s p) = chain_len s (p # ps)" "0 \<le> chain_len s ps" "chain_len s ps < 2147483648"
  shows "\<exists>s'. pbuf_dechain p s = (pb_next (pb s p), s') \<and> pchain s' (Some p) [p] \<and> pchain s' (pb_next (pb s p)) ps \<and>
    content s' [p] = content s [p] \<and> content s' ps = content s ps \<and> pb_tot_len (pb s' p) = pb_len (pb s p) \<and>
    (ps \<noteq> [] \<longrightarrow> pb_tot_len (pb s' (hd ps)) = chain_len s ps)"
proof -
  have d: "p \<notin> set ps" using pchain_distinct [OF assms(1)] by simp
  have q: "pchain s (pb_next (pb s p)) ps" using assms(1) by simp
  define s1 where "s1 = (case pb_next (pb s p) of None \<Rightarrow> s | Some q \<Rightarrow> upd_pb q (\<lambda>x. x\<lparr>pb_tot_len := i32 (pb_tot_len (pb s p) - pb_len (pb s p))\<rparr>) s)"
  define s' where "s' = upd_pb p (\<lambda>x. x\<lparr>pb_tot_len := pb_len x, pb_next := None\<rparr>) s1"
  have r: "pbuf_dechain p s = (pb_next (pb s p), s')" by (simp add: pbuf_dechain_def s'_def s1_def Let_def)
  have f: "pb_payload (pb s' x) = pb_payload (pb s x) \<and> pb_len (pb s' x) = pb_len (pb s x)" "pmem s' = pmem s" for x
    by (simp_all add: s'_def s1_def split: option.split)
  have "pchain s' (pb_next (pb s p)) ps"
  proof -
    have "pb_next (pb s' x) = pb_next (pb s x)" if "x \<in> set ps" for x
      using that d by (cases "x = p") (simp_all add: s'_def s1_def split: option.split)
    then show ?thesis using q pchain_cong [of ps s' s] by simp
  qed
  moreover have "content s' qs = content s qs" for qs using content_cong [of qs s' s] f by simp
  moreover have "pb_tot_len (pb s' (hd ps)) = chain_len s ps" if "ps \<noteq> []"
  proof -
    have "pb_next (pb s p) = Some (hd ps)" "hd ps \<noteq> p" using q d that by (cases ps; auto)+
    then show ?thesis using assms(2-4) by (simp add: s'_def s1_def chain_len_Cons i32_id)
  qed
  moreover have "pb_next (pb s' p) = None" "pb_tot_len (pb s' p) = pb_len (pb s p)" by (simp_all add: s'_def s1_def split: option.split)
  ultimately show ?thesis using r f by simp
qed

text \<open>Room for a header: reserved and given back.\<close>

lemma pbuf_header_roundtrip:
  assumes "data_start p \<le> pb_payload (pb s p) - n" "0 \<le> n" "n < 1000000" "0 \<le> pb_len (pb s p)" "pb_len (pb s p) < 1000000000" "0 \<le> pb_tot_len (pb s p)" "pb_tot_len (pb s p) < 1000000000"
  shows "\<exists>s'. pbuf_header p n s = (0, s') \<and> pb_len (pb s' p) = pb_len (pb s p) + n \<and> pb_payload (pb s' p) = pb_payload (pb s p) - n \<and> pbuf_header p (- n) s' = (0, s)"
  using assms by (simp add: pbuf_header_def Let_def i32_id upd_pb_def)


lemma dup_loop_correct:
  fixes s :: "'z pstate_scheme"
  assumes "pchain s p ps" "len_ok s ps"
    "\<forall>x \<in> set ps. pb_payload (pb s x) + pb_len (pb s x) \<le> dst \<or> dst + chain_len s ps \<le> pb_payload (pb s x)"
  shows "dup_loop p dst s = Some (s\<lparr>pmem := store dst (content s ps) (pmem s)\<rparr>)"
  using assms
proof (induction ps arbitrary: p dst s)
  case Nil
  then show ?case by (simp add: dup_loop.simps)
next
  case (Cons x ps)
  let ?l = "pb_len (pb s x)" and ?a = "pb_payload (pb s x)"
  define bs where "bs = load ?a (nat ?l) (pmem s)"
  define t where "t = s\<lparr>pmem := store dst bs (pmem s)\<rparr>"
  have l: "0 \<le> ?l" "?l < 2147483648" "len_ok s ps" "p = Some x" "pchain s (pb_next (pb s x)) ps" using Cons.prems(1,2) by auto
  have cl: "chain_len s (x # ps) = ?l + chain_len s ps" "0 \<le> chain_len s ps" using chain_len_nonneg [OF l(3)] by (simp_all add: chain_len_Cons)
  have u: "uint (of_int ?l :: u32) = ?l" "unat (of_int ?l :: u32) = nat ?l"
    using l(1,2) by (simp_all add: uint_word_of_int unat_eq_nat_uint)
  have dj: "?a + ?l \<le> dst \<or> dst + ?l \<le> ?a" using Cons.prems(3) cl by auto
  have "memcpy dst ?a (of_int ?l) (pmem s) = Some (dst, store dst bs (pmem s))"
    using memcpy_store [of dst "of_int ?l" ?a "pmem s"] dj by (auto simp: u bs_def)
  then have st: "dup_loop p dst s = dup_loop (pb_next (pb s x)) (dst + ?l) t" using l(4) by (subst dup_loop.simps) (simp add: t_def)
  have len: "int (length bs) = ?l" using l(1) by (simp add: bs_def)
  have ct: "content t ps = content s ps"
  proof -
    have "load (pb_payload (pb s y)) (nat (pb_len (pb s y))) (store dst bs (pmem s)) = load (pb_payload (pb s y)) (nat (pb_len (pb s y))) (pmem s)" if "y \<in> set ps" for y
    proof (rule load_store_out)
      have "0 \<le> pb_len (pb s y)" using l(3) that by (simp add: len_ok_def)
      then show "pb_payload (pb s y) + int (nat (pb_len (pb s y))) \<le> dst \<or> dst + int (length bs) \<le> pb_payload (pb s y)"
        using Cons.prems(3) that cl len by auto
    qed
    then show ?thesis by (simp add: content_def t_def cong: map_cong)
  qed
  have "dup_loop (pb_next (pb s x)) (dst + ?l) t = Some (t\<lparr>pmem := store (dst + ?l) (content t ps) (pmem t)\<rparr>)"
  proof (rule Cons.IH)
    show "pchain t (pb_next (pb s x)) ps" using l(5) pchain_cong [of ps t s] by (simp add: t_def)
    show "len_ok t ps" using l(3) by (simp add: len_ok_def t_def)
    have "chain_len t ps = chain_len s ps" by (simp add: chain_len_def t_def)
    then show "\<forall>y \<in> set ps. pb_payload (pb t y) + pb_len (pb t y) \<le> dst + ?l \<or> dst + ?l + chain_len t ps \<le> pb_payload (pb t y)"
      using Cons.prems(3) l(1) cl by (auto simp: t_def)
  qed
  also have "\<dots> = Some (s\<lparr>pmem := store dst (content s (x # ps)) (pmem s)\<rparr>)"
    unfolding ct using store_append [of dst bs "content s ps" "pmem s"] len by (simp add: t_def bs_def)
  finally show ?case using st by simp
qed

section \<open>Correctness\<close>

text \<open>
  C34. Allocating from the pool: with \<open>U\<close> the pool buffers in use, the call returns either a new chain of buffers that were
  free, with room for headers in the first, whose lengths add up to the size asked for, or \<open>NULL\<close> with nothing
  taken, and then only when all free buffers together are too small. No buffer in use is touched.
\<close>

theorem pbuf_alloc_pool_correct:
  fixes s :: "'z pstate_scheme"
  assumes "pool_ok B U s" "layer_offset layer = Some offset" "0 \<le> sz"
  shows "\<exists>p s'. pbuf_alloc kmalloc layer sz PBUF_POOL s = Some (p, s') \<and> (\<forall>b \<in> U. pb s' b = pb s b) \<and> pmem s' = pmem s \<and>
    (case p of
       None \<Rightarrow> pool_ok B U s' \<and> (B = U \<or> 128 * int (card (B - U)) - offset < sz)
     | Some p \<Rightarrow> \<exists>ps. new_chain B U offset sz p ps s')"
proof -
  obtain P A where po: "pools B U P A [] s" using assms(1) by (auto simp: pool_ok_def)
  have "0 \<le> offset" "offset < 128"
    using assms(2) by (auto simp: layer_offset_def PBUF_TRANSPORT_HLEN_def PBUF_IP_HLEN_def PBUF_LINK_HLEN_def split: if_splits)
  then show ?thesis using alloc_pool_correct [OF po _ _ assms(3)] assms(2) unfolding pool_ok_def by (simp add: pbuf_alloc_def)
qed

text \<open>
  C35. Freeing a chain: with the last reference every buffer of the pool in the chain becomes free again, the number of
  buffers is returned and no other buffer changes; with more references only the count goes down.
\<close>

theorem pbuf_free_correct:
  fixes s :: "'z pstate_scheme"
  assumes "kfree_ok kfree" "pool_ok B U s" "pchain s (Some p) ps" "owned B U s ps"
  shows "\<exists>s'. pbuf_free kfree (Some p) s = Some (if pb_ref (pb s p) = 1 then int (length ps) else 0, s') \<and>
    (if pb_ref (pb s p) = 1 then pool_ok B (U - set ps) s' \<and> (\<forall>b. b \<notin> B - U \<longrightarrow> b \<notin> set ps \<longrightarrow> pb s' b = pb s b)
     else pool_ok B U s' \<and> s' = upd_pb p (\<lambda>x. x\<lparr>pb_ref := pb_ref x - 1\<rparr>) s)"
  by (rule pbuf_free_eq [OF assms])

text \<open>
  C36. Shortening a chain from the pool keeps exactly the first \<open>sz\<close> bytes, in a prefix of the chain; the
  buffers behind are free again and the total length is right.
\<close>

theorem pbuf_realloc_truncates:
  fixes s :: "'z pstate_scheme"
  assumes "pool_ok B U s" "pchain s (Some p) ps" "set ps \<subseteq> U" "len_ok s ps"
    "pb_tot_len (pb s p) = chain_len s ps" "pb_flags (pb s p) = PBUF_FLAG_POOL" "0 \<le> sz"
  shows "\<exists>s' qs. pbuf_realloc kfree p sz s = Some s' \<and> prefix qs ps \<and> pchain s' (Some p) qs \<and> pool_ok B (U - (set ps - set qs)) s' \<and>
    content s' qs = take (nat sz) (content s ps) \<and> pb_tot_len (pb s' p) = min sz (chain_len s ps) \<and> chain_len s' qs = min sz (chain_len s ps) \<and>
    (\<forall>b \<in> U - set ps. pb s' b = pb s b)"
  by (rule realloc_pool [OF assms])

text \<open>
  Duplicating a chain gives one buffer with the bytes of the whole chain and leaves the chain as it was, when
  \<^verbatim>\<open>kmalloc\<close> returns a block that does not overlap the data of the chain and leaves everything else alone.
\<close>

theorem pbuf_dup_copies:
  fixes s :: "'z pstate_scheme"
  assumes km: "kmalloc (of_int (24 + chain_len s ps + offset)) s = (Some q, s1)" "\<And>b. b \<noteq> q \<Longrightarrow> pb s1 b = pb s b" "pmem s1 = pmem s"
    and fresh: "q \<notin> set ps" "\<forall>x \<in> set ps. pb_payload (pb s x) + pb_len (pb s x) \<le> data_start q + offset \<or> data_start q + offset + chain_len s ps \<le> pb_payload (pb s x)"
    and chain: "pchain s (Some p) ps" "len_ok s ps" "pb_tot_len (pb s p) = chain_len s ps" "layer_offset layer = Some offset"
  shows "\<exists>s'. pbuf_dup kmalloc layer p s = Some (Some q, s') \<and> pchain s' (Some q) [q] \<and> content s' [q] = content s ps \<and> pb_len (pb s' q) = chain_len s ps \<and> pb_tot_len (pb s' q) = chain_len s ps \<and>
    pb_payload (pb s' q) = data_start q + offset \<and> pb_ref (pb s' q) = 1 \<and> pchain s' (Some p) ps \<and> content s' ps = content s ps"
proof -
  let ?n = "chain_len s ps" and ?d = "data_start q + offset"
  define v where "v = (pb s1 q)\<lparr>pb_payload := ?d, pb_len := ?n, pb_tot_len := ?n, pb_size := ?n, pb_next := None, pb_flags := PBUF_FLAG_RW, pb_ref := 1\<rparr>"
  define t where "t = upd_stats (\<lambda>x. x\<lparr>sp_rwbufs := sp_rwbufs x + 1\<rparr>) (s1\<lparr>pb := (pb s1)(q := v)\<rparr>)"
  have al: "pbuf_alloc kmalloc layer ?n PBUF_RW s = Some (Some q, t)"
    using km(1) chain(4) by (simp add: pbuf_alloc_def PBUF_RW_def PBUF_POOL_def t_def v_def upd_pb_def upd_stats_def Let_def)
  have f: "pb t x = pb s x" if "x \<in> set ps" for x
    using that fresh(1) km(2) [of x] by (cases "x = q") (simp_all add: t_def)
  have tq: "pb t q = v" "pmem t = pmem s" using km(3) by (simp_all add: t_def)
  have ch: "pchain t (Some p) ps" "len_ok t ps" "content t ps = content s ps" "chain_len t ps = ?n"
    using chain(1,2) pchain_cong [of ps t s] content_cong [of ps t s] f tq(2) by (simp_all add: len_ok_def chain_len_def cong: map_cong)
  define s' where "s' = t\<lparr>pmem := store ?d (content s ps) (pmem s)\<rparr>"
  have "dup_loop (Some p) ?d t = Some s'"
    using dup_loop_correct [OF ch(1,2), of ?d] fresh(2) f ch(3,4) tq(2) by (simp add: s'_def)
  then have "pbuf_dup kmalloc layer p s = Some (Some q, s')" using al tq(1) chain(3) by (simp add: pbuf_dup_def v_def)
  moreover have n: "nat ?n = length (content s ps)" using length_content [OF chain(2)] by linarith
  then have "content s' [q] = content s ps" using load_store [of ?d "content s ps" "pmem s"] tq(1) by (simp add: s'_def v_def)
  moreover have "content s' ps = content s ps"
  proof -
    have "load (pb_payload (pb s x)) (nat (pb_len (pb s x))) (store ?d (content s ps) (pmem s)) = load (pb_payload (pb s x)) (nat (pb_len (pb s x))) (pmem s)" if "x \<in> set ps" for x
    proof (rule load_store_out)
      have "0 \<le> pb_len (pb s x)" using chain(2) that by (simp add: len_ok_def)
      then show "pb_payload (pb s x) + int (nat (pb_len (pb s x))) \<le> ?d \<or> ?d + int (length (content s ps)) \<le> pb_payload (pb s x)"
        using fresh(2) that length_content [OF chain(2)] by auto
    qed
    then show ?thesis using f by (simp add: content_def s'_def cong: map_cong)
  qed
  moreover have "pchain s' (Some p) ps" using ch(1) pchain_cong [of ps s' t] by (simp add: s'_def)
  ultimately show ?thesis using tq(1) by (auto simp: s'_def v_def)
qed

text \<open>A pool of two buffers: free, and with both in use as one chain.\<close>

definition pbuf_ex :: "nat \<Rightarrow> pbuf" where
  "pbuf_ex p = \<lparr>pb_next = (if p = 1000 then Some 2000 else None), pb_flags = PBUF_FLAG_POOL, pb_ref = 1, pb_payload = data_start p,
     pb_tot_len = (if p = 1000 then 256 else 128), pb_len = 128, pb_size = 128\<rparr>"

definition stats_ex :: "u32 \<Rightarrow> stats_pbuf" where
  "stats_ex used = \<lparr>sp_avail = 2, sp_used = used, sp_max = 2, sp_err = 0, sp_alloc_locked = 0, sp_refresh_locked = 0, sp_rwbufs = 0\<rparr>"

definition free_ex :: pstate where
  "free_ex = \<lparr>pb = pbuf_ex, pmem = (\<lambda>a. of_int a), pbuf_pool = Some 1000, pbuf_pool_alloc_cache = None, pbuf_pool_free_cache = None,
     pbuf_pool_free_lock = 0, pbuf_pool_alloc_lock = 0, stats = stats_ex 0\<rparr>"

definition used_ex :: pstate where
  "used_ex = \<lparr>pb = pbuf_ex, pmem = (\<lambda>a. of_int a), pbuf_pool = None, pbuf_pool_alloc_cache = None, pbuf_pool_free_cache = None,
     pbuf_pool_free_lock = 0, pbuf_pool_alloc_lock = 0, stats = stats_ex 2\<rparr>"

lemma free_ex_ok: "pool_ok {1000, 2000} {} free_ex"
  unfolding pool_ok_def by (intro exI [of _ "[1000, 2000]"] exI [of _ "[]"]) (simp add: pools_def free_ex_def pbuf_ex_def stats_ex_def)

lemma used_ex_ok: "pool_ok {1000, 2000} {1000, 2000} used_ex" "pchain used_ex (Some 1000) [1000, 2000]" "len_ok used_ex [1000, 2000]"
    "pb_tot_len (pb used_ex 1000) = chain_len used_ex [1000, 2000]" "pb_flags (pb used_ex 1000) = PBUF_FLAG_POOL" "chain_len used_ex [1000, 2000] = 256"
    "owned {1000, 2000} {1000, 2000} used_ex [1000, 2000]" "pb_ref (pb used_ex 1000) = 1"
  by (simp_all add: pool_ok_def pools_def used_ex_def pbuf_ex_def stats_ex_def len_ok_def chain_len_def owned_def)

theorem pbuf_alloc_pool_correct_witness:
  "\<exists>p ps s'. pbuf_alloc (\<lambda>n s. (None, s)) PBUF_TRANSPORT 200 PBUF_POOL free_ex = Some (Some p, s') \<and> new_chain {1000, 2000} {} 54 200 p ps s'"
proof -
  have "layer_offset PBUF_TRANSPORT = Some 54"
    by (simp add: layer_offset_def PBUF_TRANSPORT_def PBUF_TRANSPORT_HLEN_def PBUF_IP_HLEN_def PBUF_LINK_HLEN_def)
  then show ?thesis
    using pbuf_alloc_pool_correct [OF free_ex_ok, of PBUF_TRANSPORT 54 200 "\<lambda>n s. (None, s)"] by (auto split: option.splits)
qed

theorem pbuf_free_correct_witness:
  "\<exists>s'. pbuf_free (\<lambda>p s. s) (Some 1000) used_ex = Some (2, s') \<and> pool_ok {1000, 2000} {} s'"
  using pbuf_free_correct [of "\<lambda>p s. s", OF _ used_ex_ok(1,2,7)] by (simp add: kfree_ok_def used_ex_ok(8)) blast

theorem pbuf_realloc_truncates_witness:
  "\<exists>s' qs. pbuf_realloc (\<lambda>p s. s) 1000 100 used_ex = Some s' \<and> pchain s' (Some 1000) qs \<and> content s' qs = take 100 (content used_ex [1000, 2000])"
  using pbuf_realloc_truncates [OF used_ex_ok(1,2) _ used_ex_ok(3,4,5), of 100 "\<lambda>p s. s"] by auto

end
