(* ===== verification/Inet_Laws.thy ===== *)
theory Inet_Laws
  imports Inet
begin

text \<open>
  The checksum is correct. Sums are taken in one's complement: the reduced sum of a string of bytes is \<open>canon (osum bs)\<close>, and
  reading words at an odd position multiplies by 256, which swapping the bytes undoes.
\<close>

section \<open>Sums in one's complement\<close>

text \<open>
  The number that a sum is reduced to: between 1 and 65535, congruent modulo 65535, and 0 only for 0.
\<close>

definition canon :: "nat \<Rightarrow> nat" where
  "canon k = (if k = 0 then 0 else (k - 1) mod 65535 + 1)"

lemma canon_0 [simp]: "canon 0 = 0"
  by (simp add: canon_def)

lemma canon_eq_0 [simp]: "canon k = 0 \<longleftrightarrow> k = 0"
  by (simp add: canon_def)

lemma canon_le: "canon k \<le> 65535"
proof -
  have "(k - 1) mod 65535 + 1 \<le> 65535" using mod_less_divisor [of 65535 "k - 1"] by linarith
  then show ?thesis unfolding canon_def by (cases "k = 0") (simp_all only: if_True if_False, simp)
qed

lemma canon_mod: "canon k mod 65535 = k mod 65535"
proof (cases "k = 0")
  case False
  then have "k = (k - 1) + 1" by simp
  then have "k mod 65535 = ((k - 1) mod 65535 + 1) mod 65535" by (metis mod_add_left_eq)
  then show ?thesis using False by (simp add: canon_def)
qed simp

lemma canon_small: "k \<le> 65535 \<Longrightarrow> canon k = k"
  by (cases "k = 0") (simp_all add: canon_def)

lemma canon_eqI:
  assumes "k = 0 \<longleftrightarrow> l = 0" "k mod 65535 = l mod 65535"
  shows "canon k = canon l"
proof (cases "k = 0")
  case False
  have "canon k mod 65535 = canon l mod 65535" using assms(2) by (simp add: canon_mod)
  moreover have "0 < canon k" "canon k \<le> 65535" "0 < canon l" "canon l \<le> 65535" using False assms(1) canon_le by (auto simp: neq0_conv [symmetric] simp del: neq0_conv)
  ultimately show ?thesis by (cases "canon k = 65535"; cases "canon l = 65535") auto
qed (use assms in simp)

lemma canon_canon [simp]: "canon (canon k) = canon k"
  using canon_small canon_le by blast

lemma canon_add: "canon (canon a + b) = canon (a + b)" "canon (a + canon b) = canon (a + b)"
proof -
  show "canon (canon a + b) = canon (a + b)"
    by (rule canon_eqI) (auto simp: mod_add_left_eq [of "canon a", symmetric] canon_mod mod_add_left_eq)
  show "canon (a + canon b) = canon (a + b)"
    by (rule canon_eqI) (auto simp: mod_add_right_eq [of a "canon b", symmetric] canon_mod mod_add_right_eq)
qed

lemma canon_mult: "canon (256 * canon a) = canon (256 * a)"
  by (rule canon_eqI) (auto simp: mod_mult_right_eq [of 256 "canon a", symmetric] canon_mod mod_mult_right_eq)

lemma canon_split: "canon (k mod 65536 + k div 65536) = canon k"
proof (rule canon_eqI)
  show "k mod 65536 + k div 65536 = 0 \<longleftrightarrow> k = 0" using div_mult_mod_eq [of k 65536] by auto
  have "k = 65535 * (k div 65536) + (k mod 65536 + k div 65536)" using div_mult_mod_eq [of k 65536] by linarith
  then show "(k mod 65536 + k div 65536) mod 65535 = k mod 65535" by (metis mod_mult_self4)
qed

lemma canon_256_256: "canon (256 * (256 * a)) = canon a"
proof (rule canon_eqI)
  have "256 * (256 * a) = 65535 * a + a" by simp
  then show "256 * (256 * a) mod 65535 = a mod 65535" by (metis mod_mult_self4)
qed simp

lemma canon_65536: "canon (65536 * a) = canon a"
  using canon_256_256 [of a] by simp

lemma fold_acc_canon: "unat (fold_acc acc) = canon (unat acc)"
proof (induction acc rule: fold_acc.induct)
  case (1 acc)
  show ?case
  proof (cases "drop_bit 16 acc = 0")
    case False
    then show ?thesis using 1 by (subst fold_acc.simps) (simp add: fold_once canon_split)
  next
    case True
    then have "unat acc div 65536 = 0" using unat_halves(2) [of acc] by simp
    then have "unat acc \<le> 65535" by (simp add: div_eq_0_iff)
    then show ?thesis using True by (subst fold_acc.simps) (simp add: canon_small)
  qed
qed


fun osum :: "u8 list \<Rightarrow> nat" where
  "osum [] = 0"
| "osum [a] = unat a"
| "osum (a # b # xs) = unat a + 256 * unat b + osum xs"

lemma osum_le: "osum xs \<le> 65535 * ((length xs + 1) div 2)"
proof (induction xs rule: osum.induct)
  case (2 a)
  have "unat a < 256" using unsigned_less [of a, where 'a = nat] by simp
  then show ?case by simp
next
  case (3 a b xs)
  have "unat a < 256" "unat b < 256" using unsigned_less [of a, where 'a = nat] unsigned_less [of b, where 'a = nat] by simp_all
  then show ?case using 3 by simp
qed simp

lemma osum_bound: "length xs \<le> 131072 \<Longrightarrow> osum xs < 4294967296"
proof -
  assume "length xs \<le> 131072"
  then have "(length xs + 1) div 2 \<le> 65536" by simp
  then show ?thesis using osum_le [of xs] by linarith
qed

lemma osum_even: "even (length xs) \<Longrightarrow> osum (xs @ ys) = osum xs + osum ys"
  by (induction xs rule: osum.induct) simp_all

lemma osum_Cons_0: "osum (a # ys) = 0 \<longleftrightarrow> unat a = 0 \<and> osum ys = 0"
  by (induction ys arbitrary: a rule: osum.induct) auto

lemma osum_Cons: "\<exists>k. unat a + 256 * osum ys = 65535 * k + osum (a # ys)"
proof (induction ys arbitrary: a rule: osum.induct)
  case (3 b c xs)
  obtain k where "unat c + 256 * osum xs = 65535 * k + osum (c # xs)" using 3 by blast
  then have "unat a + 256 * osum (b # c # xs) = 65535 * (k + unat c) + osum (a # b # c # xs)" by simp
  then show ?case by blast
qed (auto intro: exI [of _ 0])

lemma osum_odd:
  assumes "odd (length xs)"
  shows "osum (xs @ ys) mod 65535 = (osum xs + 256 * osum ys) mod 65535" "osum (xs @ ys) = 0 \<longleftrightarrow> osum xs = 0 \<and> osum ys = 0"
proof -
  obtain us a where xs: "xs = us @ [a]" "even (length us)" using assms by (cases xs rule: rev_cases) auto
  have e: "osum (xs @ ys) = osum us + osum (a # ys)" "osum xs = osum us + unat a" using osum_even [OF xs(2)] by (simp_all add: xs(1))
  obtain k where "unat a + 256 * osum ys = 65535 * k + osum (a # ys)" using osum_Cons by blast
  then have "osum xs + 256 * osum ys = 65535 * k + osum (xs @ ys)" unfolding e by simp
  then show "osum (xs @ ys) mod 65535 = (osum xs + 256 * osum ys) mod 65535" by (simp only: mod_mult_self4)
  show "osum (xs @ ys) = 0 \<longleftrightarrow> osum xs = 0 \<and> osum ys = 0" unfolding e osum_Cons_0 add_is_0 add_eq_0_iff_both_eq_0 by blast
qed

lemma read_u16_unat: "unat (read_u16 m a) = unat (m a) + 256 * unat (m (a + 1))"
proof -
  have b: "unat (m a) < 256" "unat (m (a + 1)) < 256" using unsigned_less [of "m a", where 'a = nat] unsigned_less [of "m (a + 1)", where 'a = nat] by simp_all
  have u: "unat (ucast x :: u32) = unat x" for x :: u8 by (simp add: unsigned_ucast_eq take_bit_nat_eq_self_iff unsigned_less [where 'a = nat, THEN less_trans])
  have "unat (256 * ucast (m (a + 1)) :: u32) = 256 * unat (m (a + 1))" using b(2) by (simp add: unat_word_ariths u)
  then show ?thesis using b by (simp add: read_u16_def u unat_add_no_wrap_u32)
qed

lemma chksum_loop_sum:
  assumes "unat acc + osum (load p n m) < 4294967296"
  shows "\<exists>acc' q. chksum_loop m p (int n) acc = (acc', q, int (n mod 2)) \<and>
    (if n mod 2 = 1 then unat acc' + unat (m q) else unat acc') = unat acc + osum (load p n m)"
  using assms
proof (induction n arbitrary: p acc rule: less_induct)
  case (less n)
  show ?case
  proof (cases "n > 1")
    case False
    then have "n = 0 \<or> n = 1" by auto
    then show ?thesis by (subst chksum_loop.simps) (auto simp: load_Suc)
  next
    case True
    then obtain k where n: "n = k + 2" by (metis add.commute le_add_diff_inverse2 less_eq_Suc_le one_add_one plus_1_eq_Suc)
    have l: "load p n m = m p # m (p + 1) # load (p + 2) k m" by (simp add: n load_Suc add.assoc)
    have u: "unat (acc + read_u16 m p) = unat acc + unat (m p) + 256 * unat (m (p + 1))"
      using less.prems l by (simp add: unat_add_no_wrap_u32 read_u16_unat)
    have "chksum_loop m p (int n) acc = chksum_loop m (p + 2) (int k) (acc + read_u16 m p)" using True n by (subst chksum_loop.simps) simp
    moreover have "n mod 2 = k mod 2" by (simp add: n)
    ultimately show ?thesis using less.IH [of k "acc + read_u16 m p" "p + 2"] less.prems n u l by (simp add: add.assoc)
  qed
qed

lemma unat_char: "unat (ucast x :: u32) = unat x" "unat x < 256" for x :: u8
  by (simp_all add: unsigned_ucast_eq take_bit_nat_eq_self_iff unsigned_less [where 'a = nat, THEN less_trans])
    (use unsigned_less [of x, where 'a = nat] in simp)

lemma high_half: "x AND 0xFFFF0000 = 0 \<longleftrightarrow> unat x < 65536" for x :: u32
proof -
  have "(0xFFFF0000 :: u32) = push_bit 16 (mask 16)" by (simp add: mask_eq_exp_minus_1 push_bit_eq_mult)
  then have "x AND 0xFFFF0000 = push_bit 16 (drop_bit 16 x)" by (simp only:) (auto simp: bit_eq_iff bit_simps)
  moreover have "drop_bit 16 (push_bit 16 (drop_bit 16 x)) = drop_bit 16 x" by (auto simp: bit_eq_iff bit_simps dest: bit_imp_le_length)
  ultimately have "x AND 0xFFFF0000 = 0 \<longleftrightarrow> drop_bit 16 x = 0" by (metis drop_bit_of_0 push_bit_of_0)
  also have "\<dots> \<longleftrightarrow> unat x div 65536 = 0" using unat_halves(2) [of x] unat_eq_zero [of "drop_bit 16 x"] by simp
  finally show ?thesis by (simp add: div_eq_0_iff)
qed

lemma chksum_canon:
  assumes "n \<le> 131072"
  shows "unat (chksum m p (int n)) = canon (osum (load p n m))"
proof -
  let ?S = "osum (load p n m)"
  have S: "?S < 4294967296" using osum_bound assms by simp
  obtain acc q where l: "chksum_loop m p (int n) 0 = (acc, q, int (n mod 2))" "(if n mod 2 = 1 then unat acc + unat (m q) else unat acc) = ?S"
    using chksum_loop_sum [of 0 p n m] S by auto
  define a1 where "a1 = (if int (n mod 2) = 1 then acc + ucast (m q) else acc)"
  have a1: "unat a1 = ?S" using l(2) S by (simp add: a1_def unat_add_no_wrap_u32 unat_char split: if_splits)
  define a2 where "a2 = drop_bit 16 a1 + (a1 AND 0xFFFF)"
  have a2: "unat a2 = ?S mod 65536 + ?S div 65536" using fold_once [of a1] a1 by (simp add: a2_def add.commute)
  have c: "chksum m p (int n) = (if a2 AND 0xFFFF0000 \<noteq> 0 then drop_bit 16 a2 + (a2 AND 0xFFFF) else a2)"
    unfolding chksum_def l(1) Let_def prod.case a1_def [symmetric] a2_def [symmetric] ..
  have ca: "canon (unat a2) = canon ?S" unfolding a2 by (rule canon_split)
  show ?thesis
  proof (cases "unat a2 < 65536")
    case True
    then have "chksum m p (int n) = a2" unfolding c by (simp add: high_half)
    then show ?thesis using ca canon_small [of "unat a2"] True by simp
  next
    case False
    have "?S div 65536 < 65536" using S less_mult_imp_div_less [of ?S 65536 65536] by simp
    then have b: "unat a2 \<le> 131070" using a2 mod_less_divisor [of 65536 ?S] by linarith
    let ?b = "drop_bit 16 a2 + (a2 AND 0xFFFF)"
    have u: "unat ?b = unat a2 mod 65536 + unat a2 div 65536" using fold_once [of a2] by (simp add: add.commute)
    have "unat a2 div 65536 = 1" "unat a2 mod 65536 = unat a2 - 65536" using b False by (simp_all add: div_nat_eqI mod_if)
    then have "unat ?b \<le> 65535" using u b False by simp
    then have "unat ?b = canon (unat ?b)" by (simp add: canon_small)
    also have "\<dots> = canon ?S" unfolding u canon_split ca ..
    finally show ?thesis unfolding c using False by (simp add: high_half)
  qed
qed

lemma swap_canon:
  assumes "unat acc \<le> 65535"
  shows "unat (swap_bytes acc) = canon (256 * unat acc)"
proof -
  have k: "(0xFF :: u32) = mask 8" "(0xFF00 :: u32) = push_bit 8 (mask 8)" by (simp_all add: mask_eq_exp_minus_1 push_bit_eq_mult)
  have e: "swap_bytes acc = push_bit 8 (take_bit 8 acc) OR take_bit 8 (drop_bit 8 acc)"
    unfolding swap_bytes_def k by (auto simp: bit_eq_iff bit_simps)
  also have "\<dots> = push_bit 8 (take_bit 8 acc) + take_bit 8 (drop_bit 8 acc)"
    by (rule disjunctive_add [symmetric]) (auto simp: bit_simps)
  finally have e: "swap_bytes acc = 256 * (acc mod 256) + acc div 256 mod 256"
    by (simp add: push_bit_eq_mult take_bit_eq_mod drop_bit_eq_div mult.commute)
  let ?a = "unat acc"
  have d: "?a div 256 < 256" using assms less_mult_imp_div_less [of ?a 256 256] by simp
  have "unat (acc mod 256) = ?a mod 256" "unat (acc div 256 mod 256) = ?a div 256" using d by (simp_all add: unat_mod unat_div)
  moreover have m: "?a mod 256 < 256" by simp
  moreover have "unat (256 * (acc mod 256)) = 256 * (?a mod 256)" by (simp add: unat_word_ariths unat_mod)
  ultimately have u: "unat (swap_bytes acc) = 256 * (?a mod 256) + ?a div 256" unfolding e using d by (simp add: unat_add_no_wrap_u32)
  have "unat (swap_bytes acc) = canon (unat (swap_bytes acc))" using u d m by (intro canon_small [symmetric]) linarith
  also have "\<dots> = canon (256 * ?a)"
  proof (rule canon_eqI)
    have a: "?a = 256 * (?a div 256) + ?a mod 256" by simp
    then have "256 * ?a = 65535 * (?a div 256) + (256 * (?a mod 256) + ?a div 256)" by linarith
    then show "unat (swap_bytes acc) mod 65535 = 256 * ?a mod 65535" unfolding u by (metis mod_mult_self4)
    show "unat (swap_bytes acc) = 0 \<longleftrightarrow> 256 * ?a = 0" unfolding u using a by auto
  qed
  finally show ?thesis .
qed


section \<open>Chains\<close>

text \<open>The sum of the bytes so far, with the bytes swapped when their number is odd.\<close>

definition wsum :: "u8 list \<Rightarrow> nat" where
  "wsum xs = (if odd (length xs) then 256 * osum xs else osum xs)"

lemma wsum_append: "canon (wsum (xs @ ys)) = (if odd (length ys) then canon (256 * (wsum xs + osum ys)) else canon (wsum xs + osum ys))"
proof (cases "even (length xs)")
  case True
  then show ?thesis by (simp add: wsum_def osum_even)
next
  case False
  then have o: "canon (osum (xs @ ys)) = canon (osum xs + 256 * osum ys)" using osum_odd [of xs ys] by (intro canon_eqI) auto
  have e: "canon (256 * osum (xs @ ys)) = canon (256 * osum xs + osum ys)"
    by (metis o canon_mult distrib_left canon_add(2) canon_256_256)
  have f: "canon (256 * (256 * osum xs + osum ys)) = canon (osum xs + 256 * osum ys)"
    by (metis distrib_left canon_add(1) canon_256_256)
  show ?thesis using False e f o by (simp add: wsum_def)
qed

lemma smod_2: "0 \<le> n \<Longrightarrow> n smod 2 \<noteq> 0 \<longleftrightarrow> odd (nat n)" for n :: int
proof -
  assume n: "0 \<le> n"
  then have "n smod 2 = n mod 2" by (cases "n = 0") (simp_all add: signed_modulo_int_def)
  then show ?thesis using n by (simp add: even_nat_iff odd_iff_mod_2_eq_one flip: even_iff_mod_2_eq_zero)
qed

definition short :: "'z pstate_scheme \<Rightarrow> nat list \<Rightarrow> bool" where
  "short s ps \<longleftrightarrow> (\<forall>p \<in> set ps. 0 \<le> pb_len (pb s p) \<and> pb_len (pb s p) \<le> 131072)"

lemma chain_sum_canon:
  assumes "pchain s q ps" "short s ps" "unat acc = canon (wsum xs)" "swapped = of_bool (odd (length xs))"
  shows "\<exists>acc'. chain_sum q acc swapped s = Some (acc', of_bool (odd (length (xs @ content s ps)))) \<and> unat acc' = canon (wsum (xs @ content s ps))"
  using assms
proof (induction ps arbitrary: q acc swapped xs)
  case Nil
  then show ?case by (simp add: chain_sum.simps)
next
  case (Cons p ps)
  let ?n = "pb_len (pb s p)" and ?a = "pb_payload (pb s p)"
  define ys where "ys = load ?a (nat ?n) (pmem s)"
  define a1 where "a1 = fold_acc (acc + chksum (pmem s) ?a ?n)"
  have n: "0 \<le> ?n" "?n \<le> 131072" "q = Some p" "pchain s (pb_next (pb s p)) ps" "short s ps" using Cons.prems(1,2) by (auto simp: short_def)
  have c: "unat (chksum (pmem s) ?a ?n) = canon (osum ys)" using chksum_canon [of "nat ?n" "pmem s" ?a] n(1,2) by (simp add: ys_def)
  have "unat (acc + chksum (pmem s) ?a ?n) = canon (wsum xs) + canon (osum ys)"
    using Cons.prems(3) c canon_le [of "wsum xs"] canon_le [of "osum ys"] by (simp add: unat_add_no_wrap_u32)
  then have a1: "unat a1 = canon (wsum xs + osum ys)" by (simp add: a1_def fold_acc_canon canon_add)
  define a2 where "a2 = (if odd (length ys) then swap_bytes a1 else a1)"
  have a2: "unat a2 = canon (wsum (xs @ ys))"
    using a1 canon_le [of "wsum xs + osum ys"] by (simp add: a2_def wsum_append swap_canon canon_mult)
  have od: "?n smod 2 \<noteq> 0 \<longleftrightarrow> odd (length ys)" using smod_2 [OF n(1)] by (simp add: ys_def)
  have "chain_sum q acc swapped s = chain_sum (pb_next (pb s p)) a2 (of_bool (odd (length (xs @ ys)))) s"
    using n(3) od Cons.prems(4) by (subst chain_sum.simps) (simp add: Let_def a1_def [symmetric] a2_def)
  then show ?case using Cons.IH [OF n(4,5) a2 refl] by (simp add: ys_def)
qed

lemma final_acc:
  assumes "unat acc = canon (wsum bs)"
  shows "unat (if odd (length bs) then swap_bytes acc else acc) = canon (osum bs)"
proof (cases "odd (length bs)")
  case True
  then show ?thesis using assms canon_le [of "wsum bs"] swap_canon [of acc] by (simp add: wsum_def canon_mult canon_65536)
next
  case False
  then show ?thesis using assms by (simp add: wsum_def)
qed

lemma chain_sum_total:
  assumes "pchain s p ps" "short s ps"
  shows "\<exists>acc swapped. chain_sum p 0 0 s = Some (acc, swapped) \<and> unat (if swapped \<noteq> 0 then swap_bytes acc else acc) = canon (osum (content s ps))"
proof -
  obtain acc where c: "chain_sum p 0 0 s = Some (acc, of_bool (odd (length (content s ps))))" "unat acc = canon (wsum (content s ps))"
    using chain_sum_canon [OF assms, of 0 "[]" 0] by (auto simp: wsum_def)
  have "(of_bool (odd (length (content s ps))) :: int) \<noteq> 0 \<longleftrightarrow> odd (length (content s ps))" by simp
  then show ?thesis using c final_acc [OF c(2)] by auto
qed

text \<open>The result is the complement of the reduced sum.\<close>

lemma complement:
  assumes "unat acc \<le> 65535"
  shows "unat (ucast (NOT (acc AND 0xFFFF) :: u32) :: u16) = 65535 - unat acc"
proof -
  have "(0xFFFF :: u32) = mask 16" by (simp add: mask_eq_exp_minus_1)
  then have "(ucast (NOT (acc AND 0xFFFF) :: u32) :: u16) = NOT (ucast acc)" by (simp only:) (auto simp: bit_eq_iff bit_simps)
  also have "\<dots> = - 1 - ucast acc" by (simp add: not_eq_complement)
  finally have "unat (ucast (NOT (acc AND 0xFFFF) :: u32) :: u16) = unat (- 1 :: u16) - unat (ucast acc :: u16)"
    by (simp add: unat_sub)
  moreover have "unat (ucast acc :: u16) = unat acc" using assms by (simp add: unsigned_ucast_eq take_bit_nat_eq_self_iff)
  moreover have "unat (- 1 :: u16) = 65535" by (simp add: unsigned_minus_1_eq_mask mask_eq_exp_minus_1)
  ultimately show ?thesis by simp
qed

lemma inet_chksum_value: "n \<le> 131072 \<Longrightarrow> unat (inet_chksum m p (int n)) = 65535 - canon (osum (load p n m))"
proof -
  assume "n \<le> 131072"
  then have "unat (fold_acc (chksum m p (int n))) = canon (osum (load p n m))" by (simp add: fold_acc_canon chksum_canon)
  then show ?thesis using complement [of "fold_acc (chksum m p (int n))"] canon_le by (simp add: inet_chksum_def)
qed

lemma inet_chksum_pbuf_value:
  assumes "pchain s p ps" "short s ps"
  shows "\<exists>r. inet_chksum_pbuf p s = Some r \<and> unat r = 65535 - canon (osum (content s ps))"
proof -
  obtain acc swapped where c: "chain_sum p 0 0 s = Some (acc, swapped)" "unat (if swapped \<noteq> 0 then swap_bytes acc else acc) = canon (osum (content s ps))"
    using chain_sum_total [OF assms] by blast
  define a where "a = (if swapped \<noteq> 0 then swap_bytes acc else acc)"
  have "inet_chksum_pbuf p s = Some (ucast (NOT (a AND 0xFFFF)))" by (simp add: inet_chksum_pbuf_def c(1) a_def)
  moreover have "unat a \<le> 65535" "unat a = canon (osum (content s ps))" using c(2) canon_le [of "osum (content s ps)"] by (simp_all only: a_def)
  ultimately show ?thesis using complement [of a] by simp
qed



section \<open>The pseudo header\<close>

text \<open>An address as it lies in memory, and the twelve bytes that TCP and UDP put before a segment.\<close>

definition addr_bytes :: "u32 \<Rightarrow> u8 list" where
  "addr_bytes a = [ucast a, ucast (drop_bit 8 a), ucast (drop_bit 16 a), ucast (drop_bit 24 a)]"

definition pseudo_header :: "u32 \<Rightarrow> u32 \<Rightarrow> u8 \<Rightarrow> u16 \<Rightarrow> u8 list" where
  "pseudo_header src dest proto len = addr_bytes src @ addr_bytes dest @ [0, proto, ucast (drop_bit 8 len), ucast len]"

lemma unat_ucast_char: "unat (ucast w :: u8) = unat w mod 256" for w :: "'a::len word"
  by (simp add: unsigned_ucast_eq take_bit_eq_mod)

lemma pair_split: "k mod 256 + 256 * (k div 256 mod 256) = k mod 65536" for k :: nat
proof -
  have "k mod (256 * 256) = 256 * (k div 256 mod 256) + k mod 256" by (rule mod_mult2_eq)
  then show ?thesis by simp
qed

lemma osum_addr: "osum (addr_bytes a) = unat a mod 65536 + unat a div 65536"
proof -
  have u: "unat (drop_bit 8 a) = unat a div 256" "unat (drop_bit 16 a) = unat a div 65536" "unat (drop_bit 24 a) = unat a div 65536 div 256"
    by (simp_all add: drop_bit_eq_div unat_div flip: div_mult2_eq)
  have "unat a div 65536 < 65536" using less_mult_imp_div_less [of "unat a" 65536 65536] unat_u32_less [of a] by simp
  then have "unat a div 65536 mod 65536 = unat a div 65536" by simp
  then show ?thesis
    using pair_split [of "unat a"] pair_split [of "unat a div 65536"] by (simp only: addr_bytes_def osum.simps unat_ucast_char u add_0_right add.assoc)
qed

lemma htons_unat: "unat (htons n) = 256 * (unat n mod 256) + unat n div 256"
proof -
  have k: "(0xFF :: u16) = mask 8" "(0xFF00 :: u16) = push_bit 8 (mask 8)" by (simp_all add: mask_eq_exp_minus_1 push_bit_eq_mult)
  have "htons n = push_bit 8 (take_bit 8 n) OR take_bit 8 (drop_bit 8 n)" unfolding htons_def k by (auto simp: bit_eq_iff bit_simps)
  also have "\<dots> = push_bit 8 (take_bit 8 n) + take_bit 8 (drop_bit 8 n)" by (rule disjunctive_add [symmetric]) (auto simp: bit_simps)
  finally have e: "htons n = 256 * (n mod 256) + n div 256 mod 256"
    by (simp add: push_bit_eq_mult take_bit_eq_mod drop_bit_eq_div mult.commute)
  have n: "unat n < 65536" using unsigned_less [of n, where 'a = nat] by simp
  have d: "unat n div 256 < 256" using n less_mult_imp_div_less [of "unat n" 256 256] by simp
  have m: "unat n mod 256 < 256" by simp
  have "unat (n div 256 mod 256) = unat n div 256" using d by (simp add: unat_mod unat_div)
  moreover have "unat (256 * (n mod 256)) = 256 * (unat n mod 256)" using m by (simp add: unat_word_ariths unat_mod)
  moreover have "256 * (unat n mod 256) + unat n div 256 < 65536" using d m by linarith
  ultimately show ?thesis unfolding e by (simp add: unat_add_no_wrap)
qed

lemma osum_pseudo:
  "osum (pseudo_header src dest proto len) = unat src mod 65536 + unat src div 65536 + (unat dest mod 65536 + unat dest div 65536) +
     (unat (htons (ucast proto)) + unat (htons len))"
proof -
  have "osum [0, proto, ucast (drop_bit 8 len), ucast len] = unat (htons (ucast proto)) + unat (htons len)"
  proof -
    have "unat len < 65536" using unsigned_less [of len, where 'a = nat] by simp
    then have "unat len div 256 < 256" using less_mult_imp_div_less [of "unat len" 256 256] by simp
    moreover have "unat (drop_bit 8 len) = unat len div 256" by (simp add: drop_bit_eq_div unat_div)
    moreover have "unat (ucast proto :: u16) = unat proto" "unat proto < 256"
      using unsigned_less [of proto, where 'a = nat] by (simp_all add: unsigned_ucast_eq take_bit_nat_eq_self_iff)
    ultimately show ?thesis by (simp add: htons_unat unat_ucast_char)
  qed
  then show ?thesis by (simp add: pseudo_header_def osum_even osum_addr addr_bytes_def [of src, THEN arg_cong, of length] addr_bytes_def [of dest, THEN arg_cong, of length])
qed

lemma sum_no_wrap:
  fixes a b c d e f g :: u32
  assumes "unat a \<le> 65535" "unat b < 65536" "unat c < 65536" "unat d < 65536" "unat e < 65536" "unat f < 65536" "unat g < 65536"
  shows "unat (a + b + c + d + e + f + g) = unat a + unat b + unat c + unat d + unat e + unat f + unat g"
proof -
  have 1: "unat (a + b) = unat a + unat b" using assms by (intro unat_add_no_wrap_u32) linarith
  have 2: "unat (a + b + c) = unat a + unat b + unat c" using assms unat_add_no_wrap_u32 [of "a + b" c] 1 by linarith
  have 3: "unat (a + b + c + d) = unat a + unat b + unat c + unat d" using assms unat_add_no_wrap_u32 [of "a + b + c" d] 2 by linarith
  have 4: "unat (a + b + c + d + e) = unat a + unat b + unat c + unat d + unat e" using assms unat_add_no_wrap_u32 [of "a + b + c + d" e] 3 by linarith
  have 5: "unat (a + b + c + d + e + f) = unat a + unat b + unat c + unat d + unat e + unat f" using assms unat_add_no_wrap_u32 [of "a + b + c + d + e" f] 4 by linarith
  show ?thesis using assms unat_add_no_wrap_u32 [of "a + b + c + d + e + f" g] 5 by linarith
qed

lemma length_pseudo: "length (pseudo_header src dest proto len) = 12"
  by (simp add: pseudo_header_def addr_bytes_def)

lemma inet_chksum_pseudo_value:
  assumes "pchain s p ps" "short s ps"
  shows "\<exists>r. inet_chksum_pseudo p src dest proto len s = Some r \<and> unat r = 65535 - canon (osum (pseudo_header src dest proto len @ content s ps))"
proof -
  obtain acc swapped where c: "chain_sum p 0 0 s = Some (acc, swapped)" "unat (if swapped \<noteq> 0 then swap_bytes acc else acc) = canon (osum (content s ps))"
    using chain_sum_total [OF assms] by blast
  define a where "a = (if swapped \<noteq> 0 then swap_bytes acc else acc)"
  let ?w = "\<lambda>n :: u16. ucast n :: u32"
  define b where "b = a + (src AND 0xFFFF) + (drop_bit 16 src AND 0xFFFF) + (dest AND 0xFFFF) + (drop_bit 16 dest AND 0xFFFF) + ?w (htons (ucast proto)) + ?w (htons len)"
  have a: "unat a = canon (osum (content s ps))" "unat a \<le> 65535" using c(2) canon_le [of "osum (content s ps)"] by (simp_all only: a_def)
  have h: "unat (src AND 0xFFFF) = unat src mod 65536" "unat (drop_bit 16 src AND 0xFFFF) = unat src div 65536" "unat src div 65536 < 65536" for src :: u32
  proof -
    show "unat src div 65536 < 65536" using less_mult_imp_div_less [of "unat src" 65536 65536] unat_u32_less [of src] by simp
    then show "unat (src AND 0xFFFF) = unat src mod 65536" "unat (drop_bit 16 src AND 0xFFFF) = unat src div 65536"
      using unat_halves(1) [of src] unat_halves(1) [of "drop_bit 16 src"] unat_halves(2) [of src] by simp_all
  qed
  have w: "unat (?w n) = unat n" "unat n < 65536" for n :: u16
    using unsigned_less [of n, where 'a = nat] by (simp_all add: unsigned_ucast_eq take_bit_nat_eq_self_iff)
  have b: "unat b = canon (osum (content s ps)) + osum (pseudo_header src dest proto len)"
  proof -
    have m: "unat (src AND 0xFFFF) < 65536" "unat (dest AND 0xFFFF) < 65536" "unat (drop_bit 16 src AND 0xFFFF) < 65536" "unat (drop_bit 16 dest AND 0xFFFF) < 65536"
      using h(1,2) h(3) [of src] h(3) [of dest] by simp_all
    have "unat b = unat a + unat (src AND 0xFFFF) + unat (drop_bit 16 src AND 0xFFFF) + unat (dest AND 0xFFFF) + unat (drop_bit 16 dest AND 0xFFFF) +
        unat (?w (htons (ucast proto))) + unat (?w (htons len))"
      unfolding b_def by (rule sum_no_wrap) (use a(2) m w in simp_all)
    then show ?thesis by (simp only: h(2)) (simp only: osum_pseudo a(1) h(1) w add.assoc)
  qed
  have "unat (fold_acc b) = canon (osum (pseudo_header src dest proto len @ content s ps))"
    using osum_even [of "pseudo_header src dest proto len" "content s ps"]
    by (simp add: length_pseudo fold_acc_canon b canon_add add.commute [of _ "osum (pseudo_header src dest proto len)"])
  moreover have "inet_chksum_pseudo p src dest proto len s = Some (ucast (NOT (fold_acc b AND 0xFFFF)))"
    by (simp add: inet_chksum_pseudo_def c(1) a_def [symmetric] b_def Let_def)
  ultimately show ?thesis using complement [of "fold_acc b"] canon_le by simp
qed


section \<open>Correctness\<close>

text \<open>
  C37. The checksum of a chain is the checksum of its bytes in one block, however they are cut into buffers and
  whatever the lengths of the buffers, and with addresses, protocol and length it is the
  checksum of the pseudo header followed by the bytes.
\<close>

theorem inet_chksum_chain:
  assumes "pchain s p ps" "short s ps" "12 + length (content s ps) \<le> 131072"
    "load a (length (content s ps)) m = content s ps" "load b (12 + length (content s ps)) m = pseudo_header src dest proto len @ content s ps"
  shows "inet_chksum_pbuf p s = Some (inet_chksum m a (int (length (content s ps)))) \<and>
    inet_chksum_pseudo p src dest proto len s = Some (inet_chksum m b (12 + int (length (content s ps))))"
proof
  let ?n = "length (content s ps)"
  have "unat (inet_chksum m a (int ?n)) = 65535 - canon (osum (content s ps))" using inet_chksum_value [of ?n m a] assms(3,4) by simp
  then show "inet_chksum_pbuf p s = Some (inet_chksum m a (int ?n))"
    using inet_chksum_pbuf_value [OF assms(1,2)] by (metis unsigned_word_eqI)
next
  let ?n = "length (content s ps)"
  have "unat (inet_chksum m b (int (12 + ?n))) = 65535 - canon (osum (pseudo_header src dest proto len @ content s ps))"
    using inet_chksum_value [of "12 + ?n" m b] assms(3,5) by simp
  then show "inet_chksum_pseudo p src dest proto len s = Some (inet_chksum m b (12 + int ?n))"
    using inet_chksum_pseudo_value [OF assms(1,2), of src dest proto len] by (metis unsigned_word_eqI of_nat_add of_nat_numeral)
qed

text \<open>
  C38. A block whose checksum was computed with the checksum field zero and then stored in the field, at an even
  offset, has checksum 0: this is the test of the receiver.
\<close>

theorem inet_chksum_verifies:
  assumes "n \<le> 131072" "even k" "k + 1 < n" "m (p + int k) = 0" "m (p + int k + 1) = 0" "c = inet_chksum m p (int n)"
  shows "inet_chksum (store (p + int k) [ucast c, ucast (drop_bit 8 c)] m) p (int n) = 0"
proof -
  let ?m = "store (p + int k) [ucast c, ucast (drop_bit 8 c)] m"
  obtain j where n: "n = k + 2 + j" using assms(3) less_iff_Suc_add [of "k + 1" n] by auto
  have l: "load p n m' = load p k m' @ [m' (p + int k), m' (p + int k + 1)] @ load (p + int k + 2) j m'" for m'
    using load_add [of p k "2 + j" m'] load_add [of "p + int k" 2 j m'] by (simp add: n add.assoc load_Suc numeral_2_eq_2)
  have o: "load p k ?m = load p k m" "load (p + int k + 2) j ?m = load (p + int k + 2) j m" by (rule load_store_out; simp)+
  have v: "?m (p + int k) = ucast c" "?m (p + int k + 1) = ucast (drop_bit 8 c)" by (simp_all add: store_def)
  have s: "osum (load p n m') = osum (load p k m') + (unat (m' (p + int k)) + 256 * unat (m' (p + int k + 1)) + osum (load (p + int k + 2) j m'))" for m'
    unfolding l using osum_even [of "load p k m'"] assms(2) by simp
  have "unat c < 65536" using unsigned_less [of c, where 'a = nat] by simp
  then have "unat (ucast c :: u8) + 256 * unat (ucast (drop_bit 8 c) :: u8) = unat c"
    using pair_split [of "unat c"] by (simp add: unat_ucast_char drop_bit_eq_div unat_div)
  then have sum: "osum (load p n ?m) = osum (load p n m) + unat c" unfolding s o v using assms(4,5) by simp
  have c: "unat c = 65535 - canon (osum (load p n m))" using inet_chksum_value [OF assms(1), of m p] assms(6) by simp
  have "canon (osum (load p n ?m)) = canon (canon (osum (load p n m)) + unat c)" unfolding sum canon_add ..
  also have "canon (osum (load p n m)) + unat c = 65535" using c canon_le [of "osum (load p n m)"] by simp
  finally have "unat (inet_chksum ?m p (int n)) = 0" using inet_chksum_value [OF assms(1), of ?m p] by (simp add: canon_small)
  then show ?thesis by (simp only: unat_eq_zero)
qed

text \<open>A chain of one byte and one of two bytes, and a block of four bytes.\<close>

definition odd_ex :: pstate where
  "odd_ex = used_ex\<lparr>pb := (pb used_ex)(1000 := (pb used_ex 1000)\<lparr>pb_len := 1\<rparr>, 2000 := (pb used_ex 2000)\<lparr>pb_len := 2\<rparr>)\<rparr>"

lemma odd_ex_length: "length (content odd_ex [1000, 2000]) = 3"
  by (simp add: odd_ex_def used_ex_def pbuf_ex_def)

theorem inet_chksum_chain_witness:
  "\<exists>m. inet_chksum_pbuf (Some 1000) odd_ex = Some (inet_chksum m 12 3) \<and> inet_chksum_pseudo (Some 1000) 1 2 6 3 odd_ex = Some (inet_chksum m 0 15)"
proof -
  let ?ph = "pseudo_header 1 2 6 3" let ?c = "content odd_ex [1000, 2000]"
  let ?m = "store 0 (?ph @ ?c) (\<lambda>a. 0)"
  note n = odd_ex_length length_pseudo [of 1 2 6 3]
  have ch: "pchain odd_ex (Some 1000) [1000, 2000]" "short odd_ex [1000, 2000]" by (simp_all add: odd_ex_def used_ex_def pbuf_ex_def short_def)
  have le: "12 + length ?c \<le> 131072" unfolding n(1) by simp
  have b: "load 0 (12 + length ?c) ?m = ?ph @ ?c" using load_store [of 0 "?ph @ ?c" "\<lambda>a. 0"] unfolding length_append n(2) .
  have "load 0 12 ?m @ load (0 + int 12) (length ?c) ?m = ?ph @ ?c" using b unfolding load_add .
  moreover have "length (load 0 12 ?m) = length ?ph" unfolding length_load n(2) ..
  ultimately have a: "load (0 + int 12) (length ?c) ?m = ?c" using append_eq_append_conv [OF disjI1] by blast
  have i: "0 + int 12 = 12" "int 3 = 3" "12 + (3 :: int) = 15" by simp_all
  show ?thesis using inet_chksum_chain [OF ch le a b] unfolding n(1) i by blast
qed

theorem inet_chksum_verifies_witness:
  "inet_chksum (store (10 + int 2) [ucast (inet_chksum (store 10 [1, 2, 0, 0, 7] (\<lambda>a. 0)) 10 (int 5)), ucast (drop_bit 8 (inet_chksum (store 10 [1, 2, 0, 0, 7] (\<lambda>a. 0)) 10 (int 5)))]
     (store 10 [1, 2, 0, 0, 7] (\<lambda>a. 0))) 10 (int 5) = 0"
  by (rule inet_chksum_verifies) (simp_all add: store_def)

end
