(* ===== verification/Spec2Isabelle.thy ===== *)
theory Spec2Isabelle
  imports Rmap Iomux_Laws Mqueue Iovec Deferred_Laws Numconv_Laws Sort_Laws Calendar_Laws Inet_Laws
begin

text \<open>
  A verification library for the core of the krlean operating system, a small Unix-like
  kernel in C for 32-bit PCs, and of its C library. It models the parts on which the rest of
  the kernel is built, as they are written, and proves what they promise.

  \<^bold>\<open>The program.\<close> The kernel (\<^verbatim>\<open>src/src/sys/krnl\<close>) schedules threads by priority, lets them wait for
  objects (events, mutexes, semaphores, timers, threads, files, sockets), names objects by
  handles, multiplexes I/O events for \<^verbatim>\<open>select\<close> and \<^verbatim>\<open>poll\<close>, runs work that interrupt handlers
  defer, and keeps time with a hierarchical timer wheel. The network stack (\<^verbatim>\<open>src/src/sys/net\<close>) keeps
  packets in chains of buffers and protects them with the Internet checksum. Address ranges are given out by
  resource maps (\<^verbatim>\<open>src/src/lib/rmap.c\<close>), which kernel and user space share with the rest of the C
  library (\<^verbatim>\<open>src/src/lib\<close>). The parts interact in one direction: the object manager calls the
  scheduler and the timers, the handle manager calls the object manager, the multiplexer calls
  both, and the dispatcher of the scheduler runs the queue of deferred procedures.

  \<^bold>\<open>The theories.\<close>

  \<^item> \<^verbatim>\<open>Prelude\<close>: C types, error codes and the passage from machine words to numbers. \<^verbatim>\<open>Dll\<close>: doubly linked
    lists and rings over explicit pointers, as the kernel threads them through its structures.

  \<^item> \<^verbatim>\<open>Rmap\<close> (\<^verbatim>\<open>rmap.c\<close>): the resource map is the array of runs with its header entry, and every operation
    works on the array. The lemmas give the effect on the set of free units, for allocation,
    aligned allocation, reservation and release, and that allocations never overlap.

  \<^item> \<^verbatim>\<open>Sched\<close> (\<^verbatim>\<open>sched.c\<close>): thread control blocks, ready queues and the summary word as a record; one
    definition per operation. The invariant \<open>sched_inv\<close> ties queues, summary and thread states
    together; it holds in every state reachable by the step relation \<open>sched_step\<close>, and the
    dispatcher runs the first thread of the highest queue that is not empty. The deferred
    procedure calls are an argument of \<open>dispatch\<close>, which passes their panics on.

  \<^item> \<^verbatim>\<open>Timer\<close> (\<^verbatim>\<open>timer.c\<close>): the timer wheel with its cascades; timers fire at their tick, in order, and
    processing the ticks returns.

  \<^item> \<^verbatim>\<open>Object\<close>, \<^verbatim>\<open>Waiting\<close>, \<^verbatim>\<open>Signal\<close> (\<^verbatim>\<open>object.c\<close>): wait lists, wait blocks and all signal, wait and close operations.
    \<^verbatim>\<open>Waiting\<close> has the invariant \<open>wait_inv\<close> and the locale \<open>serve_loop\<close>, the contract of the loops that
    walk a wait list, which \<^verbatim>\<open>Signal\<close> interprets for events, semaphores and timers. The theorems say
    which threads each operation releases, and that an interrupted wait leaves no wait block and
    no armed timer behind, whether or not the thread had blocked.

  \<^item> \<^verbatim>\<open>Deferred\<close>, \<^verbatim>\<open>Deferred_Laws\<close> (\<^verbatim>\<open>sched.c\<close>): deferred procedure calls, task queues and idle tasks. The locale
    \<open>deferred_queue\<close> is the contract of a queue served in order, interpreted on DPCs and on tasks;
    \<open>dispatch_dpcs\<close> is the dispatcher with the real DPC queue in the place of its argument.

  \<^item> \<^verbatim>\<open>Hndl\<close>, \<^verbatim>\<open>Hndl_Laws\<close> (\<^verbatim>\<open>hndl.c\<close>): the handle table with its free list refines a map from handles to objects;
    an object is closed with its last handle and not before.

  \<^item> \<^verbatim>\<open>Iomux\<close>, \<^verbatim>\<open>Iomux_Laws\<close> (\<^verbatim>\<open>iomux.c\<close>): multiplexers, \<^verbatim>\<open>select\<close> and \<^verbatim>\<open>poll\<close>. The invariant \<open>mux_inv\<close> describes the
    queues of a multiplexer; an event hands ready objects to waiting threads in order.

  \<^item> \<^verbatim>\<open>Mqueue\<close> (\<^verbatim>\<open>queue.c\<close>): a message queue, a ring with two semaphores, refines a list of bounded length.

  \<^item> \<^verbatim>\<open>Iovec\<close> (\<^verbatim>\<open>iovec.c\<close>): scatter/gather lists; which bytes the transfers move, and that what is scattered is gathered again.

  \<^item> \<^verbatim>\<open>Pbuf\<close>, \<^verbatim>\<open>Pbuf_Laws\<close> (\<^verbatim>\<open>pbuf.c\<close>): chains of packet buffers over the pool with its caches. The invariant \<open>pool_ok\<close> says
    which buffers of the pool are in use and that the others are each linked once; allocation, freeing and shortening move
    buffers between the two, and the bytes of a chain (\<open>content\<close>) are kept, cut off or copied.

  \<^item> \<^verbatim>\<open>Inet\<close>, \<^verbatim>\<open>Inet_Laws\<close> (\<^verbatim>\<open>inet.c\<close>): the Internet checksum of memory and of chains, with the pseudo header. It depends on the
    bytes only and not on the cuts between the buffers, and a packet with its checksum filled in is accepted.

  \<^item> \<^verbatim>\<open>Calendar\<close>, \<^verbatim>\<open>Calendar_Laws\<close> (\<^verbatim>\<open>time.c\<close>): broken-down time in 32-bit arithmetic; \<^verbatim>\<open>mktime\<close> normalises any time without changing the
    instant it stands for, and undoes \<^verbatim>\<open>localtime_r\<close>.

  \<^item> \<^verbatim>\<open>Ctype\<close>, \<^verbatim>\<open>Cmem\<close>, \<^verbatim>\<open>Cstring\<close>, \<^verbatim>\<open>Cstring_Laws\<close> (\<^verbatim>\<open>ctype.c\<close>, \<^verbatim>\<open>string.c\<close>): character classes from the table of
    the source, and the string functions over a byte memory.

  \<^item> \<^verbatim>\<open>Numconv\<close>, \<^verbatim>\<open>Numconv_Laws\<close> (\<^verbatim>\<open>strtol.c\<close>, \<^verbatim>\<open>xtoa.c\<close>): number conversion, with the round trip of printing and
    reading and the behaviour at the limits.

  \<^item> \<^verbatim>\<open>Sort\<close>, \<^verbatim>\<open>Sort_Laws\<close> (\<^verbatim>\<open>qsort.c\<close>, \<^verbatim>\<open>bsearch.c\<close>): the in-place quicksort with its explicit stack and binary
    search, correct for every comparison that meets the locale \<open>comparator\<close>.

  \<^bold>\<open>Conventions.\<close> A C structure is a record, and the memory that holds structures of one type is a
  function from addresses (natural numbers) to records; \<^verbatim>\<open>NULL\<close> is \<open>None\<close>. The state of a component
  extends the record of the components below it, so that an operation of the scheduler applies
  to a state of the multiplexer as it is. Error codes are negative integers. Unsigned 16 and 32
  bit fields are machine words; signed arithmetic that can overflow is written with its wrap-around (\<open>i32\<close>). A panic is a value of \<open>kres\<close>, or \<open>None\<close> in the packet buffers. A loop that need not end is a
  \<open>partial_function\<close> with result \<open>None\<close> when it does not end, and \<open>None\<close> also stands for following a null
  pointer; no loop has fuel. That a loop returns is part of the theorems, and where it does not
  return for some states there is a theorem that says so. A call that blocks is split: the
  state that the other threads see, and what the call does when the thread runs again.

  \<^bold>\<open>Parameters.\<close> Code that is called through pointers or lies outside these parts is an argument: the
  comparison of the sort, the handlers of timers, the procedures of drivers, and the operations
  that close and destroy files, sockets and threads. What a theorem needs of an argument is a
  named premise, and a witness below the theorem instantiates it.

  \<^bold>\<open>Faults shown.\<close> Several theorems state what the code does where that is not what it means to do:
  \<^verbatim>\<open>hassign\<close> and \<^verbatim>\<open>pulse_event\<close> can loop forever, a wait that times out returns 0, \<^verbatim>\<open>rmap_status\<close> misjudges a
  range at the end of its run, \<^verbatim>\<open>strtol\<close> saturates in-range negative numbers, \<^verbatim>\<open>poll\<close> follows a null
  pointer for a closed descriptor, and \<^verbatim>\<open>clear_io_event\<close> leaves objects in the wrong queue.

  \<^bold>\<open>Not modelled.\<close> Thread creation, alarms and the \<^verbatim>\<open>/proc\<close> output of the modelled files; virtual memory and the
  allocators above the resource maps; the file systems, the protocols and sockets of the network stack and the buffer
  cache; drivers, traps and start-up, which are about the hardware; the rest of the C library
  (formatted output, file patterns, floating point); user programs, the Win32 libraries
  and the development tools.
\<close>

section \<open>Packets and their checksums\<close>

text \<open>
  C39. Duplicating a packet leaves its bytes, its checksum and its checksum with the pseudo header as they were, although
  the copy is one buffer and the packet is a chain of buffers of any lengths.
\<close>

theorem dup_keeps_checksum:
  fixes s :: "'z pstate_scheme"
  assumes km: "kmalloc (of_int (24 + chain_len s ps + offset)) s = (Some q, s1)" "\<And>b. b \<noteq> q \<Longrightarrow> pb s1 b = pb s b" "pmem s1 = pmem s"
    and fresh: "q \<notin> set ps" "\<forall>x \<in> set ps. pb_payload (pb s x) + pb_len (pb s x) \<le> data_start q + offset \<or> data_start q + offset + chain_len s ps \<le> pb_payload (pb s x)"
    and chain: "pchain s (Some p) ps" "short s ps" "chain_len s ps \<le> 131072" "pb_tot_len (pb s p) = chain_len s ps" "layer_offset layer = Some offset"
  shows "\<exists>s'. pbuf_dup kmalloc layer p s = Some (Some q, s') \<and> pchain s' (Some q) [q] \<and> content s' [q] = content s ps \<and>
    inet_chksum_pbuf (Some q) s' = inet_chksum_pbuf (Some p) s \<and>
    inet_chksum_pseudo (Some q) src dest proto len s' = inet_chksum_pseudo (Some p) src dest proto len s"
proof -
  have ok: "len_ok s ps" using chain(2) by (auto simp: short_def len_ok_def)
  obtain s' where d: "pbuf_dup kmalloc layer p s = Some (Some q, s')" "pchain s' (Some q) [q]" "content s' [q] = content s ps" "pb_len (pb s' q) = chain_len s ps"
    using pbuf_dup_copies [of kmalloc s ps offset q s1 p layer, OF km fresh chain(1) ok chain(4,5)] by blast
  have sh: "short s' [q]" using d(4) chain(3) chain_len_nonneg [OF ok] by (simp add: short_def)
  have "inet_chksum_pbuf (Some q) s' = inet_chksum_pbuf (Some p) s"
    using inet_chksum_pbuf_value [OF d(2) sh] inet_chksum_pbuf_value [OF chain(1,2)] unfolding d(3) by (metis unsigned_word_eqI)
  moreover have "inet_chksum_pseudo (Some q) src dest proto len s' = inet_chksum_pseudo (Some p) src dest proto len s"
    using inet_chksum_pseudo_value [OF d(2) sh, of src dest proto len] inet_chksum_pseudo_value [OF chain(1,2), of src dest proto len]
    unfolding d(3) by (metis unsigned_word_eqI)
  ultimately show ?thesis using d by blast
qed

theorem dup_keeps_checksum_witness:
  "\<exists>s'. pbuf_dup (\<lambda>n s. (Some 5000, s)) PBUF_RAW 1000 used_ex = Some (Some 5000, s') \<and> content s' [5000] = content used_ex [1000, 2000] \<and>
     inet_chksum_pbuf (Some 5000) s' = inet_chksum_pbuf (Some 1000) used_ex"
proof -
  have "layer_offset PBUF_RAW = Some 0" by (simp add: layer_offset_def PBUF_TRANSPORT_def PBUF_IP_def PBUF_LINK_def PBUF_RAW_def)
  moreover have "\<forall>x \<in> set [1000, 2000]. pb_payload (pb used_ex x) + pb_len (pb used_ex x) \<le> data_start 5000 + 0 \<or>
      data_start 5000 + 0 + chain_len used_ex [1000, 2000] \<le> pb_payload (pb used_ex x)"
    by (simp add: used_ex_def pbuf_ex_def data_start_def)
  moreover have "short used_ex [1000, 2000]" by (simp add: short_def used_ex_def pbuf_ex_def)
  ultimately show ?thesis
    using dup_keeps_checksum [of "\<lambda>n s. (Some 5000, s)" used_ex "[1000, 2000]" 0 5000 used_ex 1000 PBUF_RAW] used_ex_ok(2,4,6) by fastforce
qed

end
